(* ===== verification/Prelude.thy ===== *)
theory Prelude
  imports Main "HOL-Library.Word"
begin

unbundle bit_operations_syntax

text \<open>
  Shared ground of the development: the C integer types at their width, page arithmetic on
  64-bit words, the conversion of C comparison results, and the collections of simplification
  rules that the component theories fill.

  A C function that may not return (a panic loop \<^verbatim>\<open>while (1);\<close>, a \<^verbatim>\<open>hlt\<close> loop, a search loop
  that never meets its exit) is a function into \<open>'a option\<close>: \<open>None\<close> means that control never
  comes back, \<open>Some\<close> carries the result and the state after the call. Pointers are 64-bit
  words and \<open>0\<close> is \<^verbatim>\<open>NULL\<close>.
\<close>

named_theorems page_arith \<open>arithmetic of page numbers, page offsets and alignment\<close>
named_theorems frame_simps \<open>what an operation leaves untouched\<close>

type_synonym u8 = "8 word"
type_synonym u16 = "16 word"
type_synonym u32 = "32 word"
type_synonym u64 = "64 word"

subsection \<open>Words as numbers\<close>

lemma word_less_Suc_unat: "(x :: 'a::len word) < y \<Longrightarrow> unat (x + 1) = Suc (unat x)"
  by unat_arith

lemma unat_of_nat_small: "n < 2 ^ LENGTH('a) \<Longrightarrow> unat (word_of_nat n :: 'a::len word) = n"
  by (simp add: unat_of_nat)

lemma unat_bound: "unat (x :: 'a::len word) < 2 ^ LENGTH('a)"
  by (rule unsigned_less)

lemma word_of_nat_below_iff:
  "n < 2 ^ LENGTH('a) \<Longrightarrow> (word_of_nat n < (x :: 'a::len word)) = (n < unat x)"
  by (simp add: unat_of_nat_small word_less_nat_alt)

lemma card_words_below: "card {p :: 'a::len word. p < n} = unat n"
proof -
  have "{p :: 'a word. p < n} = word_of_nat ` {..<unat n}"
  proof (rule set_eqI, rule iffI)
    fix p :: "'a word"
    assume "p \<in> {p. p < n}"
    then have "p = word_of_nat (unat p)" and "unat p < unat n"
      by (simp_all add: word_less_nat_alt)
    then show "p \<in> word_of_nat ` {..<unat n}" by blast
  next
    fix p :: "'a word"
    assume "p \<in> word_of_nat ` {..<unat n}"
    then obtain k where "k < unat n" and "p = word_of_nat k" by auto
    moreover from \<open>k < unat n\<close> have "k < 2 ^ LENGTH('a)"
      using unat_bound [of n] by (rule less_trans)
    ultimately show "p \<in> {p. p < n}"
      by (simp add: word_of_nat_below_iff)
  qed
  moreover have "inj_on (word_of_nat :: nat \<Rightarrow> 'a word) {..<unat n}"
  proof (rule inj_onI)
    fix x y
    assume "x \<in> {..<unat n}" and "y \<in> {..<unat n}" and eq: "word_of_nat x = (word_of_nat y :: 'a word)"
    then have "x < 2 ^ LENGTH('a)" and "y < 2 ^ LENGTH('a)"
      using unat_bound [of n] by (auto intro: less_trans)
    with arg_cong [OF eq, of unat] show "x = y"
      by (simp add: unat_of_nat_small)
  qed
  ultimately show ?thesis
    by (simp add: card_image)
qed

subsection \<open>Splitting a word into its high and low bits\<close>

lemma word_split_eq:
  "drop_bit n x = drop_bit n y \<Longrightarrow> take_bit n x = take_bit n y \<Longrightarrow> x = (y :: 'a::len word)"
  by (metis bits_ident)

lemma take_bit_small: "unat (x :: 'a::len word) < 2 ^ n \<Longrightarrow> take_bit n x = x"
  by (simp add: word_unat_eq_iff unsigned_take_bit_eq take_bit_nat_eq_self)

lemma and_7_take_bit: "x AND 7 = take_bit 3 (x :: 'a::len word)"
proof -
  have "(7 :: 'a word) = mask 3" by (simp add: mask_eq_exp_minus_1)
  then show ?thesis by (simp add: take_bit_eq_mask)
qed

subsection \<open>Page arithmetic\<close>

abbreviation (input) PAGE_SIZE :: u64 where "PAGE_SIZE \<equiv> 4096"

definition align_up :: "u64 \<Rightarrow> u64 \<Rightarrow> u64" where
  "align_up value alignment = (value + alignment - 1) AND NOT (alignment - 1)"

definition align_down :: "u64 \<Rightarrow> u64 \<Rightarrow> u64" where
  "align_down value alignment = value AND NOT (alignment - 1)"

definition ALIGN_UP :: "u64 \<Rightarrow> u64 \<Rightarrow> u64" where
  "ALIGN_UP x a = (x + (a - 1)) AND NOT (a - 1)"

lemma and_not_mask: "x AND NOT (mask n) = push_bit n (drop_bit n (x :: 'a::len word))"
  by (rule bit_word_eqI) (auto simp: bit_simps)

lemma unat_and_not_mask: "unat (x AND NOT (mask n)) = unat x div 2 ^ n * 2 ^ n"
  for x :: "'a::len word"
proof -
  have "x AND NOT (mask n) = x - take_bit n x"
    by (metis add_diff_cancel_right' and_not_mask bits_ident)
  moreover have "take_bit n x \<le> x"
    by (metis word_and_le1 take_bit_eq_mask word_and_le2)
  ultimately have "unat (x AND NOT (mask n)) = unat x - unat (take_bit n x)"
    by (simp add: unat_sub)
  also have "unat (take_bit n x) = unat x mod 2 ^ n"
    by (simp add: unsigned_take_bit_eq flip: take_bit_eq_mod)
  finally show ?thesis
    by (simp add: minus_mod_eq_div_mult)
qed

lemma page_mask: "(4095 :: u64) = mask 12" and para_mask: "(15 :: u64) = mask 4"
  by (simp_all add: mask_eq_exp_minus_1)

lemma unat_align_down_page [page_arith]: "unat (align_down x 4096) = unat x div 4096 * 4096"
  using unat_and_not_mask [of x 12] by (simp add: align_down_def page_mask)

lemma align_up_ALIGN_UP: "align_up x a = ALIGN_UP x a"
  by (simp add: align_up_def ALIGN_UP_def algebra_simps)

lemma unat_ALIGN_UP_page [page_arith]:
  assumes "unat x + 4095 < 2 ^ 64"
  shows "unat (ALIGN_UP x 4096) = (unat x + 4095) div 4096 * 4096"
proof -
  have "unat (x + 4095) = unat x + 4095"
    using assms by (simp add: unat_word_ariths)
  then show ?thesis
    using unat_and_not_mask [of "x + 4095" 12] by (simp add: ALIGN_UP_def page_mask)
qed

lemma unat_ALIGN_UP_16 [page_arith]:
  assumes "unat x + 15 < 2 ^ 64"
  shows "unat (ALIGN_UP x 16) = (unat x + 15) div 16 * 16"
proof -
  have "unat (x + 15) = unat x + 15"
    using assms by (simp add: unat_word_ariths)
  then show ?thesis
    using unat_and_not_mask [of "x + 15" 4] by (simp add: ALIGN_UP_def para_mask)
qed

lemmas unat_align_up_page [page_arith] = unat_ALIGN_UP_page [folded align_up_ALIGN_UP]


lemma aligned_round_up:
  assumes "a mod 4096 = (0 :: nat)"
  shows "(a + 4095) div 4096 = a div 4096" and "(a + 4095) div 4096 * 4096 = a"
proof -
  obtain k where "a = 4096 * k" using assms by blast
  then show "(a + 4095) div 4096 = a div 4096" and "(a + 4095) div 4096 * 4096 = a" by simp_all
qed

lemma page_range_iff:
  assumes "a mod 4096 = (0 :: nat)"
  shows "a div 4096 \<le> p \<and> p < b div 4096 \<longleftrightarrow> a \<le> p * 4096 \<and> (p + 1) * 4096 \<le> b"
proof -
  obtain k where "a = 4096 * k" using assms by blast
  moreover have "p < b div 4096 \<longleftrightarrow> (p + 1) * 4096 \<le> b"
    using less_eq_div_iff_mult_less_eq [of 4096 "Suc p" b] by (simp add: Suc_le_eq)
  ultimately show ?thesis by auto
qed

subsection \<open>Signed sums\<close>

text \<open>
  The user programs compute with \<^verbatim>\<open>int\<close>, modelled by integers: a result that does not fit 32 bits is
  undefined in C and has the value \<open>None\<close>.
\<close>

definition int32 :: "int \<Rightarrow> int option" where
  "int32 i = (if - 0x80000000 \<le> i \<and> i < 0x80000000 then Some i else None)"

lemma int32_Some: "- 0x80000000 \<le> i \<Longrightarrow> i < 0x80000000 \<Longrightarrow> int32 i = Some i"
  by (simp add: int32_def)

lemma int32_nonneg: "0 \<le> i \<Longrightarrow> i \<le> j \<Longrightarrow> j < 0x80000000 \<Longrightarrow> int32 i = Some i"
  by (simp add: int32_def)

lemma int32_eq_Some: "int32 i = Some j \<longleftrightarrow> j = i \<and> - 0x80000000 \<le> i \<and> i < 0x80000000"
  by (auto simp: int32_def)

end
