(* ===== verification/Pmm.thy ===== *)
theory Pmm
  imports Prelude "HOL-Library.Monad_Syntax"
begin

unbundle bit_operations_syntax

text \<open>
  The physical memory manager, \<^verbatim>\<open>src/src/memory/pmm.c\<close>: a bitmap with one bit per page frame
  (1 = used), a next-fit search for one page, a first-fit search for a run of pages, and the
  initialisation from the Limine memory map.

  The bitmap lives in RAM: \<open>ram\<close> is the byte store seen through the higher-half direct map and
  \<open>pmm_bitmap\<close> the address of the bitmap's first byte, so an access to a bit beyond the bitmap
  touches the bytes that follow it, as in C. Log output on the serial port is not part of the
  state.
\<close>

subsection \<open>State\<close>

record pmm_state =
  pmm_bitmap :: u64
  pmm_bitmap_phys :: u64
  total_pages :: u64
  used_pages :: u64
  bitmap_size_bytes :: u64
  bitmap_size_pages :: u64
  limine_hhdm :: u64
  last_search_pos :: u64
  ram :: "u64 \<Rightarrow> u8"

text \<open>The parts of the boot protocol that \<^verbatim>\<open>pmm_init\<close> reads.\<close>

record memmap_entry =
  entry_base :: u64
  entry_length :: u64
  entry_type :: u64

abbreviation (input) LIMINE_MEMMAP_USABLE :: u64 where "LIMINE_MEMMAP_USABLE \<equiv> 0"

subsection \<open>Bitmap primitives\<close>

definition bit_mask :: "u64 \<Rightarrow> u8" where
  "bit_mask b = ucast (push_bit (unat (b AND 7)) 1 :: u32)"

definition bitmap_byte :: "pmm_state \<Rightarrow> u64 \<Rightarrow> u64" where
  "bitmap_byte s b = pmm_bitmap s + drop_bit 3 b"

definition bitmap_set :: "u64 \<Rightarrow> pmm_state \<Rightarrow> pmm_state" where
  "bitmap_set b s = s\<lparr>ram := (ram s)(bitmap_byte s b := ram s (bitmap_byte s b) OR bit_mask b)\<rparr>"

definition bitmap_clear :: "u64 \<Rightarrow> pmm_state \<Rightarrow> pmm_state" where
  "bitmap_clear b s = s\<lparr>ram := (ram s)(bitmap_byte s b := ram s (bitmap_byte s b) AND NOT (bit_mask b))\<rparr>"

definition bitmap_test :: "u64 \<Rightarrow> pmm_state \<Rightarrow> bool" where
  "bitmap_test b s \<longleftrightarrow> ram s (bitmap_byte s b) AND bit_mask b \<noteq> 0"

subsection \<open>Allocation\<close>

text \<open>
  The \<^verbatim>\<open>do ... while\<close> search of \<^verbatim>\<open>pmm_alloc_page\<close>. It ends when the position comes back to
  \<open>start_pos\<close>; that it does is a theorem, so the loop is a partial function.
\<close>

partial_function (option) alloc_page_loop :: "u64 \<Rightarrow> pmm_state \<Rightarrow> (u64 \<times> pmm_state) option" where
  "alloc_page_loop start_pos s =
     (if \<not> bitmap_test (last_search_pos s) s
      then Some (last_search_pos s * PAGE_SIZE + limine_hhdm s,
                 (bitmap_set (last_search_pos s) s)\<lparr>used_pages := used_pages s + 1\<rparr>)
      else let s' = s\<lparr>last_search_pos := (last_search_pos s + 1) mod total_pages s\<rparr>
           in if last_search_pos s' \<noteq> start_pos then alloc_page_loop start_pos s' else Some (0, s'))"

definition pmm_alloc_page :: "pmm_state \<Rightarrow> (u64 \<times> pmm_state) option" where
  "pmm_alloc_page s =
     (if used_pages s \<ge> total_pages s then Some (0, s)
      else alloc_page_loop (last_search_pos s) s)"

definition pmm_free_page :: "u64 \<Rightarrow> pmm_state \<Rightarrow> pmm_state" where
  "pmm_free_page addr s =
     (let phys = addr - limine_hhdm s; page = phys div PAGE_SIZE
      in if \<not> bitmap_test page s then s
         else (bitmap_clear page s)\<lparr>used_pages := used_pages s - 1\<rparr>)"

text \<open>
  \<open>mark_run\<close> is the inner loop that sets the bits of the run, \<open>alloc_pages_loop\<close> the scan; its
  first argument counts the iterations left, \<open>i\<close> is the loop variable.
\<close>

fun mark_run :: "nat \<Rightarrow> u64 \<Rightarrow> pmm_state \<Rightarrow> pmm_state" where
  "mark_run 0 page s = s"
| "mark_run (Suc n) page s = mark_run n (page + 1) (bitmap_set page s)"

fun alloc_pages_loop :: "nat \<Rightarrow> u64 \<Rightarrow> u64 \<Rightarrow> u64 \<Rightarrow> u64 \<Rightarrow> pmm_state \<Rightarrow> u64 \<times> pmm_state" where
  "alloc_pages_loop 0 i consecutive start_page count s = (0, s)"
| "alloc_pages_loop (Suc n) i consecutive start_page count s =
     (if \<not> bitmap_test i s then
        let start_page = (if consecutive = 0 then i else start_page);
            consecutive = consecutive + 1
        in if consecutive = count
           then (start_page * PAGE_SIZE + limine_hhdm s,
                 (mark_run (unat count) start_page s)\<lparr>used_pages := used_pages s + count\<rparr>)
           else alloc_pages_loop n (i + 1) consecutive start_page count s
      else alloc_pages_loop n (i + 1) 0 start_page count s)"

definition pmm_alloc_pages :: "u64 \<Rightarrow> pmm_state \<Rightarrow> u64 \<times> pmm_state" where
  "pmm_alloc_pages count s =
     (if count = 0 \<or> used_pages s + count > total_pages s then (0, s)
      else alloc_pages_loop (unat (total_pages s)) 0 0 0 count s)"

definition free_one :: "u64 \<Rightarrow> pmm_state \<Rightarrow> pmm_state" where
  "free_one page s =
     (if bitmap_test page s then (bitmap_clear page s)\<lparr>used_pages := used_pages s - 1\<rparr> else s)"

fun free_run :: "nat \<Rightarrow> u64 \<Rightarrow> pmm_state \<Rightarrow> pmm_state" where
  "free_run 0 page s = s"
| "free_run (Suc n) page s = free_run n (page + 1) (free_one page s)"

definition pmm_free_pages :: "u64 \<Rightarrow> u64 \<Rightarrow> pmm_state \<Rightarrow> pmm_state" where
  "pmm_free_pages addr count s =
     (if count = 0 then s
      else free_run (unat count) ((addr - limine_hhdm s) div PAGE_SIZE) s)"

subsection \<open>Initialisation\<close>

definition count_total_pages :: "memmap_entry list \<Rightarrow> pmm_state \<Rightarrow> pmm_state" where
  "count_total_pages memmap s =
     (let total = fold (\<lambda>e n. if entry_type e = LIMINE_MEMMAP_USABLE
                              then n + entry_length e div PAGE_SIZE else n) memmap 0;
          bytes = (total + 8 - 1) div 8
      in s\<lparr>total_pages := total, bitmap_size_bytes := bytes,
           bitmap_size_pages := align_up bytes PAGE_SIZE div PAGE_SIZE\<rparr>)"

text \<open>\<open>None\<close> is the panic loop when no entry can hold the bitmap.\<close>

fun place_bitmap :: "memmap_entry list \<Rightarrow> pmm_state \<Rightarrow> pmm_state option" where
  "place_bitmap [] s = None"
| "place_bitmap (e # es) s =
     (if entry_type e = LIMINE_MEMMAP_USABLE \<and> entry_length e \<ge> bitmap_size_pages s * PAGE_SIZE
      then Some (s\<lparr>pmm_bitmap_phys := align_up (entry_base e) PAGE_SIZE,
                   pmm_bitmap := align_up (entry_base e) PAGE_SIZE + limine_hhdm s\<rparr>)
      else place_bitmap es s)"

definition free_entry :: "memmap_entry \<Rightarrow> pmm_state \<Rightarrow> pmm_state" where
  "free_entry e s =
     (if entry_type e \<noteq> LIMINE_MEMMAP_USABLE then s
      else let start_page = align_up (entry_base e) PAGE_SIZE div PAGE_SIZE;
               end_page = align_down (entry_base e + entry_length e) PAGE_SIZE div PAGE_SIZE
           in if start_page \<ge> end_page then s
              else free_run (unat end_page - unat start_page) start_page s)"

definition free_usable_pages :: "memmap_entry list \<Rightarrow> pmm_state \<Rightarrow> pmm_state" where
  "free_usable_pages memmap s = fold free_entry memmap s"

definition lock_one :: "u64 \<Rightarrow> pmm_state \<Rightarrow> pmm_state" where
  "lock_one page s =
     (if \<not> bitmap_test page s then (bitmap_set page s)\<lparr>used_pages := used_pages s + 1\<rparr> else s)"

fun lock_run :: "nat \<Rightarrow> u64 \<Rightarrow> pmm_state \<Rightarrow> pmm_state" where
  "lock_run 0 page s = s"
| "lock_run (Suc n) page s = lock_run n (page + 1) (lock_one page s)"

definition lock_pages_range :: "u64 \<Rightarrow> u64 \<Rightarrow> pmm_state \<Rightarrow> pmm_state" where
  "lock_pages_range start_phys end_phys s =
     (let start_page = align_up start_phys PAGE_SIZE div PAGE_SIZE;
          end_page = align_down end_phys PAGE_SIZE div PAGE_SIZE
      in if start_page \<ge> end_page then s
         else lock_run (unat end_page - unat start_page) start_page s)"

text \<open>The kernel's size is the difference of two linker symbols, given by \<open>kernel_size\<close>.\<close>

definition lock_kernel_pages :: "u64 \<Rightarrow> u64 \<Rightarrow> pmm_state \<Rightarrow> pmm_state" where
  "lock_kernel_pages physical_base kernel_size s =
     lock_pages_range physical_base (physical_base + kernel_size) s"

definition lock_bitmap_pages :: "pmm_state \<Rightarrow> pmm_state" where
  "lock_bitmap_pages s =
     lock_pages_range (pmm_bitmap_phys s) (pmm_bitmap_phys s + bitmap_size_pages s * PAGE_SIZE) s"

text \<open>The \<^verbatim>\<open>memset (pmm_bitmap, 0xFF, bitmap_size_bytes)\<close> of \<^verbatim>\<open>pmm_init\<close>.\<close>

fun fill_bitmap :: "nat \<Rightarrow> u64 \<Rightarrow> (u64 \<Rightarrow> u8) \<Rightarrow> u64 \<Rightarrow> u8" where
  "fill_bitmap 0 a m = m"
| "fill_bitmap (Suc n) a m = fill_bitmap n (a + 1) (m(a := 255))"

definition pmm_init :: "memmap_entry list \<Rightarrow> u64 \<Rightarrow> u64 \<Rightarrow> u64 \<Rightarrow> pmm_state \<Rightarrow> pmm_state option" where
  "pmm_init memmap physical_base kernel_size hhdm s0 =
     do {
       s1 \<leftarrow> place_bitmap memmap (count_total_pages memmap (s0\<lparr>limine_hhdm := hhdm\<rparr>));
       let s2 = s1\<lparr>ram := fill_bitmap (unat (bitmap_size_bytes s1)) (pmm_bitmap s1) (ram s1),
                   used_pages := total_pages s1\<rparr>;
       Some (lock_bitmap_pages
              (lock_kernel_pages physical_base kernel_size (free_usable_pages memmap s2)))
     }"

subsection \<open>The bitmap as a predicate\<close>

text \<open>\<open>page_used s p\<close>: bit \<open>p\<close> of the bitmap is set.\<close>

definition page_used :: "pmm_state \<Rightarrow> u64 \<Rightarrow> bool" where
  "page_used s p \<longleftrightarrow> bit (ram s (bitmap_byte s p)) (unat (p AND 7))"

lemma unat_and_7: "unat (p AND (7 :: u64)) < 8"
proof -
  have "unat (p AND 7) \<le> unat (7 :: u64)"
    by (rule word_and_le1 [THEN word_le_nat_alt [THEN iffD1]])
  then show ?thesis by simp
qed

lemma bit_bit_mask: "bit (bit_mask p) n \<longleftrightarrow> n = unat (p AND 7)"
  using unat_and_7 [of p]
  by (auto simp: bit_mask_def bit_simps)

lemma bit_mask_exp: "bit_mask p = 2 ^ unat (p AND 7)"
  using unat_and_7 [of p]
  by (intro bit_word_eqI) (simp add: bit_bit_mask bit_exp_iff, linarith?)

lemma bitmap_test_page_used [simp]: "bitmap_test p s \<longleftrightarrow> page_used s p"
  by (simp add: bitmap_test_def page_used_def bit_mask_exp and_exp_eq_0_iff_not_bit)

lemma bit_position_inj: "drop_bit 3 p = drop_bit 3 q \<Longrightarrow> unat (p AND 7) = unat (q AND 7) \<Longrightarrow> p = (q :: u64)"
  by (rule word_split_eq [of 3]) (simp_all add: and_7_take_bit word_unat_eq_iff)

lemma page_used_bitmap_set [simp]: "page_used (bitmap_set q s) p \<longleftrightarrow> p = q \<or> page_used s p"
  by (auto simp: page_used_def bitmap_set_def bitmap_byte_def bit_simps bit_bit_mask
      dest: bit_position_inj)

lemma page_used_bitmap_clear [simp]: "page_used (bitmap_clear q s) p \<longleftrightarrow> p \<noteq> q \<and> page_used s p"
  using unat_and_7 [of p]
  by (auto simp: page_used_def bitmap_clear_def bitmap_byte_def bit_simps bit_bit_mask
      dest: bit_position_inj)

lemma page_used_update [simp]:
  "page_used (s\<lparr>used_pages := n\<rparr>) = page_used s"
  "page_used (s\<lparr>last_search_pos := n\<rparr>) = page_used s"
  by (simp_all add: page_used_def bitmap_byte_def fun_eq_iff)


lemma bitmap_op_frame [simp, frame_simps]:
  "total_pages (bitmap_set p s) = total_pages s" "total_pages (bitmap_clear p s) = total_pages s"
  "used_pages (bitmap_set p s) = used_pages s" "used_pages (bitmap_clear p s) = used_pages s"
  "limine_hhdm (bitmap_set p s) = limine_hhdm s" "limine_hhdm (bitmap_clear p s) = limine_hhdm s"
  "last_search_pos (bitmap_set p s) = last_search_pos s"
  "last_search_pos (bitmap_clear p s) = last_search_pos s"
  by (simp_all add: bitmap_set_def bitmap_clear_def)

lemma bitmap_set_last_search_pos [simp]:
  "bitmap_set p (s\<lparr>last_search_pos := q\<rparr>) = (bitmap_set p s)\<lparr>last_search_pos := q\<rparr>"
  by (simp add: bitmap_set_def bitmap_byte_def)

subsection \<open>The invariant\<close>

text \<open>
  \<open>used_set\<close> are the managed pages whose bit is set. The counter agrees with it, and the
  next-fit position is a managed page.
\<close>

definition used_set :: "pmm_state \<Rightarrow> u64 set" where
  "used_set s = {p. p < total_pages s \<and> page_used s p}"

definition pmm_inv :: "pmm_state \<Rightarrow> bool" where
  "pmm_inv s \<longleftrightarrow> unat (used_pages s) = card (used_set s)
     \<and> (total_pages s \<noteq> 0 \<longrightarrow> last_search_pos s < total_pages s)"

lemma used_set_subset: "used_set s \<subseteq> {p. p < total_pages s}"
  by (auto simp: used_set_def)

lemma finite_used_set [simp]: "finite (used_set s)"
  by simp

lemma card_used_set_le: "card (used_set s) \<le> unat (total_pages s)"
  using card_mono [OF finite used_set_subset [of s]] by (simp add: card_words_below)

lemma free_page_exists:
  assumes "pmm_inv s" and "used_pages s < total_pages s"
  shows "\<exists>p < total_pages s. \<not> page_used s p"
proof (rule ccontr)
  assume "\<not> ?thesis"
  then have "used_set s = {p. p < total_pages s}"
    by (auto simp: used_set_def)
  then have "card (used_set s) = unat (total_pages s)"
    by (simp add: card_words_below)
  with assms show False
    by (simp add: pmm_inv_def word_less_nat_alt)
qed

lemma used_set_simps [simp]:
  "used_set (s\<lparr>used_pages := n\<rparr>) = used_set s"
  "used_set (s\<lparr>last_search_pos := n\<rparr>) = used_set s"
  "p < total_pages s \<Longrightarrow> used_set (bitmap_set p s) = insert p (used_set s)"
  "used_set (bitmap_clear p s) = used_set s - {p}"
  by (auto simp: used_set_def)

text \<open>Setting a free managed bit and counting it keeps the invariant; so does the reverse.\<close>

lemma pmm_inv_take:
  assumes inv: "pmm_inv s" and p: "p < total_pages s" "\<not> page_used s p" and q: "q < total_pages s"
  shows "pmm_inv ((bitmap_set p s)\<lparr>last_search_pos := q, used_pages := used_pages s + 1\<rparr>)"
proof -
  have "p \<notin> used_set s" using p by (simp add: used_set_def)
  then have c: "card (insert p (used_set s)) = Suc (card (used_set s))" by simp
  have "insert p (used_set s) \<subseteq> {p. p < total_pages s}" using p by (auto simp: used_set_def)
  then have "card (insert p (used_set s)) \<le> unat (total_pages s)"
    using card_mono [OF finite, of "insert p (used_set s)" "{p. p < total_pages s}"]
    by (simp add: card_words_below)
  with inv c have "used_pages s < total_pages s"
    by (simp add: pmm_inv_def word_less_nat_alt)
  with inv c p q show ?thesis
    by (auto simp: pmm_inv_def word_less_Suc_unat)
qed

lemma lock_one_inv: "pmm_inv s \<Longrightarrow> p < total_pages s \<Longrightarrow> pmm_inv (lock_one p s)"
  using pmm_inv_take [of s p "last_search_pos s"]
  by (auto simp: lock_one_def pmm_inv_def)

lemma free_one_inv:
  assumes inv: "pmm_inv s" and p: "p < total_pages s"
  shows "pmm_inv (free_one p s)"
proof (cases "page_used s p")
  case True
  with p have mem: "p \<in> used_set s" by (simp add: used_set_def)
  then have pos: "0 < card (used_set s)" by (auto simp: card_gt_0_iff)
  with inv have "used_pages s \<noteq> 0" and "unat (used_pages s) = card (used_set s)"
    by (auto simp: pmm_inv_def)
  then have "unat (used_pages s - 1) = card (used_set s) - 1"
    by (simp add: unat_minus_one)
  with inv mem True show ?thesis
    by (auto simp: free_one_def pmm_inv_def)
qed (simp add: free_one_def inv)


subsection \<open>Single-page allocation\<close>

text \<open>The \<open>k\<close>-th position the search visits.\<close>

definition cyc :: "pmm_state \<Rightarrow> nat \<Rightarrow> u64" where
  "cyc s k = word_of_nat ((unat (last_search_pos s) + k) mod unat (total_pages s))"

lemma unat_cyc:
  assumes "0 < total_pages s"
  shows "unat (cyc s k) = (unat (last_search_pos s) + k) mod unat (total_pages s)"
proof -
  have "(unat (last_search_pos s) + k) mod unat (total_pages s) < unat (total_pages s)"
    using assms by (simp add: word_less_nat_alt)
  also have "\<dots> < 2 ^ LENGTH(64)" by (rule unat_bound)
  finally show ?thesis
    unfolding cyc_def by (rule unat_of_nat_small)
qed

lemma cyc_less: "0 < total_pages s \<Longrightarrow> cyc s k < total_pages s"
  by (simp add: word_less_nat_alt unat_cyc)

lemma cyc_0: "last_search_pos s < total_pages s \<Longrightarrow> cyc s 0 = last_search_pos s"
  by (simp add: cyc_def word_less_nat_alt)

lemma unat_next:
  assumes "p < (n :: u64)"
  shows "unat ((p + 1) mod n) = (unat p + 1) mod unat n"
  using word_less_Suc_unat [OF assms] by (simp add: unat_mod)

lemma cyc_next:
  assumes "last_search_pos s < total_pages s"
  shows "cyc (s\<lparr>last_search_pos := (last_search_pos s + 1) mod total_pages s\<rparr>) k = cyc s (Suc k)"
  using assms by (simp add: cyc_def unat_next mod_add_left_eq)

lemma cyc_ne_start:
  assumes "last_search_pos s < total_pages s" and "0 < j" and "j < unat (total_pages s)"
  shows "cyc s j \<noteq> last_search_pos s"
proof
  assume eq: "cyc s j = last_search_pos s"
  let ?l = "unat (last_search_pos s)" and ?n = "unat (total_pages s)"
  have l: "?l < ?n" using assms(1) by (simp add: word_less_nat_alt)
  from assms(1) have "0 < total_pages s" by (meson word_gt_0_no le_less_trans word_zero_le)
  with eq have "(?l + j) mod ?n = ?l" by (metis unat_cyc)
  with l assms(2,3) show False
    by (cases "?l + j < ?n") (simp_all add: mod_if split: if_splits)
qed

lemma alloc_page_loop_finds:
  assumes "last_search_pos s < total_pages s"
    and "\<forall>j<k. page_used s (cyc s j)" and "\<not> page_used s (cyc s k)"
    and "\<forall>j. 0 < j \<and> j \<le> k \<longrightarrow> cyc s j \<noteq> start"
  shows "alloc_page_loop start s = Some (cyc s k * PAGE_SIZE + limine_hhdm s,
    (bitmap_set (cyc s k) s)\<lparr>last_search_pos := cyc s k, used_pages := used_pages s + 1\<rparr>)"
  using assms
proof (induction k arbitrary: s)
  case 0
  then show ?case
    by (simp add: alloc_page_loop.simps cyc_0)
next
  case (Suc k)
  let ?s = "s\<lparr>last_search_pos := (last_search_pos s + 1) mod total_pages s\<rparr>"
  note next_pos = cyc_next [OF Suc.prems(1)]
  have tot: "0 < total_pages s" using Suc.prems(1) by (meson le_less_trans word_zero_le)
  have pos: "last_search_pos ?s = cyc s 1"
    by (rule word_unat_eq_iff [THEN iffD2]) (simp add: unat_cyc tot unat_next Suc.prems(1))
  from tot have lt: "last_search_pos ?s < total_pages ?s"
    using pos cyc_less [of s 1] by simp
  have "alloc_page_loop start ?s = Some (cyc ?s k * PAGE_SIZE + limine_hhdm ?s,
      (bitmap_set (cyc ?s k) ?s)\<lparr>last_search_pos := cyc ?s k, used_pages := used_pages ?s + 1\<rparr>)"
    using lt Suc.prems by (intro Suc.IH) (auto simp: next_pos)
  moreover have "page_used s (last_search_pos s)"
    using Suc.prems(2) cyc_0 [OF Suc.prems(1)] by force
  moreover have "cyc s 1 \<noteq> start" using Suc.prems(4) by simp
  ultimately show ?case
    using pos by (subst alloc_page_loop.simps) (simp add: next_pos)
qed


text \<open>
  Total correctness of \<^verbatim>\<open>pmm_alloc_page\<close>: with a page left, the search returns and gives the
  first free page at or after the next-fit position.
\<close>

lemma first_free_cyc:
  assumes "pmm_inv s" and "used_pages s < total_pages s"
  obtains k where "k < unat (total_pages s)" and "\<forall>j<k. page_used s (cyc s j)"
    and "\<not> page_used s (cyc s k)"
proof -
  let ?n = "unat (total_pages s)" and ?l = "unat (last_search_pos s)"
  from assms(2) have tot: "0 < total_pages s" by (meson le_less_trans word_zero_le)
  then have n: "0 < ?n" by (simp add: word_less_nat_alt)
  from assms(1) tot have l: "?l < ?n" by (auto simp: pmm_inv_def word_less_nat_alt)
  obtain p where p: "p < total_pages s" "\<not> page_used s p"
    using free_page_exists [OF assms] by blast
  define k where "k = (unat p + (?n - ?l)) mod ?n"
  have "(?l + k) mod ?n = (unat p + (?l + (?n - ?l))) mod ?n"
    by (simp add: k_def mod_add_right_eq algebra_simps)
  also have "\<dots> = unat p" using l p(1) by (simp add: word_less_nat_alt)
  finally have "cyc s k = p" by (simp add: cyc_def)
  with p have fk: "\<not> page_used s (cyc s k)" by simp
  define m where "m = (LEAST k. \<not> page_used s (cyc s k))"
  have "m \<le> k" unfolding m_def using fk by (rule Least_le)
  moreover have "k < ?n" using n by (simp add: k_def)
  ultimately have "m < ?n" by simp
  moreover have "\<not> page_used s (cyc s m)" unfolding m_def using fk by (rule LeastI)
  moreover have "\<forall>j<m. page_used s (cyc s j)" unfolding m_def using not_less_Least by blast
  ultimately show ?thesis using that by blast
qed

lemma pmm_alloc_page_correct:
  assumes inv: "pmm_inv s" and free: "used_pages s < total_pages s"
  obtains p s' where "pmm_alloc_page s = Some (p * PAGE_SIZE + limine_hhdm s, s')"
    and "p < total_pages s" and "\<not> page_used s p" and "used_set s' = insert p (used_set s)"
    and "used_pages s' = used_pages s + 1" and "pmm_inv s'"
    and "s' = (bitmap_set p s)\<lparr>last_search_pos := p, used_pages := used_pages s + 1\<rparr>"
proof -
  from free have tot: "0 < total_pages s" by (meson le_less_trans word_zero_le)
  with inv have pos: "last_search_pos s < total_pages s" by (auto simp: pmm_inv_def)
  obtain k where k: "k < unat (total_pages s)" "\<forall>j<k. page_used s (cyc s j)"
      "\<not> page_used s (cyc s k)"
    using first_free_cyc [OF inv free] .
  let ?p = "cyc s k"
  let ?s = "(bitmap_set ?p s)\<lparr>last_search_pos := ?p, used_pages := used_pages s + 1\<rparr>"
  have p: "?p < total_pages s" using tot by (rule cyc_less)
  have miss: "\<forall>j. 0 < j \<and> j \<le> k \<longrightarrow> cyc s j \<noteq> last_search_pos s"
    using cyc_ne_start [OF pos] k(1) by auto
  from free have "\<not> total_pages s \<le> used_pages s" by simp
  then have "pmm_alloc_page s = Some (?p * PAGE_SIZE + limine_hhdm s, ?s)"
    using alloc_page_loop_finds [OF pos k(2,3) miss] by (simp add: pmm_alloc_page_def)
  moreover have "pmm_inv ?s" using inv p k(3) p by (rule pmm_inv_take)
  moreover have "used_set ?s = insert ?p (used_set s)" using p by simp
  ultimately show ?thesis using that p k(3) by simp
qed

lemma pmm_alloc_page_full: "total_pages s \<le> used_pages s \<Longrightarrow> pmm_alloc_page s = Some (0, s)"
  by (simp add: pmm_alloc_page_def)

subsection \<open>Runs of pages\<close>

lemma mark_run_frame [simp, frame_simps]:
  "total_pages (mark_run n p s) = total_pages s" "used_pages (mark_run n p s) = used_pages s"
  "limine_hhdm (mark_run n p s) = limine_hhdm s"
  "last_search_pos (mark_run n p s) = last_search_pos s"
  by (induction n arbitrary: p s) auto

lemma page_used_mark_run:
  "page_used (mark_run n p s) q \<longleftrightarrow> page_used s q \<or> (\<exists>j<n. q = p + word_of_nat j)"
proof (induction n arbitrary: p s)
  case 0
  then show ?case by simp
next
  case (Suc n)
  have "(\<exists>j<Suc n. q = p + word_of_nat j) \<longleftrightarrow> q = p \<or> (\<exists>j<n. q = p + 1 + word_of_nat j)"
    by (auto simp: less_Suc_eq_0_disj algebra_simps)
  then show ?case by (auto simp: Suc.IH)
qed

text \<open>A run of \<open>c\<close> free managed pages that starts at page \<open>q\<close>.\<close>

definition free_run_at :: "pmm_state \<Rightarrow> nat \<Rightarrow> nat \<Rightarrow> bool" where
  "free_run_at s c q \<longleftrightarrow> q + c \<le> unat (total_pages s)
     \<and> (\<forall>j. q \<le> j \<and> j < q + c \<longrightarrow> \<not> page_used s (word_of_nat j))"


definition first_run_result :: "u64 \<Rightarrow> pmm_state \<Rightarrow> u64 \<times> pmm_state" where
  "first_run_result count s =
     (if \<exists>q. free_run_at s (unat count) q
      then let q = (LEAST q. free_run_at s (unat count) q)
           in (word_of_nat q * PAGE_SIZE + limine_hhdm s,
               (mark_run (unat count) (word_of_nat q) s)\<lparr>used_pages := used_pages s + count\<rparr>)
      else (0, s))"

text \<open>
  The loop invariant of the scan: the \<open>k\<close> pages before \<open>i\<close> are free and no run starts before
  them.
\<close>

definition scan_inv :: "u64 \<Rightarrow> pmm_state \<Rightarrow> nat \<Rightarrow> nat \<Rightarrow> bool" where
  "scan_inv count s i k \<longleftrightarrow> k \<le> i \<and> k < unat count
     \<and> (\<forall>j. i - k \<le> j \<and> j < i \<longrightarrow> \<not> page_used s (word_of_nat j))
     \<and> (\<forall>q < i - k. \<not> free_run_at s (unat count) q)"

lemma scan_inv_extend:
  "scan_inv count s i k \<Longrightarrow> \<not> page_used s (word_of_nat i) \<Longrightarrow> Suc k < unat count \<Longrightarrow>
   scan_inv count s (Suc i) (Suc k)"
  by (auto simp: scan_inv_def less_Suc_eq)

lemma scan_inv_reset:
  assumes "scan_inv count s i k" and "page_used s (word_of_nat i)"
  shows "scan_inv count s (Suc i) 0"
proof -
  have "\<not> free_run_at s (unat count) q" if "q < Suc i" for q
  proof (cases "q < i - k")
    case True
    with assms(1) show ?thesis by (simp add: scan_inv_def)
  next
    case False
    with that assms(1) have "q \<le> i" and "i < q + unat count" by (auto simp: scan_inv_def)
    with assms(2) show ?thesis by (auto simp: free_run_at_def)
  qed
  with assms(1) show ?thesis by (auto simp: scan_inv_def)
qed

lemma scan_inv_found:
  assumes "scan_inv count s i k" and "\<not> page_used s (word_of_nat i)" and "Suc k = unat count"
    and "i < unat (total_pages s)"
  shows "first_run_result count s =
    (word_of_nat (i - k) * PAGE_SIZE + limine_hhdm s,
     (mark_run (unat count) (word_of_nat (i - k)) s)\<lparr>used_pages := used_pages s + count\<rparr>)"
proof -
  have "\<not> page_used s (word_of_nat j)" if "i - k \<le> j" and "j < i - k + unat count" for j
  proof (cases "j = i")
    case False
    with that assms have "j < i" by (auto simp: scan_inv_def)
    with that assms(1) show ?thesis by (auto simp: scan_inv_def)
  qed (simp add: assms(2))
  then have run: "free_run_at s (unat count) (i - k)"
    using assms by (auto simp: free_run_at_def scan_inv_def)
  moreover have "(LEAST q. free_run_at s (unat count) q) = i - k"
    using run assms(1) by (intro Least_equality) (auto simp: scan_inv_def not_less [symmetric])
  ultimately show ?thesis
    by (auto simp: first_run_result_def Let_def)
qed

lemma scan_inv_end:
  assumes "scan_inv count s (unat (total_pages s)) k"
  shows "first_run_result count s = (0, s)"
proof -
  have "\<not> free_run_at s (unat count) q" for q
    using assms by (cases "q < unat (total_pages s) - k") (auto simp: scan_inv_def free_run_at_def)
  then show ?thesis by (simp add: first_run_result_def)
qed

lemma alloc_pages_loop_correct:
  assumes "unat i + n = unat (total_pages s)" and "scan_inv count s (unat i) (unat k)"
    and "k \<noteq> 0 \<longrightarrow> unat start_page = unat i - unat k"
  shows "alloc_pages_loop n i k start_page count s = first_run_result count s"
  using assms
proof (induction n arbitrary: i k start_page)
  case 0
  then show ?case using scan_inv_end [of count s "unat k"] by simp
next
  case (Suc n)
  from Suc.prems(1) have "i < total_pages s" by (simp add: word_less_nat_alt)
  then have i1: "unat (i + 1) = Suc (unat i)" by (rule word_less_Suc_unat)
  from Suc.prems(2) have "k < count" by (simp add: scan_inv_def word_less_nat_alt)
  then have k1: "unat (k + 1) = Suc (unat k)" by (rule word_less_Suc_unat)
  let ?st = "if k = 0 then i else start_page"
  have st: "unat ?st = unat i - unat k" using Suc.prems(3) by simp
  then have st': "?st = word_of_nat (unat i - unat k)" unfolding st [symmetric] by simp
  show ?case
  proof (cases "page_used s i")
    case True
    then have "scan_inv count s (unat (i + 1)) (unat (0 :: u64))"
      using scan_inv_reset [OF Suc.prems(2)] i1 by simp
    from Suc.IH [OF _ this, of start_page] Suc.prems(1) i1 True show ?thesis by simp
  next
    case free: False
    show ?thesis
    proof (cases "k + 1 = count")
      case True
      with k1 have "Suc (unat k) = unat count" by simp
      with scan_inv_found [OF Suc.prems(2)] free \<open>i < total_pages s\<close>
      have "first_run_result count s = (?st * PAGE_SIZE + limine_hhdm s,
         (mark_run (unat count) ?st s)\<lparr>used_pages := used_pages s + count\<rparr>)"
        by (simp add: st' word_less_nat_alt)
      with True free show ?thesis by (simp add: Let_def)
    next
      case False
      with k1 Suc.prems(2) have "Suc (unat k) < unat count"
        by (metis Suc_lessI scan_inv_def word_unat_eq_iff)
      then have "scan_inv count s (unat (i + 1)) (unat (k + 1))"
        using scan_inv_extend [OF Suc.prems(2)] free i1 k1 by simp
      from Suc.IH [OF _ this, of ?st] Suc.prems(1) i1 k1 st False free show ?thesis
        by (simp add: Let_def)
    qed
  qed
qed


lemma free_run_at_fits:
  assumes inv: "pmm_inv s" and run: "free_run_at s c q"
  shows "unat (used_pages s) + c \<le> unat (total_pages s)"
proof -
  let ?R = "word_of_nat ` {q..<q + c} :: u64 set"
  have lt: "j < 2 ^ LENGTH(64)" if "j < q + c" for j
    using that run unat_bound [of "total_pages s"] by (auto simp: free_run_at_def)
  have "inj_on (word_of_nat :: nat \<Rightarrow> u64) {q..<q + c}"
    by (rule inj_onI) (metis atLeastLessThan_iff lt unat_of_nat_small)
  then have "card ?R = c" by (simp add: card_image)
  moreover have "?R \<inter> used_set s = {}"
    using run by (auto simp: used_set_def free_run_at_def)
  moreover have "?R \<union> used_set s \<subseteq> {p. p < total_pages s}"
    using run lt by (auto simp: used_set_def free_run_at_def word_of_nat_below_iff)
  then have "card (?R \<union> used_set s) \<le> unat (total_pages s)"
    using card_mono [OF finite] by (metis card_words_below)
  ultimately show ?thesis
    using inv by (simp add: pmm_inv_def card_Un_disjoint)
qed

lemma pmm_alloc_pages_eq:
  assumes inv: "pmm_inv s" and count: "count \<noteq> 0"
  shows "pmm_alloc_pages count s = first_run_result count s"
proof (cases "used_pages s + count > total_pages s")
  case True
  have "\<not> free_run_at s (unat count) q" for q
  proof
    assume "free_run_at s (unat count) q"
    with inv have le: "unat (used_pages s) + unat count \<le> unat (total_pages s)"
      by (rule free_run_at_fits)
    then have "unat (used_pages s + count) = unat (used_pages s) + unat count"
      using unat_bound [of "total_pages s"] by (simp add: unat_word_ariths)
    with le True show False by (simp add: word_less_nat_alt)
  qed
  with True show ?thesis
    by (simp add: pmm_alloc_pages_def first_run_result_def)
next
  case False
  have "scan_inv count s (unat (0 :: u64)) (unat (0 :: u64))"
    using count by (simp add: scan_inv_def unat_gt_0)
  with alloc_pages_loop_correct [of 0 "unat (total_pages s)" s count 0 0] False count show ?thesis
    by (simp add: pmm_alloc_pages_def)
qed

lemma used_set_mark_run:
  assumes run: "free_run_at s c q"
  shows "used_set (mark_run c (word_of_nat q) s) = used_set s \<union> word_of_nat ` {q..<q + c}"
proof -
  have lt: "word_of_nat j < total_pages s" if "j < q + c" for j
    using that run unat_bound [of "total_pages s"]
    by (subst word_of_nat_below_iff) (auto simp: free_run_at_def)
  have "(\<exists>j<c. p = word_of_nat q + word_of_nat j) \<longleftrightarrow> p \<in> word_of_nat ` {q..<q + c}" for p :: u64
  proof
    assume "\<exists>j<c. p = word_of_nat q + word_of_nat j"
    then obtain j where "j < c" "p = word_of_nat (q + j)" by auto
    then show "p \<in> word_of_nat ` {q..<q + c}" by (auto intro!: image_eqI [of _ _ "q + j"])
  next
    assume "p \<in> word_of_nat ` {q..<q + c}"
    then obtain j where "q \<le> j" "j < q + c" "p = word_of_nat j" by auto
    then show "\<exists>j<c. p = word_of_nat q + word_of_nat j"
      by (intro exI [of _ "j - q"]) (auto simp flip: of_nat_add)
  qed
  then show ?thesis
    using lt by (auto simp: used_set_def page_used_mark_run)
qed

lemma pmm_alloc_pages_inv:
  assumes inv: "pmm_inv s" and count: "count \<noteq> 0"
  shows "pmm_inv (snd (pmm_alloc_pages count s))"
proof (cases "\<exists>q. free_run_at s (unat count) q")
  case True
  define q where "q = (LEAST q. free_run_at s (unat count) q)"
  from True have run: "free_run_at s (unat count) q" unfolding q_def by (rule LeastI_ex)
  let ?R = "word_of_nat ` {q..<q + unat count} :: u64 set"
  have "inj_on (word_of_nat :: nat \<Rightarrow> u64) {q..<q + unat count}"
  proof (rule inj_onI)
    fix x y
    assume "x \<in> {q..<q + unat count}" "y \<in> {q..<q + unat count}"
    then have "x < 2 ^ LENGTH(64)" "y < 2 ^ LENGTH(64)"
      using run unat_bound [of "total_pages s"] by (auto simp: free_run_at_def)
    moreover assume "(word_of_nat x :: u64) = word_of_nat y"
    ultimately show "x = y" by (metis unat_of_nat_small)
  qed
  then have "card ?R = unat count" by (simp add: card_image)
  moreover have "?R \<inter> used_set s = {}" using run by (auto simp: used_set_def free_run_at_def)
  moreover have "unat (used_pages s + count) = unat (used_pages s) + unat count"
    using free_run_at_fits [OF inv run] unat_bound [of "total_pages s"] by (simp add: unat_word_ariths)
  ultimately show ?thesis
    using inv True
    by (simp add: pmm_alloc_pages_eq [OF inv count] first_run_result_def Let_def pmm_inv_def
        used_set_mark_run [OF run] card_Un_disjoint Int_commute flip: q_def)
next
  case False
  with inv count show ?thesis by (simp add: pmm_alloc_pages_eq first_run_result_def)
qed


subsection \<open>Freeing and locking runs\<close>

lemma free_one_frame [simp, frame_simps]:
  "total_pages (free_one p s) = total_pages s" "limine_hhdm (free_one p s) = limine_hhdm s"
  "last_search_pos (free_one p s) = last_search_pos s"
  by (simp_all add: free_one_def)

lemma lock_one_frame [simp, frame_simps]:
  "total_pages (lock_one p s) = total_pages s" "limine_hhdm (lock_one p s) = limine_hhdm s"
  "last_search_pos (lock_one p s) = last_search_pos s"
  by (simp_all add: lock_one_def)

lemma page_used_free_one [simp]: "page_used (free_one p s) q \<longleftrightarrow> q \<noteq> p \<and> page_used s q"
  by (auto simp: free_one_def)

lemma page_used_lock_one [simp]: "page_used (lock_one p s) q \<longleftrightarrow> q = p \<or> page_used s q"
  by (auto simp: lock_one_def)

lemma free_run_frame [simp, frame_simps]:
  "total_pages (free_run n p s) = total_pages s" "limine_hhdm (free_run n p s) = limine_hhdm s"
  by (induction n arbitrary: p s) simp_all

lemma lock_run_frame [simp, frame_simps]:
  "total_pages (lock_run n p s) = total_pages s" "limine_hhdm (lock_run n p s) = limine_hhdm s"
  by (induction n arbitrary: p s) simp_all

lemma ex_less_Suc_shift:
  "(\<exists>j<Suc n. q = p + word_of_nat j) \<longleftrightarrow> q = p \<or> (\<exists>j<n. q = p + 1 + (word_of_nat j :: 'a::len word))"
  by (auto simp: less_Suc_eq_0_disj algebra_simps)

lemma page_used_free_run:
  "page_used (free_run n p s) q \<longleftrightarrow> page_used s q \<and> \<not> (\<exists>j<n. q = p + word_of_nat j)"
  by (induction n arbitrary: p s) (auto simp: ex_less_Suc_shift simp del: of_nat_Suc)

lemma page_used_lock_run:
  "page_used (lock_run n p s) q \<longleftrightarrow> page_used s q \<or> (\<exists>j<n. q = p + word_of_nat j)"
  by (induction n arbitrary: p s) (auto simp: ex_less_Suc_shift simp del: of_nat_Suc)

text \<open>A run inside the managed range, walked page by page.\<close>

lemma run_step:
  assumes "unat p + Suc n \<le> unat (t :: u64)"
  shows "p < t" and "unat (p + 1) + n \<le> unat t"
proof -
  show "p < t" using assms by (simp add: word_less_nat_alt)
  then show "unat (p + 1) + n \<le> unat t" using assms by (simp add: word_less_Suc_unat)
qed

lemma free_run_inv:
  "pmm_inv s \<Longrightarrow> unat p + n \<le> unat (total_pages s) \<Longrightarrow> pmm_inv (free_run n p s)"
proof (induction n arbitrary: p s)
  case (Suc n)
  from run_step [OF Suc.prems(2)] Suc.prems(1) show ?case
    by (simp add: Suc.IH free_one_inv)
qed simp

lemma lock_run_inv:
  "pmm_inv s \<Longrightarrow> unat p + n \<le> unat (total_pages s) \<Longrightarrow> pmm_inv (lock_run n p s)"
proof (induction n arbitrary: p s)
  case (Suc n)
  from run_step [OF Suc.prems(2)] Suc.prems(1) show ?case
    by (simp add: Suc.IH lock_one_inv)
qed simp

lemma page_of_addr:
  assumes "unat p < 2 ^ 52"
  shows "(p * PAGE_SIZE + h - h) div PAGE_SIZE = p"
proof -
  have "unat (p * 4096) = unat p * 4096"
    using assms by (simp add: unat_word_ariths)
  then show ?thesis by (simp add: word_unat_eq_iff unat_div)
qed

lemma pmm_free_page_free_one: "pmm_free_page a s = free_one ((a - limine_hhdm s) div PAGE_SIZE) s"
  by (simp add: pmm_free_page_def free_one_def Let_def)

subsection \<open>Initialisation\<close>

lemma fill_bitmap_apply:
  "n \<le> 2 ^ 64 \<Longrightarrow> fill_bitmap n a m x = (if unat (x - a) < n then 255 else m x)"
proof (induction n arbitrary: a m)
  case (Suc n)
  have "unat (x - a) < Suc n \<longleftrightarrow> x = a \<or> unat (x - (a + 1)) < n"
  proof (cases "x = a")
    case False
    then have "unat (x - a) = Suc (unat (x - (a + 1)))"
      by (metis (no_types, opaque_lifting) Suc_pred' diff_diff_add eq_iff_diff_eq_0 unat_gt_0 unat_minus_one)
    with False show ?thesis by simp
  qed simp
  with Suc show ?case by auto
qed simp


lemma run_iff:
  assumes "unat p + n \<le> 2 ^ 64"
  shows "(\<exists>j<n. q = p + word_of_nat j) \<longleftrightarrow> unat p \<le> unat q \<and> unat q < unat (p :: u64) + n"
proof
  assume "\<exists>j<n. q = p + word_of_nat j"
  then obtain j where j: "j < n" "q = p + word_of_nat j" by blast
  then have "unat q = unat p + j"
    using assms by (simp add: unat_word_ariths unat_of_nat)
  with j show "unat p \<le> unat q \<and> unat q < unat p + n" by simp
next
  assume r: "unat p \<le> unat q \<and> unat q < unat p + n"
  then have "q = p + word_of_nat (unat q - unat p)"
    by (simp add: word_unat_eq_iff unat_word_ariths unat_of_nat)
  with r show "\<exists>j<n. q = p + word_of_nat j"
    by (intro exI [of _ "unat q - unat p"]) auto
qed

lemma unat_page_of [page_arith]:
  "unat (align_down x 4096 div 4096) = unat x div 4096"
  "unat x + 4095 < 2 ^ 64 \<Longrightarrow> unat (align_up x 4096 div 4096) = (unat x + 4095) div 4096"
  by (simp_all add: page_arith unat_div)

lemma lock_pages_range_used:
  assumes "unat a + 4095 < 2 ^ 64"
  shows "page_used (lock_pages_range a b s) p \<longleftrightarrow> page_used s p
     \<or> (unat a + 4095) div 4096 \<le> unat p \<and> unat p < unat b div 4096"
proof -
  have "unat b div 4096 < 2 ^ 64" using unat_bound [of b] by simp
  then show ?thesis
    using assms
    by (auto simp: lock_pages_range_def Let_def page_used_lock_run word_le_nat_alt page_arith run_iff)
qed

lemma lock_pages_range_frame [simp, frame_simps]:
  "total_pages (lock_pages_range a b s) = total_pages s"
  "limine_hhdm (lock_pages_range a b s) = limine_hhdm s"
  by (simp_all add: lock_pages_range_def Let_def)

lemma lock_pages_range_inv:
  assumes "pmm_inv s" and "unat a + 4095 < 2 ^ 64" and "unat b div 4096 \<le> unat (total_pages s)"
  shows "pmm_inv (lock_pages_range a b s)"
  using assms
  by (auto simp: lock_pages_range_def Let_def word_le_nat_alt page_arith intro!: lock_run_inv)

text \<open>What the boot loader promises of a usable entry: page-aligned base, no wrap-around.\<close>

definition entry_ok :: "memmap_entry \<Rightarrow> bool" where
  "entry_ok e \<longleftrightarrow> unat (entry_base e) mod 4096 = 0
     \<and> unat (entry_base e) + unat (entry_length e) + 4096 \<le> 2 ^ 64"

definition entry_covers :: "memmap_entry \<Rightarrow> u64 \<Rightarrow> bool" where
  "entry_covers e p \<longleftrightarrow> entry_type e = LIMINE_MEMMAP_USABLE \<and> unat (entry_base e) \<le> unat p * 4096
     \<and> (unat p + 1) * 4096 \<le> unat (entry_base e) + unat (entry_length e)"

lemma entry_pages:
  assumes "entry_ok e"
  shows "unat (align_up (entry_base e) 4096 div 4096) = unat (entry_base e) div 4096"
    and "unat (align_down (entry_base e + entry_length e) 4096 div 4096)
       = (unat (entry_base e) + unat (entry_length e)) div 4096"
proof -
  have "unat (entry_base e + entry_length e) = unat (entry_base e) + unat (entry_length e)"
    using assms by (simp add: entry_ok_def unat_word_ariths)
  then show "unat (align_down (entry_base e + entry_length e) 4096 div 4096)
       = (unat (entry_base e) + unat (entry_length e)) div 4096"
    by (simp add: page_arith)
  show "unat (align_up (entry_base e) 4096 div 4096) = unat (entry_base e) div 4096"
    using assms aligned_round_up(1) [of "unat (entry_base e)"]
    by (subst unat_page_of(2)) (auto simp: entry_ok_def)
qed

lemma free_entry_used:
  assumes "entry_ok e"
  shows "page_used (free_entry e s) p \<longleftrightarrow> page_used s p \<and> \<not> entry_covers e p"
proof -
  let ?a = "unat (entry_base e)" and ?b = "unat (entry_base e) + unat (entry_length e)"
  have "?b < 2 ^ 64" using assms by (simp add: entry_ok_def)
  then have "?b div 4096 < 2 ^ 64" by (rule le_less_trans [OF div_le_dividend])
  moreover have "?a div 4096 \<le> unat p \<and> unat p < ?b div 4096 \<longleftrightarrow> ?a \<le> unat p * 4096 \<and> (unat p + 1) * 4096 \<le> ?b"
    using assms by (intro page_range_iff) (simp add: entry_ok_def)
  ultimately show ?thesis
    by (auto simp: free_entry_def entry_covers_def Let_def page_used_free_run word_le_nat_alt
        entry_pages [OF assms] run_iff)
qed

lemma free_entry_inv:
  assumes "pmm_inv s" and "entry_ok e"
    and "entry_type e = LIMINE_MEMMAP_USABLE \<Longrightarrow>
         unat (entry_base e) + unat (entry_length e) \<le> unat (total_pages s) * 4096"
  shows "pmm_inv (free_entry e s)"
  using assms
  by (auto simp: free_entry_def Let_def word_le_nat_alt entry_pages intro!: free_run_inv)

lemma free_entry_frame [simp, frame_simps]: "total_pages (free_entry e s) = total_pages s"
  by (simp add: free_entry_def Let_def)

lemma free_usable_pages_used:
  assumes "\<forall>e \<in> set es. entry_ok e"
  shows "page_used (fold free_entry es s) p \<longleftrightarrow> page_used s p \<and> \<not> (\<exists>e \<in> set es. entry_covers e p)"
  using assms by (induction es arbitrary: s) (auto simp: free_entry_used)

lemma free_usable_pages_inv:
  assumes "\<forall>e \<in> set es. entry_ok e \<and> (entry_type e = LIMINE_MEMMAP_USABLE \<longrightarrow>
      unat (entry_base e) + unat (entry_length e) \<le> unat (total_pages s) * 4096)" and "pmm_inv s"
  shows "pmm_inv (fold free_entry es s) \<and> total_pages (fold free_entry es s) = total_pages s"
  using assms by (induction es arbitrary: s) (auto simp: free_entry_inv)


text \<open>The \<^verbatim>\<open>memset\<close> sets the bits of the bitmap's bytes and leaves the bytes after them as they were.\<close>

lemma fill_bitmap_used:
  "page_used (s\<lparr>ram := fill_bitmap (unat (bitmap_size_bytes s)) (pmm_bitmap s) m, used_pages := n\<rparr>) p
   \<longleftrightarrow> unat p div 8 < unat (bitmap_size_bytes s) \<or> bit (m (bitmap_byte s p)) (unat (p AND 7))"
proof -
  have "unat (drop_bit 3 p) = unat p div 8" by (simp add: drop_bit_eq_div unat_div)
  moreover have "unat (bitmap_size_bytes s) \<le> 2 ^ 64" using unat_bound [of "bitmap_size_bytes s"] by simp
  moreover have "bit (255 :: u8) (unat (p AND 7))"
  proof -
    have "(255 :: u8) = - 1" by simp
    then show ?thesis using unat_and_7 [of p] by (simp only: bit_minus_1_iff possible_bit_word) simp
  qed
  ultimately show ?thesis by (simp add: page_used_def bitmap_byte_def fill_bitmap_apply)
qed

lemma place_bitmap_Some:
  "place_bitmap es s = Some s' \<Longrightarrow>
   \<exists>e \<in> set es. entry_type e = LIMINE_MEMMAP_USABLE \<and> bitmap_size_pages s * PAGE_SIZE \<le> entry_length e
     \<and> s' = s\<lparr>pmm_bitmap_phys := align_up (entry_base e) PAGE_SIZE,
              pmm_bitmap := align_up (entry_base e) PAGE_SIZE + limine_hhdm s\<rparr>"
  by (induction es s rule: place_bitmap.induct) (auto split: if_splits)

text \<open>
  \<open>boot_ok\<close>: what the boot loader promises, with \<open>T\<close> managed pages. \<open>map_without_holes\<close>: the memory maps for which the
  bitmap is large enough: every usable byte lies below \<open>T\<close> pages, that is, physical memory has no hole below its last
  usable page.
\<close>

definition boot_ok :: "memmap_entry list \<Rightarrow> u64 \<Rightarrow> u64 \<Rightarrow> nat \<Rightarrow> bool" where
  "boot_ok memmap kbase ksize T \<longleftrightarrow>
     (\<forall>e \<in> set memmap. entry_ok e) \<and> unat kbase + unat ksize + 4096 \<le> 2 ^ 64 \<and> T + 8 \<le> 2 ^ 64"

definition map_without_holes :: "memmap_entry list \<Rightarrow> u64 \<Rightarrow> u64 \<Rightarrow> nat \<Rightarrow> bool" where
  "map_without_holes memmap kbase ksize T \<longleftrightarrow> boot_ok memmap kbase ksize T
     \<and> (\<forall>e \<in> set memmap. entry_type e = LIMINE_MEMMAP_USABLE \<longrightarrow> unat (entry_base e) + unat (entry_length e) \<le> T * 4096)
     \<and> unat kbase + unat ksize \<le> T * 4096"

text \<open>The pages that the kernel image fills completely, and those of the bitmap.\<close>

definition kernel_page :: "u64 \<Rightarrow> u64 \<Rightarrow> u64 \<Rightarrow> bool" where
  "kernel_page kbase ksize p \<longleftrightarrow> (unat kbase + 4095) div 4096 \<le> unat p \<and> unat p < (unat kbase + unat ksize) div 4096"

definition bitmap_page :: "pmm_state \<Rightarrow> u64 \<Rightarrow> bool" where
  "bitmap_page s p \<longleftrightarrow> unat (pmm_bitmap_phys s) div 4096 \<le> unat p
     \<and> unat p < unat (pmm_bitmap_phys s) div 4096 + unat (bitmap_size_pages s)"

lemma init_filled_inv:
  assumes "\<And>p. p < total_pages s \<Longrightarrow> page_used s p" and "used_pages s = total_pages s"
    and "last_search_pos s = 0"
  shows "pmm_inv s"
proof -
  have "used_set s = {p. p < total_pages s}" using assms(1) by (auto simp: used_set_def)
  with assms(2,3) show ?thesis by (auto simp: pmm_inv_def card_words_below word_neq_0_conv)
qed

lemma bitmap_range_bounds:
  assumes "entry_ok e" and "n * PAGE_SIZE \<le> entry_length e"
    and "unat (entry_base e) + unat (entry_length e) \<le> T * 4096"
  shows "unat (align_up (entry_base e) 4096 + n * 4096) div 4096 \<le> T"
proof -
  have "unat (align_up (entry_base e) 4096) = unat (entry_base e)"
    using assms(1) aligned_round_up(2) [of "unat (entry_base e)"]
    by (subst unat_align_up_page) (auto simp: entry_ok_def)
  moreover have "unat (align_up (entry_base e) 4096 + n * 4096)
      \<le> unat (align_up (entry_base e) 4096) + unat (n * 4096)"
    by (simp add: unat_word_ariths)
  moreover have "unat (n * 4096) \<le> unat (entry_length e)"
    using assms(2) by (simp add: word_le_nat_alt)
  ultimately have "unat (align_up (entry_base e) 4096 + n * 4096) \<le> T * 4096"
    using assms(3) by linarith
  then show ?thesis by (metis div_le_mono nonzero_mult_div_cancel_right zero_neq_numeral)
qed


lemma init_frame [simp, frame_simps]:
  "bitmap_size_pages (free_one p s) = bitmap_size_pages s" "pmm_bitmap_phys (free_one p s) = pmm_bitmap_phys s" "pmm_bitmap (free_one p s) = pmm_bitmap s" "bitmap_size_bytes (free_one p s) = bitmap_size_bytes s"
  "bitmap_size_pages (lock_one p s) = bitmap_size_pages s" "pmm_bitmap_phys (lock_one p s) = pmm_bitmap_phys s" "pmm_bitmap (lock_one p s) = pmm_bitmap s" "bitmap_size_bytes (lock_one p s) = bitmap_size_bytes s"
  by (simp_all add: free_one_def lock_one_def bitmap_set_def bitmap_clear_def)

lemma init_run_frame [simp, frame_simps]:
  "bitmap_size_pages (free_run n p s) = bitmap_size_pages s"
  "pmm_bitmap_phys (free_run n p s) = pmm_bitmap_phys s" "pmm_bitmap (free_run n p s) = pmm_bitmap s" "bitmap_size_bytes (free_run n p s) = bitmap_size_bytes s"
  "bitmap_size_pages (lock_run n p s) = bitmap_size_pages s"
  "pmm_bitmap_phys (lock_run n p s) = pmm_bitmap_phys s" "pmm_bitmap (lock_run n p s) = pmm_bitmap s" "bitmap_size_bytes (lock_run n p s) = bitmap_size_bytes s"
  by (induction n arbitrary: p s) simp_all

lemma init_range_frame [simp, frame_simps]:
  "bitmap_size_pages (lock_pages_range a b s) = bitmap_size_pages s"
  "pmm_bitmap_phys (lock_pages_range a b s) = pmm_bitmap_phys s" "pmm_bitmap (lock_pages_range a b s) = pmm_bitmap s" "bitmap_size_bytes (lock_pages_range a b s) = bitmap_size_bytes s"
  "bitmap_size_pages (free_entry e s) = bitmap_size_pages s"
  "pmm_bitmap_phys (free_entry e s) = pmm_bitmap_phys s" "pmm_bitmap (free_entry e s) = pmm_bitmap s" "bitmap_size_bytes (free_entry e s) = bitmap_size_bytes s"
  by (simp_all add: lock_pages_range_def free_entry_def Let_def)

lemma free_usable_frame [simp, frame_simps]:
  "total_pages (fold free_entry es s) = total_pages s"
  "bitmap_size_pages (fold free_entry es s) = bitmap_size_pages s"
  "pmm_bitmap_phys (fold free_entry es s) = pmm_bitmap_phys s"
  "pmm_bitmap (fold free_entry es s) = pmm_bitmap s"
  "bitmap_size_bytes (fold free_entry es s) = bitmap_size_bytes s"
  by (induction es arbitrary: s) simp_all

text \<open>The sizes of the bitmap.\<close>

lemma bitmap_sizes:
  assumes "bitmap_size_bytes s = (total_pages s + 8 - 1) div 8"
    and "bitmap_size_pages s = align_up (bitmap_size_bytes s) PAGE_SIZE div PAGE_SIZE" and "unat (total_pages s) + 8 \<le> 2 ^ 64"
  shows "unat (bitmap_size_bytes s) = (unat (total_pages s) + 7) div 8"
    and "unat (bitmap_size_pages s) = (unat (bitmap_size_bytes s) + 4095) div 4096"
    and "unat (bitmap_size_pages s * PAGE_SIZE) = unat (bitmap_size_pages s) * 4096"
proof -
  have "unat (total_pages s + 7) = unat (total_pages s) + 7" using assms(3) by (simp add: unat_word_ariths)
  then show b: "unat (bitmap_size_bytes s) = (unat (total_pages s) + 7) div 8"
    using assms(1) by (simp add: unat_div add_diff_eq [symmetric])
  then have small: "unat (bitmap_size_bytes s) \<le> 0x2000000000000000"
    using assms(3) div_le_mono [of "unat (total_pages s) + 7" "2 ^ 64" 8] by simp
  then show p: "unat (bitmap_size_pages s) = (unat (bitmap_size_bytes s) + 4095) div 4096"
    using assms(2) by (simp add: unat_page_of(2))
  have "(unat (bitmap_size_bytes s) + 4095) div 4096 * 4096 \<le> unat (bitmap_size_bytes s) + 4095" by simp
  then have "unat (bitmap_size_pages s) * 4096 < 0x10000000000000000" using small p by linarith
  then show "unat (bitmap_size_pages s * PAGE_SIZE) = unat (bitmap_size_pages s) * 4096" by (simp add: unat_word_ariths)
qed

text \<open>The state right after the \<^verbatim>\<open>memset\<close>: every bit of the bitmap is set.\<close>

lemma pmm_init_filled:
  assumes init: "pmm_init memmap kbase ksize hhdm s0 = Some s"
  obtains e s2 where "e \<in> set memmap" and "entry_type e = LIMINE_MEMMAP_USABLE"
    and "bitmap_size_pages s2 * PAGE_SIZE \<le> entry_length e"
    and "pmm_bitmap_phys s2 = align_up (entry_base e) PAGE_SIZE" and "pmm_bitmap s2 = pmm_bitmap_phys s2 + hhdm"
    and "bitmap_size_bytes s2 = (total_pages s2 + 8 - 1) div 8"
    and "bitmap_size_pages s2 = align_up (bitmap_size_bytes s2) PAGE_SIZE div PAGE_SIZE"
    and "\<And>p. page_used s2 p \<longleftrightarrow> unat p div 8 < unat (bitmap_size_bytes s2) \<or> bit (ram s0 (bitmap_byte s2 p)) (unat (p AND 7))"
    and "used_pages s2 = total_pages s2" and "last_search_pos s2 = last_search_pos s0"
    and "s = lock_bitmap_pages (lock_kernel_pages kbase ksize (fold free_entry memmap s2))"
proof -
  define c where "c = count_total_pages memmap (s0\<lparr>limine_hhdm := hhdm\<rparr>)"
  obtain s1 where s1: "place_bitmap memmap c = Some s1"
    using init by (auto simp: pmm_init_def c_def split: bind_splits)
  define s2 where "s2 = s1\<lparr>ram := fill_bitmap (unat (bitmap_size_bytes s1)) (pmm_bitmap s1) (ram s1),
                           used_pages := total_pages s1\<rparr>"
  have s: "s = lock_bitmap_pages (lock_kernel_pages kbase ksize (fold free_entry memmap s2))"
    using init s1 by (simp add: pmm_init_def c_def s2_def free_usable_pages_def)
  obtain e where e: "e \<in> set memmap" "entry_type e = LIMINE_MEMMAP_USABLE"
      "bitmap_size_pages c * PAGE_SIZE \<le> entry_length e"
    and s1e: "s1 = c\<lparr>pmm_bitmap_phys := align_up (entry_base e) PAGE_SIZE,
              pmm_bitmap := align_up (entry_base e) PAGE_SIZE + limine_hhdm c\<rparr>"
    using place_bitmap_Some [OF s1] by blast
  have used: "page_used s2 p \<longleftrightarrow> unat p div 8 < unat (bitmap_size_bytes s1) \<or> bit (ram s0 (bitmap_byte s1 p)) (unat (p AND 7))" for p
    unfolding s2_def fill_bitmap_used by (simp add: s1e c_def count_total_pages_def Let_def)
  have "bitmap_byte s2 = bitmap_byte s1" by (rule ext) (simp add: bitmap_byte_def s2_def)
  with used show ?thesis
    using that [OF e(1,2), of s2] s e(3) by (simp add: s2_def s1e c_def count_total_pages_def Let_def)
qed

text \<open>The pages of the bitmap, as \<^verbatim>\<open>place_bitmap\<close> chooses them, lie in one usable entry.\<close>

lemma bitmap_placed:
  assumes "entry_ok e" and "n * PAGE_SIZE \<le> entry_length e" and "unat (n * PAGE_SIZE) = unat n * 4096"
  defines "a \<equiv> align_up (entry_base e) PAGE_SIZE"
  shows "unat a = unat (entry_base e)" "unat a + 4095 < 2 ^ 64" "(unat a + 4095) div 4096 = unat a div 4096"
    "unat (a + n * PAGE_SIZE) div 4096 = unat a div 4096 + unat n"
    "unat (entry_base e) + unat n * 4096 \<le> unat (entry_base e) + unat (entry_length e)"
proof -
  show u: "unat a = unat (entry_base e)"
    using assms(1) aligned_round_up(2) [of "unat (entry_base e)"] unfolding a_def
    by (subst unat_align_up_page) (auto simp: entry_ok_def)
  show "unat a + 4095 < 2 ^ 64" using assms(1) unfolding u by (simp add: entry_ok_def)
  show "(unat a + 4095) div 4096 = unat a div 4096" using assms(1) unfolding u by (simp add: entry_ok_def aligned_round_up(1))
  show le: "unat (entry_base e) + unat n * 4096 \<le> unat (entry_base e) + unat (entry_length e)"
    using assms(2,3) by (simp add: word_le_nat_alt)
  then have "unat (a + n * PAGE_SIZE) = unat a + unat n * 4096"
    using assms(1,3) u by (simp add: entry_ok_def unat_word_ariths)
  then show "unat (a + n * PAGE_SIZE) div 4096 = unat a div 4096 + unat n" by simp
qed

text \<open>
  Every bit that \<^verbatim>\<open>pmm_init\<close> leaves in memory, also of page numbers beyond the bitmap, where it finds what was in
  memory before.
\<close>

lemma pmm_init_bits:
  assumes init: "pmm_init memmap kbase ksize hhdm s0 = Some s" and ok: "boot_ok memmap kbase ksize (unat (total_pages s))"
  shows "page_used s p \<longleftrightarrow> kernel_page kbase ksize p \<or> bitmap_page s p
     \<or> \<not> (\<exists>e \<in> set memmap. entry_covers e p)
       \<and> (unat p div 8 < unat (bitmap_size_bytes s) \<or> bit (ram s0 (bitmap_byte s p)) (unat (p AND 7)))"
    and "unat (bitmap_size_bytes s) = (unat (total_pages s) + 7) div 8"
    and "unat (bitmap_size_pages s) = (unat (bitmap_size_bytes s) + 4095) div 4096"
    and "pmm_bitmap s = pmm_bitmap_phys s + hhdm"
    and "\<exists>e \<in> set memmap. \<forall>p. bitmap_page s p \<longrightarrow> entry_covers e p"
proof -
  from pmm_init_filled [OF init] obtain e s2 where e: "e \<in> set memmap" "entry_type e = LIMINE_MEMMAP_USABLE"
      "bitmap_size_pages s2 * PAGE_SIZE \<le> entry_length e" "pmm_bitmap_phys s2 = align_up (entry_base e) PAGE_SIZE"
      "pmm_bitmap s2 = pmm_bitmap_phys s2 + hhdm"
    and sz: "bitmap_size_bytes s2 = (total_pages s2 + 8 - 1) div 8"
      "bitmap_size_pages s2 = align_up (bitmap_size_bytes s2) PAGE_SIZE div PAGE_SIZE"
    and used2: "\<And>p. page_used s2 p \<longleftrightarrow> unat p div 8 < unat (bitmap_size_bytes s2) \<or> bit (ram s0 (bitmap_byte s2 p)) (unat (p AND 7))"
    and s: "s = lock_bitmap_pages (lock_kernel_pages kbase ksize (fold free_entry memmap s2))" by metis
  have fr: "total_pages s = total_pages s2" "bitmap_size_bytes s = bitmap_size_bytes s2" "bitmap_size_pages s = bitmap_size_pages s2"
      "pmm_bitmap s = pmm_bitmap s2" "pmm_bitmap_phys s = pmm_bitmap_phys s2"
    by (simp_all add: s lock_bitmap_pages_def lock_kernel_pages_def)
  note H = ok [unfolded fr boot_ok_def]
  have T: "unat (total_pages s2) + 8 \<le> 2 ^ 64" using H by blast
  note sizes = bitmap_sizes [OF sz T]
  have eok: "entry_ok e" using H e(1) by blast
  note bm = bitmap_placed [OF eok e(3) sizes(3), folded e(4)]
  have k: "unat kbase + 4095 < 2 ^ 64" "unat (kbase + ksize) = unat kbase + unat ksize" using H by (simp_all add: unat_word_ariths)
  have "page_used s p \<longleftrightarrow> page_used (lock_kernel_pages kbase ksize (fold free_entry memmap s2)) p \<or> bitmap_page s p"
    unfolding s lock_bitmap_pages_def using bm by (simp add: lock_pages_range_used lock_kernel_pages_def bitmap_page_def)
  also have "page_used (lock_kernel_pages kbase ksize (fold free_entry memmap s2)) p
      \<longleftrightarrow> page_used (fold free_entry memmap s2) p \<or> kernel_page kbase ksize p"
    using k by (simp add: lock_kernel_pages_def lock_pages_range_used kernel_page_def)
  finally show "page_used s p \<longleftrightarrow> kernel_page kbase ksize p \<or> bitmap_page s p
     \<or> \<not> (\<exists>e \<in> set memmap. entry_covers e p)
       \<and> (unat p div 8 < unat (bitmap_size_bytes s) \<or> bit (ram s0 (bitmap_byte s p)) (unat (p AND 7)))"
    using free_usable_pages_used [of memmap s2 p] used2 [of p] H fr by (auto simp: bitmap_byte_def)
  show "unat (bitmap_size_bytes s) = (unat (total_pages s) + 7) div 8"
    "unat (bitmap_size_pages s) = (unat (bitmap_size_bytes s) + 4095) div 4096" using sizes unfolding fr by blast+
  show "pmm_bitmap s = pmm_bitmap_phys s + hhdm" using e(5) by (simp add: fr)
  have "entry_covers e p" if "bitmap_page s p" for p
  proof -
    have p: "unat (entry_base e) div 4096 \<le> unat p" "unat p < unat (entry_base e) div 4096 + unat (bitmap_size_pages s2)"
      using that bm(1) by (simp_all add: bitmap_page_def fr)
    have "unat (entry_base e) mod 4096 = 0" using eok by (simp add: entry_ok_def)
    then have base: "unat (entry_base e) div 4096 * 4096 = unat (entry_base e)"
      using div_mult_mod_eq [of "unat (entry_base e)" 4096] by linarith
    have "unat (entry_base e) \<le> unat p * 4096" using p(1) base by linarith
    moreover have "(unat p + 1) * 4096 \<le> (unat (entry_base e) div 4096 + unat (bitmap_size_pages s2)) * 4096"
      using p(2) by (intro mult_right_mono) simp_all
    then have "(unat p + 1) * 4096 \<le> unat (entry_base e) + unat (entry_length e)"
      unfolding add_mult_distrib base using bm(5) by (rule le_trans)
    ultimately show ?thesis using e(2) by (simp only: entry_covers_def)
  qed
  then show "\<exists>e \<in> set memmap. \<forall>p. bitmap_page s p \<longrightarrow> entry_covers e p" using e(1) by blast
qed

subsection \<open>Properties\<close>

text \<open>
  C7. \<^verbatim>\<open>pmm_alloc_page\<close> with a page left: the call returns (the search loop ends), the page it
  hands out is managed, was free, and is the only bit that changes; the counter goes up by one
  and the invariant is kept.
\<close>

theorem pmm_alloc_page_ok:
  assumes "pmm_inv s" and "used_pages s < total_pages s"
  shows "\<exists>p s'. pmm_alloc_page s = Some (p * PAGE_SIZE + limine_hhdm s, s') \<and> p < total_pages s
     \<and> \<not> page_used s p \<and> (\<forall>q. page_used s' q \<longleftrightarrow> q = p \<or> page_used s q)
     \<and> used_pages s' = used_pages s + 1 \<and> total_pages s' = total_pages s \<and> pmm_inv s'"
proof -
  obtain p s' where "pmm_alloc_page s = Some (p * PAGE_SIZE + limine_hhdm s, s')"
    "p < total_pages s" "\<not> page_used s p" "used_pages s' = used_pages s + 1" "pmm_inv s'"
    and "s' = (bitmap_set p s)\<lparr>last_search_pos := p, used_pages := used_pages s + 1\<rparr>"
    using pmm_alloc_page_correct [OF assms] by metis
  then show ?thesis by (intro exI [of _ p] exI [of _ s']) simp
qed

definition pmm_example :: pmm_state where
  "pmm_example = \<lparr>pmm_bitmap = 0, pmm_bitmap_phys = 0, total_pages = 4, used_pages = 0,
     bitmap_size_bytes = 1, bitmap_size_pages = 1, limine_hhdm = 0, last_search_pos = 2,
     ram = (\<lambda>_. 0)\<rparr>"

lemma pmm_inv_example: "pmm_inv pmm_example"
  by (simp add: pmm_inv_def used_set_def page_used_def pmm_example_def)

theorem pmm_alloc_page_ok_witness:
  "\<exists>p s'. pmm_alloc_page pmm_example = Some (p * PAGE_SIZE, s') \<and> p < 4
     \<and> used_pages s' = 1 \<and> pmm_inv s'"
  using pmm_alloc_page_ok [OF pmm_inv_example]
  by (auto simp: pmm_example_def)

text \<open>
  C3. \<^verbatim>\<open>pmm_alloc_pages\<close> is first-fit and complete: for a non-zero count it returns the lowest run
  of free managed pages and marks exactly that run, and it returns \<^verbatim>\<open>NULL\<close> only when there is no
  such run, also when \<^verbatim>\<open>used_pages + count\<close> wraps around.
\<close>

theorem pmm_alloc_pages_ok:
  assumes "pmm_inv s" and "count \<noteq> 0"
  shows "pmm_inv (snd (pmm_alloc_pages count s)) \<and>
     ((\<exists>q. free_run_at s (unat count) q \<and> (\<forall>q' < q. \<not> free_run_at s (unat count) q')
        \<and> fst (pmm_alloc_pages count s) = word_of_nat q * PAGE_SIZE + limine_hhdm s
        \<and> used_set (snd (pmm_alloc_pages count s)) = used_set s \<union> word_of_nat ` {q..<q + unat count}
        \<and> used_pages (snd (pmm_alloc_pages count s)) = used_pages s + count)
     \<or> (\<forall>q. \<not> free_run_at s (unat count) q) \<and> pmm_alloc_pages count s = (0, s))"
proof (intro conjI)
  show "pmm_inv (snd (pmm_alloc_pages count s))" by (rule pmm_alloc_pages_inv [OF assms])
  let ?P = "free_run_at s (unat count)"
  show "(\<exists>q. ?P q \<and> (\<forall>q' < q. \<not> ?P q')
        \<and> fst (pmm_alloc_pages count s) = word_of_nat q * PAGE_SIZE + limine_hhdm s
        \<and> used_set (snd (pmm_alloc_pages count s)) = used_set s \<union> word_of_nat ` {q..<q + unat count}
        \<and> used_pages (snd (pmm_alloc_pages count s)) = used_pages s + count)
     \<or> (\<forall>q. \<not> ?P q) \<and> pmm_alloc_pages count s = (0, s)"
  proof (cases "\<exists>q. ?P q")
    case True
    define q where "q = (LEAST q. ?P q)"
    from True have run: "?P q" unfolding q_def by (rule LeastI_ex)
    have least: "\<forall>q' < q. \<not> ?P q'" unfolding q_def using not_less_Least by blast
    from True have "pmm_alloc_pages count s = (word_of_nat q * PAGE_SIZE + limine_hhdm s,
        (mark_run (unat count) (word_of_nat q) s)\<lparr>used_pages := used_pages s + count\<rparr>)"
      unfolding pmm_alloc_pages_eq [OF assms] first_run_result_def Let_def q_def by simp
    with run least show ?thesis
      by (intro disjI1 exI [of _ q]) (simp only: fst_conv snd_conv used_set_simps used_set_mark_run, simp)
  next
    case False
    then show ?thesis by (simp add: pmm_alloc_pages_eq [OF assms] first_run_result_def)
  qed
qed

theorem pmm_alloc_pages_ok_witness:
  "pmm_inv (snd (pmm_alloc_pages 2 pmm_example))"
  using pmm_alloc_pages_ok [OF pmm_inv_example, of 2] by simp

text \<open>
  Freeing undoes allocation: \<^verbatim>\<open>pmm_free_page\<close> on the address of a managed page clears that bit
  and no other, keeps the invariant, and a second free of the same address changes nothing
  (the double-free guard).
\<close>

theorem pmm_free_page_ok:
  assumes "pmm_inv s" and "p < total_pages s" and "unat p < 2 ^ 52"
  defines "s' \<equiv> pmm_free_page (p * PAGE_SIZE + limine_hhdm s) s"
  shows "pmm_inv s' \<and> (\<forall>q. page_used s' q \<longleftrightarrow> q \<noteq> p \<and> page_used s q)
     \<and> used_pages s' = (if page_used s p then used_pages s - 1 else used_pages s)
     \<and> pmm_free_page (p * PAGE_SIZE + limine_hhdm s') s' = s'"
proof -
  have "s' = free_one p s"
    using page_of_addr [OF assms(3), of "limine_hhdm s"] by (simp add: s'_def pmm_free_page_free_one)
  moreover have "pmm_free_page (p * PAGE_SIZE + limine_hhdm s') s' = free_one p s'"
    using page_of_addr [OF assms(3), of "limine_hhdm s'"] by (simp add: pmm_free_page_free_one)
  moreover have "free_one p (free_one p s) = free_one p s"
    by (subst free_one_def) simp
  ultimately show ?thesis
    using free_one_inv [OF assms(1,2)] by (auto simp: free_one_def)
qed

theorem pmm_free_page_ok_witness:
  "pmm_inv (pmm_free_page (1 * PAGE_SIZE + limine_hhdm pmm_example) pmm_example)"
proof -
  have "(1 :: u64) < total_pages pmm_example" by (simp add: pmm_example_def)
  then show ?thesis
    using pmm_free_page_ok [OF pmm_inv_example, of 1] by simp
qed

text \<open>
  C35. \<^verbatim>\<open>pmm_init\<close> on a memory map without holes establishes the invariant and decides every managed page: a
  page is used exactly when no usable entry covers it, or the kernel image fills it completely, or it belongs to
  the bitmap. The bitmap lies in a usable entry, is reached through the direct map, and has a bit for every managed page. The
  page that the kernel image ends in the middle of is not protected: it is free when a usable entry covers it.
\<close>

theorem pmm_init_ok:
  assumes init: "pmm_init memmap kbase ksize hhdm s0 = Some s"
    and holes: "map_without_holes memmap kbase ksize (unat (total_pages s))"
    and pos: "last_search_pos s0 = 0"
  shows "pmm_inv s
    \<and> (\<forall>p < total_pages s. page_used s p \<longleftrightarrow>
         \<not> (\<exists>e \<in> set memmap. entry_covers e p) \<or> kernel_page kbase ksize p \<or> bitmap_page s p)
    \<and> (\<exists>e \<in> set memmap. \<forall>p. bitmap_page s p \<longrightarrow> entry_covers e p)
    \<and> pmm_bitmap s = pmm_bitmap_phys s + hhdm
    \<and> unat (total_pages s) \<le> 8 * unat (bitmap_size_bytes s) \<and> unat (bitmap_size_bytes s) \<le> 4096 * unat (bitmap_size_pages s)"
proof -
  have ok: "boot_ok memmap kbase ksize (unat (total_pages s))" using holes by (simp add: map_without_holes_def)
  note bits = pmm_init_bits [OF init ok]
  have in_bitmap: "unat p div 8 < unat (bitmap_size_bytes s)" if "p < total_pages s" for p
    using that bits(2) by (simp add: word_less_nat_alt)
  from pmm_init_filled [OF init] obtain e s2 where e: "e \<in> set memmap" "entry_type e = LIMINE_MEMMAP_USABLE"
      "bitmap_size_pages s2 * PAGE_SIZE \<le> entry_length e" "pmm_bitmap_phys s2 = align_up (entry_base e) PAGE_SIZE"
    and used2: "\<And>p. page_used s2 p \<longleftrightarrow> unat p div 8 < unat (bitmap_size_bytes s2) \<or> bit (ram s0 (bitmap_byte s2 p)) (unat (p AND 7))"
    and cnt: "used_pages s2 = total_pages s2" "last_search_pos s2 = last_search_pos s0"
    and s: "s = lock_bitmap_pages (lock_kernel_pages kbase ksize (fold free_entry memmap s2))" by metis
  have t: "total_pages s = total_pages s2" "bitmap_size_bytes s = bitmap_size_bytes s2"
    by (simp_all add: s lock_bitmap_pages_def lock_kernel_pages_def)
  have inv2: "pmm_inv s2" using used2 in_bitmap cnt pos by (intro init_filled_inv) (simp_all add: t)
  note H = holes [unfolded t map_without_holes_def boot_ok_def]
  have inv3: "pmm_inv (fold free_entry memmap s2)" using H inv2 by (intro conjunct1 [OF free_usable_pages_inv]) auto
  have k: "unat kbase + 4095 < 2 ^ 64" "unat (kbase + ksize) div 4096 \<le> unat (total_pages s2)"
    using H by (simp_all add: unat_word_ariths less_mult_imp_div_less) (metis div_le_mono nonzero_mult_div_cancel_right zero_neq_numeral)
  have eok: "entry_ok e" "unat (entry_base e) + unat (entry_length e) \<le> unat (total_pages s2) * 4096" using H e by auto
  have "unat (align_up (entry_base e) PAGE_SIZE) + 4095 < 2 ^ 64"
    using eok(1) aligned_round_up(2) [of "unat (entry_base e)"] by (subst unat_align_up_page) (auto simp: entry_ok_def)
  then have "pmm_inv s" unfolding s lock_bitmap_pages_def lock_kernel_pages_def
    using inv3 k bitmap_range_bounds [OF eok(1) e(3) eok(2)] by (intro lock_pages_range_inv) (simp_all add: e(4))
  then show ?thesis using bits in_bitmap by auto
qed

definition memmap_example :: "memmap_entry list" where
  "memmap_example = [\<lparr>entry_base = 0, entry_length = 0x4000, entry_type = 0\<rparr>]"

theorem pmm_init_ok_witness:
  "\<exists>s. pmm_init memmap_example 0x1000 0x1800 0 (pmm_example\<lparr>last_search_pos := 0\<rparr>) = Some s \<and> pmm_inv s
     \<and> page_used s 0 \<and> page_used s 1 \<and> \<not> page_used s 2 \<and> \<not> page_used s 3"
proof -
  obtain s where s: "pmm_init memmap_example 0x1000 0x1800 0 (pmm_example\<lparr>last_search_pos := 0\<rparr>) = Some s"
    and t: "total_pages s = 4" "pmm_bitmap_phys s = 0" "bitmap_size_pages s = 1"
    by (simp add: pmm_init_def memmap_example_def count_total_pages_def align_up_def pmm_example_def
        lock_bitmap_pages_def lock_kernel_pages_def free_usable_pages_def)
  moreover have "map_without_holes memmap_example 0x1000 0x1800 (unat (total_pages s))"
    by (simp add: map_without_holes_def boot_ok_def memmap_example_def entry_ok_def t)
  ultimately have "pmm_inv s" and b: "\<forall>p < total_pages s. page_used s p \<longleftrightarrow>
         \<not> (\<exists>e \<in> set memmap_example. entry_covers e p) \<or> kernel_page 0x1000 0x1800 p \<or> bitmap_page s p"
    using pmm_init_ok [OF s] by auto
  with s b [rule_format, of 0] b [rule_format, of 1] b [rule_format, of 2] b [rule_format, of 3] show ?thesis
    by (simp add: t kernel_page_def bitmap_page_def memmap_example_def entry_covers_def)
qed





end
