(* ===== verification/Vmm.thy ===== *)
theory Vmm
  imports Pmm
begin

unbundle bit_operations_syntax

text \<open>
  The virtual memory manager, \<^verbatim>\<open>src/src/memory/vmm.c\<close>: four-level page tables walked and built
  through the higher-half direct map. \<open>mem\<close> holds the 8-byte cells that page tables (and, later,
  kernel stacks) are made of, keyed by the virtual address of the cell; \<open>cr3\<close> is the control
  register and \<open>invlpg_log\<close> the sequence of TLB invalidations.

  The bitmap of the frame allocator and the page tables are kept in separate stores: tables live
  in frames that the allocator hands out, and the bitmap's own frames are locked.
\<close>

subsection \<open>State and constants\<close>

record vm_state =
  pmm :: pmm_state
  mem :: "u64 \<Rightarrow> u64"
  cr3 :: u64
  invlpg_log :: "u64 list"

definition VMM_PRESENT :: u64 where "VMM_PRESENT = 1"
definition VMM_WRITE :: u64 where "VMM_WRITE = 2"
definition VMM_USER :: u64 where "VMM_USER = 4"
definition VMM_PWT :: u64 where "VMM_PWT = 8"
definition VMM_PCD :: u64 where "VMM_PCD = 16"

lemmas vmm_flags = VMM_PRESENT_def VMM_WRITE_def VMM_USER_def VMM_PWT_def VMM_PCD_def

definition PML4_INDEX :: "u64 \<Rightarrow> u64" where "PML4_INDEX x = drop_bit 39 x AND 0x1FF"
definition PDPT_INDEX :: "u64 \<Rightarrow> u64" where "PDPT_INDEX x = drop_bit 30 x AND 0x1FF"
definition PD_INDEX :: "u64 \<Rightarrow> u64" where "PD_INDEX x = drop_bit 21 x AND 0x1FF"
definition PT_INDEX :: "u64 \<Rightarrow> u64" where "PT_INDEX x = drop_bit 12 x AND 0x1FF"

definition PAGE_ALIGN_MASK :: u64 where "PAGE_ALIGN_MASK = 0x000FFFFFFFFFF000"

subsection \<open>Helper functions\<close>

definition read_cr3 :: "vm_state \<Rightarrow> u64" where
  "read_cr3 s = cr3 s"

definition write_cr3 :: "u64 \<Rightarrow> vm_state \<Rightarrow> vm_state" where
  "write_cr3 v s = s\<lparr>cr3 := v\<rparr>"

definition invlpg :: "u64 \<Rightarrow> vm_state \<Rightarrow> vm_state" where
  "invlpg virt s = s\<lparr>invlpg_log := virt # invlpg_log s\<rparr>"

definition phys_to_virt :: "vm_state \<Rightarrow> u64 \<Rightarrow> u64" where
  "phys_to_virt s phys = phys + limine_hhdm (pmm s)"

definition virt_to_phys :: "vm_state \<Rightarrow> u64 \<Rightarrow> u64" where
  "virt_to_phys s virt = virt - limine_hhdm (pmm s)"

text \<open>The cell of entry \<open>i\<close> in the table at \<open>t\<close>, and \<^verbatim>\<open>memset (page, 0, PAGE_SIZE)\<close> on cells.\<close>

definition entry_addr :: "u64 \<Rightarrow> u64 \<Rightarrow> u64" where
  "entry_addr t i = t + 8 * i"

definition zero_page :: "u64 \<Rightarrow> (u64 \<Rightarrow> u64) \<Rightarrow> u64 \<Rightarrow> u64" where
  "zero_page a m = (\<lambda>x. if x - a < PAGE_SIZE then 0 else m x)"

definition get_or_alloc_table :: "u64 \<Rightarrow> u64 \<Rightarrow> vm_state \<Rightarrow> (u64 \<times> vm_state) option" where
  "get_or_alloc_table table index s =
     (let a = entry_addr table index; e = mem s a
      in if e AND VMM_PRESENT \<noteq> 0 then
           let s' = (if e AND VMM_USER = 0 then s\<lparr>mem := (mem s)(a := e OR VMM_USER)\<rparr> else s)
           in Some (phys_to_virt s' (mem s' a AND PAGE_ALIGN_MASK), s')
         else do {
           (new_table, p) \<leftarrow> pmm_alloc_page (pmm s);
           if new_table = 0 then None
           else let s1 = s\<lparr>pmm := p, mem := zero_page new_table (mem s)\<rparr>;
                    new_phys = virt_to_phys s1 new_table
                in Some (new_table,
                         s1\<lparr>mem := (mem s1)(a := new_phys OR VMM_PRESENT OR VMM_WRITE OR VMM_USER)\<rparr>)
         })"

definition get_table_noalloc :: "u64 \<Rightarrow> u64 \<Rightarrow> vm_state \<Rightarrow> u64" where
  "get_table_noalloc table index s =
     (let e = mem s (entry_addr table index)
      in if e AND VMM_PRESENT \<noteq> 0 then phys_to_virt s (e AND PAGE_ALIGN_MASK) else 0)"

subsection \<open>Mapping operations\<close>

definition vmm_map_page :: "u64 \<Rightarrow> u64 \<Rightarrow> u64 \<Rightarrow> u64 \<Rightarrow> vm_state \<Rightarrow> vm_state option" where
  "vmm_map_page pml4 virt phys flags s0 =
     do {
       (pdpt, s1) \<leftarrow> get_or_alloc_table pml4 (PML4_INDEX virt) s0;
       (pd, s2) \<leftarrow> get_or_alloc_table pdpt (PDPT_INDEX virt) s1;
       (pt, s3) \<leftarrow> get_or_alloc_table pd (PD_INDEX virt) s2;
       let entry = (phys AND PAGE_ALIGN_MASK) OR flags OR VMM_PRESENT;
       Some (invlpg virt (s3\<lparr>mem := (mem s3)(entry_addr pt (PT_INDEX virt) := entry)\<rparr>))
     }"

definition vmm_unmap_page :: "u64 \<Rightarrow> u64 \<Rightarrow> vm_state \<Rightarrow> vm_state" where
  "vmm_unmap_page pml4 virt s =
     (let pdpt = get_table_noalloc pml4 (PML4_INDEX virt) s in
      if pdpt = 0 then s else
      let pd = get_table_noalloc pdpt (PDPT_INDEX virt) s in
      if pd = 0 then s else
      let pt = get_table_noalloc pd (PD_INDEX virt) s in
      if pt = 0 then s else
      let a = entry_addr pt (PT_INDEX virt) in
      if mem s a AND VMM_PRESENT \<noteq> 0 then invlpg virt (s\<lparr>mem := (mem s)(a := 0)\<rparr>) else s)"

definition vmm_get_mapping :: "u64 \<Rightarrow> u64 \<Rightarrow> vm_state \<Rightarrow> u64" where
  "vmm_get_mapping pml4 virt s =
     (let pdpt = get_table_noalloc pml4 (PML4_INDEX virt) s in
      if pdpt = 0 then 0 else
      let pd = get_table_noalloc pdpt (PDPT_INDEX virt) s in
      if pd = 0 then 0 else
      let pt = get_table_noalloc pd (PD_INDEX virt) s in
      if pt = 0 then 0 else
      let entry = mem s (entry_addr pt (PT_INDEX virt)) in
      if entry AND VMM_PRESENT = 0 then 0 else entry AND PAGE_ALIGN_MASK)"

subsection \<open>Address spaces\<close>

definition vmm_create_pml4 :: "vm_state \<Rightarrow> (u64 \<times> vm_state) option" where
  "vmm_create_pml4 s =
     do {
       (pml4, p) \<leftarrow> pmm_alloc_page (pmm s);
       if pml4 = 0 then Some (0, s\<lparr>pmm := p\<rparr>)
       else Some (pml4, s\<lparr>pmm := p, mem := zero_page pml4 (mem s)\<rparr>)
     }"

definition vmm_switch_pml4 :: "u64 \<Rightarrow> vm_state \<Rightarrow> vm_state" where
  "vmm_switch_pml4 pml4 s = write_cr3 (virt_to_phys s pml4) s"

text \<open>
  The two loops that fill a new top-level table: entries 0 to 255 become 0, entries 256 to 511
  are copied from the kernel's table.
\<close>

definition clear_user_half :: "u64 \<Rightarrow> (u64 \<Rightarrow> u64) \<Rightarrow> u64 \<Rightarrow> u64" where
  "clear_user_half t m = fold (\<lambda>i m. m(entry_addr t (word_of_nat i) := 0)) [0..<256] m"

definition copy_kernel_half :: "u64 \<Rightarrow> u64 \<Rightarrow> (u64 \<Rightarrow> u64) \<Rightarrow> u64 \<Rightarrow> u64" where
  "copy_kernel_half master t m =
     fold (\<lambda>i m. m(entry_addr t (word_of_nat i) := m (entry_addr master (word_of_nat i)))) [256..<512] m"

definition vmm_create_process_pml4 :: "u64 \<Rightarrow> vm_state \<Rightarrow> (u64 \<times> vm_state) option" where
  "vmm_create_process_pml4 master_kernel_pml4 s =
     do {
       (new_pml4, p) \<leftarrow> pmm_alloc_page (pmm s);
       if new_pml4 = 0 then Some (0, s\<lparr>pmm := p\<rparr>)
       else let s' = s\<lparr>pmm := p, mem := copy_kernel_half master_kernel_pml4 new_pml4
                                           (clear_user_half new_pml4 (mem s))\<rparr>
            in Some (virt_to_phys s' new_pml4, s')
     }"

subsection \<open>Paths through the tables\<close>

text \<open>
  \<open>child s t i\<close> is the table behind a present entry; \<open>walk\<close> follows a path of indices from a
  root. A path is a list of at most three indices; the empty path is the top-level table itself.
\<close>

definition child :: "vm_state \<Rightarrow> u64 \<Rightarrow> u64 \<Rightarrow> u64 option" where
  "child s t i =
     (let e = mem s (entry_addr t i)
      in if e AND VMM_PRESENT \<noteq> 0 then Some (phys_to_virt s (e AND PAGE_ALIGN_MASK)) else None)"

fun walk :: "vm_state \<Rightarrow> u64 \<Rightarrow> u64 list \<Rightarrow> u64 option" where
  "walk s t [] = Some t"
| "walk s t (i # is) = (case child s t i of None \<Rightarrow> None | Some t' \<Rightarrow> walk s t' is)"

lemma walk_append: "walk s t (p @ q) = (case walk s t p of None \<Rightarrow> None | Some t' \<Rightarrow> walk s t' q)"
  by (induction p arbitrary: t) (auto split: option.split)

lemma walk_snoc: "walk s t (p @ [i]) = (case walk s t p of None \<Rightarrow> None | Some t' \<Rightarrow> child s t' i)"
  by (auto simp: walk_append split: option.split)

text \<open>\<open>H\<close> is the set of top-level slots under consideration, e.g. the user half.\<close>

definition table_path :: "u64 set \<Rightarrow> u64 list \<Rightarrow> bool" where
  "table_path H p \<longleftrightarrow> length p \<le> 3 \<and> (\<forall>i \<in> set p. i < 512) \<and> (p \<noteq> [] \<longrightarrow> hd p \<in> H)"

definition tables :: "u64 set \<Rightarrow> vm_state \<Rightarrow> u64 \<Rightarrow> u64 set" where
  "tables H s root = {t. \<exists>p. table_path H p \<and> walk s root p = Some t}"

text \<open>The address of a managed frame in the direct map.\<close>

definition frame_addr :: "vm_state \<Rightarrow> u64 \<Rightarrow> u64" where
  "frame_addr s p = p * PAGE_SIZE + limine_hhdm (pmm s)"

text \<open>
  The direct map does not wrap and the managed frames fit the 52-bit physical address space of
  a page-table entry; no managed frame is seen at address 0.
\<close>

definition hhdm_ok :: "vm_state \<Rightarrow> bool" where
  "hhdm_ok s \<longleftrightarrow> unat (total_pages (pmm s)) \<le> 2 ^ 40 \<and> 0 < unat (limine_hhdm (pmm s))
     \<and> unat (limine_hhdm (pmm s)) + unat (total_pages (pmm s)) * 4096 \<le> 2 ^ 64"

text \<open>
  Well-formedness of the tables below \<open>root\<close> in the slots \<open>H\<close>: each table is an allocated frame,
  and distinct paths lead to distinct tables (the tables form a tree).
\<close>

definition pt_wf :: "u64 set \<Rightarrow> vm_state \<Rightarrow> u64 \<Rightarrow> bool" where
  "pt_wf H s root \<longleftrightarrow> pmm_inv (pmm s) \<and> hhdm_ok s
     \<and> (\<forall>t \<in> tables H s root. \<exists>p < total_pages (pmm s). page_used (pmm s) p \<and> t = frame_addr s p)
     \<and> (\<forall>p q t. table_path H p \<longrightarrow> table_path H q \<longrightarrow> walk s root p = Some t \<longrightarrow> walk s root q = Some t
          \<longrightarrow> p = q)"


subsection \<open>Cells and frames\<close>

lemma unat_cell:
  assumes "unat (p :: u64) < 2 ^ 40" and "i < (512 :: u64)"
  shows "unat (p * 4096 + 8 * i) = unat p * 4096 + 8 * unat i"
proof -
  have i: "unat i < 512" using assms(2) by (simp add: word_less_nat_alt)
  have "unat (p * 4096) = unat p * 4096" using assms(1) by (simp add: unat_word_ariths)
  moreover have "unat (8 * i) = 8 * unat i" using i by (simp add: unat_word_ariths)
  ultimately show ?thesis using assms(1) i by (simp add: unat_word_ariths)
qed

lemma cell_inj:
  assumes "unat p < 2 ^ 40" "unat q < 2 ^ 40" "i < 512" "j < 512"
    and eq: "p * 4096 + 8 * i = q * 4096 + 8 * (j :: u64)"
  shows "p = q \<and> i = j"
proof -
  have ij: "unat i < 512" "unat j < 512" using assms by (simp_all add: word_less_nat_alt)
  have e: "unat p * 4096 + 8 * unat i = unat q * 4096 + 8 * unat j"
    using eq unat_cell [OF assms(1,3)] unat_cell [OF assms(2,4)] by simp
  have "unat p = (unat p * 4096 + 8 * unat i) div 4096" using ij by simp
  also have "\<dots> = unat q" unfolding e using ij by simp
  finally show ?thesis using e by (simp add: word_unat_eq_iff)
qed

lemma cell_in_page:
  assumes "unat p < 2 ^ 40" "unat q < 2 ^ 40" "i < 512"
    and less: "p * 4096 + 8 * i - q * 4096 < (4096 :: u64)"
  shows "p = q"
proof -
  have i: "unat i < 512" using assms(3) by (simp add: word_less_nat_alt)
  have cell: "unat (p * 4096 + 8 * i) = unat p * 4096 + 8 * unat i" using assms by (simp add: unat_cell)
  have base: "unat (q * 4096) = unat q * 4096" using assms(2) by (simp add: unat_word_ariths)
  have "unat p = unat q"
  proof (cases "unat q * 4096 \<le> unat p * 4096 + 8 * unat i")
    case True
    then have "unat (p * 4096 + 8 * i - q * 4096) = unat p * 4096 + 8 * unat i - unat q * 4096"
      by (subst unat_sub_if') (simp add: cell base)
    with less True i show ?thesis by (simp add: word_less_nat_alt)
  next
    case False
    then have "unat (p * 4096 + 8 * i - q * 4096) = unat p * 4096 + 8 * unat i + 2 ^ 64 - unat q * 4096"
      by (subst unat_sub_if') (simp add: cell base)
    with less assms(2) show ?thesis by (simp add: word_less_nat_alt)
  qed
  then show ?thesis by (simp add: word_unat_eq_iff)
qed

lemma frame_small:
  "hhdm_ok s \<Longrightarrow> p < total_pages (pmm s) \<Longrightarrow> unat p < 2 ^ 40"
  by (simp add: hhdm_ok_def word_less_nat_alt)

lemma entry_addr_inj:
  assumes "hhdm_ok s" "p < total_pages (pmm s)" "q < total_pages (pmm s)" "i < 512" "j < 512"
    and "entry_addr (frame_addr s p) i = entry_addr (frame_addr s q) j"
  shows "p = q \<and> i = j"
  using cell_inj [OF frame_small [OF assms(1,2)] frame_small [OF assms(1,3)] assms(4,5)] assms(6)
  by (simp add: entry_addr_def frame_addr_def algebra_simps)

lemma entry_addr_in_page:
  assumes "hhdm_ok s" "p < total_pages (pmm s)" "q < total_pages (pmm s)" "i < 512"
    and "entry_addr (frame_addr s p) i - frame_addr s q < PAGE_SIZE"
  shows "p = q"
  using cell_in_page [OF frame_small [OF assms(1,2)] frame_small [OF assms(1,3)] assms(4)] assms(5)
  by (simp add: entry_addr_def frame_addr_def algebra_simps)

lemma entry_addr_same_page: "i < 512 \<Longrightarrow> entry_addr t i - t < PAGE_SIZE"
  by (simp add: entry_addr_def word_less_nat_alt unat_word_ariths)

lemma frame_addr_nonzero:
  assumes "hhdm_ok s" "p < total_pages (pmm s)"
  shows "frame_addr s p \<noteq> 0"
proof -
  have "unat (p * 4096) = unat p * 4096"
    using frame_small [OF assms] by (simp add: unat_word_ariths)
  moreover have "unat p + 1 \<le> unat (total_pages (pmm s))" using assms(2) by (simp add: word_less_nat_alt)
  ultimately have "unat (frame_addr s p) = unat p * 4096 + unat (limine_hhdm (pmm s))"
    using assms(1) by (simp add: frame_addr_def hhdm_ok_def unat_word_ariths)
  with assms(1) show ?thesis by (auto simp: hhdm_ok_def)
qed

text \<open>The physical address of a frame survives the flags of the entry that points to it.\<close>

lemma frame_phys_entry:
  assumes "unat (p :: u64) < 2 ^ 40"
  shows "(p * 4096 OR 7) AND PAGE_ALIGN_MASK = p * 4096"
    and "(p * 4096 OR 7) AND 1 \<noteq> 0"
proof -
  have p: "p * 4096 = push_bit 12 p" by (simp add: push_bit_eq_mult)
  have mask: "PAGE_ALIGN_MASK = push_bit 12 (mask 40)"
    by (simp add: PAGE_ALIGN_MASK_def mask_eq_exp_minus_1 push_bit_eq_mult)
  have p40: "p = take_bit 40 p"
    using assms by (simp add: word_unat_eq_iff unsigned_take_bit_eq take_bit_nat_eq_self)
  have seven: "(7 :: u64) = mask 3" by (simp add: mask_eq_exp_minus_1)
  show "(p * 4096 OR 7) AND PAGE_ALIGN_MASK = p * 4096"
    unfolding p mask seven
    by (subst (2) p40) (rule bit_word_eqI, auto simp: bit_simps)
  have "bit ((p * 4096 OR 7) AND 1) 0"
    unfolding p seven by (simp add: bit_simps)
  then show "(p * 4096 OR 7) AND 1 \<noteq> 0" by auto
qed


subsection \<open>One table step\<close>

lemma pt_wf_frame:
  assumes "pt_wf H s root" and "table_path H p" and "walk s root p = Some t"
  obtains f where "f < total_pages (pmm s)" and "page_used (pmm s) f" and "t = frame_addr s f"
  using assms unfolding pt_wf_def tables_def by blast

lemma pt_wf_inj:
  "pt_wf H s root \<Longrightarrow> table_path H p \<Longrightarrow> table_path H q \<Longrightarrow> walk s root p = Some t \<Longrightarrow>
   walk s root q = Some t \<Longrightarrow> p = q"
  unfolding pt_wf_def by blast

lemma table_path_butlast: "table_path H (p @ [i]) \<Longrightarrow> table_path H p \<and> i < 512"
  by (cases p) (auto simp: table_path_def)

text \<open>Setting the user bit of a present entry moves no table.\<close>

lemma or_user_bits:
  "(e OR VMM_USER) AND VMM_PRESENT = e AND VMM_PRESENT"
  "(e OR VMM_USER) AND PAGE_ALIGN_MASK = e AND PAGE_ALIGN_MASK"
proof -
  have "VMM_USER AND VMM_PRESENT = 0" "VMM_USER AND PAGE_ALIGN_MASK = 0"
    by (simp_all add: vmm_flags PAGE_ALIGN_MASK_def)
  then show "(e OR VMM_USER) AND VMM_PRESENT = e AND VMM_PRESENT"
    "(e OR VMM_USER) AND PAGE_ALIGN_MASK = e AND PAGE_ALIGN_MASK"
    by (simp_all add: bit.conj_disj_distrib2)
qed

definition same_view :: "vm_state \<Rightarrow> vm_state \<Rightarrow> bool" where
  "same_view s s' \<longleftrightarrow> pmm s' = pmm s
     \<and> (\<forall>a. mem s' a AND VMM_PRESENT = mem s a AND VMM_PRESENT
            \<and> mem s' a AND PAGE_ALIGN_MASK = mem s a AND PAGE_ALIGN_MASK)"

lemma same_view_child: "same_view s s' \<Longrightarrow> child s' t i = child s t i"
  by (simp add: same_view_def child_def phys_to_virt_def Let_def)

lemma same_view_walk: "same_view s s' \<Longrightarrow> walk s' t p = walk s t p"
  by (induction p arbitrary: t) (auto simp: same_view_child split: option.split)

lemma same_view_wf: "same_view s s' \<Longrightarrow> pt_wf H s' root \<longleftrightarrow> pt_wf H s root"
  by (simp add: pt_wf_def tables_def same_view_walk hhdm_ok_def frame_addr_def)
     (simp add: same_view_def)

lemma get_or_alloc_present:
  assumes "child s t i = Some t'"
  shows "\<exists>s'. get_or_alloc_table t i s = Some (t', s') \<and> same_view s s'
     \<and> (\<forall>a. a \<noteq> entry_addr t i \<longrightarrow> mem s' a = mem s a)"
  using assms
  by (auto simp: child_def get_or_alloc_table_def Let_def same_view_def or_user_bits phys_to_virt_def
      split: if_splits)


text \<open>Allocating a table behind an empty entry.\<close>

lemma get_or_alloc_absent:
  assumes wf: "pt_wf H s root" and absent: "child s t i = None"
    and free: "used_pages (pmm s) < total_pages (pmm s)"
  obtains f s' where "get_or_alloc_table t i s = Some (frame_addr s f, s')"
    and "f < total_pages (pmm s)" and "\<not> page_used (pmm s) f"
    and "mem s' = (zero_page (frame_addr s f) (mem s))(entry_addr t i := f * PAGE_SIZE OR 7)"
    and "pmm_inv (pmm s')" and "total_pages (pmm s') = total_pages (pmm s)"
    and "limine_hhdm (pmm s') = limine_hhdm (pmm s)"
    and "used_pages (pmm s') = used_pages (pmm s) + 1"
    and "\<And>q. page_used (pmm s') q \<longleftrightarrow> q = f \<or> page_used (pmm s) q"
proof -
  have inv: "pmm_inv (pmm s)" and ok: "hhdm_ok s" using wf by (simp_all add: pt_wf_def)
  obtain f m where f: "pmm_alloc_page (pmm s) = Some (frame_addr s f, m)"
    "f < total_pages (pmm s)" "\<not> page_used (pmm s) f" "pmm_inv m"
    and m: "m = (bitmap_set f (pmm s))\<lparr>last_search_pos := f, used_pages := used_pages (pmm s) + 1\<rparr>"
    using pmm_alloc_page_correct [OF inv free] unfolding frame_addr_def by metis
  define s' where "s' = s\<lparr>pmm := m, mem := (zero_page (frame_addr s f) (mem s))
      (entry_addr t i := f * PAGE_SIZE OR 7)\<rparr>"
  have "f * PAGE_SIZE OR VMM_PRESENT OR VMM_WRITE OR VMM_USER = f * PAGE_SIZE OR 7"
    by (simp add: vmm_flags or.assoc)
  then have "get_or_alloc_table t i s = Some (frame_addr s f, s')"
    using f(1) absent frame_addr_nonzero [OF ok f(2)]
    by (auto simp: get_or_alloc_table_def child_def Let_def s'_def virt_to_phys_def frame_addr_def m
        split: if_splits)
  from that [OF this f(2,3)] f(4) show ?thesis by (simp add: s'_def m)
qed

lemma child_after_alloc:
  assumes ok: "hhdm_ok s" and f: "f < total_pages (pmm s)" and t: "g0 < total_pages (pmm s)"
      "t = frame_addr s g0" "g0 \<noteq> f" "i < 512"
    and mem: "mem s' = (zero_page (frame_addr s f) (mem s))(entry_addr t i := f * PAGE_SIZE OR 7)"
    and hhdm: "limine_hhdm (pmm s') = limine_hhdm (pmm s)" and j: "j < 512"
  shows "child s' t i = Some (frame_addr s f)"
    and "child s' (frame_addr s f) j = None"
    and "g < total_pages (pmm s) \<Longrightarrow> g \<noteq> f \<Longrightarrow> (frame_addr s g, j) \<noteq> (t, i) \<Longrightarrow>
      child s' (frame_addr s g) j = child s (frame_addr s g) j"
proof -
  show "child s' t i = Some (frame_addr s f)"
    using frame_phys_entry [OF frame_small [OF ok f]] hhdm
    by (simp add: child_def mem VMM_PRESENT_def phys_to_virt_def frame_addr_def)
  have "entry_addr (frame_addr s f) j \<noteq> entry_addr t i"
    using entry_addr_inj [OF ok f t(1) j t(4)] t(2,3) by auto
  then show "child s' (frame_addr s f) j = None"
    using entry_addr_same_page [OF j] by (simp add: child_def mem zero_page_def)
  assume g: "g < total_pages (pmm s)" "g \<noteq> f" "(frame_addr s g, j) \<noteq> (t, i)"
  have "entry_addr (frame_addr s g) j \<noteq> entry_addr t i"
    using entry_addr_inj [OF ok g(1) t(1) j t(4)] t(2) g(3) by auto
  moreover have "\<not> entry_addr (frame_addr s g) j - frame_addr s f < PAGE_SIZE"
    using entry_addr_in_page [OF ok g(1) f j] g(2) by auto
  ultimately show "child s' (frame_addr s g) j = child s (frame_addr s g) j"
    using hhdm by (simp add: child_def mem zero_page_def phys_to_virt_def Let_def)
qed

text \<open>The new table appears at its path; every other path leads where it led before.\<close>

lemma walk_after_alloc:
  assumes wf: "pt_wf H s root" and path: "table_path H (p @ [i])" and t: "walk s root p = Some t"
    and absent: "child s t i = None" and f: "f < total_pages (pmm s)" "\<not> page_used (pmm s) f"
    and mem: "mem s' = (zero_page (frame_addr s f) (mem s))(entry_addr t i := f * PAGE_SIZE OR 7)"
    and hhdm: "limine_hhdm (pmm s') = limine_hhdm (pmm s)"
  shows "table_path H q \<Longrightarrow>
    walk s' root q = (if q = p @ [i] then Some (frame_addr s f) else walk s root q)"
proof (induction q rule: rev_induct)
  case Nil
  then show ?case by simp
next
  case (snoc j q)
  have ok: "hhdm_ok s" using wf by (simp add: pt_wf_def)
  have pi: "table_path H p" "i < 512" using table_path_butlast [OF path] by auto
  obtain g0 where g0: "g0 < total_pages (pmm s)" "page_used (pmm s) g0" "t = frame_addr s g0"
    using pt_wf_frame [OF wf pi(1) t] .
  have qj: "table_path H q" "j < 512" using table_path_butlast [OF snoc.prems] by auto
  have "g0 \<noteq> f" using g0 f by auto
  note C = child_after_alloc [OF ok f(1) g0(1,3) this pi(2) mem hhdm qj(2)]
  have none: "walk s root (p @ [i]) = None" using t absent by (simp add: walk_snoc)
  show ?case
  proof (cases "q = p @ [i]")
    case True
    then show ?thesis
      using snoc.IH [OF qj(1)] C(2) none by (simp add: walk_snoc walk_append del: append_assoc)
  next
    case False
    then have same: "walk s' root q = walk s root q" using snoc.IH [OF qj(1)] by simp
    show ?thesis
    proof (cases "walk s root q")
      case None
      with same t show ?thesis by (auto simp: walk_snoc)
    next
      case (Some x)
      obtain g where g: "g < total_pages (pmm s)" "page_used (pmm s) g" "x = frame_addr s g"
        using pt_wf_frame [OF wf qj(1) Some] .
      have "g \<noteq> f" using g f by auto
      have "x = t \<longleftrightarrow> q = p"
        using pt_wf_inj [OF wf qj(1) pi(1) Some] t Some by auto
      then show ?thesis
        using same Some C(1) C(3) [OF g(1) \<open>g \<noteq> f\<close>] g(3) by (auto simp: walk_snoc)
    qed
  qed
qed


subsection \<open>Mappings as paths\<close>

definition vpath :: "u64 \<Rightarrow> u64 list" where
  "vpath v = [PML4_INDEX v, PDPT_INDEX v, PD_INDEX v]"

lemma index_less: "(x :: u64) AND 0x1FF < 512"
proof -
  have "x AND 0x1FF \<le> 0x1FF" by (rule word_and_le1)
  also have "\<dots> < (512 :: u64)" by simp
  finally show ?thesis .
qed

lemma table_path_vpath: "PML4_INDEX v \<in> H \<Longrightarrow> table_path H (vpath v)"
  using index_less
  by (simp add: table_path_def vpath_def PML4_INDEX_def PDPT_INDEX_def PD_INDEX_def)

lemma PT_INDEX_less: "PT_INDEX v < 512"
  by (simp add: PT_INDEX_def index_less)

lemma table_path_prefixes:
  assumes "PML4_INDEX v \<in> H"
  shows "table_path H []" "table_path H [PML4_INDEX v]" "table_path H [PML4_INDEX v, PDPT_INDEX v]"
  using table_path_vpath [OF assms] by (simp_all add: table_path_def vpath_def)

text \<open>
  The translation that the processor makes of a page: the frame address in a present leaf entry.
  \<^verbatim>\<open>vmm_get_mapping\<close> reports it as a number and 0 for an unmapped page.
\<close>

definition leaf :: "vm_state \<Rightarrow> u64 \<Rightarrow> u64 \<Rightarrow> u64 option" where
  "leaf s pt v = (let e = mem s (entry_addr pt (PT_INDEX v))
                  in if e AND VMM_PRESENT = 0 then None else Some (e AND PAGE_ALIGN_MASK))"

definition mmu_page :: "u64 \<Rightarrow> u64 \<Rightarrow> vm_state \<Rightarrow> u64 option" where
  "mmu_page root v s = (case walk s root (vpath v) of None \<Rightarrow> None | Some pt \<Rightarrow> leaf s pt v)"

definition mapped_addr :: "u64 option \<Rightarrow> u64" where
  "mapped_addr x = (case x of None \<Rightarrow> 0 | Some a \<Rightarrow> a)"

lemma mapped_addr_simps [simp]: "mapped_addr None = 0" "mapped_addr (Some a) = a"
  by (simp_all add: mapped_addr_def)

lemma same_view_mapping: "same_view s s' \<Longrightarrow> mmu_page r v s' = mmu_page r v s"
  by (simp add: mmu_page_def same_view_walk leaf_def Let_def split: option.split) (simp add: same_view_def)

lemma get_table_noalloc_child: "get_table_noalloc t i s = (case child s t i of None \<Rightarrow> 0 | Some t' \<Rightarrow> t')"
  by (simp add: get_table_noalloc_def child_def Let_def)

lemma pt_wf_nonzero:
  "pt_wf H s root \<Longrightarrow> table_path H p \<Longrightarrow> walk s root p = Some t \<Longrightarrow> t \<noteq> 0"
  using pt_wf_frame [of H s root p t] frame_addr_nonzero [of s] by (metis pt_wf_def)

lemma get_mapping_page:
  assumes wf: "pt_wf H s root" and v: "PML4_INDEX v \<in> H"
  shows "vmm_get_mapping root v s = mapped_addr (mmu_page root v s)"
proof -
  note P = table_path_prefixes [OF v] and V = table_path_vpath [OF v, unfolded vpath_def]
  show ?thesis
  proof (cases "child s root (PML4_INDEX v)")
    case None
    then show ?thesis by (simp add: vmm_get_mapping_def get_table_noalloc_child mmu_page_def vpath_def)
  next
    case pdpt: (Some pdpt)
    then have "pdpt \<noteq> 0" using pt_wf_nonzero [OF wf P(2)] by simp
    show ?thesis
    proof (cases "child s pdpt (PDPT_INDEX v)")
      case None
      with pdpt \<open>pdpt \<noteq> 0\<close> show ?thesis
        by (simp add: vmm_get_mapping_def get_table_noalloc_child mmu_page_def vpath_def)
    next
      case pd: (Some pd)
      then have "pd \<noteq> 0" using pdpt pt_wf_nonzero [OF wf P(3)] by simp
      show ?thesis
      proof (cases "child s pd (PD_INDEX v)")
        case None
        with pdpt pd \<open>pdpt \<noteq> 0\<close> \<open>pd \<noteq> 0\<close> show ?thesis
          by (simp add: vmm_get_mapping_def get_table_noalloc_child mmu_page_def vpath_def)
      next
        case (Some pt)
        then have "pt \<noteq> 0" using pdpt pd pt_wf_nonzero [OF wf V] by simp
        with Some pdpt pd \<open>pdpt \<noteq> 0\<close> \<open>pd \<noteq> 0\<close> show ?thesis
          by (simp add: vmm_get_mapping_def get_table_noalloc_child mmu_page_def vpath_def leaf_def Let_def)
      qed
    qed
  qed
qed

subsection \<open>What a mapping operation may touch\<close>

text \<open>
  \<open>grows H root s s'\<close>: from \<open>s\<close> to \<open>s'\<close> only cells of the tables below \<open>root\<close> or of frames that
  were free have changed, the tables of \<open>s'\<close> are those of \<open>s\<close> and frames that were free, and
  no frame was given back.
\<close>

definition fresh_frame :: "vm_state \<Rightarrow> u64 \<Rightarrow> bool" where
  "fresh_frame s t \<longleftrightarrow> (\<exists>f < total_pages (pmm s). \<not> page_used (pmm s) f \<and> t = frame_addr s f)"

definition grows :: "u64 set \<Rightarrow> u64 \<Rightarrow> vm_state \<Rightarrow> vm_state \<Rightarrow> bool" where
  "grows H root s s' \<longleftrightarrow>
     total_pages (pmm s') = total_pages (pmm s) \<and> limine_hhdm (pmm s') = limine_hhdm (pmm s)
     \<and> (\<forall>q. page_used (pmm s) q \<longrightarrow> page_used (pmm s') q)
     \<and> (\<forall>t \<in> tables H s' root. t \<in> tables H s root \<or> fresh_frame s t)
     \<and> (\<forall>a. mem s' a \<noteq> mem s a \<longrightarrow>
          (\<exists>x. (x \<in> tables H s root \<or> fresh_frame s x) \<and> a - x < PAGE_SIZE))"

lemma grows_trans:
  assumes "grows H root s s'" and "grows H root s' s''"
  shows "grows H root s s''"
proof -
  have fresh: "fresh_frame s' t \<Longrightarrow> fresh_frame s t" for t
    using assms(1) by (auto simp: grows_def fresh_frame_def frame_addr_def)
  have "mem s'' a \<noteq> mem s a \<Longrightarrow> \<exists>x. (x \<in> tables H s root \<or> fresh_frame s x) \<and> a - x < PAGE_SIZE" for a
    using assms fresh unfolding grows_def by metis
  moreover have "t \<in> tables H s'' root \<Longrightarrow> t \<in> tables H s root \<or> fresh_frame s t" for t
    using assms fresh unfolding grows_def by blast
  ultimately show ?thesis using assms by (simp add: grows_def)
qed

lemma same_view_grows:
  assumes "same_view s s'" and "t \<in> tables H s root" and "i < 512"
    and "\<forall>a. a \<noteq> entry_addr t i \<longrightarrow> mem s' a = mem s a"
  shows "grows H root s s'"
proof -
  have "pmm s' = pmm s" using assms(1) by (simp add: same_view_def)
  moreover have "tables H s' root = tables H s root"
    using same_view_walk [OF assms(1)] by (simp add: tables_def)
  moreover have "mem s' a \<noteq> mem s a \<Longrightarrow> a - t < PAGE_SIZE" for a
    using assms(4) entry_addr_same_page [OF assms(3)] by metis
  ultimately show ?thesis using assms(2) unfolding grows_def by metis
qed


subsection \<open>A table step keeps the tree and every mapping\<close>

lemma alloc_step_wf:
  assumes wf: "pt_wf H s root" and f: "f < total_pages (pmm s)" "\<not> page_used (pmm s) f"
    and inv: "pmm_inv (pmm s')" and tot: "total_pages (pmm s') = total_pages (pmm s)"
    and hhdm: "limine_hhdm (pmm s') = limine_hhdm (pmm s)"
    and used: "\<And>q. page_used (pmm s') q \<longleftrightarrow> q = f \<or> page_used (pmm s) q"
    and W: "\<And>q. table_path H q \<Longrightarrow>
       walk s' root q = (if q = p @ [i] then Some (frame_addr s f) else walk s root q)"
  shows "pt_wf H s' root"
proof -
  have addr: "frame_addr s' = frame_addr s" by (simp add: frame_addr_def hhdm fun_eq_iff)
  have old: "\<exists>g < total_pages (pmm s). page_used (pmm s) g \<and> t = frame_addr s g"
    if "table_path H q" "walk s root q = Some t" for q t
    using pt_wf_frame [OF wf that] by metis
  have ok: "hhdm_ok s" using wf by (simp add: pt_wf_def)
  have new: "frame_addr s f \<noteq> frame_addr s g"
    if "g < total_pages (pmm s)" "page_used (pmm s) g" for g
    using entry_addr_inj [OF ok f(1) that(1), of 0 0] that(2) f(2) by (auto simp: entry_addr_def)
  have "\<exists>g < total_pages (pmm s'). page_used (pmm s') g \<and> t = frame_addr s' g" if "t \<in> tables H s' root" for t
  proof -
    from that obtain q where q: "table_path H q" "walk s' root q = Some t"
      by (auto simp: tables_def)
    show ?thesis
      using q W [OF q(1)] f(1) old [OF q(1), of t] by (auto simp: tot used addr split: if_splits)
  qed
  moreover have "q = r" if "table_path H q" "table_path H r" "walk s' root q = Some t"
      "walk s' root r = Some t" for q r t
    using that W [OF that(1)] W [OF that(2)] pt_wf_inj [OF wf that(1,2)] old new
    by (auto split: if_splits)
  moreover have "hhdm_ok s'" using ok by (simp add: hhdm_ok_def tot hhdm)
  ultimately show ?thesis using inv unfolding pt_wf_def by blast
qed

lemma alloc_step_grows:
  assumes "t \<in> tables H s root" and "i < 512" and f: "f < total_pages (pmm s)" "\<not> page_used (pmm s) f"
    and mem: "mem s' = (zero_page (frame_addr s f) (mem s))(entry_addr t i := f * PAGE_SIZE OR 7)"
    and tot: "total_pages (pmm s') = total_pages (pmm s)"
    and hhdm: "limine_hhdm (pmm s') = limine_hhdm (pmm s)"
    and used: "\<And>q. page_used (pmm s') q \<longleftrightarrow> q = f \<or> page_used (pmm s) q"
    and W: "\<And>q. table_path H q \<Longrightarrow>
       walk s' root q = (if q = p @ [i] then Some (frame_addr s f) else walk s root q)"
  shows "grows H root s s'"
proof -
  have fresh: "fresh_frame s (frame_addr s f)" using f by (auto simp: fresh_frame_def)
  have "x \<in> tables H s root \<or> fresh_frame s x" if "x \<in> tables H s' root" for x
    using that W fresh by (auto simp: tables_def split: if_splits)
  moreover have "\<exists>x. (x \<in> tables H s root \<or> fresh_frame s x) \<and> a - x < PAGE_SIZE"
    if "mem s' a \<noteq> mem s a" for a
  proof (cases "a = entry_addr t i")
    case True
    then show ?thesis using assms(1) entry_addr_same_page [OF assms(2)] by blast
  next
    case False
    with that mem have "a - frame_addr s f < PAGE_SIZE" by (auto simp: zero_page_def split: if_splits)
    with fresh show ?thesis by blast
  qed
  ultimately show ?thesis using tot hhdm used unfolding grows_def by simp
qed

lemma alloc_step_mapping:
  assumes wf: "pt_wf H s root" and wf': "pt_wf H s' root" and path: "table_path H (p @ [i])"
    and t: "walk s root p = Some t" and absent: "child s t i = None"
    and f: "f < total_pages (pmm s)" "\<not> page_used (pmm s) f"
    and mem: "mem s' = (zero_page (frame_addr s f) (mem s))(entry_addr t i := f * PAGE_SIZE OR 7)"
    and W: "\<And>q. table_path H q \<Longrightarrow>
       walk s' root q = (if q = p @ [i] then Some (frame_addr s f) else walk s root q)"
    and v: "PML4_INDEX v \<in> H"
  shows "mmu_page root v s' = mmu_page root v s"
proof -
  have ok: "hhdm_ok s" using wf by (simp add: pt_wf_def)
  have pi: "table_path H p" "i < 512" "length p < 3"
    using table_path_butlast [OF path] path by (auto simp: table_path_def)
  obtain g0 where g0: "g0 < total_pages (pmm s)" "page_used (pmm s) g0" "t = frame_addr s g0"
    using pt_wf_frame [OF wf pi(1) t] .
  note V = table_path_vpath [OF v]
  show ?thesis
  proof (cases "vpath v = p @ [i]")
    case True
    have "entry_addr (frame_addr s f) (PT_INDEX v) \<noteq> entry_addr t i"
      using entry_addr_inj [OF ok f(1) g0(1) PT_INDEX_less pi(2)] g0 f by auto
    then have "leaf s' (frame_addr s f) v = None"
      using entry_addr_same_page [OF PT_INDEX_less] by (simp add: leaf_def mem zero_page_def)
    moreover have "walk s root (p @ [i]) = None" using t absent by (simp add: walk_snoc)
    ultimately show ?thesis
      using W [OF V] True by (simp add: mmu_page_def)
  next
    case False
    have "leaf s' x v = leaf s x v" if x: "walk s root (vpath v) = Some x" for x
    proof -
      obtain g where g: "g < total_pages (pmm s)" "page_used (pmm s) g" "x = frame_addr s g"
        using pt_wf_frame [OF wf V x] .
      have "x \<noteq> t" using pt_wf_inj [OF wf V pi(1) x] t pi(3) by (auto simp: vpath_def)
      then have "entry_addr x (PT_INDEX v) \<noteq> entry_addr t i"
        using entry_addr_inj [OF ok g(1) g0(1) PT_INDEX_less pi(2)] g(3) g0(3) by auto
      moreover have "\<not> entry_addr x (PT_INDEX v) - frame_addr s f < PAGE_SIZE"
        using entry_addr_in_page [OF ok g(1) f(1) PT_INDEX_less] g(2,3) f(2) by auto
      ultimately show ?thesis by (simp add: leaf_def mem zero_page_def)
    qed
    with False W [OF V] show ?thesis
      by (simp add: mmu_page_def split: option.split)
  qed
qed

text \<open>The contract of \<^verbatim>\<open>get_or_alloc_table\<close> while a frame is left.\<close>

lemma table_step:
  assumes wf: "pt_wf H s root" and path: "table_path H (p @ [i])" and t: "walk s root p = Some t"
    and free: "used_pages (pmm s) < total_pages (pmm s)"
  obtains t' s' where "get_or_alloc_table t i s = Some (t', s')" and "pt_wf H s' root"
    and "walk s' root (p @ [i]) = Some t'" and "grows H root s s'"
    and "unat (used_pages (pmm s')) \<le> unat (used_pages (pmm s)) + 1"
    and "\<And>v. PML4_INDEX v \<in> H \<Longrightarrow> mmu_page root v s' = mmu_page root v s"
proof -
  have pi: "table_path H p" "i < 512" using table_path_butlast [OF path] by auto
  have tt: "t \<in> tables H s root" using pi t by (auto simp: tables_def)
  show ?thesis
  proof (cases "child s t i")
    case (Some t')
    then obtain s' where s': "get_or_alloc_table t i s = Some (t', s')" "same_view s s'"
        "\<forall>a. a \<noteq> entry_addr t i \<longrightarrow> mem s' a = mem s a"
      using get_or_alloc_present [OF Some] by blast
    show ?thesis
      using that [OF s'(1)] same_view_wf [OF s'(2)] wf same_view_walk [OF s'(2)] Some t
        same_view_grows [OF s'(2) tt pi(2) s'(3)] same_view_mapping [OF s'(2)] same_view_child [OF s'(2)] s'(2)
      by (simp add: walk_snoc same_view_def)
  next
    case absent: None
    obtain f s' where a: "get_or_alloc_table t i s = Some (frame_addr s f, s')"
      and f: "f < total_pages (pmm s)" "\<not> page_used (pmm s) f"
      and mem: "mem s' = (zero_page (frame_addr s f) (mem s))(entry_addr t i := f * PAGE_SIZE OR 7)"
      and inv: "pmm_inv (pmm s')" and tot: "total_pages (pmm s') = total_pages (pmm s)"
      and hhdm: "limine_hhdm (pmm s') = limine_hhdm (pmm s)"
      and n: "used_pages (pmm s') = used_pages (pmm s) + 1"
      and used: "\<And>q. page_used (pmm s') q \<longleftrightarrow> q = f \<or> page_used (pmm s) q"
      using get_or_alloc_absent [OF wf absent free] by blast
    note W = walk_after_alloc [OF wf path t absent f mem hhdm]
    have wf': "pt_wf H s' root" by (rule alloc_step_wf [OF wf f inv tot hhdm used W])
    show ?thesis
      using that [OF a wf'] W [OF path] alloc_step_grows [OF tt pi(2) f mem tot hhdm used W]
        alloc_step_mapping [OF wf wf' path t absent f mem W] n word_less_Suc_unat [OF free] by simp
  qed
qed


subsection \<open>Writing a leaf entry\<close>

definition same_vpage :: "u64 \<Rightarrow> u64 \<Rightarrow> bool" where
  "same_vpage v w \<longleftrightarrow> vpath v = vpath w \<and> PT_INDEX v = PT_INDEX w"

lemma leaf_write:
  assumes wf: "pt_wf H s root" and v: "PML4_INDEX v \<in> H" and pt: "walk s root (vpath v) = Some pt"
    and mem: "mem s' = (mem s)(entry_addr pt (PT_INDEX v) := e)" and pmm: "pmm s' = pmm s"
  shows "pt_wf H s' root" and "grows H root s s'"
    and "mmu_page root v s' = (if e AND VMM_PRESENT = 0 then None else Some (e AND PAGE_ALIGN_MASK))"
    and "PML4_INDEX w \<in> H \<Longrightarrow> \<not> same_vpage v w \<Longrightarrow> mmu_page root w s' = mmu_page root w s"
proof -
  have ok: "hhdm_ok s" using wf by (simp add: pt_wf_def)
  note V = table_path_vpath [OF v]
  obtain g0 where g0: "g0 < total_pages (pmm s)" "page_used (pmm s) g0" "pt = frame_addr s g0"
    using pt_wf_frame [OF wf V pt] .
  have cell: "entry_addr x j \<noteq> entry_addr pt (PT_INDEX v)"
    if qx: "table_path H q" "walk s root q = Some x" "j < 512" "q \<noteq> vpath v \<or> j \<noteq> PT_INDEX v" for q x j
  proof -
    obtain g where g: "g < total_pages (pmm s)" "page_used (pmm s) g" "x = frame_addr s g"
      using pt_wf_frame [OF wf qx(1,2)] .
    have "q \<noteq> vpath v \<Longrightarrow> x \<noteq> pt" using pt_wf_inj [OF wf qx(1) V qx(2)] pt by auto
    then show ?thesis
      using entry_addr_inj [OF ok g(1) g0(1) qx(3) PT_INDEX_less] qx(4) g(3) g0(3) by auto
  qed
  have walk: "walk s' root q = walk s root q" if "table_path H q" for q
    using that
  proof (induction q rule: rev_induct)
    case (snoc j q)
    have qj: "table_path H q" "j < 512" using table_path_butlast [OF snoc.prems] by auto
    have "q \<noteq> vpath v" using snoc.prems by (auto simp: table_path_def vpath_def)
    then have "child s' x j = child s x j" if "walk s root q = Some x" for x
      using cell [OF qj(1) that qj(2)] by (simp add: child_def mem phys_to_virt_def pmm Let_def)
    with snoc.IH [OF qj(1)] show ?case by (simp add: walk_snoc split: option.split)
  qed simp
  have tabs: "tables H s' root = tables H s root" using walk by (auto simp: tables_def)
  have ptin: "pt \<in> tables H s root" using V pt by (auto simp: tables_def)
  show wf': "pt_wf H s' root"
    using wf unfolding pt_wf_def tabs by (simp add: pmm hhdm_ok_def frame_addr_def walk)
  have "mem s' a \<noteq> mem s a \<Longrightarrow> a - pt < PAGE_SIZE" for a
    using mem entry_addr_same_page [OF PT_INDEX_less] by (metis fun_upd_apply)
  then show "grows H root s s'"
    using ptin unfolding grows_def tabs pmm by blast
  show "mmu_page root v s' = (if e AND VMM_PRESENT = 0 then None else Some (e AND PAGE_ALIGN_MASK))"
    by (simp add: mmu_page_def walk [OF V] pt leaf_def mem)
  assume w: "PML4_INDEX w \<in> H" "\<not> same_vpage v w"
  note W = table_path_vpath [OF w(1)]
  have "leaf s' x w = leaf s x w" if "walk s root (vpath w) = Some x" for x
    using cell [OF W that PT_INDEX_less, of w] w(2) by (auto simp: leaf_def mem same_vpage_def)
  then show "mmu_page root w s' = mmu_page root w s"
    by (simp add: mmu_page_def walk [OF W] split: option.split)
qed

text \<open>The three table steps of \<^verbatim>\<open>vmm_map_page\<close>.\<close>

lemma grows_total: "grows H root s s' \<Longrightarrow> total_pages (pmm s') = total_pages (pmm s)"
  by (simp add: grows_def)

lemma map_tables:
  assumes wf: "pt_wf H s root" and v: "PML4_INDEX v \<in> H"
    and free: "unat (used_pages (pmm s)) + 3 \<le> unat (total_pages (pmm s))"
  obtains pdpt pd pt s1 s2 s3 where
    "get_or_alloc_table root (PML4_INDEX v) s = Some (pdpt, s1)"
    "get_or_alloc_table pdpt (PDPT_INDEX v) s1 = Some (pd, s2)"
    "get_or_alloc_table pd (PD_INDEX v) s2 = Some (pt, s3)"
    "pt_wf H s3 root" "walk s3 root (vpath v) = Some pt" "grows H root s s3"
    "\<And>w. PML4_INDEX w \<in> H \<Longrightarrow> mmu_page root w s3 = mmu_page root w s"
    "unat (used_pages (pmm s3)) \<le> unat (used_pages (pmm s)) + 3"
proof -
  note P = table_path_prefixes [OF v] and V = table_path_vpath [OF v, unfolded vpath_def]
  obtain pdpt s1 where 1: "get_or_alloc_table root (PML4_INDEX v) s = Some (pdpt, s1)"
    "pt_wf H s1 root" "walk s1 root [PML4_INDEX v] = Some pdpt" "grows H root s s1"
    "unat (used_pages (pmm s1)) \<le> unat (used_pages (pmm s)) + 1"
    "\<And>w. PML4_INDEX w \<in> H \<Longrightarrow> mmu_page root w s1 = mmu_page root w s"
    using table_step [OF wf, of "[]" "PML4_INDEX v" root] P(2) free by (auto simp: word_less_nat_alt)
  obtain pd s2 where 2: "get_or_alloc_table pdpt (PDPT_INDEX v) s1 = Some (pd, s2)"
    "pt_wf H s2 root" "walk s2 root [PML4_INDEX v, PDPT_INDEX v] = Some pd" "grows H root s1 s2"
    "unat (used_pages (pmm s2)) \<le> unat (used_pages (pmm s1)) + 1"
    "\<And>w. PML4_INDEX w \<in> H \<Longrightarrow> mmu_page root w s2 = mmu_page root w s1"
    using table_step [OF 1(2), of "[PML4_INDEX v]" "PDPT_INDEX v" pdpt] P(3) 1(3,5) free grows_total [OF 1(4)]
    by (auto simp: word_less_nat_alt)
  obtain pt s3 where 3: "get_or_alloc_table pd (PD_INDEX v) s2 = Some (pt, s3)"
    "pt_wf H s3 root" "walk s3 root (vpath v) = Some pt" "grows H root s2 s3"
    "unat (used_pages (pmm s3)) \<le> unat (used_pages (pmm s2)) + 1"
    "\<And>w. PML4_INDEX w \<in> H \<Longrightarrow> mmu_page root w s3 = mmu_page root w s2"
    using table_step [OF 2(2), of "[PML4_INDEX v, PDPT_INDEX v]" "PD_INDEX v" pd] V 2(3,5) 1(5) free
      grows_total [OF 1(4)] grows_total [OF 2(4)]
    by (auto simp: word_less_nat_alt vpath_def)
  show ?thesis
    using that [OF 1(1) 2(1) 3(1,2,3)] grows_trans [OF grows_trans [OF 1(4) 2(4)] 3(4)] 1(5,6) 2(5,6) 3(5,6)
    by simp
qed

lemma entry_present: "(a OR b OR VMM_PRESENT) AND VMM_PRESENT \<noteq> 0"
proof -
  have "bit ((a OR b OR VMM_PRESENT) AND VMM_PRESENT) 0" by (simp add: VMM_PRESENT_def bit_simps)
  then show ?thesis by auto
qed

lemma entry_mask:
  "((phys AND PAGE_ALIGN_MASK) OR flags OR VMM_PRESENT) AND PAGE_ALIGN_MASK = (phys OR flags) AND PAGE_ALIGN_MASK"
proof -
  have "VMM_PRESENT AND PAGE_ALIGN_MASK = 0" by (simp add: VMM_PRESENT_def PAGE_ALIGN_MASK_def)
  then show ?thesis by (simp add: bit.conj_disj_distrib2 and.assoc)
qed

lemma get_or_alloc_log: "get_or_alloc_table t i s = Some (t', s') \<Longrightarrow> invlpg_log s' = invlpg_log s \<and> cr3 s' = cr3 s"
  by (auto simp: get_or_alloc_table_def Let_def split: if_splits bind_splits)

text \<open>
  The full contract of \<^verbatim>\<open>vmm_map_page\<close>, from which the properties below and the clients of
  the other components take what they need.
\<close>

lemma map_page_contract:
  assumes wf: "pt_wf H s root" and v: "PML4_INDEX v \<in> H"
    and free: "unat (used_pages (pmm s)) + 3 \<le> unat (total_pages (pmm s))"
  obtains s' where "vmm_map_page root v phys flags s = Some s'" and "pt_wf H s' root"
    and "grows H root s s'" and "unat (used_pages (pmm s')) \<le> unat (used_pages (pmm s)) + 3"
    and "mmu_page root v s' = Some ((phys OR flags) AND PAGE_ALIGN_MASK)"
    and "\<And>w. PML4_INDEX w \<in> H \<Longrightarrow> \<not> same_vpage v w \<Longrightarrow> mmu_page root w s' = mmu_page root w s"
    and "invlpg_log s' = v # invlpg_log s"
proof -
  obtain pdpt pd pt s1 s2 s3 where g: "get_or_alloc_table root (PML4_INDEX v) s = Some (pdpt, s1)"
    "get_or_alloc_table pdpt (PDPT_INDEX v) s1 = Some (pd, s2)"
    "get_or_alloc_table pd (PD_INDEX v) s2 = Some (pt, s3)"
    and wf3: "pt_wf H s3 root" and w3: "walk s3 root (vpath v) = Some pt" and gr: "grows H root s s3"
    and m3: "\<And>w. PML4_INDEX w \<in> H \<Longrightarrow> mmu_page root w s3 = mmu_page root w s"
    and u3: "unat (used_pages (pmm s3)) \<le> unat (used_pages (pmm s)) + 3"
    using map_tables [OF wf v free] by metis
  define e where "e = (phys AND PAGE_ALIGN_MASK) OR flags OR VMM_PRESENT"
  define s' where "s' = invlpg v (s3\<lparr>mem := (mem s3)(entry_addr pt (PT_INDEX v) := e)\<rparr>)"
  have r: "vmm_map_page root v phys flags s = Some s'"
    by (simp add: vmm_map_page_def g s'_def e_def)
  have mem: "mem s' = (mem s3)(entry_addr pt (PT_INDEX v) := e)" and pmm: "pmm s' = pmm s3"
    by (simp_all add: s'_def invlpg_def)
  note L = leaf_write [OF wf3 v w3 mem pmm]
  have "e AND VMM_PRESENT \<noteq> 0" "e AND PAGE_ALIGN_MASK = (phys OR flags) AND PAGE_ALIGN_MASK"
    by (simp_all add: e_def entry_present entry_mask)
  then show ?thesis
    using that [OF r L(1)] grows_trans [OF gr L(2)] L(3,4) m3 u3 pmm
    by (simp add: s'_def invlpg_def get_or_alloc_log [OF g(1)] get_or_alloc_log [OF g(2)]
        get_or_alloc_log [OF g(3)])
qed


subsection \<open>Separate address spaces\<close>

lemma grows_cell:
  assumes gr: "grows H root s s'" and wf: "pt_wf H s root" and wf2: "pt_wf K s root'"
    and disj: "tables H s root \<inter> tables K s root' = {}"
    and x: "x \<in> tables K s root'" and j: "j < 512"
  shows "mem s' (entry_addr x j) = mem s (entry_addr x j)"
proof (rule ccontr)
  assume "mem s' (entry_addr x j) \<noteq> mem s (entry_addr x j)"
  then obtain y where y: "y \<in> tables H s root \<or> fresh_frame s y" "entry_addr x j - y < PAGE_SIZE"
    using gr unfolding grows_def by blast
  have ok: "hhdm_ok s" using wf by (simp add: pt_wf_def)
  obtain g where g: "g < total_pages (pmm s)" "page_used (pmm s) g" "x = frame_addr s g"
    using wf2 x unfolding pt_wf_def by blast
  have "\<exists>f < total_pages (pmm s). y = frame_addr s f \<and> (page_used (pmm s) f \<longrightarrow> y \<in> tables H s root)"
    using y(1) wf unfolding pt_wf_def fresh_frame_def by blast
  then obtain f where f: "f < total_pages (pmm s)" "y = frame_addr s f"
    "page_used (pmm s) f \<longrightarrow> y \<in> tables H s root" by blast
  from entry_addr_in_page [OF ok g(1) f(1) j] y(2) f(2) g(3) have "g = f" by simp
  with f(2,3) g(2,3) x disj show False by auto
qed

lemma grows_walk_other:
  assumes gr: "grows H root s s'" and wf: "pt_wf H s root" and wf2: "pt_wf K s root'"
    and disj: "tables H s root \<inter> tables K s root' = {}" and "table_path K q"
  shows "walk s' root' q = walk s root' q"
  using assms(5)
proof (induction q rule: rev_induct)
  case (snoc j q)
  have qj: "table_path K q" "j < 512" using table_path_butlast [OF snoc.prems] by auto
  have "child s' x j = child s x j" if "walk s root' q = Some x" for x
  proof -
    have "x \<in> tables K s root'" using that qj by (auto simp: tables_def)
    from grows_cell [OF gr wf wf2 disj this qj(2)] gr show ?thesis
      by (simp add: child_def phys_to_virt_def grows_def Let_def)
  qed
  with snoc.IH [OF qj(1)] show ?case by (simp add: walk_snoc split: option.split)
qed simp

lemma grows_wf_other:
  assumes gr: "grows H root s s'" and wf: "pt_wf H s root" and wf2: "pt_wf K s root'"
    and disj: "tables H s root \<inter> tables K s root' = {}" and inv: "pmm_inv (pmm s')"
  shows "pt_wf K s' root'"
proof -
  note W = grows_walk_other [OF gr wf wf2 disj]
  have "tables K s' root' = tables K s root'" using W by (auto simp: tables_def)
  then show ?thesis
    using wf2 gr inv W unfolding pt_wf_def
    by (simp add: grows_def hhdm_ok_def frame_addr_def) blast
qed

lemma grows_mapping_other:
  assumes gr: "grows H root s s'" and wf: "pt_wf H s root" and wf2: "pt_wf K s root'"
    and disj: "tables H s root \<inter> tables K s root' = {}" and v: "PML4_INDEX v \<in> K"
  shows "mmu_page root' v s' = mmu_page root' v s"
proof -
  note W = grows_walk_other [OF gr wf wf2 disj table_path_vpath [OF v]]
  have "leaf s' x v = leaf s x v" if "walk s root' (vpath v) = Some x" for x
  proof -
    have "x \<in> tables K s root'" using that table_path_vpath [OF v] by (auto simp: tables_def)
    from grows_cell [OF gr wf wf2 disj this PT_INDEX_less] show ?thesis by (simp add: leaf_def)
  qed
  then show ?thesis
    using W by (simp add: mmu_page_def split: option.split)
qed

subsection \<open>New address spaces\<close>

text \<open>The user half: top-level slots 0 to 255.\<close>

definition user_half :: "u64 set" where
  "user_half = {i. i < 256}"



lemma fold_clear_apply: "fold (\<lambda>i m. m(g i := 0)) is m a = (if a \<in> g ` set is then 0 else m a)"
  by (induction "is" arbitrary: m) auto

lemma fold_copy_other: "a \<notin> g ` set is \<Longrightarrow> fold (\<lambda>i m. m(g i := m (h i))) is m a = m a"
  by (induction "is" arbitrary: m) auto

lemma fold_copy_apply:
  assumes "inj_on g (set is)" and "distinct is" and "\<And>i j. i \<in> set is \<Longrightarrow> j \<in> set is \<Longrightarrow> h i \<noteq> g j"
    and "k \<in> set is"
  shows "fold (\<lambda>i m. m(g i := m (h i))) is m (g k) = m (h k)"
  using assms
proof (induction "is" arbitrary: m)
  case (Cons i "is")
  show ?case
  proof (cases "k = i")
    case True
    with Cons.prems have "g k \<notin> g ` set is" by (auto simp: inj_on_def)
    with fold_copy_other [of "g k" g "is" h "m(g i := m (h i))"] True show ?thesis by (simp add: fun_upd_same del: fun_upd_apply)
  next
    case False
    with Cons show ?thesis by (auto simp: inj_on_def)
  qed
qed simp

lemma entry_cell_inj:
  assumes "i < 512" "j < 512" and eq: "entry_addr t i = entry_addr t j"
  shows "i = j"
proof -
  have "8 * i = 8 * j" using eq by (simp add: entry_addr_def)
  moreover have "unat (8 * i) = 8 * unat i" "unat (8 * j) = 8 * unat j"
    using assms by (simp_all add: word_less_nat_alt unat_word_ariths)
  ultimately show ?thesis by (simp add: word_unat_eq_iff)
qed

lemma unat_index: "i < 512 \<Longrightarrow> unat (word_of_nat i :: u64) = i"
  by (rule unat_of_nat_small) simp

lemma entry_image:
  assumes "hi \<le> 512"
  shows "a \<in> (\<lambda>i. entry_addr t (word_of_nat i)) ` set [lo..<hi]
     \<longleftrightarrow> (\<exists>i. lo \<le> unat i \<and> unat i < hi \<and> a = entry_addr t i)"
proof
  assume "a \<in> (\<lambda>i. entry_addr t (word_of_nat i)) ` set [lo..<hi]"
  then obtain i where "lo \<le> i" "i < hi" "a = entry_addr t (word_of_nat i)" by auto
  then show "\<exists>i. lo \<le> unat i \<and> unat i < hi \<and> a = entry_addr t i"
    using assms by (intro exI [of _ "word_of_nat i"]) (simp add: unat_index)
next
  assume "\<exists>i. lo \<le> unat i \<and> unat i < hi \<and> a = entry_addr t i"
  then obtain i where i: "lo \<le> unat i" "unat i < hi" "a = entry_addr t i" by blast
  then show "a \<in> (\<lambda>i. entry_addr t (word_of_nat i)) ` set [lo..<hi]"
    by (intro image_eqI [of _ _ "unat i"]) simp_all
qed

lemma entry_inj_on:
  assumes "hi \<le> 512"
  shows "inj_on (\<lambda>i. entry_addr t (word_of_nat i)) (set [lo..<hi])"
proof (rule inj_onI)
  fix i j
  assume ij: "i \<in> set [lo..<hi]" "j \<in> set [lo..<hi]"
    "entry_addr t (word_of_nat i) = entry_addr t (word_of_nat j)"
  then have "i < 512" "j < 512" using assms by auto
  then have "(word_of_nat i :: u64) < 512" "(word_of_nat j :: u64) < 512"
    by (simp_all add: word_less_nat_alt unat_index)
  from entry_cell_inj [OF this ij(3)] have "(word_of_nat i :: u64) = word_of_nat j" .
  with \<open>i < 512\<close> \<open>j < 512\<close> show "i = j" by (metis unat_index)
qed

lemma clear_user_half_apply:
  "clear_user_half t m a = (if \<exists>i < 256. a = entry_addr t i then 0 else m a)"
proof -
  have "256 \<le> (512 :: nat)" by simp
  note E = entry_image [OF this]
  show ?thesis unfolding clear_user_half_def fold_clear_apply E by (simp add: word_less_nat_alt)
qed

lemma copy_kernel_half_other:
  assumes "\<And>i. 256 \<le> i \<Longrightarrow> i < 512 \<Longrightarrow> a \<noteq> entry_addr t i"
  shows "copy_kernel_half master t m a = m a"
proof -
  note E = entry_image [OF order_refl]
  have "a \<notin> (\<lambda>i. entry_addr t (word_of_nat i)) ` set [256..<512]"
    unfolding E using assms [unfolded word_less_nat_alt word_le_nat_alt] by auto
  then show ?thesis unfolding copy_kernel_half_def by (rule fold_copy_other)
qed

lemma copy_kernel_half_apply:
  assumes disj: "\<And>i j. i < 512 \<Longrightarrow> j < 512 \<Longrightarrow> entry_addr master i \<noteq> entry_addr t j"
    and k: "256 \<le> k" "k < 512"
  shows "copy_kernel_half master t m (entry_addr t k) = m (entry_addr master k)"
proof -
  have "entry_addr master (word_of_nat i) \<noteq> entry_addr t (word_of_nat j)"
    if "i \<in> set [256..<512]" "j \<in> set [256..<512]" for i j
    using that by (intro disj) (simp_all only: set_upt atLeastLessThan_iff word_less_nat_alt unat_index, simp_all)
  moreover have "unat k \<in> set [256..<512]"
    using k by (simp only: set_upt atLeastLessThan_iff word_less_nat_alt word_le_nat_alt) simp
  ultimately have "copy_kernel_half master t m (entry_addr t (word_of_nat (unat k)))
      = m (entry_addr master (word_of_nat (unat k)))"
    unfolding copy_kernel_half_def
    by (intro fold_copy_apply [of "\<lambda>i. entry_addr t (word_of_nat i)" _ "\<lambda>i. entry_addr master (word_of_nat i)"]
        entry_inj_on distinct_upt) (rule order_refl | assumption | blast)+
  then show ?thesis by simp
qed

text \<open>A root whose user half is empty is well formed and maps nothing.\<close>

lemma empty_root_wf:
  assumes "pmm_inv (pmm s)" and "hhdm_ok s" and "f < total_pages (pmm s)" and "page_used (pmm s) f"
    and empty: "\<And>i. i \<in> H \<Longrightarrow> i < 512 \<Longrightarrow> mem s (entry_addr (frame_addr s f) i) = 0"
  shows "pt_wf H s (frame_addr s f)"
    and "PML4_INDEX v \<in> H \<Longrightarrow> mmu_page (frame_addr s f) v s = None"
proof -
  have none: "walk s (frame_addr s f) p = (if p = [] then Some (frame_addr s f) else None)"
    if "table_path H p" for p
    using that empty by (cases p) (auto simp: table_path_def child_def)
  then show wf: "pt_wf H s (frame_addr s f)"
    using assms unfolding pt_wf_def tables_def by (auto split: if_splits)
  assume v: "PML4_INDEX v \<in> H"
  with none [OF table_path_vpath [OF v]] show "mmu_page (frame_addr s f) v s = None"
    by (simp add: mmu_page_def vpath_def)
qed


lemma create_process_pml4_result:
  assumes inv: "pmm_inv (pmm s)" and ok: "hhdm_ok s" and free: "used_pages (pmm s) < total_pages (pmm s)"
    and master: "k < total_pages (pmm s)" "page_used (pmm s) k"
  obtains f s' where "vmm_create_process_pml4 (frame_addr s k) s = Some (f * PAGE_SIZE, s')"
    and "f < total_pages (pmm s)" and "\<not> page_used (pmm s) f" and "page_used (pmm s') f"
    and "pmm_inv (pmm s')" and "total_pages (pmm s') = total_pages (pmm s)"
    and "limine_hhdm (pmm s') = limine_hhdm (pmm s)"
    and "\<And>q. page_used (pmm s') q \<longleftrightarrow> q = f \<or> page_used (pmm s) q"
    and "\<And>i. i < 256 \<Longrightarrow> mem s' (entry_addr (frame_addr s f) i) = 0"
    and "\<And>i. 256 \<le> i \<Longrightarrow> i < 512 \<Longrightarrow>
       mem s' (entry_addr (frame_addr s f) i) = mem s (entry_addr (frame_addr s k) i)"
    and "\<And>a. (\<forall>i < 512. a \<noteq> entry_addr (frame_addr s f) i) \<Longrightarrow> mem s' a = mem s a"
proof -
  obtain f m where f: "pmm_alloc_page (pmm s) = Some (frame_addr s f, m)"
    "f < total_pages (pmm s)" "\<not> page_used (pmm s) f" "pmm_inv m"
    and m: "m = (bitmap_set f (pmm s))\<lparr>last_search_pos := f, used_pages := used_pages (pmm s) + 1\<rparr>"
    using pmm_alloc_page_correct [OF inv free] unfolding frame_addr_def by metis
  let ?t = "frame_addr s f" and ?k = "frame_addr s k"
  define s' where "s' = s\<lparr>pmm := m, mem := copy_kernel_half ?k ?t (clear_user_half ?t (mem s))\<rparr>"
  have "k \<noteq> f" using master f by auto
  then have disj: "entry_addr ?k i \<noteq> entry_addr ?t j" if "i < 512" "j < 512" for i j
    using entry_addr_inj [OF ok master(1) f(2) that] by auto
  have r: "vmm_create_process_pml4 ?k s = Some (f * PAGE_SIZE, s')"
    using f(1) frame_addr_nonzero [OF ok f(2)]
    by (simp add: vmm_create_process_pml4_def s'_def virt_to_phys_def m frame_addr_def)
  have low: "mem s' (entry_addr ?t i) = 0" if "i < 256" for i
  proof -
    from that have i: "i < 512" using less_trans [of i 256 512] by simp
    have "entry_addr ?t i \<noteq> entry_addr ?t j" if "256 \<le> j" "j < 512" for j
      using entry_cell_inj [OF i that(2)] that(1) \<open>i < 256\<close> by (metis leD)
    with that show ?thesis
      by (auto simp: s'_def copy_kernel_half_other clear_user_half_apply)
  qed
  have high: "mem s' (entry_addr ?t i) = mem s (entry_addr ?k i)" if "256 \<le> i" "i < 512" for i
  proof -
    have "entry_addr ?k i \<noteq> entry_addr ?t j" if "j < 256" for j
      using disj [OF \<open>i < 512\<close>] less_trans [OF that, of 512] by simp
    with copy_kernel_half_apply [of ?k ?t i "clear_user_half ?t (mem s)"] disj that show ?thesis
      by (auto simp: s'_def clear_user_half_apply)
  qed
  have other: "mem s' a = mem s a" if "\<forall>i < 512. a \<noteq> entry_addr ?t i" for a
  proof -
    have "a \<noteq> entry_addr ?t j" if "j < 256" for j
      using \<open>\<forall>i < 512. a \<noteq> entry_addr ?t i\<close> less_trans [OF that, of 512] by simp
    with that show ?thesis
      by (auto simp: s'_def copy_kernel_half_other clear_user_half_apply)
  qed
  show ?thesis
    using that [OF r f(2,3)] low high other f(4) by (simp add: s'_def m)
qed

lemma unmap_page_cases:
  assumes wf: "pt_wf H s root" and v: "PML4_INDEX v \<in> H"
  shows "vmm_unmap_page root v s = s \<and> vmm_get_mapping root v s = 0
     \<or> (\<exists>pt. walk s root (vpath v) = Some pt \<and>
          vmm_unmap_page root v s = invlpg v (s\<lparr>mem := (mem s)(entry_addr pt (PT_INDEX v) := 0)\<rparr>))"
  by (auto simp: vmm_unmap_page_def vmm_get_mapping_def get_table_noalloc_child vpath_def Let_def
      split: option.splits)

subsection \<open>Properties\<close>

text \<open>
  C1. Mapping and translation are inverse: with three frames left (the most that a mapping can
  need for tables), \<^verbatim>\<open>vmm_map_page\<close> returns, keeps the tables a tree of allocated frames, and
  afterwards \<^verbatim>\<open>vmm_get_mapping\<close> gives the mapped frame at the mapped page and what it gave
  before at every other page; the TLB entry of the page is invalidated.
\<close>

theorem vmm_map_page_ok:
  assumes "pt_wf H s root" and "PML4_INDEX virt \<in> H"
    and "unat (used_pages (pmm s)) + 3 \<le> unat (total_pages (pmm s))"
    and "flags AND PAGE_ALIGN_MASK = 0"
  shows "\<exists>s'. vmm_map_page root virt phys flags s = Some s' \<and> pt_wf H s' root
     \<and> vmm_get_mapping root virt s' = phys AND PAGE_ALIGN_MASK
     \<and> (\<forall>w. PML4_INDEX w \<in> H \<longrightarrow> \<not> same_vpage virt w \<longrightarrow>
          vmm_get_mapping root w s' = vmm_get_mapping root w s)
     \<and> invlpg_log s' = virt # invlpg_log s"
proof -
  have "(phys OR flags) AND PAGE_ALIGN_MASK = phys AND PAGE_ALIGN_MASK"
    using assms(4) by (simp add: bit.conj_disj_distrib2)
  then obtain s' where s': "vmm_map_page root virt phys flags s = Some s'" "pt_wf H s' root"
    "mmu_page root virt s' = Some (phys AND PAGE_ALIGN_MASK)"
    "\<And>w. PML4_INDEX w \<in> H \<Longrightarrow> \<not> same_vpage virt w \<Longrightarrow> mmu_page root w s' = mmu_page root w s"
    "invlpg_log s' = virt # invlpg_log s"
    using map_page_contract [OF assms(1-3), of phys flags] by metis
  then show ?thesis
    by (simp add: get_mapping_page [OF assms(1)] get_mapping_page [OF s'(2)] assms(2))
qed

definition vm_example :: vm_state where
  "vm_example = \<lparr>pmm = \<lparr>pmm_bitmap = 0, pmm_bitmap_phys = 0, total_pages = 64, used_pages = 2,
       bitmap_size_bytes = 8, bitmap_size_pages = 1, limine_hhdm = 0x10000, last_search_pos = 0,
       ram = (\<lambda>a. if a = 0 then 3 else 0)\<rparr>,
     mem = (\<lambda>_. 0), cr3 = 0, invlpg_log = []\<rparr>"

lemma vm_example_used: "page_used (pmm vm_example) p \<longleftrightarrow> p = 0 \<or> p = 1"
proof
  assume "page_used (pmm vm_example) p"
  then have "drop_bit 3 p = 0" "bit (3 :: u8) (unat (p AND 7))"
    by (auto simp: page_used_def vm_example_def bitmap_byte_def split: if_splits)
  moreover have "(3 :: u8) = mask 2" by (simp add: mask_eq_exp_minus_1)
  ultimately have "drop_bit 3 p = 0" "unat (p AND 7) < 2"
    by (simp_all only: bit_mask_iff)
  moreover from this(2) have "unat (p AND 7) = 0 \<or> unat (p AND 7) = 1" by auto
  ultimately show "p = 0 \<or> p = 1"
    using bit_position_inj [of p 0] bit_position_inj [of p 1] by auto
qed (auto simp: page_used_def vm_example_def bitmap_byte_def)

lemma vm_example_inv: "pmm_inv (pmm vm_example)"
proof -
  have "total_pages (pmm vm_example) = 64" by (simp add: vm_example_def)
  then have "used_set (pmm vm_example) = {0, 1}"
    by (auto simp: used_set_def vm_example_used)
  then show ?thesis by (simp add: pmm_inv_def) (simp add: vm_example_def)
qed

lemma vm_example_ok: "hhdm_ok vm_example"
  by (simp add: hhdm_ok_def vm_example_def)

lemma vm_example_wf:
  "pt_wf H vm_example 0x10000" "pt_wf H vm_example 0x11000"
proof -
  have "total_pages (pmm vm_example) = 64" "mem vm_example = (\<lambda>_. 0)" by (simp_all add: vm_example_def)
  moreover have "frame_addr vm_example 0 = 0x10000" "frame_addr vm_example 1 = 0x11000"
    by (simp_all add: frame_addr_def vm_example_def)
  ultimately show "pt_wf H vm_example 0x10000" "pt_wf H vm_example 0x11000"
    using empty_root_wf(1) [OF vm_example_inv vm_example_ok, of 0 H]
      empty_root_wf(1) [OF vm_example_inv vm_example_ok, of 1 H]
    by (simp_all add: vm_example_used)
qed

lemma vm_example_tables: "tables user_half vm_example r = {r}"
proof -
  have "mem vm_example = (\<lambda>_. 0)" by (simp add: vm_example_def)
  then have "walk vm_example r p = (if p = [] then Some r else None)" for p
    by (cases p) (simp_all add: child_def)
  then show ?thesis by (auto simp: tables_def table_path_def)
qed

lemma vm_example_map:
  "PML4_INDEX 0x400000 \<in> user_half"
  "unat (used_pages (pmm vm_example)) + 3 \<le> unat (total_pages (pmm vm_example))"
  "7 AND PAGE_ALIGN_MASK = 0"
  by (simp_all add: PML4_INDEX_def user_half_def vm_example_def PAGE_ALIGN_MASK_def)

theorem vmm_map_page_ok_witness:
  "\<exists>s'. vmm_map_page 0x10000 0x400000 0x5000 7 vm_example = Some s'
     \<and> vmm_get_mapping 0x10000 0x400000 s' = 0x5000 AND PAGE_ALIGN_MASK"
  using vmm_map_page_ok [OF vm_example_wf(1) vm_example_map, of "0x5000"] by blast

text \<open>
  C8. Address spaces are isolated: mapping a page below one root changes no translation below
  another root whose tables are disjoint from the first one's, and keeps it well formed.
\<close>

theorem vmm_map_page_isolated:
  assumes "pt_wf H s root" and "pt_wf K s other" and "tables H s root \<inter> tables K s other = {}"
    and "PML4_INDEX virt \<in> H" and "unat (used_pages (pmm s)) + 3 \<le> unat (total_pages (pmm s))"
    and "vmm_map_page root virt phys flags s = Some s'"
  shows "pt_wf K s' other
     \<and> (\<forall>w. PML4_INDEX w \<in> K \<longrightarrow> vmm_get_mapping other w s' = vmm_get_mapping other w s)"
proof -
  obtain s'' where s'': "vmm_map_page root virt phys flags s = Some s''" "pt_wf H s'' root" "grows H root s s''"
    using map_page_contract [OF assms(1,4,5), of phys flags] by metis
  with assms(6) have "s'' = s'" by simp
  with s'' have gr: "grows H root s s'" and inv: "pmm_inv (pmm s')" by (simp_all add: pt_wf_def)
  note wf' = grows_wf_other [OF gr assms(1,2,3) inv]
  show ?thesis
    using wf' grows_mapping_other [OF gr assms(1,2,3)]
    by (simp add: get_mapping_page [OF assms(2)] get_mapping_page [OF wf'])
qed


theorem vmm_map_page_isolated_witness:
  "\<exists>s'. vmm_map_page 0x10000 0x400000 0x5000 7 vm_example = Some s' \<and> pt_wf user_half s' 0x11000"
proof -
  obtain s' where s': "vmm_map_page 0x10000 0x400000 0x5000 7 vm_example = Some s'"
    using map_page_contract [OF vm_example_wf(1) vm_example_map(1,2)] by metis
  have "tables user_half vm_example 0x10000 \<inter> tables user_half vm_example 0x11000 = {}"
    by (simp add: vm_example_tables)
  from vmm_map_page_isolated [OF vm_example_wf this vm_example_map(1,2) s'] s' show ?thesis by blast
qed

text \<open>
  \<^verbatim>\<open>vmm_unmap_page\<close> removes exactly one translation: the page maps to 0 afterwards, every
  other page keeps its mapping, and the tables stay well formed.
\<close>

theorem vmm_unmap_page_ok:
  assumes wf: "pt_wf H s root" and v: "PML4_INDEX virt \<in> H"
  shows "pt_wf H (vmm_unmap_page root virt s) root
     \<and> vmm_get_mapping root virt (vmm_unmap_page root virt s) = 0
     \<and> (\<forall>w. PML4_INDEX w \<in> H \<longrightarrow> \<not> same_vpage virt w \<longrightarrow>
          vmm_get_mapping root w (vmm_unmap_page root virt s) = vmm_get_mapping root w s)"
  using unmap_page_cases [OF wf v]
proof (elim disjE exE conjE)
  assume "vmm_unmap_page root virt s = s" "vmm_get_mapping root virt s = 0"
  with wf show ?thesis by simp
next
  fix pt
  assume pt: "walk s root (vpath virt) = Some pt"
    and s': "vmm_unmap_page root virt s = invlpg virt (s\<lparr>mem := (mem s)(entry_addr pt (PT_INDEX virt) := 0)\<rparr>)"
  have "mem (vmm_unmap_page root virt s) = (mem s)(entry_addr pt (PT_INDEX virt) := 0)"
    "pmm (vmm_unmap_page root virt s) = pmm s" by (simp_all add: s' invlpg_def)
  note L = leaf_write [OF wf v pt this]
  show ?thesis
    using L(1,3,4) by (simp add: get_mapping_page [OF wf] get_mapping_page [OF L(1)] v)
qed

theorem vmm_unmap_page_ok_witness: "vmm_get_mapping 0x10000 0x400000 (vmm_unmap_page 0x10000 0x400000 vm_example) = 0"
  using vmm_unmap_page_ok [OF vm_example_wf(1) vm_example_map(1)] by blast

text \<open>
  A new process address space starts with an empty user half and the kernel's upper half:
  \<^verbatim>\<open>vmm_create_process_pml4\<close> returns the physical address of a frame that was free, no user page
  is mapped, the upper 256 entries are those of the kernel's table, and that table is unchanged.
\<close>

theorem vmm_create_process_pml4_ok:
  assumes "pmm_inv (pmm s)" and "hhdm_ok s" and "used_pages (pmm s) < total_pages (pmm s)"
    and "k < total_pages (pmm s)" and "page_used (pmm s) k"
  shows "\<exists>f s'. vmm_create_process_pml4 (frame_addr s k) s = Some (f * PAGE_SIZE, s')
     \<and> \<not> page_used (pmm s) f \<and> pt_wf user_half s' (frame_addr s f)
     \<and> (\<forall>v. PML4_INDEX v \<in> user_half \<longrightarrow> vmm_get_mapping (frame_addr s f) v s' = 0)
     \<and> (\<forall>i. 256 \<le> i \<longrightarrow> i < 512 \<longrightarrow>
          mem s' (entry_addr (frame_addr s f) i) = mem s (entry_addr (frame_addr s k) i))
     \<and> (\<forall>i < 512. mem s' (entry_addr (frame_addr s k) i) = mem s (entry_addr (frame_addr s k) i))"
proof -
  obtain f s' where r: "vmm_create_process_pml4 (frame_addr s k) s = Some (f * PAGE_SIZE, s')"
    and f: "f < total_pages (pmm s)" "\<not> page_used (pmm s) f" "page_used (pmm s') f"
    and p: "pmm_inv (pmm s')" "total_pages (pmm s') = total_pages (pmm s)"
      "limine_hhdm (pmm s') = limine_hhdm (pmm s)"
    and low: "\<And>i. i < 256 \<Longrightarrow> mem s' (entry_addr (frame_addr s f) i) = 0"
    and high: "\<And>i. 256 \<le> i \<Longrightarrow> i < 512 \<Longrightarrow>
       mem s' (entry_addr (frame_addr s f) i) = mem s (entry_addr (frame_addr s k) i)"
    and other: "\<And>a. (\<forall>i < 512. a \<noteq> entry_addr (frame_addr s f) i) \<Longrightarrow> mem s' a = mem s a"
    using create_process_pml4_result [OF assms] by metis
  have ok': "hhdm_ok s'" using assms(2) p by (simp add: hhdm_ok_def)
  have addr: "frame_addr s' f = frame_addr s f" by (simp add: frame_addr_def p)
  have low': "mem s' (entry_addr (frame_addr s' f) i) = 0" if "i \<in> user_half" "i < 512" for i
    using that low by (simp add: addr user_half_def)
  note E = empty_root_wf [OF p(1) ok' _ f(3) low', unfolded addr p(2), OF f(1)]
  have "k \<noteq> f" using assms(5) f(2) by auto
  then have "mem s' (entry_addr (frame_addr s k) i) = mem s (entry_addr (frame_addr s k) i)" if "i < 512" for i
    using entry_addr_inj [OF assms(2,4) f(1) that] by (intro other) blast
  moreover have "vmm_get_mapping (frame_addr s f) v s' = 0" if "PML4_INDEX v \<in> user_half" for v
    using that E(2) by (simp add: get_mapping_page [OF E(1)])
  ultimately show ?thesis using r f(2) E(1) high by blast
qed

theorem vmm_create_process_pml4_ok_witness:
  "\<exists>f s'. vmm_create_process_pml4 (frame_addr vm_example 0) vm_example = Some (f * PAGE_SIZE, s')
     \<and> pt_wf user_half s' (frame_addr vm_example f)"
proof -
  have "used_pages (pmm vm_example) < total_pages (pmm vm_example)" "0 < total_pages (pmm vm_example)"
    by (simp_all add: vm_example_def)
  then show ?thesis
    using vmm_create_process_pml4_ok [OF vm_example_inv vm_example_ok _ _ iffD2 [OF vm_example_used, of 0]]
    by blast
qed

end
