(* ===== verification/PageMap.thy ===== *)
theory PageMap
  imports Vmm
begin

unbundle bit_operations_syntax

text \<open>
  Taking a fresh frame and mapping it: the step that the kernel heap, the program loader, the
  process stacks and the \<^verbatim>\<open>sbrk\<close> system call share. \<open>private_map\<close> is the invariant they keep: every
  page of the address range maps to a frame of its own that is marked used and holds no page
  table.
\<close>

definition private_map :: "u64 set \<Rightarrow> vm_state \<Rightarrow> u64 \<Rightarrow> bool" where
  "private_map H v root \<longleftrightarrow> pt_wf H v root
     \<and> (\<forall>w a. PML4_INDEX w \<in> H \<longrightarrow> mmu_page root w v = Some a \<longrightarrow>
          (\<exists>f < total_pages (pmm v). page_used (pmm v) f \<and> a = f * PAGE_SIZE \<and> frame_addr v f \<notin> tables H v root)
          \<and> (\<forall>w'. PML4_INDEX w' \<in> H \<longrightarrow> mmu_page root w' v = Some a \<longrightarrow> same_vpage w w'))"

lemma private_map_wf: "private_map H v root \<Longrightarrow> pt_wf H v root"
  by (simp add: private_map_def)

lemma private_map_frame:
  assumes "private_map H v root" "PML4_INDEX w \<in> H" "mmu_page root w v = Some a"
  obtains f where "f < total_pages (pmm v)" "page_used (pmm v) f" "a = f * PAGE_SIZE"
    "frame_addr v f \<notin> tables H v root"
  using assms unfolding private_map_def by blast

lemma private_map_inj:
  "private_map H v root \<Longrightarrow> PML4_INDEX w \<in> H \<Longrightarrow> PML4_INDEX w' \<in> H \<Longrightarrow> mmu_page root w v = Some a \<Longrightarrow>
   mmu_page root w' v = Some a \<Longrightarrow> same_vpage w w'"
  unfolding private_map_def by blast

text \<open>Marking more frames used changes no table.\<close>

lemma more_used_view:
  assumes "limine_hhdm p = limine_hhdm (pmm v)"
  shows "child (v\<lparr>pmm := p\<rparr>) t i = child v t i" and "walk (v\<lparr>pmm := p\<rparr>) t q = walk v t q"
    and "tables H (v\<lparr>pmm := p\<rparr>) t = tables H v t"
    and "mmu_page t w (v\<lparr>pmm := p\<rparr>) = mmu_page t w v"
    and "frame_addr (v\<lparr>pmm := p\<rparr>) f = frame_addr v f"
proof -
  show c: "child (v\<lparr>pmm := p\<rparr>) t i = child v t i" for t i
    using assms by (simp add: child_def phys_to_virt_def Let_def)
  show w: "walk (v\<lparr>pmm := p\<rparr>) t q = walk v t q" for t q
    by (induction q arbitrary: t) (auto simp: c split: option.split)
  show "tables H (v\<lparr>pmm := p\<rparr>) t = tables H v t" by (simp add: tables_def w)
  show "mmu_page t w (v\<lparr>pmm := p\<rparr>) = mmu_page t w v"
    by (simp add: mmu_page_def w leaf_def split: option.split)
  show "frame_addr (v\<lparr>pmm := p\<rparr>) f = frame_addr v f" using assms by (simp add: frame_addr_def)
qed

lemma more_used_wf:
  assumes wf: "pt_wf H v root" and inv: "pmm_inv p"
    and same: "limine_hhdm p = limine_hhdm (pmm v)" "total_pages p = total_pages (pmm v)"
    and used: "\<And>q. page_used (pmm v) q \<Longrightarrow> page_used p q"
  shows "pt_wf H (v\<lparr>pmm := p\<rparr>) root"
proof -
  have "hhdm_ok (v\<lparr>pmm := p\<rparr>)" using wf same by (simp add: pt_wf_def hhdm_ok_def)
  moreover have "\<exists>q<total_pages p. page_used p q \<and> t = frame_addr v q" if "t \<in> tables H v root" for t
    using wf that used same unfolding pt_wf_def by metis
  ultimately show ?thesis
    using wf inv by (simp add: pt_wf_def more_used_view [OF same(1)] same)
qed

lemma page_bits_not_flags:
  assumes "unat (f :: u64) < 2 ^ 40" and "flags AND PAGE_ALIGN_MASK = 0"
  shows "(f * 4096 OR flags) AND PAGE_ALIGN_MASK = f * 4096"
proof -
  have "(f * 4096 OR 7) AND PAGE_ALIGN_MASK = f * 4096" by (rule frame_phys_entry [OF assms(1)])
  moreover have "7 AND PAGE_ALIGN_MASK = 0" by (simp add: PAGE_ALIGN_MASK_def)
  ultimately show ?thesis using assms(2) by (simp add: bit.conj_disj_distrib2)
qed

lemma frame_phys_inj:
  "unat (f :: u64) < 2 ^ 40 \<Longrightarrow> unat g < 2 ^ 40 \<Longrightarrow> f * 4096 = g * 4096 \<longleftrightarrow> f = g"
  by (simp add: word_unat_eq_iff unat_word_ariths)

lemma same_vpage_page: "same_vpage a b \<Longrightarrow> mmu_page root a v = mmu_page root b v"
  by (simp add: same_vpage_def mmu_page_def leaf_def split: option.split)

lemma same_vpage_mapping: "same_vpage a b \<Longrightarrow> vmm_get_mapping root a v = vmm_get_mapping root b v"
  by (simp add: same_vpage_def vmm_get_mapping_def vpath_def Let_def)

lemma same_vpage_trans: "same_vpage a b \<Longrightarrow> same_vpage a c \<Longrightarrow> same_vpage b c"
  by (simp add: same_vpage_def)

lemma frame_addr_inj:
  assumes "hhdm_ok v" "p < total_pages (pmm v)" "q < total_pages (pmm v)" "frame_addr v p = frame_addr v q"
  shows "p = q"
  using assms frame_phys_inj [OF frame_small [OF assms(1,2)] frame_small [OF assms(1,3)]]
  by (simp add: frame_addr_def)

text \<open>A frame that is in use and no table does not become a table while tables grow.\<close>

lemma grows_not_table:
  assumes "grows H root v v'" "hhdm_ok v" "q < total_pages (pmm v)" "page_used (pmm v) q"
    "frame_addr v q \<notin> tables H v root"
  shows "frame_addr v q \<notin> tables H v' root"
proof
  assume "frame_addr v q \<in> tables H v' root"
  then have "fresh_frame v (frame_addr v q)" using assms(1,5) by (auto simp: grows_def)
  then obtain g where "g < total_pages (pmm v)" "\<not> page_used (pmm v) g" "frame_addr v q = frame_addr v g"
    by (auto simp: fresh_frame_def)
  with frame_addr_inj [OF assms(2,3)] assms(4) show False by blast
qed

text \<open>
  Mapping a frame that is in use, holds no table and is not mapped yet: the invariant is kept and
  only the mapping of \<open>va\<close> changes.
\<close>

lemma map_owned_frame:
  assumes inv: "private_map H v root" and va: "PML4_INDEX va \<in> H"
    and f: "f < total_pages (pmm v)" "page_used (pmm v) f" "frame_addr v f \<notin> tables H v root"
    and unmapped: "\<And>w. PML4_INDEX w \<in> H \<Longrightarrow> mmu_page root w v \<noteq> Some (f * PAGE_SIZE)"
    and free: "unat (used_pages (pmm v)) + 3 \<le> unat (total_pages (pmm v))"
    and flags: "flags AND PAGE_ALIGN_MASK = 0"
  obtains v' where "vmm_map_page root va (f * PAGE_SIZE) flags v = Some v'" and "private_map H v' root"
    and "grows H root v v'" and "unat (used_pages (pmm v')) \<le> unat (used_pages (pmm v)) + 3"
    and "mmu_page root va v' = Some (f * PAGE_SIZE)"
    and "\<And>w. PML4_INDEX w \<in> H \<Longrightarrow> \<not> same_vpage va w \<Longrightarrow> mmu_page root w v' = mmu_page root w v"
proof -
  note wf = private_map_wf [OF inv]
  have hh: "hhdm_ok v" using wf by (simp add: pt_wf_def)
  note contract = map_page_contract [OF wf va free]
  obtain v' where
    m: "vmm_map_page root va (f * PAGE_SIZE) flags v = Some v'" "pt_wf H v' root" "grows H root v v'"
       "unat (used_pages (pmm v')) \<le> unat (used_pages (pmm v)) + 3"
       "mmu_page root va v' = Some ((f * PAGE_SIZE OR flags) AND PAGE_ALIGN_MASK)"
       "\<And>w. PML4_INDEX w \<in> H \<Longrightarrow> \<not> same_vpage va w \<Longrightarrow> mmu_page root w v' = mmu_page root w v"
    by (rule contract [of "f * PAGE_SIZE" flags]) blast
  have map_va: "mmu_page root va v' = Some (f * PAGE_SIZE)"
    using page_bits_not_flags [OF frame_small [OF hh f(1)] flags] m(5) by simp
  have G: "total_pages (pmm v') = total_pages (pmm v)" "\<And>q. page_used (pmm v) q \<Longrightarrow> page_used (pmm v') q"
    "\<And>q. frame_addr v' q = frame_addr v q"
    using m(3) by (simp_all add: grows_def frame_addr_def)
  note keep = grows_not_table [OF m(3) hh]
  have frame: "\<exists>q < total_pages (pmm v'). page_used (pmm v') q \<and> a = q * PAGE_SIZE \<and> frame_addr v' q \<notin> tables H v' root"
    if w: "PML4_INDEX w \<in> H" "mmu_page root w v' = Some a" for w a
  proof (cases "same_vpage va w")
    case True
    then have "a = f * PAGE_SIZE" using same_vpage_page map_va w(2) by (metis option.inject)
    then show ?thesis using keep [OF f] f G by auto
  next
    case False
    then have "mmu_page root w v = Some a" using m(6) w by simp
    from private_map_frame [OF inv w(1) this] show ?thesis using keep G by metis
  qed
  have inj: "same_vpage w w'"
    if w: "PML4_INDEX w \<in> H" "mmu_page root w v' = Some a" "PML4_INDEX w' \<in> H" "mmu_page root w' v' = Some a" for w w' a
  proof (cases "a = f * PAGE_SIZE")
    case True
    then have "same_vpage va w" "same_vpage va w'" using m(6) w unmapped by metis+
    then show ?thesis by (rule same_vpage_trans)
  next
    case False
    then have "\<not> same_vpage va w" "\<not> same_vpage va w'" using same_vpage_page map_va w by (metis option.inject)+
    then have "mmu_page root w v = Some a" "mmu_page root w' v = Some a" using m(6) w by simp_all
    then show ?thesis using private_map_inj [OF inv w(1,3)] by blast
  qed
  have "private_map H v' root" unfolding private_map_def using m(2) frame inj by blast
  then show ?thesis using that m(1,3,4,6) map_va by blast
qed

text \<open>The shared step: one frame from the allocator, mapped at \<open>va\<close>.\<close>

lemma take_fresh_frame:
  assumes inv: "private_map H v root" and free: "used_pages (pmm v) < total_pages (pmm v)"
  obtains f p where "pmm_alloc_page (pmm v) = Some (f * PAGE_SIZE + limine_hhdm (pmm v), p)"
    and "f < total_pages (pmm v)" and "\<not> page_used (pmm v) f" and "private_map H (v\<lparr>pmm := p\<rparr>) root"
    and "limine_hhdm p = limine_hhdm (pmm v)" and "total_pages p = total_pages (pmm v)"
    and "used_pages p = used_pages (pmm v) + 1" and "pmm_inv p"
    and "\<And>q. page_used p q \<longleftrightarrow> q = f \<or> page_used (pmm v) q"
    and "frame_addr v f \<notin> tables H v root"
    and "\<And>w. PML4_INDEX w \<in> H \<Longrightarrow> mmu_page root w v \<noteq> Some (f * PAGE_SIZE)"
proof -
  note wf = private_map_wf [OF inv]
  have pinv: "pmm_inv (pmm v)" and hh: "hhdm_ok v" using wf by (simp_all add: pt_wf_def)
  from pmm_alloc_page_correct [OF pinv free] obtain f p where
    a: "pmm_alloc_page (pmm v) = Some (f * PAGE_SIZE + limine_hhdm (pmm v), p)" "f < total_pages (pmm v)"
       "\<not> page_used (pmm v) f" "used_pages p = used_pages (pmm v) + 1" "pmm_inv p"
       "p = (bitmap_set f (pmm v))\<lparr>last_search_pos := f, used_pages := used_pages (pmm v) + 1\<rparr>"
    by metis
  have same: "limine_hhdm p = limine_hhdm (pmm v)" "total_pages p = total_pages (pmm v)"
    and used: "\<And>q. page_used p q \<longleftrightarrow> q = f \<or> page_used (pmm v) q"
    by (simp_all add: a(6))
  note view = more_used_view [OF same(1)]
  have wf1: "pt_wf H (v\<lparr>pmm := p\<rparr>) root" using more_used_wf [OF wf a(5) same] used by simp
  have pm: "private_map H (v\<lparr>pmm := p\<rparr>) root"
    unfolding private_map_def view using inv wf1 same used by (simp add: private_map_def) blast
  have tab: "frame_addr v f \<notin> tables H v root"
    using wf a(2,3) frame_addr_inj [OF hh a(2)] unfolding pt_wf_def by metis
  have "mmu_page root w v \<noteq> Some (f * PAGE_SIZE)" if w: "PML4_INDEX w \<in> H" for w
  proof
    assume "mmu_page root w v = Some (f * PAGE_SIZE)"
    from private_map_frame [OF inv w this] obtain g where
      "g < total_pages (pmm v)" "page_used (pmm v) g" "f * PAGE_SIZE = g * PAGE_SIZE" by metis
    then show False using frame_phys_inj frame_small [OF hh] a(2,3) by blast
  qed
  then show ?thesis using that [OF a(1-3) pm same a(4,5) used tab] by blast
qed

lemma map_fresh_frame:
  assumes inv: "private_map H v root" and va: "PML4_INDEX va \<in> H"
    and free: "unat (used_pages (pmm v)) + 4 \<le> unat (total_pages (pmm v))"
    and flags: "flags AND PAGE_ALIGN_MASK = 0"
  obtains f p v' where "pmm_alloc_page (pmm v) = Some (f * PAGE_SIZE + limine_hhdm (pmm v), p)"
    and "limine_hhdm p = limine_hhdm (pmm v)" and "\<not> page_used (pmm v) f" and "f < total_pages (pmm v)"
    and "vmm_map_page root va (f * PAGE_SIZE) flags (v\<lparr>pmm := p\<rparr>) = Some v'"
    and "private_map H v' root" and "total_pages (pmm v') = total_pages (pmm v)"
    and "limine_hhdm (pmm v') = limine_hhdm (pmm v)"
    and "unat (used_pages (pmm v')) \<le> unat (used_pages (pmm v)) + 4"
    and "mmu_page root va v' = Some (f * PAGE_SIZE)"
    and "\<And>w. PML4_INDEX w \<in> H \<Longrightarrow> \<not> same_vpage va w \<Longrightarrow> mmu_page root w v' = mmu_page root w v"
    and "grows H root (v\<lparr>pmm := p\<rparr>) v'" and "\<And>q. page_used p q \<longleftrightarrow> q = f \<or> page_used (pmm v) q"
proof -
  have "used_pages (pmm v) < total_pages (pmm v)" using free by (simp add: word_less_nat_alt)
  from take_fresh_frame [OF inv this] obtain f p where
    a: "pmm_alloc_page (pmm v) = Some (f * PAGE_SIZE + limine_hhdm (pmm v), p)" "f < total_pages (pmm v)"
       "\<not> page_used (pmm v) f" "private_map H (v\<lparr>pmm := p\<rparr>) root" "limine_hhdm p = limine_hhdm (pmm v)"
       "total_pages p = total_pages (pmm v)" "used_pages p = used_pages (pmm v) + 1"
       "\<And>q. page_used p q \<longleftrightarrow> q = f \<or> page_used (pmm v) q" "frame_addr v f \<notin> tables H v root"
       "\<And>w. PML4_INDEX w \<in> H \<Longrightarrow> mmu_page root w v \<noteq> Some (f * PAGE_SIZE)"
    by metis
  note view = more_used_view [OF a(5)]
  have u: "unat (used_pages p) = unat (used_pages (pmm v)) + 1"
    using a(7) free unat_bound [of "total_pages (pmm v)"] by (simp add: unat_word_ariths)
  have pre: "f < total_pages (pmm (v\<lparr>pmm := p\<rparr>))" "page_used (pmm (v\<lparr>pmm := p\<rparr>)) f"
    "frame_addr (v\<lparr>pmm := p\<rparr>) f \<notin> tables H (v\<lparr>pmm := p\<rparr>) root"
    "\<And>w. PML4_INDEX w \<in> H \<Longrightarrow> mmu_page root w (v\<lparr>pmm := p\<rparr>) \<noteq> Some (f * PAGE_SIZE)"
    "unat (used_pages (pmm (v\<lparr>pmm := p\<rparr>))) + 3 \<le> unat (total_pages (pmm (v\<lparr>pmm := p\<rparr>)))"
    using a u free by (simp_all add: view)
  obtain v' where m: "vmm_map_page root va (f * PAGE_SIZE) flags (v\<lparr>pmm := p\<rparr>) = Some v'" "private_map H v' root"
    "grows H root (v\<lparr>pmm := p\<rparr>) v'" "unat (used_pages (pmm v')) \<le> unat (used_pages (pmm (v\<lparr>pmm := p\<rparr>))) + 3"
    "mmu_page root va v' = Some (f * PAGE_SIZE)"
    "\<And>w. PML4_INDEX w \<in> H \<Longrightarrow> \<not> same_vpage va w \<Longrightarrow> mmu_page root w v' = mmu_page root w (v\<lparr>pmm := p\<rparr>)"
    by (rule map_owned_frame [OF a(4) va pre(1-3) _ pre(5) flags]) (erule pre(4), rule that, assumption+)
  show ?thesis
  proof (rule that [OF a(1,5,3,2) m(1,2) _ _ _ m(5) _ m(3) a(8)])
    show "total_pages (pmm v') = total_pages (pmm v)" using grows_total [OF m(3)] a(6) by simp
    show "limine_hhdm (pmm v') = limine_hhdm (pmm v)" using m(3) a(5) by (simp add: grows_def)
    show "unat (used_pages (pmm v')) \<le> unat (used_pages (pmm v)) + 4" using m(4) u by simp
    show "mmu_page root w v' = mmu_page root w v" if "PML4_INDEX w \<in> H" "\<not> same_vpage va w" for w
      using m(6) that view(4) by simp
  qed
qed

lemma vm_example_unmapped: "mmu_page root w vm_example = None"
  by (simp add: mmu_page_def vpath_def child_def vm_example_def)

lemma vm_example_private: "private_map H vm_example 0x10000"
  by (simp add: private_map_def vm_example_wf vm_example_unmapped)

end
