(* ===== verification/HeapBlocks.thy ===== *)
theory HeapBlocks
  imports Prelude "HOL-Library.Monad_Syntax"
begin

unbundle bit_operations_syntax

text \<open>
  The block list that both heap allocators of the system keep (\<^verbatim>\<open>src/src/memory/kheap.c\<close> in the
  kernel, \<^verbatim>\<open>src/userspace/libc/heap.c\<close> in the C library): a doubly linked list of headers, each
  followed by its payload. The store maps the address of a header to its contents; \<open>40\<close> is
  \<^verbatim>\<open>sizeof (heap_block_t)\<close> and \<open>32\<close> is \<^verbatim>\<open>MIN_SPLIT\<close>. The magic number is the only difference
  between the two copies of \<^verbatim>\<open>split_block\<close> and \<^verbatim>\<open>coalesce\<close> and is a parameter here.
\<close>

record heap_block =
  magic :: u64
  bsize :: u64
  bfree :: bool
  bnext :: u64
  bprev :: u64

type_synonym blocks = "u64 \<Rightarrow> heap_block"

definition split_block :: "u64 \<Rightarrow> u64 \<Rightarrow> u64 \<Rightarrow> blocks \<Rightarrow> blocks" where
  "split_block M block sz h =
     (if bsize (h block) < sz + 40 + 32 then h
      else let newblock = block + 40 + sz;
               h = h(newblock := \<lparr>magic = M, bsize = bsize (h block) - sz - 40, bfree = True,
                                  bnext = bnext (h block), bprev = block\<rparr>);
               h = (if bnext (h newblock) \<noteq> 0
                    then h(bnext (h newblock) := (h (bnext (h newblock)))\<lparr>bprev := newblock\<rparr>) else h)
           in h(block := (h block)\<lparr>bnext := newblock, bsize := sz\<rparr>))"

text \<open>The forward merge at the start of \<^verbatim>\<open>coalesce\<close>.\<close>

definition merge_next :: "u64 \<Rightarrow> blocks \<Rightarrow> blocks" where
  "merge_next block h =
     (if bnext (h block) \<noteq> 0 \<and> bfree (h (bnext (h block)))
      then let h = h(block := (h block)\<lparr>bsize := bsize (h block) + (40 + bsize (h (bnext (h block))))\<rparr>);
               h = h(block := (h block)\<lparr>bnext := bnext (h (bnext (h block)))\<rparr>)
           in if bnext (h block) \<noteq> 0
              then h(bnext (h block) := (h (bnext (h block)))\<lparr>bprev := block\<rparr>) else h
      else h)"

partial_function (option) coalesce :: "u64 \<Rightarrow> blocks \<Rightarrow> blocks option" where
  "coalesce block h =
     (let h = merge_next block h
      in if bprev (h block) \<noteq> 0 \<and> bfree (h (bprev (h block)))
         then coalesce (bprev (h block)) h else Some h)"

text \<open>The first-fit search and the walk to the last block.\<close>

partial_function (option) find_fit :: "u64 \<Rightarrow> u64 \<Rightarrow> blocks \<Rightarrow> u64 option" where
  "find_fit cur sz h =
     (if cur = 0 then Some 0
      else if bfree (h cur) \<and> bsize (h cur) \<ge> sz then Some cur
      else find_fit (bnext (h cur)) sz h)"

partial_function (option) last_block :: "u64 \<Rightarrow> blocks \<Rightarrow> u64 option" where
  "last_block cur h =
     (if bnext (h cur) = 0 then Some cur else last_block (bnext (h cur)) h)"

subsection \<open>Well-formed block lists\<close>

text \<open>
  \<open>chain M h p as n e\<close>: the headers at the addresses \<open>as\<close> form a segment of the list. They are
  linked both ways, the first one's predecessor is \<open>p\<close>, the last one's successor is \<open>n\<close>, each
  block ends where the next one starts and the last one ends at \<open>e\<close>. The whole list of a heap is a
  segment with \<open>p = 0\<close> and \<open>n = 0\<close>.
\<close>

fun next_of :: "u64 list \<Rightarrow> u64 \<Rightarrow> u64" where
  "next_of [] n = n"
| "next_of (a # as) n = a"

fun start_of :: "u64 list \<Rightarrow> nat \<Rightarrow> nat" where
  "start_of [] e = e"
| "start_of (a # as) e = unat a"

definition last_of :: "u64 \<Rightarrow> u64 list \<Rightarrow> u64" where
  "last_of p as = (if as = [] then p else last as)"

lemma last_of_simps [simp]: "last_of p [] = p" "last_of p (a # as) = last_of a as"
  by (simp_all add: last_of_def)

fun chain :: "u64 \<Rightarrow> blocks \<Rightarrow> u64 \<Rightarrow> u64 list \<Rightarrow> u64 \<Rightarrow> nat \<Rightarrow> bool" where
  "chain M h p [] n e = True"
| "chain M h p (a # as) n e \<longleftrightarrow> a \<noteq> 0 \<and> magic (h a) = M \<and> bprev (h a) = p \<and> bnext (h a) = next_of as n
     \<and> unat a + 40 + unat (bsize (h a)) = start_of as e \<and> chain M h a as n e"

lemma next_of_append [simp]: "next_of (xs @ ys) n = next_of xs (next_of ys n)"
  by (cases xs) auto

lemma start_of_append [simp]: "start_of (xs @ ys) e = start_of xs (start_of ys e)"
  by (cases xs) auto

lemma last_of_append [simp]: "last_of p (xs @ ys) = last_of (last_of p xs) ys"
  by (induction xs arbitrary: p) auto

lemma chain_append [simp]:
  "chain M h p (xs @ ys) n e \<longleftrightarrow>
   chain M h p xs (next_of ys n) (start_of ys e) \<and> chain M h (last_of p xs) ys n e"
  by (induction xs arbitrary: p) auto

lemma chain_start_le:
  "chain M h p as n e \<Longrightarrow> start_of as e \<le> e \<and> (\<forall>a \<in> set as. start_of as e \<le> unat a \<and> unat a + 40 + unat (bsize (h a)) \<le> e)"
proof (induction as arbitrary: p)
  case (Cons a as)
  then have "unat a + 40 + unat (bsize (h a)) = start_of as e" and "chain M h a as n e" by simp_all
  with Cons.IH [of a] show ?case by force
qed simp

lemma chain_bounds:
  "chain M h p as n e \<Longrightarrow> a \<in> set as \<Longrightarrow> start_of as e \<le> unat a \<and> unat a + 40 + unat (bsize (h a)) \<le> e"
  using chain_start_le by blast

lemma chain_sorted:
  "chain M h p (a # as) n e \<Longrightarrow> b \<in> set as \<Longrightarrow> unat a + 40 + unat (bsize (h a)) \<le> unat b"
  using chain_bounds [of M h a as n e b] by simp

lemma chain_distinct: "chain M h p as n e \<Longrightarrow> distinct as"
proof (induction as arbitrary: p)
  case (Cons a as)
  have "a \<notin> set as" using chain_sorted [OF Cons.prems, of a] by auto
  moreover have "distinct as" using Cons.prems by (auto intro: Cons.IH)
  ultimately show ?case by simp
qed simp

lemma chain_nonzero: "chain M h p as n e \<Longrightarrow> a \<in> set as \<Longrightarrow> a \<noteq> 0 \<and> magic (h a) = M"
  by (induction as arbitrary: p) auto

lemma chain_cong:
  assumes "\<And>a. a \<in> set as \<Longrightarrow> h' a = h a"
  shows "chain M h' p as n e \<longleftrightarrow> chain M h p as n e"
  using assms by (induction as arbitrary: p) auto

text \<open>Re-linking the first predecessor or the last successor of a segment.\<close>

lemma chain_set_prev:
  assumes "chain M h p (a # as) n e"
  shows "chain M (h(a := (h a)\<lparr>bprev := q\<rparr>)) q (a # as) n e"
proof -
  have "a \<notin> set as" using chain_distinct [OF assms] by simp
  then have "chain M (h(a := (h a)\<lparr>bprev := q\<rparr>)) a as n e \<longleftrightarrow> chain M h a as n e"
    by (intro chain_cong) auto
  with assms show ?thesis by simp
qed

lemma find_fit_chain:
  "chain M h p as 0 e \<Longrightarrow>
   find_fit (next_of as 0) sz h =
     Some (next_of (filter (\<lambda>a. bfree (h a) \<and> sz \<le> bsize (h a)) as) 0)"
proof (induction as arbitrary: p)
  case Nil
  then show ?case by (simp add: find_fit.simps)
next
  case (Cons a as)
  then show ?case by (auto simp: find_fit.simps [of a])
qed

lemma last_block_chain:
  "chain M h p as 0 e \<Longrightarrow> as \<noteq> [] \<Longrightarrow> last_block (next_of as 0) h = Some (last as)"
proof (induction as arbitrary: p)
  case (Cons a as)
  show ?case
  proof (cases as)
    case Nil
    with Cons.prems show ?thesis by (simp add: last_block.simps [of a])
  next
    case (Cons b bs)
    with Cons.prems Cons.IH [of a] show ?thesis by (simp add: last_block.simps [of a])
  qed
qed simp


subsection \<open>Merging and splitting\<close>

definition no_adjacent_free :: "blocks \<Rightarrow> u64 list \<Rightarrow> bool" where
  "no_adjacent_free h as \<longleftrightarrow> successively (\<lambda>a b. \<not> (bfree (h a) \<and> bfree (h b))) as"

text \<open>The blocks in use, with their payload sizes.\<close>

definition live :: "blocks \<Rightarrow> u64 list \<Rightarrow> (u64 \<times> u64) set" where
  "live h as = {(a, bsize (h a)) | a. a \<in> set as \<and> \<not> bfree (h a)}"

lemma merge_next_store:
  assumes "bnext (h b) = c" "c \<noteq> 0" "bfree (h c)" "b \<noteq> c" "bnext (h c) \<noteq> b"
  shows "merge_next b h =
    (let h' = h(b := (h b)\<lparr>bsize := bsize (h b) + (40 + bsize (h c)), bnext := bnext (h c)\<rparr>)
     in if bnext (h c) = 0 then h' else h'(bnext (h c) := (h (bnext (h c)))\<lparr>bprev := b\<rparr>))"
  using assms by (auto simp: merge_next_def Let_def)

lemma merge_next_chain:
  assumes c: "chain M h p (xs @ b # c # ys) 0 e" and free: "bfree (h c)" and e: "e \<le> 2 ^ 64"
  shows "chain M (merge_next b h) p (xs @ b # ys) 0 e"
    and "bfree (merge_next b h a) = bfree (h a)"
    and "a \<noteq> b \<Longrightarrow> bsize (merge_next b h a) = bsize (h a)"
proof -
  have d: "distinct (xs @ b # c # ys)" using c by (rule chain_distinct)
  have cxs: "chain M h p xs b (unat b)" and cb: "b \<noteq> 0" "magic (h b) = M" "bprev (h b) = last_of p xs"
      "bnext (h b) = c" "unat b + 40 + unat (bsize (h b)) = unat c"
    and cc: "c \<noteq> 0" "bnext (h c) = next_of ys 0" "unat c + 40 + unat (bsize (h c)) = start_of ys e"
    and cys: "chain M h c ys 0 e"
    using c by simp_all
  define n where "n = next_of ys 0"
  have "n = 0 \<or> n \<in> set ys" by (cases ys) (simp_all add: n_def)
  moreover have "a \<noteq> 0" if "a \<in> set xs" for a using chain_nonzero [OF cxs that] by simp
  ultimately have n: "n \<noteq> b" "n \<noteq> c" "n \<notin> set xs" using d cb(1) cc(1) by auto
  have eq: "merge_next b h =
    (let h' = h(b := (h b)\<lparr>bsize := bsize (h b) + (40 + bsize (h c)), bnext := n\<rparr>)
     in if n = 0 then h' else h'(n := (h n)\<lparr>bprev := b\<rparr>))"
    using merge_next_store [of h b c] cb cc free d n by (simp add: n_def Let_def)
  have "start_of ys e \<le> e" using chain_start_le [OF cys] by simp
  then have "unat (bsize (h b)) + (40 + unat (bsize (h c))) < 2 ^ 64" using cb cc e by linarith
  then have sz: "unat (bsize (h b) + (40 + bsize (h c))) = unat (bsize (h b)) + (40 + unat (bsize (h c)))"
    by (simp add: unat_word_ariths)
  have xs: "chain M (merge_next b h) p xs b (unat b)"
    using cxs d n by (subst chain_cong [of xs _ h]) (auto simp: eq Let_def)
  have ys: "chain M (merge_next b h) b ys 0 e"
  proof (cases ys)
    case (Cons y ys')
    then have "n = y" "n \<noteq> 0" using cys by (simp_all add: n_def)
    with Cons cys have "chain M (h(y := (h y)\<lparr>bprev := b\<rparr>)) b ys 0 e" using chain_set_prev by blast
    moreover have "merge_next b h a = (h(y := (h y)\<lparr>bprev := b\<rparr>)) a" if "a \<in> set ys" for a
      using that d \<open>n = y\<close> \<open>n \<noteq> 0\<close> by (auto simp: eq Let_def)
    ultimately show ?thesis by (subst chain_cong) auto
  qed simp
  have "merge_next b h b = (h b)\<lparr>bsize := bsize (h b) + (40 + bsize (h c)), bnext := n\<rparr>"
    using n by (simp add: eq Let_def)
  with xs ys cb cc sz show "chain M (merge_next b h) p (xs @ b # ys) 0 e"
    by (simp add: n_def)
  show "bfree (merge_next b h a) = bfree (h a)" "a \<noteq> b \<Longrightarrow> bsize (merge_next b h a) = bsize (h a)"
    by (simp_all add: eq Let_def)
qed

lemma merge_next_idle: "chain M h p (xs @ b # ys) 0 e \<Longrightarrow> (ys \<noteq> [] \<Longrightarrow> \<not> bfree (h (hd ys))) \<Longrightarrow> merge_next b h = h"
  by (cases ys) (auto simp: merge_next_def)


text \<open>
  The effect of \<^verbatim>\<open>split_block\<close> on the list: either nothing, or the block is cut and the rest
  becomes a free block of its own right behind it.
\<close>

lemma split_block_idle: "bsize (h b) < sz + 40 + 32 \<Longrightarrow> split_block M b sz h = h"
  by (simp add: split_block_def)

lemma split_block_chain:
  assumes c: "chain M h p (xs @ b # ys) 0 e" and e: "e \<le> 2 ^ 64"
    and big: "unat sz + 72 \<le> unat (bsize (h b))"
  defines "nb \<equiv> b + 40 + sz"
  shows "chain M (split_block M b sz h) p (xs @ b # nb # ys) 0 e"
    and "nb \<notin> set (xs @ b # ys)"
    and "bfree (split_block M b sz h nb)" and "bsize (split_block M b sz h b) = sz"
    and "a \<noteq> nb \<Longrightarrow> bfree (split_block M b sz h a) = bfree (h a)"
    and "a \<noteq> nb \<Longrightarrow> a \<noteq> b \<Longrightarrow> bsize (split_block M b sz h a) = bsize (h a)"
proof -
  have d: "distinct (xs @ b # ys)" using c by (rule chain_distinct)
  have cxs: "chain M h p xs b (unat b)" and cb: "b \<noteq> 0" "magic (h b) = M" "bprev (h b) = last_of p xs"
      "bnext (h b) = next_of ys 0" "unat b + 40 + unat (bsize (h b)) = start_of ys e"
    and cys: "chain M h b ys 0 e"
    using c by simp_all
  have se: "start_of ys e \<le> e" using chain_start_le [OF cys] by simp
  have un: "unat nb = unat b + 40 + unat sz" using cb se e big
    by (simp add: nb_def unat_word_ariths)
  have above: "unat b < unat nb" "unat nb < start_of ys e" using un big cb by simp_all
  have nys: "nb \<notin> set ys" using chain_bounds [OF cys, of nb] above by auto
  have nxs: "nb \<notin> set xs" using chain_bounds [OF cxs, of nb] above by auto
  have nn: "nb \<noteq> b" "nb \<noteq> 0" using above by auto
  then show notin: "nb \<notin> set (xs @ b # ys)" using nys nxs by simp
  define n where "n = next_of ys 0"
  have "n = 0 \<or> n \<in> set ys" by (cases ys) (simp_all add: n_def)
  moreover have "a \<noteq> 0" if "a \<in> set xs" for a using chain_nonzero [OF cxs that] by simp
  ultimately have n: "n \<noteq> b" "n \<noteq> nb" "n \<notin> set xs" using d cb(1) nn nys by auto
  have cut: "\<not> bsize (h b) < sz + 40 + 32"
  proof -
    have "unat (sz + 40 + 32) = unat sz + 72"
      using big unat_bound [of "bsize (h b)"] by (simp add: unat_word_ariths)
    with big show ?thesis by (simp add: word_less_nat_alt)
  qed
  have eq: "split_block M b sz h =
    (let h' = h(nb := \<lparr>magic = M, bsize = bsize (h b) - sz - 40, bfree = True, bnext = n, bprev = b\<rparr>,
                b := (h b)\<lparr>bnext := nb, bsize := sz\<rparr>)
     in if n = 0 then h' else h'(n := (h n)\<lparr>bprev := nb\<rparr>))"
    using cut n nn cb by (simp add: split_block_def Let_def nb_def [symmetric] n_def [symmetric] fun_upd_twist)
  have "sz + 40 \<le> bsize (h b)" "unat (sz + 40) = unat sz + 40"
    using big unat_bound [of "bsize (h b)"] by (simp_all add: word_le_nat_alt unat_word_ariths)
  then have us: "unat (bsize (h b) - sz - 40) = unat (bsize (h b)) - unat sz - 40"
    by (simp add: unat_sub diff_diff_eq)
  have xs: "chain M (split_block M b sz h) p xs b (unat b)"
    using cxs d n nxs by (subst chain_cong [of xs _ h]) (auto simp: eq Let_def)
  have ys: "chain M (split_block M b sz h) nb ys 0 e"
  proof (cases ys)
    case (Cons y ys')
    then have "n = y" "n \<noteq> 0" using cys by (simp_all add: n_def)
    with Cons cys have "chain M (h(y := (h y)\<lparr>bprev := nb\<rparr>)) nb ys 0 e" using chain_set_prev by blast
    moreover have "split_block M b sz h a = (h(y := (h y)\<lparr>bprev := nb\<rparr>)) a" if "a \<in> set ys" for a
      using that d nys \<open>n = y\<close> \<open>n \<noteq> 0\<close> by (auto simp: eq Let_def)
    ultimately show ?thesis by (subst chain_cong) auto
  qed simp
  have at: "split_block M b sz h b = (h b)\<lparr>bnext := nb, bsize := sz\<rparr>"
    "split_block M b sz h nb = \<lparr>magic = M, bsize = bsize (h b) - sz - 40, bfree = True, bnext = n, bprev = b\<rparr>"
    using n nn by (simp_all add: eq Let_def)
  show "chain M (split_block M b sz h) p (xs @ b # nb # ys) 0 e"
    using xs ys cb at nn un us big by (simp add: n_def)
  show "bfree (split_block M b sz h nb)" "bsize (split_block M b sz h b) = sz"
    using at by simp_all
  show "a \<noteq> nb \<Longrightarrow> bfree (split_block M b sz h a) = bfree (h a)"
    "a \<noteq> nb \<Longrightarrow> a \<noteq> b \<Longrightarrow> bsize (split_block M b sz h a) = bsize (h a)"
    using nn by (simp_all add: eq Let_def)
qed


subsection \<open>Taking and releasing blocks\<close>

text \<open>
  A heap is its block list \<open>as\<close>, linked from \<open>head\<close> to 0, filling memory up to \<open>e\<close> with no two free
  neighbours.
\<close>

definition heap_ok :: "u64 \<Rightarrow> blocks \<Rightarrow> u64 list \<Rightarrow> u64 \<Rightarrow> nat \<Rightarrow> bool" where
  "heap_ok M h as head e \<longleftrightarrow> chain M h 0 as 0 e \<and> no_adjacent_free h as \<and> head = next_of as 0 \<and> e \<le> 2 ^ 64"

lemma no_adjacent_free_append:
  "no_adjacent_free h (xs @ ys) \<longleftrightarrow> no_adjacent_free h xs \<and> no_adjacent_free h ys
     \<and> (xs = [] \<or> ys = [] \<or> \<not> (bfree (h (last xs)) \<and> bfree (h (hd ys))))"
  by (simp add: no_adjacent_free_def successively_append_iff)

lemma no_adjacent_free_Cons:
  "no_adjacent_free h (a # ys) \<longleftrightarrow> no_adjacent_free h ys \<and> (ys = [] \<or> \<not> (bfree (h a) \<and> bfree (h (hd ys))))"
  by (cases ys) (auto simp: no_adjacent_free_def)

lemma no_adjacent_free_Nil [simp]: "no_adjacent_free h []"
  by (simp add: no_adjacent_free_def)

lemmas no_adjacent_free_simps = no_adjacent_free_append no_adjacent_free_Cons

lemma no_adjacent_free_cong:
  "(\<And>a. a \<in> set as \<Longrightarrow> bfree (h' a) = bfree (h a)) \<Longrightarrow> no_adjacent_free h' as = no_adjacent_free h as"
  by (induction as) (auto simp: no_adjacent_free_Cons)

lemma no_adjacent_free_set [simp]:
  "b \<notin> set as \<Longrightarrow> no_adjacent_free (h(b := x)) as = no_adjacent_free h as"
  by (rule no_adjacent_free_cong) auto

lemma live_cong:
  "(\<And>a. a \<in> set as \<Longrightarrow> bfree (h' a) = bfree (h a)) \<Longrightarrow>
   (\<And>a. a \<in> set as \<Longrightarrow> \<not> bfree (h a) \<Longrightarrow> bsize (h' a) = bsize (h a)) \<Longrightarrow> live h' as = live h as"
  unfolding live_def by force

lemma live_append [simp]: "live h (xs @ ys) = live h xs \<union> live h ys"
  by (auto simp: live_def)

lemma live_Cons [simp]: "live h (a # ys) = (if bfree (h a) then {} else {(a, bsize (h a))}) \<union> live h ys"
  by (auto simp: live_def)

lemma live_Nil [simp]: "live h [] = {}"
  by (simp add: live_def)

lemma live_addr: "(a, n) \<in> live h as \<Longrightarrow> a \<in> set as \<and> \<not> bfree (h a) \<and> n = bsize (h a)"
  by (auto simp: live_def)

text \<open>One forward merge around a free block.\<close>

lemma merge_next_live:
  assumes c: "chain M h p (xs @ b # ys) 0 e" and free: "bfree (h b)" and e: "e \<le> 2 ^ 64"
    and adj: "no_adjacent_free h ys"
  obtains zs where "chain M (merge_next b h) p (xs @ b # zs) 0 e" and "no_adjacent_free h (b # zs)"
    and "\<And>a. bfree (merge_next b h a) = bfree (h a)" and "set zs \<subseteq> set ys"
    and "live (merge_next b h) (xs @ b # zs) = live h (xs @ b # ys)"
proof (cases "ys = [] \<or> \<not> bfree (h (hd ys))")
  case True
  then have "merge_next b h = h" using merge_next_idle [OF c] by blast
  with True c adj free show ?thesis by (intro that [of ys]) (auto simp: no_adjacent_free_Cons)
next
  case False
  then obtain c' zs where ys: "ys = c' # zs" and f: "bfree (h c')" by (cases ys) auto
  note m = merge_next_chain [OF c [unfolded ys] f e]
  have "b \<notin> set zs" "b \<notin> set xs" using chain_distinct [OF c] by (auto simp: ys)
  then have "live (merge_next b h) zs = live h zs" "live (merge_next b h) xs = live h xs"
    by (auto intro!: live_cong simp: m(2) intro: m(3))
  then have lv: "live (merge_next b h) (xs @ b # zs) = live h (xs @ b # ys)"
    using m(2) f free by (simp add: ys)
  have "no_adjacent_free h (b # zs)" "set zs \<subseteq> set ys" using adj f by (auto simp: ys no_adjacent_free_Cons)
  from that [OF m(1) this(1) m(2) this(2) lv] show ?thesis .
qed

lemma coalesce_chain:
  assumes c: "chain M h 0 (xs @ b # ys) 0 e" and free: "bfree (h b)" and e: "e \<le> 2 ^ 64"
    and adj: "no_adjacent_free h xs" "no_adjacent_free h ys"
  shows "\<exists>h' as. coalesce b h = Some h' \<and> chain M h' 0 as 0 e \<and> no_adjacent_free h' as
     \<and> live h' as = live h (xs @ b # ys) \<and> next_of as 0 = next_of (xs @ b # ys) 0
     \<and> set as \<subseteq> set (xs @ b # ys) \<and> (\<forall>a. bfree (h' a) = bfree (h a))"
  using assms
proof (induction xs arbitrary: b h ys rule: rev_induct)
  case Nil
  from merge_next_live [OF Nil.prems(1-3,5)] obtain zs where
    z: "chain M (merge_next b h) 0 ([] @ b # zs) 0 e" "no_adjacent_free h (b # zs)" "set zs \<subseteq> set ys"
       "\<And>a. bfree (merge_next b h a) = bfree (h a)"
       "live (merge_next b h) ([] @ b # zs) = live h ([] @ b # ys)"
    by metis
  have "coalesce b h = Some (merge_next b h)"
    using z(1) by (subst coalesce.simps) simp
  moreover have "no_adjacent_free (merge_next b h) (b # zs)"
    using z(2,4) no_adjacent_free_cong by blast
  ultimately show ?case using z by (intro exI [of _ "merge_next b h"] exI [of _ "b # zs"]) auto
next
  case (snoc l xs)
  from merge_next_live [OF snoc.prems(1-3,5)] obtain zs where
    z: "chain M (merge_next b h) 0 ((xs @ [l]) @ b # zs) 0 e" "no_adjacent_free h (b # zs)" "set zs \<subseteq> set ys"
       "\<And>a. bfree (merge_next b h a) = bfree (h a)"
       "live (merge_next b h) ((xs @ [l]) @ b # zs) = live h ((xs @ [l]) @ b # ys)"
    by metis
  have prev: "bprev (merge_next b h b) = l" "l \<noteq> 0" using z(1) by simp_all
  have adj': "no_adjacent_free (merge_next b h) as = no_adjacent_free h as" for as
    by (rule no_adjacent_free_cong) (rule z(4))
  show ?case
  proof (cases "bfree (h l)")
    case False
    then have "coalesce b h = Some (merge_next b h)"
      using prev z(4) by (subst coalesce.simps) simp
    moreover have "no_adjacent_free (merge_next b h) ((xs @ [l]) @ b # zs)"
      using z(2) snoc.prems(4) False unfolding adj' by (auto simp: no_adjacent_free_simps)
    ultimately show ?thesis
      using z by (intro exI [of _ "merge_next b h"] exI [of _ "(xs @ [l]) @ b # zs"]) (auto simp del: append_assoc)
  next
    case True
    have step: "coalesce b h = coalesce l (merge_next b h)"
      using True prev z(4) by (subst coalesce.simps) simp
    have adjs: "no_adjacent_free h xs" "no_adjacent_free h (b # zs)"
      using snoc.prems(4) z(2) by (simp_all add: no_adjacent_free_append)
    have "chain M (merge_next b h) 0 (xs @ l # b # zs) 0 e" using z(1) by simp
    from snoc.IH [OF this] obtain h' as where "coalesce l (merge_next b h) = Some h'" "chain M h' 0 as 0 e"
      "no_adjacent_free h' as" "live h' as = live (merge_next b h) (xs @ l # b # zs)"
      "next_of as 0 = next_of (xs @ l # b # zs) 0" "set as \<subseteq> set (xs @ l # b # zs)"
      "\<forall>a. bfree (h' a) = bfree (merge_next b h a)"
      using True z(4) adjs snoc.prems(3) by (auto simp: adj')
    then show ?thesis using step z by (intro exI [of _ h'] exI [of _ as]) auto
  qed
qed


text \<open>The allocation of a free block: cut it to size and mark it used.\<close>

definition take_block :: "u64 \<Rightarrow> u64 \<Rightarrow> u64 \<Rightarrow> blocks \<Rightarrow> blocks" where
  "take_block M b sz h =
     (let h = split_block M b sz h in h(b := (h b)\<lparr>bfree := False\<rparr>))"

text \<open>The release of a block: mark it free and merge it with its free neighbours.\<close>

definition release_block :: "u64 \<Rightarrow> blocks \<Rightarrow> blocks option" where
  "release_block b h = coalesce b (h(b := (h b)\<lparr>bfree := True\<rparr>))"

lemma chain_set_free [simp]: "chain M (h(b := (h b)\<lparr>bfree := f\<rparr>)) p as n e = chain M h p as n e"
proof (induction as arbitrary: p)
  case (Cons a as)
  have "(h(b := (h b)\<lparr>bfree := f\<rparr>)) a = (if a = b then (h b)\<lparr>bfree := f\<rparr> else h a)" by simp
  with Cons show ?case by (cases "a = b") simp_all
qed simp

lemma live_set_free:
  "b \<notin> set as \<Longrightarrow> live (h(b := (h b)\<lparr>bfree := f\<rparr>)) as = live h as"
  by (rule live_cong) auto

lemma take_block_ok:
  assumes ok: "heap_ok M h as head e" and b: "b \<in> set as" "bfree (h b)"
    and fit: "sz \<le> bsize (h b)" and small: "unat sz + 72 < 2 ^ 64"
  obtains as' where "heap_ok M (take_block M b sz h) as' head e" and "set as \<subseteq> set as'"
    and "sz \<le> bsize (take_block M b sz h b)"
    and "live (take_block M b sz h) as' = insert (b, bsize (take_block M b sz h b)) (live h as)"
proof -
  obtain xs ys where as: "as = xs @ b # ys" using b by (meson split_list)
  have c: "chain M h 0 (xs @ b # ys) 0 e" and adj: "no_adjacent_free h as" and e: "e \<le> 2 ^ 64"
    and hd: "head = next_of as 0"
    using ok by (simp_all only: heap_ok_def as)
  have d: "b \<notin> set xs" "b \<notin> set ys" using chain_distinct [OF c] by simp_all
  have us: "unat (sz + 40 + 32) = unat sz + 72" using small by (simp add: unat_word_ariths)
  let ?h = "take_block M b sz h"
  show ?thesis
  proof (cases "bsize (h b) < sz + 40 + 32")
    case True
    then have h: "?h = h(b := (h b)\<lparr>bfree := False\<rparr>)" by (simp add: take_block_def split_block_idle)
    have "no_adjacent_free ?h as"
      using adj b(2) d unfolding as h by (auto simp: no_adjacent_free_simps simp del: fun_upd_apply) auto
    with c hd e have ok': "heap_ok M ?h as head e" by (simp add: heap_ok_def h as)
    have "live ?h as = insert (b, bsize (?h b)) (live h as)"
      using d b(2) by (simp add: as h live_set_free)
    with ok' fit show ?thesis by (intro that [of as]) (simp_all add: h)
  next
    case False
    then have big: "unat sz + 72 \<le> unat (bsize (h b))" using us by (simp add: word_less_nat_alt)
    let ?nb = "b + 40 + sz" and ?s = "split_block M b sz h"
    note sp = split_block_chain [OF c e big]
    have h: "?h = ?s(b := (?s b)\<lparr>bfree := False\<rparr>)" by (simp add: take_block_def Let_def)
    have nb: "?nb \<notin> set xs" "?nb \<notin> set ys" "?nb \<noteq> b" using sp(2) by auto
    have fr: "bfree (?h a) = bfree (h a)" and si: "bsize (?h a) = bsize (h a)" if "a \<in> set xs \<union> set ys" for a
      using that d nb sp(5,6) [of a] by (auto simp: h)
    have nbf: "bfree (?h ?nb)" "\<not> bfree (?h b)" "bsize (?h b) = sz" using sp(3,4) nb by (simp_all add: h)
    have adj_parts: "no_adjacent_free ?h xs" "no_adjacent_free ?h ys"
      using adj unfolding as by (auto simp: fr no_adjacent_free_simps cong: no_adjacent_free_cong)
    have "ys = [] \<or> \<not> bfree (h (hd ys))" using adj b(2) by (auto simp: as no_adjacent_free_simps)
    then have "ys = [] \<or> \<not> bfree (?h (hd ys))" using fr [of "hd ys"] by auto
    with adj_parts nbf have "no_adjacent_free ?h (xs @ b # ?nb # ys)"
      by (simp add: no_adjacent_free_simps)
    moreover have "chain M ?h 0 (xs @ b # ?nb # ys) 0 e" unfolding h chain_set_free by (rule sp(1))
    moreover have "next_of (xs @ b # ?nb # ys) 0 = head" by (simp add: hd as)
    ultimately have ok': "heap_ok M ?h (xs @ b # ?nb # ys) head e" using e unfolding heap_ok_def by simp
    have "live ?h xs = live h xs" "live ?h ys = live h ys" by (auto intro!: live_cong simp: fr si)
    then have "live ?h (xs @ b # ?nb # ys) = insert (b, bsize (?h b)) (live h as)"
      using nbf b(2) by (simp add: as)
    with ok' nbf show ?thesis by (intro that [of "xs @ b # ?nb # ys"]) (auto simp: as)
  qed
qed

lemma release_block_ok:
  assumes ok: "heap_ok M h as head e" and b: "(b, n) \<in> live h as"
  obtains h' as' where "release_block b h = Some h'" and "heap_ok M h' as' head e"
    and "live h' as' = live h as - {(b, n)}"
proof -
  obtain xs ys where as: "as = xs @ b # ys" using live_addr [OF b] by (meson split_list)
  have used: "\<not> bfree (h b)" "n = bsize (h b)" using live_addr [OF b] by simp_all
  have c: "chain M h 0 (xs @ b # ys) 0 e" and adj: "no_adjacent_free h as" and e: "e \<le> 2 ^ 64"
    and hd: "head = next_of as 0"
    using ok by (simp_all only: heap_ok_def as)
  have d: "b \<notin> set xs" "b \<notin> set ys" using chain_distinct [OF c] by simp_all
  let ?h = "h(b := (h b)\<lparr>bfree := True\<rparr>)"
  have adj': "no_adjacent_free ?h xs" "no_adjacent_free ?h ys"
    using adj d unfolding as by (simp_all add: no_adjacent_free_simps del: fun_upd_apply)
  have "bfree (?h b)" by simp
  from coalesce_chain [OF c [folded chain_set_free [of M h b True]] this e adj']
  obtain h' as' where r: "release_block b h = Some h'" "chain M h' 0 as' 0 e" "no_adjacent_free h' as'"
    "live h' as' = live ?h (xs @ b # ys)" "next_of as' 0 = next_of (xs @ b # ys) 0"
    unfolding release_block_def by blast
  have "heap_ok M h' as' head e" using r e hd by (simp add: heap_ok_def as)
  moreover have "b \<notin> fst ` live h xs" "b \<notin> fst ` live h ys" using d by (auto dest: live_addr)
  then have "live h' as' = live h as - {(b, n)}"
    using used d by (force simp: r(4) as live_set_free)
  ultimately show ?thesis using r(1) that by blast
qed

text \<open>Two blocks in use never overlap: one ends before the header of the other starts.\<close>

lemma live_disjoint:
  assumes c: "chain M h p as n e" and "(a, m) \<in> live h as" "(b, k) \<in> live h as" "a \<noteq> b"
  shows "unat a + 40 + unat m \<le> unat b \<or> unat b + 40 + unat k \<le> unat a"
proof -
  have ab: "a \<in> set as" "m = bsize (h a)" "b \<in> set as" "k = bsize (h b)"
    using assms(2,3) by (auto dest: live_addr)
  then show ?thesis using c assms(4)
  proof (induction as arbitrary: p)
    case (Cons x xs)
    from Cons.prems have "chain M h x xs n e" by simp
    with Cons show ?case using chain_sorted [OF Cons.prems(5)] by auto
  qed simp
qed


text \<open>Linking a new block behind the last one.\<close>

lemma chain_set_next:
  "chain M h p (xs @ [l]) n e \<Longrightarrow> chain M (h(l := (h l)\<lparr>bnext := k\<rparr>)) p (xs @ [l]) k e"
proof (induction xs arbitrary: p)
  case (Cons x xs)
  have "x \<noteq> l" using chain_distinct [OF Cons.prems] by auto
  with Cons show ?case by (simp del: chain_append fun_upd_apply add: fun_upd_other)
qed simp

lemma append_block_chain:
  assumes c: "chain M h 0 as 0 e" and b: "unat b = e" "b \<noteq> 0"
    and nb: "nb = \<lparr>magic = M, bsize = sz, bfree = f, bnext = 0, bprev = last_of 0 as\<rparr>"
  shows "b \<notin> set as"
    and "chain M (if as = [] then h(b := nb) else (h(b := nb))(last as := (h (last as))\<lparr>bnext := b\<rparr>))
           0 (as @ [b]) 0 (e + 40 + unat sz)"
proof -
  show notin: "b \<notin> set as" using chain_bounds [OF c, of b] b by auto
  show "chain M (if as = [] then h(b := nb) else (h(b := nb))(last as := (h (last as))\<lparr>bnext := b\<rparr>))
           0 (as @ [b]) 0 (e + 40 + unat sz)"
  proof (cases as rule: rev_cases)
    case Nil
    with b nb show ?thesis by simp
  next
    case (snoc xs l)
    have lb: "l \<noteq> b" using notin snoc by auto
    have "chain M (h(l := (h l)\<lparr>bnext := b\<rparr>)) 0 as b e" unfolding snoc using c [unfolded snoc] by (rule chain_set_next)
    then have "chain M (h(b := nb, l := (h l)\<lparr>bnext := b\<rparr>)) 0 as b e"
      using notin by (subst chain_cong [of as _ "h(l := (h l)\<lparr>bnext := b\<rparr>)"]) auto
    then show ?thesis using b nb lb snoc by simp
  qed
qed

end
