(* ===== verification/KString.thy ===== *)
theory KString
  imports Prelude "HOL-Library.Monad_Syntax"
begin

text \<open>
  The freestanding memory and string functions of the kernel, \<^verbatim>\<open>src/src/utility/kstring.c\<close>, over a
  byte-addressed memory. \<open>load_bytes\<close> and \<open>paste\<close> are the specification side: the bytes of a range,
  and a memory with a range replaced. A search for a terminating zero byte may run forever, so
  those loops are partial functions into \<open>option\<close>; lemmas about them say that they return.
\<close>

type_synonym bytes = "u64 \<Rightarrow> u8"

subsection \<open>The functions\<close>

text \<open>\<^verbatim>\<open>for (i = 0; i < n; i++) pdest[i] = psrc[i];\<close> and the same loop counting down.\<close>

definition copy_fwd :: "nat \<Rightarrow> u64 \<Rightarrow> u64 \<Rightarrow> bytes \<Rightarrow> bytes" where
  "copy_fwd n d s m = fold (\<lambda>i m. m(d + word_of_nat i := m (s + word_of_nat i))) [0..<n] m"

definition copy_bwd :: "nat \<Rightarrow> u64 \<Rightarrow> u64 \<Rightarrow> bytes \<Rightarrow> bytes" where
  "copy_bwd n d s m = fold (\<lambda>i m. m(d + word_of_nat i := m (s + word_of_nat i))) (rev [0..<n]) m"

definition memcpy :: "u64 \<Rightarrow> u64 \<Rightarrow> u64 \<Rightarrow> bytes \<Rightarrow> u64 \<times> bytes" where
  "memcpy dest src n m = (dest, copy_fwd (unat n) dest src m)"

definition memset :: "u64 \<Rightarrow> 32 word \<Rightarrow> u64 \<Rightarrow> bytes \<Rightarrow> u64 \<times> bytes" where
  "memset s c n m = (s, fold (\<lambda>i m. m(s + word_of_nat i := ucast c)) [0..<unat n] m)"

definition memmove :: "u64 \<Rightarrow> u64 \<Rightarrow> u64 \<Rightarrow> bytes \<Rightarrow> u64 \<times> bytes" where
  "memmove dest src n m =
     (dest, if dest < src then copy_fwd (unat n) dest src m
            else if src < dest then copy_bwd (unat n) dest src m
            else m)"

fun memcmp_loop :: "nat \<Rightarrow> u64 \<Rightarrow> u64 \<Rightarrow> bytes \<Rightarrow> int" where
  "memcmp_loop 0 p1 p2 m = 0"
| "memcmp_loop (Suc n) p1 p2 m =
     (if m p1 \<noteq> m p2 then (if m p1 < m p2 then -1 else 1) else memcmp_loop n (p1 + 1) (p2 + 1) m)"

definition memcmp :: "u64 \<Rightarrow> u64 \<Rightarrow> u64 \<Rightarrow> bytes \<Rightarrow> int" where
  "memcmp s1 s2 n m = memcmp_loop (unat n) s1 s2 m"

partial_function (option) strchr :: "u64 \<Rightarrow> 32 word \<Rightarrow> bytes \<Rightarrow> u64 option" where
  "strchr s c m =
     (if m s \<noteq> 0 then (if m s = ucast c then Some s else strchr (s + 1) c m)
      else if (ucast c :: u8) = 0 then Some s else Some 0)"

partial_function (option) strcmp :: "u64 \<Rightarrow> u64 \<Rightarrow> bytes \<Rightarrow> int option" where
  "strcmp s1 s2 m =
     (if m s1 \<noteq> 0 \<and> m s1 = m s2 then strcmp (s1 + 1) (s2 + 1) m
      else Some (uint (m s1) - uint (m s2)))"

fun strncmp_loop :: "nat \<Rightarrow> u64 \<Rightarrow> u64 \<Rightarrow> bytes \<Rightarrow> int" where
  "strncmp_loop 0 s1 s2 m = 0"
| "strncmp_loop (Suc n) s1 s2 m =
     (if m s1 \<noteq> m s2 then uint (m s1) - uint (m s2)
      else if m s1 = 0 then 0
      else strncmp_loop n (s1 + 1) (s2 + 1) m)"

definition strncmp :: "u64 \<Rightarrow> u64 \<Rightarrow> 32 word \<Rightarrow> bytes \<Rightarrow> int" where
  "strncmp s1 s2 n m = strncmp_loop (unat n) s1 s2 m"

text \<open>Both loops of \<^verbatim>\<open>strncpy\<close>; \<open>i\<close> is the shared index.\<close>

fun strncpy_pad :: "nat \<Rightarrow> u64 \<Rightarrow> nat \<Rightarrow> bytes \<Rightarrow> bytes" where
  "strncpy_pad 0 dest i m = m"
| "strncpy_pad (Suc k) dest i m = strncpy_pad k dest (Suc i) (m(dest + word_of_nat i := 0))"

fun strncpy_loop :: "nat \<Rightarrow> u64 \<Rightarrow> u64 \<Rightarrow> nat \<Rightarrow> bytes \<Rightarrow> bytes" where
  "strncpy_loop 0 dest src i m = m"
| "strncpy_loop (Suc k) dest src i m =
     (if m (src + word_of_nat i) \<noteq> 0
      then strncpy_loop k dest src (Suc i) (m(dest + word_of_nat i := m (src + word_of_nat i)))
      else strncpy_pad (Suc k) dest i m)"

definition strncpy :: "u64 \<Rightarrow> u64 \<Rightarrow> u64 \<Rightarrow> bytes \<Rightarrow> u64 \<times> bytes" where
  "strncpy dest src n m = (dest, strncpy_loop (unat n) dest src 0 m)"

partial_function (option) strcpy_loop :: "u64 \<Rightarrow> u64 \<Rightarrow> bytes \<Rightarrow> bytes option" where
  "strcpy_loop d src m =
     (let m' = m(d := m src) in if m src \<noteq> 0 then strcpy_loop (d + 1) (src + 1) m' else Some m')"

definition strcpy :: "u64 \<Rightarrow> u64 \<Rightarrow> bytes \<Rightarrow> (u64 \<times> bytes) option" where
  "strcpy dest src m = do { m' \<leftarrow> strcpy_loop dest src m; Some (dest, m') }"

partial_function (option) strlen_end :: "u64 \<Rightarrow> bytes \<Rightarrow> u64 option" where
  "strlen_end p m = (if m p \<noteq> 0 then strlen_end (p + 1) m else Some p)"

definition strlen :: "u64 \<Rightarrow> bytes \<Rightarrow> u64 option" where
  "strlen s m = do { p \<leftarrow> strlen_end s m; Some (p - s) }"

subsection \<open>Ranges of bytes\<close>

definition load_bytes :: "bytes \<Rightarrow> u64 \<Rightarrow> nat \<Rightarrow> u8 list" where
  "load_bytes m a n = map (\<lambda>i. m (a + word_of_nat i)) [0..<n]"

definition paste :: "u64 \<Rightarrow> u8 list \<Rightarrow> bytes \<Rightarrow> bytes" where
  "paste d bs m = (\<lambda>a. if unat (a - d) < length bs then bs ! unat (a - d) else m a)"

lemma length_load_bytes [simp]: "length (load_bytes m a n) = n"
  by (simp add: load_bytes_def)

lemma nth_load_bytes [simp]: "i < n \<Longrightarrow> load_bytes m a n ! i = m (a + word_of_nat i)"
  by (simp add: load_bytes_def)

lemma load_bytes_cong:
  "(\<And>i. i < n \<Longrightarrow> m' (a + word_of_nat i) = m (a + word_of_nat i)) \<Longrightarrow> load_bytes m' a n = load_bytes m a n"
  by (simp add: load_bytes_def)

lemma load_bytes_Suc: "load_bytes m a (Suc n) = m a # load_bytes m (a + 1) n"
  by (rule nth_equalityI) (auto simp: nth_Cons' less_Suc_eq_0_disj algebra_simps)

lemma paste_Nil [simp]: "paste d [] m = m"
  by (simp add: paste_def fun_eq_iff)

lemma paste_apply:
  "i < length bs \<Longrightarrow> length bs \<le> 2 ^ 64 \<Longrightarrow> paste d bs m (d + word_of_nat i) = bs ! i"
  by (simp add: paste_def unat_of_nat_small)

lemma paste_other: "(\<And>i. i < length bs \<Longrightarrow> a \<noteq> d + word_of_nat i) \<Longrightarrow> paste d bs m a = m a"
proof -
  assume "\<And>i. i < length bs \<Longrightarrow> a \<noteq> d + word_of_nat i"
  from this [of "unat (a - d)"] show ?thesis by (auto simp: paste_def)
qed

lemma load_paste: "length bs \<le> 2 ^ 64 \<Longrightarrow> load_bytes (paste d bs m) d (length bs) = bs"
  by (rule nth_equalityI) (simp_all add: paste_apply)

lemma paste_snoc:
  "length bs < 2 ^ 64 \<Longrightarrow> (paste d bs m)(d + word_of_nat (length bs) := b) = paste d (bs @ [b]) m"
proof (rule ext)
  fix a assume l: "length bs < 2 ^ 64"
  have "a = d + word_of_nat (length bs) \<longleftrightarrow> unat (a - d) = length bs"
  proof
    assume "a = d + word_of_nat (length bs)"
    then show "unat (a - d) = length bs" using l by (simp add: unat_of_nat_small)
  next
    assume "unat (a - d) = length bs"
    then have "word_of_nat (unat (a - d)) = (word_of_nat (length bs) :: u64)" by (rule arg_cong)
    then have "a - d = word_of_nat (length bs)" by simp
    then show "a = d + word_of_nat (length bs)" by (simp add: algebra_simps)
  qed
  then show "((paste d bs m)(d + word_of_nat (length bs) := b)) a = paste d (bs @ [b]) m a"
    by (auto simp: paste_def nth_append)
qed

lemma copy_fwd_Suc:
  "copy_fwd (Suc n) d s m = (copy_fwd n d s m)(d + word_of_nat n := copy_fwd n d s m (s + word_of_nat n))"
  by (simp add: copy_fwd_def)

lemma copy_bwd_Suc:
  "copy_bwd (Suc n) d s m = copy_bwd n d s (m(d + word_of_nat n := m (s + word_of_nat n)))"
  by (simp add: copy_bwd_def)

lemma load_bytes_snoc: "load_bytes m a (Suc n) = load_bytes m a n @ [m (a + word_of_nat n)]"
  by (simp add: load_bytes_def)

text \<open>A loop that counts up is right when no byte is written before it is read.\<close>

lemma copy_fwd_paste:
  assumes "n \<le> 2 ^ 64" and "\<And>i j. i < j \<Longrightarrow> j < n \<Longrightarrow> s + word_of_nat j \<noteq> d + word_of_nat i"
  shows "copy_fwd n d s m = paste d (load_bytes m s n) m"
  using assms
proof (induction n)
  case 0
  then show ?case by (simp add: copy_fwd_def load_bytes_def)
next
  case (Suc n)
  then have IH: "copy_fwd n d s m = paste d (load_bytes m s n) m" by simp
  have "paste d (load_bytes m s n) m (s + word_of_nat n) = m (s + word_of_nat n)"
    using Suc.prems(2) by (intro paste_other) simp
  then show ?case
    using paste_snoc [of "load_bytes m s n" d m] Suc.prems(1)
    by (simp add: copy_fwd_Suc IH load_bytes_snoc)
qed

lemma copy_bwd_paste:
  assumes "n \<le> 2 ^ 64" and "\<And>i j. i < j \<Longrightarrow> j < n \<Longrightarrow> s + word_of_nat i \<noteq> d + word_of_nat j"
  shows "copy_bwd n d s m = paste d (load_bytes m s n) m"
  using assms
proof (induction n arbitrary: m)
  case 0
  then show ?case by (simp add: copy_bwd_def load_bytes_def)
next
  case (Suc n)
  let ?m = "m(d + word_of_nat n := m (s + word_of_nat n))"
  have IH: "copy_bwd n d s ?m = paste d (load_bytes ?m s n) ?m" using Suc by simp
  have ld: "load_bytes ?m s n = load_bytes m s n"
    using Suc.prems(2) by (intro load_bytes_cong) auto
  have "paste d (load_bytes m s n) ?m = (paste d (load_bytes m s n) m)(d + word_of_nat n := m (s + word_of_nat n))"
    using Suc.prems(1) by (auto simp: paste_def fun_eq_iff unat_of_nat_small)
  then show ?case
    using paste_snoc [of "load_bytes m s n" d m] Suc.prems(1)
    by (simp add: copy_bwd_Suc IH ld load_bytes_snoc)
qed


text \<open>Two addresses in ranges that do not wrap around.\<close>

lemma range_addr_eq:
  assumes "i < n" "j < n" "unat s + n \<le> 2 ^ 64" "unat d + n \<le> 2 ^ 64"
  shows "s + word_of_nat i = d + word_of_nat j \<longleftrightarrow> unat s + i = unat (d :: u64) + j"
proof -
  have "unat (s + word_of_nat i) = unat s + i" "unat (d + word_of_nat j) = unat d + j"
    using assms by (simp_all add: unat_word_ariths unat_of_nat_small)
  then show ?thesis by (metis word_unat_eq_iff)
qed

lemma memmove_result:
  assumes s: "unat src + unat n \<le> 2 ^ 64" and d: "unat dest + unat n \<le> 2 ^ 64"
  shows "memmove dest src n m = (dest, paste dest (load_bytes m src (unat n)) m)"
proof -
  have n: "unat n \<le> 2 ^ 64" using unat_bound [of n] by simp
  have eq: "src + word_of_nat i = dest + word_of_nat j \<longleftrightarrow> unat src + i = unat dest + j"
    if "i < unat n" "j < unat n" for i j
    using range_addr_eq that s d .
  consider "dest < src" | "src < dest" | "src = dest" by fastforce
  then show ?thesis
  proof cases
    case 1
    then have "copy_fwd (unat n) dest src m = paste dest (load_bytes m src (unat n)) m"
      using eq by (intro copy_fwd_paste n) (auto simp: word_less_nat_alt)
    with 1 show ?thesis by (simp add: memmove_def)
  next
    case 2
    then have "copy_bwd (unat n) dest src m = paste dest (load_bytes m src (unat n)) m"
      using eq by (intro copy_bwd_paste n) (auto simp: word_less_nat_alt)
    moreover have "\<not> dest < src" using 2 by simp
    ultimately show ?thesis using 2 by (simp add: memmove_def)
  next
    case 3
    then show ?thesis by (auto simp: memmove_def paste_def fun_eq_iff)
  qed
qed

lemma memcpy_result:
  assumes s: "unat src + unat n \<le> 2 ^ 64" and d: "unat dest + unat n \<le> 2 ^ 64"
    and disj: "unat src + unat n \<le> unat dest \<or> unat dest + unat n \<le> unat src"
  shows "memcpy dest src n m = (dest, paste dest (load_bytes m src (unat n)) m)"
proof -
  have "copy_fwd (unat n) dest src m = paste dest (load_bytes m src (unat n)) m"
    using unat_bound [of n] range_addr_eq [of _ "unat n" _ src dest] s d disj
    by (intro copy_fwd_paste) auto
  then show ?thesis by (simp add: memcpy_def)
qed

lemma memset_fold:
  "n \<le> 2 ^ 64 \<Longrightarrow> fold (\<lambda>i m. m(s + word_of_nat i := c)) [0..<n] m = paste s (replicate n c) m"
proof (induction n)
  case (Suc n)
  then show ?case
    using paste_snoc [of "replicate n c" s m c] by (simp add: replicate_append_same del: fun_upd_apply)
qed simp

lemma memset_result: "memset s c n m = (s, paste s (replicate (unat n) (ucast c)) m)"
  using unat_bound [of n] by (simp add: memset_def memset_fold)

subsection \<open>Zero-terminated strings\<close>

text \<open>\<open>cstr m s bs\<close>: the string at \<open>s\<close> consists of the bytes \<open>bs\<close>, followed by a zero byte.\<close>

fun cstr :: "bytes \<Rightarrow> u64 \<Rightarrow> u8 list \<Rightarrow> bool" where
  "cstr m s [] \<longleftrightarrow> m s = 0"
| "cstr m s (b # bs) \<longleftrightarrow> b \<noteq> 0 \<and> m s = b \<and> cstr m (s + 1) bs"

lemma strlen_end_cstr: "cstr m s bs \<Longrightarrow> strlen_end s m = Some (s + word_of_nat (length bs))"
proof (induction bs arbitrary: s)
  case Nil
  then show ?case by (subst strlen_end.simps) simp
next
  case (Cons b bs)
  then show ?case by (subst strlen_end.simps) (simp add: algebra_simps)
qed

text \<open>The difference of the first bytes that differ, the zero byte included.\<close>

fun diff_bytes :: "u8 list \<Rightarrow> u8 list \<Rightarrow> int" where
  "diff_bytes [] [] = 0"
| "diff_bytes [] (y # ys) = - uint y"
| "diff_bytes (x # xs) [] = uint x"
| "diff_bytes (x # xs) (y # ys) = (if x = y then diff_bytes xs ys else uint x - uint y)"

lemma diff_bytes_0: "0 \<notin> set xs \<Longrightarrow> 0 \<notin> set ys \<Longrightarrow> diff_bytes xs ys = 0 \<longleftrightarrow> xs = ys"
  by (induction xs ys rule: diff_bytes.induct) (auto simp: word_uint_eq_iff)

lemma cstr_nonzero: "cstr m s bs \<Longrightarrow> 0 \<notin> set bs"
  by (induction bs arbitrary: s) auto

lemma strcmp_cstr: "cstr m s xs \<Longrightarrow> cstr m t ys \<Longrightarrow> strcmp s t m = Some (diff_bytes xs ys)"
proof (induction xs ys arbitrary: s t rule: diff_bytes.induct)
  case (4 x xs y ys)
  then show ?case by (subst strcmp.simps) auto
qed (subst strcmp.simps; auto)+

lemma strncmp_loop_cstr:
  "cstr m s xs \<Longrightarrow> cstr m t ys \<Longrightarrow> strncmp_loop n s t m = diff_bytes (take n xs) (take n ys)"
proof (induction n arbitrary: s t xs ys)
  case (Suc n)
  then show ?case by (cases xs; cases ys) auto
qed simp

text \<open>The address of the first byte that satisfies the search, or \<^verbatim>\<open>NULL\<close>.\<close>

lemma strchr_cstr:
  "cstr m s bs \<Longrightarrow>
   strchr s c m = Some (if ucast c \<in> set (bs @ [0])
                        then s + word_of_nat (length (takeWhile (\<lambda>b. b \<noteq> ucast c) (bs @ [0]))) else 0)"
proof (induction bs arbitrary: s)
  case Nil
  then show ?case by (subst strchr.simps) (auto simp: Nil)
next
  case (Cons b bs)
  then show ?case by (subst strchr.simps) (auto simp: algebra_simps)
qed


lemma paste_Cons:
  assumes "length bs < 2 ^ 64"
  shows "paste d (b # bs) m = paste (d + 1) bs (m(d := b))"
proof
  fix a
  show "paste d (b # bs) m a = paste (d + 1) bs (m(d := b)) a"
  proof (cases "a = d")
    case True
    have "unat (- 1 :: u64) = 2 ^ 64 - 1"
      by (simp add: unsigned_minus_1_eq_mask mask_eq_exp_minus_1)
    with True assms show ?thesis by (simp add: paste_def)
  next
    case False
    then have "unat (a - d) = Suc (unat (a - (d + 1)))"
      using unatSuc [of "a - (d + 1)"] by (simp add: algebra_simps)
    with False show ?thesis by (simp add: paste_def)
  qed
qed

lemma cstr_cong:
  "(\<And>i. i \<le> length xs \<Longrightarrow> m' (s + word_of_nat i) = m (s + word_of_nat i)) \<Longrightarrow> cstr m' s xs = cstr m s xs"
proof (induction xs arbitrary: s)
  case Nil
  from Nil [of 0] show ?case by simp
next
  case (Cons x xs)
  have "m' s = m s" using Cons.prems [of 0] by simp
  moreover have "cstr m' (s + 1) xs = cstr m (s + 1) xs"
    using Cons.prems [of "Suc _"] by (intro Cons.IH) (simp add: algebra_simps)
  ultimately show ?case by simp
qed

lemma cstr_nth: "cstr m s xs \<Longrightarrow> i \<le> length xs \<Longrightarrow> m (s + word_of_nat i) = (xs @ [0]) ! i"
proof (induction xs arbitrary: s i)
  case (Cons x xs)
  show ?case
  proof (cases i)
    case (Suc j)
    with Cons.IH [of "s + 1" j] Cons.prems show ?thesis by (simp add: add.assoc)
  qed (use Cons in simp)
qed simp

lemma strcpy_loop_cstr:
  assumes "cstr m s xs" and "length xs < 2 ^ 64"
    and "\<And>i j. i \<le> length xs \<Longrightarrow> j \<le> length xs \<Longrightarrow> s + word_of_nat i \<noteq> d + word_of_nat j"
  shows "strcpy_loop d s m = Some (paste d (xs @ [0]) m)"
  using assms
proof (induction xs arbitrary: d s m)
  case Nil
  then show ?case by (subst strcpy_loop.simps) (simp add: paste_Cons)
next
  case (Cons x xs)
  let ?m = "m(d := x)"
  have "s + word_of_nat i \<noteq> d" if "i \<le> Suc (length xs)" for i
    using Cons.prems(3) [of i 0] that by simp
  from this [of "Suc _"] have "cstr ?m (s + 1) xs"
    using Cons.prems(1) by (subst cstr_cong [of xs _ "s + 1" m]) (auto simp: algebra_simps)
  then have "strcpy_loop (d + 1) (s + 1) ?m = Some (paste (d + 1) (xs @ [0]) ?m)"
    using Cons.prems(2) Cons.prems(3) [of "Suc _" "Suc _"] by (intro Cons.IH) (auto simp: algebra_simps simp del: fun_upd_apply)
  with Cons.prems show ?case by (subst strcpy_loop.simps) (simp add: paste_Cons Let_def)
qed

lemma strncpy_pad_paste:
  "length bs + k \<le> 2 ^ 64 \<Longrightarrow>
   strncpy_pad k d (length bs) (paste d bs m) = paste d (bs @ replicate k 0) m"
proof (induction k arbitrary: bs)
  case (Suc k)
  from Suc.IH [of "bs @ [0]"] Suc.prems show ?case
    by (simp add: paste_snoc replicate_app_Cons_same del: fun_upd_apply)
qed simp

lemma strncpy_loop_paste:
  assumes c: "cstr m s xs" and n: "n \<le> 2 ^ 64"
    and disj: "\<And>i j. i \<le> length xs \<Longrightarrow> j < n \<Longrightarrow> s + word_of_nat i \<noteq> d + word_of_nat j"
  shows "i + k = n \<Longrightarrow> i \<le> length xs \<Longrightarrow>
    strncpy_loop k d s i (paste d (take i xs) m) = paste d (take n xs @ replicate (n - length xs) 0) m"
proof (induction k arbitrary: i)
  case (Suc k)
  have rd: "paste d (take i xs) m (s + word_of_nat i) = (xs @ [0]) ! i"
    using Suc.prems disj by (subst paste_other) (auto simp: cstr_nth [OF c])
  show ?case
  proof (cases "i = length xs")
    case True
    then show ?thesis
      using rd Suc.prems n strncpy_pad_paste [of xs "Suc k" d m] by (simp del: strncpy_pad.simps flip: Suc.prems(1))
  next
    case False
    then have i: "i < length xs" using Suc.prems by simp
    then have nz: "xs ! i \<noteq> 0" using cstr_nonzero [OF c] nth_mem by fastforce
    have "(paste d (take i xs) m)(d + word_of_nat i := xs ! i) = paste d (take (Suc i) xs) m"
      using paste_snoc [of "take i xs" d m "xs ! i"] i Suc.prems n by (simp add: take_Suc_conv_app_nth)
    with Suc.IH [of "Suc i"] Suc.prems i nz rd show ?thesis by (simp add: nth_append del: fun_upd_apply)
  qed
qed simp


subsection \<open>Properties\<close>

text \<open>
  C36. \<^verbatim>\<open>memmove\<close> moves any range to any range, overlapping or not: afterwards the destination
  holds what the source held before the call and no other byte has changed.
\<close>

theorem memmove_ok:
  assumes "unat src + unat n \<le> 2 ^ 64" and "unat dest + unat n \<le> 2 ^ 64"
  shows "\<exists>m'. memmove dest src n m = (dest, m')
     \<and> load_bytes m' dest (unat n) = load_bytes m src (unat n)
     \<and> (\<forall>a. unat a < unat dest \<or> unat dest + unat n \<le> unat a \<longrightarrow> m' a = m a)"
proof -
  let ?m = "paste dest (load_bytes m src (unat n)) m"
  have "load_bytes ?m dest (unat n) = load_bytes m src (unat n)"
    using load_paste [of "load_bytes m src (unat n)" dest m] unat_bound [of n] by simp
  moreover have "?m a = m a" if "unat a < unat dest \<or> unat dest + unat n \<le> unat a" for a
  proof (rule paste_other)
    fix i assume "i < length (load_bytes m src (unat n))"
    then have "unat (dest + word_of_nat i) = unat dest + i" "i < unat n"
      using assms(2) by (simp_all add: unat_word_ariths unat_of_nat_small)
    with that show "a \<noteq> dest + word_of_nat i" by auto
  qed
  ultimately show ?thesis using memmove_result [OF assms] by blast
qed

theorem memmove_ok_witness:
  "\<exists>m'. memmove 0x1001 0x1000 3 (\<lambda>a. ucast a) = (0x1001, m') \<and> load_bytes m' 0x1001 3 = [0, 1, 2]"
proof -
  have r: "load_bytes (\<lambda>a. ucast a) 0x1000 3 = ([0, 1, 2] :: u8 list)"
    by (simp add: load_bytes_def numeral_3_eq_3)
  have "unat (3 :: u64) = 3" by simp
  with memmove_ok [of "0x1000" 3 "0x1001" "\<lambda>a. ucast a"] r show ?thesis by auto
qed

text \<open>
  The string functions return on every terminated string and compute what their names say:
  the length, the difference at the first mismatch (zero exactly for equal strings), a copy of the
  string with its terminator that disturbs nothing else.
\<close>

theorem string_functions_ok:
  assumes "cstr m s xs" and "cstr m t ys" and "length xs < 2 ^ 64"
    and "\<And>i j. i \<le> length xs \<Longrightarrow> j \<le> length xs \<Longrightarrow> s + word_of_nat i \<noteq> d + word_of_nat j"
  shows "strlen s m = Some (word_of_nat (length xs))
     \<and> (\<exists>r. strcmp s t m = Some r \<and> (r = 0 \<longleftrightarrow> xs = ys))
     \<and> strncmp s t n m = diff_bytes (take (unat n) xs) (take (unat n) ys)
     \<and> strcpy d s m = Some (d, paste d (xs @ [0]) m)"
proof (intro conjI)
  show "strlen s m = Some (word_of_nat (length xs))"
    using strlen_end_cstr [OF assms(1)] by (simp add: strlen_def)
  show "\<exists>r. strcmp s t m = Some r \<and> (r = 0 \<longleftrightarrow> xs = ys)"
    using strcmp_cstr [OF assms(1,2)] diff_bytes_0 cstr_nonzero [OF assms(1)] cstr_nonzero [OF assms(2)] by blast
  show "strncmp s t n m = diff_bytes (take (unat n) xs) (take (unat n) ys)"
    using strncmp_loop_cstr [OF assms(1,2)] by (simp add: strncmp_def)
  show "strcpy d s m = Some (d, paste d (xs @ [0]) m)"
    using strcpy_loop_cstr [OF assms(1,3,4)] by (simp add: strcpy_def)
qed

definition string_example :: bytes where
  "string_example = (\<lambda>_. 0)(0x100 := 0x6C, 0x101 := 0x73, 0x200 := 0x6C)"

theorem string_functions_ok_witness:
  "strlen 0x100 string_example = Some 2
   \<and> strcpy 0x300 0x100 string_example = Some (0x300, paste 0x300 [0x6C, 0x73, 0] string_example)"
proof -
  have "cstr string_example 0x100 [0x6C, 0x73]" "cstr string_example 0x200 [0x6C]"
    by (simp_all add: string_example_def)
  moreover have "0x100 + word_of_nat i \<noteq> (0x300 + word_of_nat j :: u64)"
    if "i \<le> length [0x6C :: u8, 0x73]" "j \<le> length [0x6C :: u8, 0x73]" for i j
    using that range_addr_eq [of i 3 j "0x100" "0x300"] by simp
  ultimately show ?thesis
    using string_functions_ok [of string_example "0x100" "[0x6C, 0x73]" "0x200" "[0x6C]" "0x300" 0] by simp
qed

text \<open>
  \<^verbatim>\<open>strncpy\<close> writes exactly \<open>n\<close> bytes: the first \<open>n\<close> bytes of the string, padded with zeros when
  the string is shorter. A string of \<open>n\<close> or more bytes is left without a terminator.
\<close>

theorem strncpy_ok:
  assumes "cstr m s xs"
    and "\<And>i j. i \<le> length xs \<Longrightarrow> j < unat n \<Longrightarrow> s + word_of_nat i \<noteq> d + word_of_nat j"
  shows "strncpy d s n m = (d, paste d (take (unat n) xs @ replicate (unat n - length xs) 0) m)"
  using strncpy_loop_paste [OF assms(1) _ assms(2), where n = "unat n" and i = 0 and k = "unat n"] unat_bound [of n]
  by (simp add: strncpy_def)

theorem strncpy_ok_witness:
  "strncpy 0x300 0x100 1 string_example = (0x300, paste 0x300 [0x6C] string_example)"
proof -
  have "cstr string_example 0x100 [0x6C, 0x73]" by (simp add: string_example_def)
  moreover have "0x100 + word_of_nat i \<noteq> (0x300 + word_of_nat j :: u64)"
    if "i \<le> length [0x6C :: u8, 0x73]" "j < unat (1 :: u64)" for i j
    using that range_addr_eq [of i 3 j "0x100" "0x300"] by simp
  ultimately show ?thesis
    using strncpy_ok [of string_example "0x100" "[0x6C, 0x73]" 1 "0x300"] by simp
qed

end
