(* ===== verification/Kheap.thy ===== *)
theory Kheap
  imports PageMap HeapBlocks KString
begin

unbundle bit_operations_syntax

text \<open>
  The kernel heap, \<^verbatim>\<open>src/src/memory/kheap.c\<close>: the block list of \<open>HeapBlocks\<close> in the virtual range
  that starts at \<^verbatim>\<open>KHEAP_START\<close>, extended page by page with frames of the physical allocator that
  are mapped at the end of the heap. Headers are kept in the store \<open>hb\<close> and payload bytes in
  \<open>heap_data\<close>; the list invariant shows that no header lies inside a payload in use, so the two
  never share an address that matters. A dereference of \<^verbatim>\<open>NULL\<close> or of an unmapped page is not
  modelled; the properties show where it cannot happen.
\<close>

subsection \<open>State and operations\<close>

record kheap_state =
  vm :: vm_state
  kernel_pml4 :: u64
  hb :: blocks
  heap_data :: bytes
  heap_head :: u64
  heap_end :: u64

definition HEAP_MAGIC :: u64 where "HEAP_MAGIC = 0xDEADBEEFCAFEBABE"
abbreviation (input) ALIGNMENT :: u64 where "ALIGNMENT \<equiv> 16"
definition KHEAP_START :: u64 where "KHEAP_START = 0xFFFF800000000000"
definition KHEAP_MAX :: u64 where "KHEAP_MAX = 0xFFFF800100000000"

definition get_last_block :: "kheap_state \<Rightarrow> u64 option" where
  "get_last_block s = (if heap_head s = 0 then Some 0 else last_block (heap_head s) (hb s))"

text \<open>
  One round of the loop in \<^verbatim>\<open>heap_expand\<close>: the result of \<^verbatim>\<open>pmm_alloc_page\<close> is used without a check
  for \<^verbatim>\<open>NULL\<close>.
\<close>

definition map_heap_page :: "u64 \<Rightarrow> u64 \<Rightarrow> vm_state \<Rightarrow> vm_state option" where
  "map_heap_page root va v =
     do {
       (page, p) \<leftarrow> pmm_alloc_page (pmm v);
       let phys = page - limine_hhdm p;
       vmm_map_page root va phys (VMM_PRESENT OR VMM_WRITE) (v\<lparr>pmm := p\<rparr>)
     }"

fun expand_loop :: "nat \<Rightarrow> kheap_state \<Rightarrow> kheap_state option" where
  "expand_loop 0 s = Some s"
| "expand_loop (Suc n) s =
     do {
       v \<leftarrow> map_heap_page (kernel_pml4 s) (heap_end s) (vm s);
       expand_loop n (s\<lparr>vm := v, heap_end := heap_end s + PAGE_SIZE\<rparr>)
     }"

text \<open>\<open>append_block\<close> writes the header of the new region and links it behind the last block.\<close>

definition append_block :: "u64 \<Rightarrow> kheap_state \<Rightarrow> kheap_state option" where
  "append_block sz s =
     (let block = heap_end s - sz in
      do {
        prev \<leftarrow> get_last_block s;
        let h = (hb s)(block := \<lparr>magic = HEAP_MAGIC, bsize = sz - 40, bfree = True, bnext = 0, bprev = prev\<rparr>);
        if prev \<noteq> 0 then Some (s\<lparr>hb := h(prev := (h prev)\<lparr>bnext := block\<rparr>)\<rparr>)
        else Some (s\<lparr>hb := h, heap_head := block\<rparr>)
      })"

definition heap_expand :: "u64 \<Rightarrow> kheap_state \<Rightarrow> kheap_state option" where
  "heap_expand sz0 s =
     (let sz = ALIGN_UP sz0 PAGE_SIZE in
      do { s \<leftarrow> expand_loop (unat (sz div PAGE_SIZE)) s; append_block sz s })"

definition heap_init :: "kheap_state \<Rightarrow> kheap_state option" where
  "heap_init s = heap_expand (PAGE_SIZE * 4) s"

definition kmalloc :: "u64 \<Rightarrow> kheap_state \<Rightarrow> (u64 \<times> kheap_state) option" where
  "kmalloc sz0 s =
     (if sz0 = 0 then Some (0, s)
      else let sz = ALIGN_UP sz0 ALIGNMENT in
      do {
        curr \<leftarrow> find_fit (heap_head s) sz (hb s);
        if curr \<noteq> 0 then Some (curr + 40, s\<lparr>hb := take_block HEAP_MAGIC curr sz (hb s)\<rparr>)
        else do {
          s \<leftarrow> heap_expand (sz + 40) s;
          block \<leftarrow> get_last_block s;
          Some (block + 40, s\<lparr>hb := (hb s)(block := (hb s block)\<lparr>bfree := False\<rparr>)\<rparr>)
        }
      })"

definition kfree :: "u64 \<Rightarrow> kheap_state \<Rightarrow> kheap_state option" where
  "kfree ptr s =
     (if ptr = 0 then Some s
      else let block = ptr - 40 in
      if magic (hb s block) \<noteq> HEAP_MAGIC then Some s
      else do { h \<leftarrow> release_block block (hb s); Some (s\<lparr>hb := h\<rparr>) })"

definition krealloc :: "u64 \<Rightarrow> u64 \<Rightarrow> kheap_state \<Rightarrow> (u64 \<times> kheap_state) option" where
  "krealloc ptr sz s =
     (if ptr = 0 then kmalloc sz s
      else if sz = 0 then do { s \<leftarrow> kfree ptr s; Some (0, s) }
      else let block = ptr - 40 in
      if bsize (hb s block) \<ge> sz then Some (ptr, s)
      else do {
        (newptr, s) \<leftarrow> kmalloc sz s;
        if newptr = 0 then Some (0, s)
        else do {
          let s = s\<lparr>heap_data := copy_fwd (unat (bsize (hb s block))) newptr ptr (heap_data s)\<rparr>;
          s \<leftarrow> kfree ptr s;
          Some (newptr, s)
        }
      })"

subsection \<open>Pages behind the heap\<close>

text \<open>
  What the heap needs of the memory managers, as an interface: a supply of pages. \<open>ready n v\<close>
  promises \<open>n\<close> more pages, \<open>mapped v va\<close> says that the page of \<open>va\<close> is backed.
\<close>

fun add_pages :: "(u64 \<Rightarrow> 'v \<Rightarrow> 'v option) \<Rightarrow> nat \<Rightarrow> u64 \<Rightarrow> 'v \<Rightarrow> 'v option" where
  "add_pages add_page 0 va v = Some v"
| "add_pages add_page (Suc n) va v = do { v \<leftarrow> add_page va v; add_pages add_page n (va + 4096) v }"

locale page_supply =
  fixes add_page :: "u64 \<Rightarrow> 'v \<Rightarrow> 'v option"
    and ready :: "nat \<Rightarrow> 'v \<Rightarrow> bool"
    and valid_page :: "u64 \<Rightarrow> bool"
    and mapped :: "'v \<Rightarrow> u64 \<Rightarrow> bool"
  assumes add_page: "ready (Suc n) v \<Longrightarrow> valid_page va \<Longrightarrow>
      \<exists>v'. add_page va v = Some v' \<and> ready n v' \<and> mapped v' va
           \<and> (\<forall>w. valid_page w \<longrightarrow> mapped v w \<longrightarrow> mapped v' w)"
begin

lemma add_pages_ok:
  assumes "ready (n + k) v" and "\<And>i. i < n \<Longrightarrow> valid_page (va + 4096 * word_of_nat i)"
  shows "\<exists>v'. add_pages add_page n va v = Some v' \<and> ready k v'
     \<and> (\<forall>i < n. mapped v' (va + 4096 * word_of_nat i))
     \<and> (\<forall>w. valid_page w \<longrightarrow> mapped v w \<longrightarrow> mapped v' w)"
  using assms
proof (induction n arbitrary: va v)
  case (Suc n)
  have va: "valid_page va" using Suc.prems(2) [of 0] by simp
  have "ready (Suc (n + k)) v" using Suc.prems(1) by simp
  from add_page [OF this va] obtain v1 where
    v1: "add_page va v = Some v1" "ready (n + k) v1" "mapped v1 va" "\<forall>w. valid_page w \<longrightarrow> mapped v w \<longrightarrow> mapped v1 w"
    by blast
  have sh: "va + 4096 + 4096 * word_of_nat i = va + 4096 * word_of_nat (Suc i)" for i
    by (simp add: algebra_simps)
  have "valid_page (va + 4096 + 4096 * word_of_nat i)" if "i < n" for i
    unfolding sh using that by (intro Suc.prems(2)) simp
  from Suc.IH [OF v1(2) this] obtain v' where v': "add_pages add_page n (va + 4096) v1 = Some v'" "ready k v'"
    "\<forall>i < n. mapped v' (va + 4096 * word_of_nat (Suc i))" "\<forall>w. valid_page w \<longrightarrow> mapped v1 w \<longrightarrow> mapped v' w"
    unfolding sh by blast
  have "mapped v' (va + 4096 * word_of_nat i)" if "i < Suc n" for i
    using that v' v1(3) va by (cases i) auto
  with v1 v' show ?case by auto
qed simp

end

text \<open>The heap lies in the first top-level slot of the upper half.\<close>

definition heap_slot :: "u64 set" where "heap_slot = {256}"

definition pages_ready :: "u64 \<Rightarrow> nat \<Rightarrow> vm_state \<Rightarrow> bool" where
  "pages_ready root n v \<longleftrightarrow> private_map heap_slot v root
     \<and> unat (used_pages (pmm v)) + 4 * n \<le> unat (total_pages (pmm v))"

lemma heap_flags: "(VMM_PRESENT OR VMM_WRITE) AND PAGE_ALIGN_MASK = 0"
  by (simp add: vmm_flags PAGE_ALIGN_MASK_def)

interpretation kheap_pages: page_supply "map_heap_page root" "pages_ready root"
  "\<lambda>va. PML4_INDEX va \<in> heap_slot" "\<lambda>v va. mmu_page root va v \<noteq> None" for root
proof
  fix n v va
  assume r: "pages_ready root (Suc n) v" and va: "PML4_INDEX va \<in> heap_slot"
  have pm: "private_map heap_slot v root" and free: "unat (used_pages (pmm v)) + 4 \<le> unat (total_pages (pmm v))"
    using r by (simp_all add: pages_ready_def)
  obtain f p v' where m: "pmm_alloc_page (pmm v) = Some (f * PAGE_SIZE + limine_hhdm (pmm v), p)"
    "limine_hhdm p = limine_hhdm (pmm v)"
    "vmm_map_page root va (f * PAGE_SIZE) (VMM_PRESENT OR VMM_WRITE) (v\<lparr>pmm := p\<rparr>) = Some v'"
    "private_map heap_slot v' root" "total_pages (pmm v') = total_pages (pmm v)"
    "unat (used_pages (pmm v')) \<le> unat (used_pages (pmm v)) + 4" "mmu_page root va v' = Some (f * PAGE_SIZE)"
    "\<And>w. PML4_INDEX w \<in> heap_slot \<Longrightarrow> \<not> same_vpage va w \<Longrightarrow> mmu_page root w v' = mmu_page root w v"
    by (rule map_fresh_frame [OF pm va free heap_flags]) blast
  have "map_heap_page root va v = Some v'" using m(1-3) by (simp add: map_heap_page_def)
  moreover have "pages_ready root n v'" using r m(4-6) by (simp add: pages_ready_def)
  moreover have "mmu_page root w v' \<noteq> None"
    if "PML4_INDEX w \<in> heap_slot" "mmu_page root w v \<noteq> None" for w
    using that m(7,8) same_vpage_page [of va _ root v'] by (metis option.distinct(1))
  ultimately show "\<exists>v'. map_heap_page root va v = Some v' \<and> pages_ready root n v' \<and> mmu_page root va v' \<noteq> None
      \<and> (\<forall>w. PML4_INDEX w \<in> heap_slot \<longrightarrow> mmu_page root w v \<noteq> None \<longrightarrow> mmu_page root w v' \<noteq> None)"
    using m(7) by auto
qed

lemma expand_loop_pages:
  "expand_loop n s = map_option (\<lambda>v. s\<lparr>vm := v, heap_end := heap_end s + 4096 * word_of_nat n\<rparr>)
     (add_pages (map_heap_page (kernel_pml4 s)) n (heap_end s) (vm s))"
proof (induction n arbitrary: s)
  case (Suc n)
  then show ?case
    by (cases "map_heap_page (kernel_pml4 s) (heap_end s) (vm s)")
       (auto simp: algebra_simps intro!: arg_cong2 [where f = map_option])
qed simp


subsection \<open>The invariant of the heap\<close>

text \<open>The heap grows inside its top-level slot, below \<open>heap_top\<close>.\<close>

abbreviation (input) heap_base :: nat where "heap_base \<equiv> 0xFFFF800000000000"
abbreviation (input) heap_top :: nat where "heap_top \<equiv> 0xFFFF808000000000"

definition kheap_ok :: "kheap_state \<Rightarrow> u64 list \<Rightarrow> bool" where
  "kheap_ok s as \<longleftrightarrow> heap_ok HEAP_MAGIC (hb s) as (heap_head s) (unat (heap_end s))
     \<and> private_map heap_slot (vm s) (kernel_pml4 s)
     \<and> start_of as (unat (heap_end s)) = heap_base \<and> unat (heap_end s) \<le> heap_top \<and> unat (heap_end s) mod 4096 = 0
     \<and> (\<forall>va. heap_base \<le> unat va \<longrightarrow> unat va < unat (heap_end s) \<longrightarrow>
          mmu_page (kernel_pml4 s) va (vm s) \<noteq> None)"

lemma heap_slot_index:
  assumes "heap_base \<le> unat va" "unat va < heap_top"
  shows "PML4_INDEX va \<in> heap_slot"
proof -
  have "unat (drop_bit 39 va) = unat va div 2 ^ 39"
    by (subst unat_drop_bit_eq) (simp add: drop_bit_eq_div)
  also have "\<dots> = 0x1FFFF00" using assms by (simp add: div_nat_eqI)
  finally have "drop_bit 39 va = 0x1FFFF00" by (simp add: word_unat_eq_iff)
  then show ?thesis by (simp add: PML4_INDEX_def heap_slot_def)
qed

lemma same_page_offset:
  assumes "unat (a :: u64) div 4096 = unat b div 4096"
  shows "same_vpage a b"
proof -
  have "unat (drop_bit 12 x) = unat x div 4096" for x :: u64
    by (subst unat_drop_bit_eq) (simp add: drop_bit_eq_div)
  then have "drop_bit 12 a = drop_bit 12 b" using assms by (metis word_unat_eq_iff)
  then have "drop_bit (12 + k) a = drop_bit (12 + k) b" for k
    using drop_bit_drop_bit [of k 12 a] drop_bit_drop_bit [of k 12 b] by (simp only: add.commute)
  from this [of 0] this [of 9] this [of 18] this [of 27] show ?thesis
    by (simp add: same_vpage_def vpath_def PML4_INDEX_def PDPT_INDEX_def PD_INDEX_def PT_INDEX_def)
qed

text \<open>A page-aligned extension maps every address of the new range.\<close>

lemma range_mapped:
  assumes pages: "\<And>i. i < n \<Longrightarrow> mmu_page root (e + 4096 * word_of_nat i) v \<noteq> None"
    and e: "unat e mod 4096 = 0" and fit: "unat e + 4096 * n < 2 ^ 64"
    and va: "unat e \<le> unat va" "unat va < unat e + 4096 * n"
  shows "mmu_page root va v \<noteq> None"
proof -
  define i where "i = (unat va - unat e) div 4096"
  have i: "i < n" using va by (simp add: i_def less_mult_imp_div_less algebra_simps)
  then have "unat (e + 4096 * word_of_nat i) = unat e + 4096 * i"
    using fit by (simp add: unat_word_ariths unat_of_nat_small)
  moreover obtain q where q: "unat e = 4096 * q" using e by blast
  moreover have "unat va div 4096 = q + i"
  proof -
    have "unat va = (unat va - unat e) + 4096 * q" using va q by simp
    then show ?thesis unfolding i_def by (metis add.commute div_mult_self2 zero_neq_numeral)
  qed
  ultimately have "same_vpage (e + 4096 * word_of_nat i) va"
    by (intro same_page_offset) simp
  with pages [OF i] same_vpage_page show ?thesis by metis
qed

text \<open>The new header behind the last block.\<close>

lemma get_last_block_chain:
  assumes c: "chain HEAP_MAGIC (hb s) 0 as 0 e" and hd: "heap_head s = next_of as 0"
  shows "get_last_block s = Some (last_of 0 as)"
proof (cases as)
  case Nil
  then show ?thesis using hd by (simp add: get_last_block_def)
next
  case (Cons a as')
  then have "heap_head s \<noteq> 0" using c hd by simp
  with last_block_chain [OF c] Cons hd show ?thesis by (simp add: get_last_block_def last_of_def)
qed

lemma append_block_ok:
  assumes c: "chain HEAP_MAGIC (hb s) 0 as 0 (unat b)" and hd: "heap_head s = next_of as 0" and b: "b \<noteq> 0"
    and e: "heap_end s = b + sz" "unat (b + sz) = unat b + unat sz" and sz: "40 \<le> unat sz"
  obtains h where "append_block sz s = Some (s\<lparr>hb := h, heap_head := next_of (as @ [b]) 0\<rparr>)"
    and "chain HEAP_MAGIC h 0 (as @ [b]) 0 (unat (heap_end s))" and "b \<notin> set as"
    and "\<And>a. a \<noteq> b \<Longrightarrow> bfree (h a) = bfree (hb s a) \<and> bsize (h a) = bsize (hb s a)"
    and "bfree (h b)" and "bsize (h b) = sz - 40"
proof -
  let ?nb = "\<lparr>magic = HEAP_MAGIC, bsize = sz - 40, bfree = True, bnext = 0, bprev = last_of 0 as\<rparr>"
  define h where "h = (if as = [] then (hb s)(b := ?nb)
     else ((hb s)(b := ?nb))(last as := (hb s (last as))\<lparr>bnext := b\<rparr>))"
  note ap = append_block_chain [OF c refl b, where nb = ?nb, OF refl]
  have szb: "unat (sz - 40) = unat sz - 40" using sz by (subst unat_sub) (simp_all add: word_le_nat_alt)
  have last: "as \<noteq> [] \<Longrightarrow> last as \<noteq> 0 \<and> last as \<noteq> b \<and> next_of (as @ [b]) 0 = heap_head s"
    using chain_nonzero [OF c, of "last as"] ap(1) hd by (cases as) auto
  show ?thesis
  proof (rule that)
    show "append_block sz s = Some (s\<lparr>hb := h, heap_head := next_of (as @ [b]) 0\<rparr>)"
      using get_last_block_chain [OF c hd] last e(1)
      by (cases "as = []") (simp_all add: append_block_def h_def last_of_def Let_def)
    show "chain HEAP_MAGIC h 0 (as @ [b]) 0 (unat (heap_end s))"
      using ap(2) szb e sz by (simp add: h_def)
    show "bfree (h b)" "bsize (h b) = sz - 40" using last by (auto simp: h_def)
  qed (use ap(1) in \<open>simp_all add: h_def\<close>)
qed

text \<open>
  \<^verbatim>\<open>heap_expand\<close>: with enough free frames it returns, every page of the new range is mapped to a
  private frame, and the new free block is the last of the list.
\<close>

lemma heap_expand_ok:
  assumes ok: "kheap_ok s as" and sz: "40 \<le> unat sz" and room: "unat (heap_end s) + 4096 * ((unat sz + 4095) div 4096) < heap_top"
    and free: "unat (used_pages (pmm (vm s))) + 4 * ((unat sz + 4095) div 4096 + k) \<le> unat (total_pages (pmm (vm s)))"
  defines "n \<equiv> (unat sz + 4095) div 4096" and "b \<equiv> heap_end s"
  obtains s' where "heap_expand sz s = Some s'" and "chain HEAP_MAGIC (hb s') 0 (as @ [b]) 0 (unat (heap_end s'))"
    and "heap_head s' = next_of (as @ [b]) 0" and "b \<notin> set as"
    and "\<And>a. a \<in> set as \<Longrightarrow> bfree (hb s' a) = bfree (hb s a) \<and> bsize (hb s' a) = bsize (hb s a)"
    and "bfree (hb s' b)" and "unat (bsize (hb s' b)) = 4096 * n - 40"
    and "unat (heap_end s') = unat (heap_end s) + 4096 * n"
    and "private_map heap_slot (vm s') (kernel_pml4 s')"
    and "\<And>va. heap_base \<le> unat va \<Longrightarrow> unat va < unat (heap_end s') \<Longrightarrow>
          mmu_page (kernel_pml4 s') va (vm s') \<noteq> None"
    and "heap_data s' = heap_data s" and "get_last_block s' = Some b"
    and "unat (used_pages (pmm (vm s'))) + 4 * k \<le> unat (total_pages (pmm (vm s')))"
proof -
  let ?e = "heap_end s" and ?r = "kernel_pml4 s" and ?sz = "ALIGN_UP sz PAGE_SIZE"
  have c: "chain HEAP_MAGIC (hb s) 0 as 0 (unat ?e)" and hd: "heap_head s = next_of as 0"
    and pm: "private_map heap_slot (vm s) ?r" and al: "unat ?e mod 4096 = 0" and base: "heap_base \<le> unat ?e"
    using ok chain_start_le [of HEAP_MAGIC "hb s" 0 as 0 "unat ?e"] by (auto simp: kheap_ok_def heap_ok_def)
  have room: "unat ?e + 4096 * n < heap_top" using room by (simp add: n_def)
  have n4: "unat sz \<le> 4096 * n" unfolding n_def by linarith
  have usz: "unat ?sz = 4096 * n" using room n4 by (simp add: n_def unat_ALIGN_UP_page)
  have cnt: "unat (?sz div PAGE_SIZE) = n" using usz by (simp add: unat_div)
  have w: "?sz = 4096 * word_of_nat n"
    using usz room n4 by (simp add: word_unat_eq_iff unat_word_ariths unat_of_nat_small)
  have valid: "PML4_INDEX (?e + 4096 * word_of_nat i) \<in> heap_slot" if "i < n" for i
  proof -
    have "unat (?e + 4096 * word_of_nat i) = unat ?e + 4096 * i"
      using that room n4 by (simp add: unat_word_ariths unat_of_nat_small)
    then show ?thesis using that room n4 base by (intro heap_slot_index) simp_all
  qed
  have "pages_ready ?r (n + k) (vm s)" using pm free by (simp add: pages_ready_def n_def)
  from kheap_pages.add_pages_ok [OF this valid] obtain v where
    v: "add_pages (map_heap_page ?r) n ?e (vm s) = Some v" "pages_ready ?r k v"
       "\<forall>i < n. mmu_page ?r (?e + 4096 * word_of_nat i) v \<noteq> None"
       "\<forall>w. PML4_INDEX w \<in> heap_slot \<longrightarrow> mmu_page ?r w (vm s) \<noteq> None \<longrightarrow> mmu_page ?r w v \<noteq> None"
    by blast
  let ?s1 = "s\<lparr>vm := v, heap_end := ?e + ?sz\<rparr>"
  have b0: "b \<noteq> 0" using base by (auto simp: b_def)
  have ue: "unat (?e + ?sz) = unat ?e + 4096 * n"
    using usz room n4 by (simp add: unat_word_ariths)
  have "append_block ?sz ?s1 = heap_expand sz s"
    using v(1) expand_loop_pages [of n s] unfolding heap_expand_def Let_def cnt by (simp add: w)
  with append_block_ok [of ?s1 as b ?sz] obtain h where r: "heap_expand sz s = Some (?s1\<lparr>hb := h, heap_head := next_of (as @ [b]) 0\<rparr>)"
      and ch: "chain HEAP_MAGIC h 0 (as @ [b]) 0 (unat (heap_end ?s1))" and notb: "b \<notin> set as"
      and at: "\<And>a. a \<noteq> b \<Longrightarrow> bfree (h a) = bfree (hb s a) \<and> bsize (h a) = bsize (hb s a)"
      and new: "bfree (h b)" "bsize (h b) = ?sz - 40"
    using c hd b0 ue usz sz n4 by (auto simp: b_def)
  define s' where "s' = ?s1\<lparr>hb := h, heap_head := next_of (as @ [b]) 0\<rparr>"
  have mapped: "mmu_page (kernel_pml4 s') va (vm s') \<noteq> None"
    if va: "heap_base \<le> unat va" "unat va < unat (heap_end s')" for va
  proof (cases "unat va < unat ?e")
    case True
    then have "PML4_INDEX va \<in> heap_slot" using va room by (intro heap_slot_index) simp_all
    then show ?thesis using ok v(4) va True by (simp add: kheap_ok_def s'_def)
  next
    case False
    then show ?thesis
      using range_mapped [of n ?r ?e v va] v(3) al room n4 va ue by (simp add: s'_def)
  qed
  have lb: "get_last_block s' = Some b"
    using get_last_block_chain [of s' "as @ [b]"] ch by (simp add: s'_def last_of_def)
  have szb: "unat (?sz - 40) = 4096 * n - 40"
    using usz sz n4 by (subst unat_sub) (simp_all add: word_le_nat_alt)
  show ?thesis
  proof (rule that [of s'])
    show "bfree (hb s' a) = bfree (hb s a) \<and> bsize (hb s' a) = bsize (hb s a)" if "a \<in> set as" for a
      using at [of a] notb that by (auto simp: s'_def)
  qed (use r ch new szb notb ue v(2) mapped lb in \<open>simp_all add: s'_def pages_ready_def\<close>)
qed


subsection \<open>Allocation and release\<close>

lemma kheap_okD:
  assumes "kheap_ok s as"
  shows "heap_ok HEAP_MAGIC (hb s) as (heap_head s) (unat (heap_end s))"
    and "chain HEAP_MAGIC (hb s) 0 as 0 (unat (heap_end s))" and "heap_head s = next_of as 0"
    and "no_adjacent_free (hb s) as"
  using assms by (simp_all add: kheap_ok_def heap_ok_def)

text \<open>Replacing the block store by another store of the same heap.\<close>

lemma kheap_ok_store:
  assumes "kheap_ok s as" and "heap_ok HEAP_MAGIC h as' (heap_head s) (unat (heap_end s))"
  shows "kheap_ok (s\<lparr>hb := h\<rparr>) as'"
proof (cases as')
  case Nil
  then have "as = []" using assms chain_nonzero [of HEAP_MAGIC "hb s" 0 as 0 _ "next_of as 0"]
    by (cases as) (auto simp: kheap_ok_def heap_ok_def)
  with Nil assms show ?thesis by (simp add: kheap_ok_def)
next
  case (Cons b bs)
  then obtain c cs where "as = c # cs" "c = b"
    using assms by (cases as) (auto simp: kheap_ok_def heap_ok_def)
  with Cons assms show ?thesis by (simp add: kheap_ok_def)
qed

lemma kheap_ok_data [simp]: "kheap_ok (s\<lparr>heap_data := d\<rparr>) as = kheap_ok s as"
  by (simp add: kheap_ok_def)

text \<open>
  \<open>heap_room k s\<close>: the heap can grow by \<open>k\<close> more pages. A page takes at most four frames, its own and
  three tables. \<open>pages_for sz\<close> is the number of pages that \<^verbatim>\<open>kmalloc\<close> adds when no block fits.
\<close>

definition heap_room :: "nat \<Rightarrow> kheap_state \<Rightarrow> bool" where
  "heap_room k s \<longleftrightarrow> unat (used_pages (pmm (vm s))) + 4 * k \<le> unat (total_pages (pmm (vm s)))
     \<and> unat (heap_end s) + 4096 * k < heap_top"

definition pages_for :: "u64 \<Rightarrow> nat" where
  "pages_for sz = ((unat sz + 15) div 16 * 16 + 40 + 4095) div 4096"

lemma heap_room_mono: "heap_room (j + k) s \<Longrightarrow> heap_room k s"
  by (simp add: heap_room_def)

lemma pages_for_size: "unat sz + 40 \<le> 4096 * pages_for sz"
proof -
  have "unat sz \<le> (unat sz + 15) div 16 * 16" by simp
  then show ?thesis unfolding pages_for_def by linarith
qed

lemma heap_room_size:
  assumes "heap_room (pages_for sz + k) s"
  shows "unat (heap_end s) + unat sz + 40 < heap_top"
  using assms pages_for_size [of sz] by (simp add: heap_room_def)

lemma kmalloc_fit:
  assumes ok: "kheap_ok s as" and sz: "0 < unat sz" "unat sz + 128 < 2 ^ 64"
    and cur: "find_fit (heap_head s) (ALIGN_UP sz ALIGNMENT) (hb s) = Some cur" "cur \<noteq> 0"
  shows "\<exists>n s' as'. kmalloc sz s = Some (cur + 40, s') \<and> kheap_ok s' as' \<and> sz \<le> n \<and> cur \<notin> fst ` live (hb s) as
     \<and> live (hb s') as' = insert (cur, n) (live (hb s) as) \<and> heap_data s' = heap_data s
     \<and> vm s' = vm s \<and> heap_end s' = heap_end s"
proof -
  let ?sz = "ALIGN_UP sz ALIGNMENT"
  note K = kheap_okD [OF ok]
  have "cur \<in> set (filter (\<lambda>a. bfree (hb s a) \<and> ?sz \<le> bsize (hb s a)) as)"
    using cur K(3) find_fit_chain [OF K(2)] by (cases "filter (\<lambda>a. bfree (hb s a) \<and> ?sz \<le> bsize (hb s a)) as") auto
  then have c: "cur \<in> set as" "bfree (hb s cur)" "?sz \<le> bsize (hb s cur)" by auto
  have usz: "unat ?sz = (unat sz + 15) div 16 * 16" using sz by (simp add: unat_ALIGN_UP_16)
  then have ge: "sz \<le> ?sz" and small: "unat ?sz + 72 < 2 ^ 64" using sz(2) by (simp_all add: word_le_nat_alt)
  from take_block_ok [OF K(1) c small] obtain as' where
    t: "heap_ok HEAP_MAGIC (take_block HEAP_MAGIC cur ?sz (hb s)) as' (heap_head s) (unat (heap_end s))"
       "?sz \<le> bsize (take_block HEAP_MAGIC cur ?sz (hb s) cur)"
       "live (take_block HEAP_MAGIC cur ?sz (hb s)) as' =
          insert (cur, bsize (take_block HEAP_MAGIC cur ?sz (hb s) cur)) (live (hb s) as)"
    by metis
  have "kmalloc sz s = Some (cur + 40, s\<lparr>hb := take_block HEAP_MAGIC cur ?sz (hb s)\<rparr>)"
    using sz(1) cur by (auto simp: kmalloc_def Let_def)
  moreover have "cur \<notin> fst ` live (hb s) as" using c(2) by (auto dest: live_addr)
  ultimately show ?thesis
    using kheap_ok_store [OF ok t(1)] t(2,3) ge
    by (intro exI [of _ "bsize (take_block HEAP_MAGIC cur ?sz (hb s) cur)"]
          exI [of _ "s\<lparr>hb := take_block HEAP_MAGIC cur ?sz (hb s)\<rparr>"] exI [of _ as'])
       (auto intro: order_trans)
qed

lemma kmalloc_grow:
  assumes ok: "kheap_ok s as" and sz: "0 < unat sz" and room: "heap_room (pages_for sz + k) s"
    and cur: "find_fit (heap_head s) (ALIGN_UP sz ALIGNMENT) (hb s) = Some 0"
  shows "\<exists>n s' as'. kmalloc sz s = Some (heap_end s + 40, s') \<and> kheap_ok s' as' \<and> sz \<le> n
     \<and> heap_end s \<notin> fst ` live (hb s) as
     \<and> live (hb s') as' = insert (heap_end s, n) (live (hb s) as) \<and> heap_data s' = heap_data s
     \<and> heap_room k s' \<and> unat (heap_end s') = unat (heap_end s) + 4096 * pages_for sz"
proof -
  let ?sz = "ALIGN_UP sz ALIGNMENT + 40" and ?b = "heap_end s"
  note K = kheap_okD [OF ok] and fits = heap_room_size [OF room]
  define n where "n = pages_for sz"
  have R: "unat (used_pages (pmm (vm s))) + 4 * (n + k) \<le> unat (total_pages (pmm (vm s)))"
    "unat (heap_end s) + 4096 * (n + k) < heap_top"
    using room by (simp_all add: heap_room_def n_def)
  have ual: "unat (ALIGN_UP sz ALIGNMENT) = (unat sz + 15) div 16 * 16" using fits by (simp add: unat_ALIGN_UP_16)
  have al: "unat sz \<le> (unat sz + 15) div 16 * 16" "(unat sz + 15) div 16 * 16 \<le> unat sz + 15" by simp_all
  have usz: "unat ?sz = (unat sz + 15) div 16 * 16 + 40" using ual al fits by (simp add: unat_word_ariths)
  have nn: "(unat ?sz + 4095) div 4096 = n" by (simp add: usz n_def pages_for_def)
  then have n: "unat ?sz \<le> 4096 * n" "4096 * n \<le> unat ?sz + 4095" by linarith+
  have frames: "unat (used_pages (pmm (vm s))) + 4 * ((unat ?sz + 4095) div 4096 + k) \<le> unat (total_pages (pmm (vm s)))"
    unfolding nn by (rule R(1))
  have "40 \<le> unat ?sz" "unat (heap_end s) + 4096 * ((unat ?sz + 4095) div 4096) < heap_top"
    unfolding nn using usz R(2) by simp_all
  note E = heap_expand_ok [OF ok this frames, unfolded nn]
  obtain s' where e: "heap_expand ?sz s = Some s'" "chain HEAP_MAGIC (hb s') 0 (as @ [?b]) 0 (unat (heap_end s'))"
    "heap_head s' = next_of (as @ [?b]) 0" "?b \<notin> set as"
    "\<And>a. a \<in> set as \<Longrightarrow> bfree (hb s' a) = bfree (hb s a) \<and> bsize (hb s' a) = bsize (hb s a)"
    "unat (bsize (hb s' ?b)) = 4096 * n - 40" "unat (heap_end s') = unat (heap_end s) + 4096 * n"
    "private_map heap_slot (vm s') (kernel_pml4 s')"
    "\<And>va. heap_base \<le> unat va \<Longrightarrow> unat va < unat (heap_end s') \<Longrightarrow> mmu_page (kernel_pml4 s') va (vm s') \<noteq> None"
    "heap_data s' = heap_data s" "get_last_block s' = Some ?b"
    "unat (used_pages (pmm (vm s'))) + 4 * k \<le> unat (total_pages (pmm (vm s')))"
    by (rule E) blast
  let ?h = "(hb s')(?b := (hb s' ?b)\<lparr>bfree := False\<rparr>)"
  have "kmalloc sz s = Some (?b + 40, s'\<lparr>hb := ?h\<rparr>)"
    using sz cur e(1,11) by (auto simp: kmalloc_def Let_def)
  moreover have "kheap_ok (s'\<lparr>hb := ?h\<rparr>) (as @ [?b])"
  proof -
    have "no_adjacent_free ?h as"
      using K(4) e(4,5) by (subst no_adjacent_free_cong [of as _ "hb s"]) auto
    then have adj: "no_adjacent_free ?h (as @ [?b])" by (simp add: no_adjacent_free_simps)
    have ch: "chain HEAP_MAGIC ?h 0 (as @ [?b]) 0 (unat (heap_end s'))" unfolding chain_set_free by (rule e(2))
    have "start_of (as @ [?b]) (unat (heap_end s')) = start_of as (unat ?b)" by simp
    then have "start_of (as @ [?b]) (unat (heap_end s')) = heap_base" using ok by (simp add: kheap_ok_def)
    moreover have "unat (heap_end s') \<le> heap_top" using e(7) R(2) by simp
    moreover have "unat (heap_end s') mod 4096 = 0" using e(7) ok by (simp add: kheap_ok_def)
    ultimately show ?thesis
      using ch adj e(3,8,9) unat_bound [of "heap_end s'"] by (simp add: kheap_ok_def heap_ok_def del: chain_append)
  qed
  moreover have "sz \<le> bsize (hb s' ?b)" using e(6) n usz al by (simp add: word_le_nat_alt)
  moreover have "live ?h as = live (hb s) as" using e(4,5) by (intro live_cong) auto
  then have "live ?h (as @ [?b]) = insert (?b, bsize (hb s' ?b)) (live (hb s) as)" by simp
  moreover have "?b \<notin> fst ` live (hb s) as" using e(4) by (auto dest: live_addr)
  moreover have "heap_room k (s'\<lparr>hb := ?h\<rparr>)" using e(7,12) R(2) by (simp add: heap_room_def)
  ultimately show ?thesis using e(7,10)
    by (intro exI [of _ "bsize (hb s' ?b)"] exI [of _ "s'\<lparr>hb := ?h\<rparr>"] exI [of _ "as @ [?b]"]) (simp add: n_def)
qed

text \<open>The contract of \<^verbatim>\<open>kmalloc\<close> and \<^verbatim>\<open>kfree\<close>.\<close>

lemma kmalloc_contract:
  assumes ok: "kheap_ok s as" and sz: "0 < sz" and room: "heap_room (pages_for sz + k) s"
  shows "\<exists>p n s' as'. kmalloc sz s = Some (p + 40, s') \<and> kheap_ok s' as' \<and> sz \<le> n
     \<and> p \<notin> fst ` live (hb s) as \<and> live (hb s') as' = insert (p, n) (live (hb s) as)
     \<and> heap_data s' = heap_data s \<and> heap_room k s'"
proof -
  obtain cur where cur: "find_fit (heap_head s) (ALIGN_UP sz ALIGNMENT) (hb s) = Some cur"
    using find_fit_chain [OF kheap_okD(2) [OF ok]] kheap_okD(3) [OF ok] by simp
  have s0: "0 < unat sz" "unat sz + 128 < 2 ^ 64" using sz heap_room_size [OF room] by (simp_all add: unat_gt_0)
  show ?thesis
  proof (cases "cur = 0")
    case True
    with kmalloc_grow [OF ok s0(1) room] cur show ?thesis by blast
  next
    case False
    have "heap_room k s" using room heap_room_mono by blast
    then have "heap_room k s'" if "vm s' = vm s" "heap_end s' = heap_end s" for s'
      using that by (simp add: heap_room_def)
    with kmalloc_fit [OF ok s0 cur False] show ?thesis by blast
  qed
qed

lemma live_nonzero:
  assumes "kheap_ok s as" "(b, n) \<in> live (hb s) as"
  shows "b + 40 \<noteq> 0" "b \<noteq> 0" "unat b + 40 + unat n \<le> unat (heap_end s)" "unat (b + 40) = unat b + 40"
    "magic (hb s b) = HEAP_MAGIC"
proof -
  have c: "chain HEAP_MAGIC (hb s) 0 as 0 (unat (heap_end s))" and b: "b \<in> set as" "n = bsize (hb s b)"
    using kheap_okD [OF assms(1)] live_addr [OF assms(2)] by simp_all
  show "b \<noteq> 0" "magic (hb s b) = HEAP_MAGIC" using chain_nonzero [OF c b(1)] by simp_all
  show le: "unat b + 40 + unat n \<le> unat (heap_end s)" using chain_bounds [OF c b(1)] b(2) by simp
  then show u: "unat (b + 40) = unat b + 40"
    using unat_bound [of "heap_end s"] by (simp add: unat_word_ariths)
  then show "b + 40 \<noteq> 0" by auto
qed

lemma kfree_contract:
  assumes ok: "kheap_ok s as" and b: "(b, n) \<in> live (hb s) as"
  shows "\<exists>s' as'. kfree (b + 40) s = Some s' \<and> kheap_ok s' as' \<and> live (hb s') as' = live (hb s) as - {(b, n)}
     \<and> heap_data s' = heap_data s"
proof -
  obtain h as' where r: "release_block b (hb s) = Some h"
    "heap_ok HEAP_MAGIC h as' (heap_head s) (unat (heap_end s))" "live h as' = live (hb s) as - {(b, n)}"
    using release_block_ok [OF kheap_okD(1) [OF ok] b] by metis
  have "kfree (b + 40) s = Some (s\<lparr>hb := h\<rparr>)"
    using live_nonzero [OF ok b] r(1) by (simp add: kfree_def Let_def)
  then show ?thesis using kheap_ok_store [OF ok r(2)] r(3) by auto
qed


lemma krealloc_grow_contract:
  assumes ok: "kheap_ok s as" and b: "(b, n) \<in> live (hb s) as" and sz: "n < sz" and room: "heap_room (pages_for sz) s"
  shows "\<exists>p k s' as'. krealloc (b + 40) sz s = Some (p + 40, s') \<and> kheap_ok s' as' \<and> sz \<le> k
     \<and> p \<notin> fst ` live (hb s) as \<and> live (hb s') as' = insert (p, k) (live (hb s) as - {(b, n)})
     \<and> load_bytes (heap_data s') (p + 40) (unat n) = load_bytes (heap_data s) (b + 40) (unat n)
     \<and> (\<forall>(q, m) \<in> live (hb s) as. load_bytes (heap_data s') (q + 40) (unat m) = load_bytes (heap_data s) (q + 40) (unat m))"
proof -
  have "0 < sz" using sz by (metis le_less_trans word_zero_le)
  from kmalloc_contract [OF ok this, of 0] room obtain p k s1 as1 where
    m: "kmalloc sz s = Some (p + 40, s1)" "kheap_ok s1 as1" "sz \<le> k" "p \<notin> fst ` live (hb s) as"
       "live (hb s1) as1 = insert (p, k) (live (hb s) as)" "heap_data s1 = heap_data s"
    by auto
  have b1: "(b, n) \<in> live (hb s1) as1" and p1: "(p, k) \<in> live (hb s1) as1" using b m(5) by simp_all
  have bs: "bsize (hb s b) = n" "bsize (hb s1 b) = n" using live_addr b b1 by auto
  note N = live_nonzero [OF ok b] and P = live_nonzero [OF m(2) p1]
  let ?d = "copy_fwd (unat n) (p + 40) (b + 40) (heap_data s)"
  have pb: "p \<noteq> b" using b m(4) by force
  have nk: "unat n \<le> unat k" using sz m(3) by (simp add: word_less_nat_alt word_le_nat_alt)
  have fits: "unat (q + 40) + unat l \<le> 2 ^ 64" "unat (q + 40) = unat q + 40" if q: "(q, l) \<in> live (hb s1) as1" for q l
    using live_nonzero [OF m(2) q] unat_bound [of "heap_end s1"] by simp_all
  have apart: "unat q + 40 + unat l \<le> unat p \<or> unat p + 40 + unat k \<le> unat q"
    if q: "(q, l) \<in> live (hb s1) as1" "q \<noteq> p" for q l
    using live_disjoint [OF kheap_okD(2) [OF m(2)] q(1) p1 q(2)] by blast
  have d: "?d = paste (p + 40) (load_bytes (heap_data s) (b + 40) (unat n)) (heap_data s)"
    using memcpy_result [of "b + 40" n "p + 40" "heap_data s"] fits [OF b1] fits [OF p1] apart [OF b1] pb nk
    by (auto simp: memcpy_def)
  let ?s2 = "s1\<lparr>heap_data := ?d\<rparr>"
  have "kheap_ok ?s2 as1" "(b, n) \<in> live (hb ?s2) as1" using m(2) b1 by simp_all
  from kfree_contract [OF this] obtain s' as' where
    f: "kfree (b + 40) ?s2 = Some s'" "kheap_ok s' as'" "live (hb s') as' = live (hb s1) as1 - {(b, n)}"
       "heap_data s' = ?d"
    by auto
  have r: "krealloc (b + 40) sz s = Some (p + 40, s')"
    using N(1) P(1) m(1,6) f(1) bs sz \<open>0 < sz\<close> by (auto simp: krealloc_def Let_def)
  have moved: "load_bytes (heap_data s') (p + 40) (unat n) = load_bytes (heap_data s) (b + 40) (unat n)"
    using load_paste [of "load_bytes (heap_data s) (b + 40) (unat n)"] unat_bound [of n] by (simp add: f(4) d)
  have others: "load_bytes (heap_data s') (q + 40) (unat l) = load_bytes (heap_data s) (q + 40) (unat l)"
    if q: "(q, l) \<in> live (hb s) as" for q l
  proof (rule load_bytes_cong)
    fix i assume i: "i < unat l"
    have q1: "(q, l) \<in> live (hb s1) as1" "q \<noteq> p" using q m(4,5) by force+
    have "q + 40 + word_of_nat i \<noteq> p + 40 + word_of_nat j" if j: "j < unat n" for j
    proof -
      have u: "unat (q + 40 + word_of_nat i) = unat q + 40 + i" "unat (p + 40 + word_of_nat j) = unat p + 40 + j"
        using fits [OF q1(1)] fits [OF p1] i j nk unat_bound [of l] unat_bound [of n]
        by (simp_all add: unat_word_ariths unat_of_nat_small)
      have "unat q + 40 + i \<noteq> unat p + 40 + j" using apart [OF q1] i j nk by auto
      with u show ?thesis by metis
    qed
    then show "heap_data s' (q + 40 + word_of_nat i) = heap_data s (q + 40 + word_of_nat i)"
      unfolding f(4) d by (intro paste_other) simp
  qed
  have "live (hb s') as' = insert (p, k) (live (hb s) as - {(b, n)})" using f(3) m(5) pb by auto
  with r f(2) m(3,4) moved others show ?thesis by blast
qed

lemma heap_init_contract:
  assumes "kheap_ok s []" and "heap_room 4 s"
  shows "\<exists>s'. heap_init s = Some s' \<and> kheap_ok s' [heap_end s] \<and> live (hb s') [heap_end s] = {}
     \<and> bsize (hb s' (heap_end s)) = 4 * PAGE_SIZE - 40"
proof -
  let ?b = "heap_end s"
  have four: "(unat (PAGE_SIZE * 4) + 4095) div 4096 = 4" by simp
  have "40 \<le> unat (PAGE_SIZE * 4)" "unat ?b + 4096 * ((unat (PAGE_SIZE * 4) + 4095) div 4096) < heap_top"
    "unat (used_pages (pmm (vm s))) + 4 * ((unat (PAGE_SIZE * 4) + 4095) div 4096 + 0) \<le> unat (total_pages (pmm (vm s)))"
    using assms(2) by (simp_all add: heap_room_def)
  note E = heap_expand_ok [OF assms(1) this, unfolded four]
  obtain s' where e: "heap_expand (PAGE_SIZE * 4) s = Some s'" "chain HEAP_MAGIC (hb s') 0 ([] @ [?b]) 0 (unat (heap_end s'))"
    "heap_head s' = next_of ([] @ [?b]) 0" "bfree (hb s' ?b)" "unat (bsize (hb s' ?b)) = 4096 * 4 - 40"
    "unat (heap_end s') = unat ?b + 4096 * 4" "private_map heap_slot (vm s') (kernel_pml4 s')"
    "\<And>va. heap_base \<le> unat va \<Longrightarrow> unat va < unat (heap_end s') \<Longrightarrow> mmu_page (kernel_pml4 s') va (vm s') \<noteq> None"
    by (rule E) blast
  have "kheap_ok s' [?b]"
    using assms e unat_bound [of "heap_end s'"]
    by (auto simp: kheap_ok_def heap_ok_def heap_room_def no_adjacent_free_simps)
  moreover have "bsize (hb s' ?b) = 4 * PAGE_SIZE - 40" using e(5) by (simp add: word_unat_eq_iff)
  ultimately show ?thesis using e(1,4) by (auto simp: heap_init_def)
qed

subsection \<open>Properties\<close>

text \<open>
  C2. \<^verbatim>\<open>kmalloc\<close> on a well-formed heap with enough free frames returns a new block of at least the
  requested size: the blocks in use are those of before and this one, no two of them overlap, every
  byte of a block in use lies in a mapped page, and no payload byte changes.
\<close>

theorem kmalloc_ok:
  assumes "kheap_ok s as" and "0 < sz" and "heap_room (pages_for sz) s"
  shows "\<exists>p n s' as'. kmalloc sz s = Some (p + 40, s') \<and> kheap_ok s' as' \<and> sz \<le> n
     \<and> p \<notin> fst ` live (hb s) as \<and> live (hb s') as' = insert (p, n) (live (hb s) as)
     \<and> heap_data s' = heap_data s
     \<and> (\<forall>(a, m) \<in> live (hb s') as'. \<forall>(b, k) \<in> live (hb s') as'. a \<noteq> b \<longrightarrow>
          unat a + 40 + unat m \<le> unat b \<or> unat b + 40 + unat k \<le> unat a)
     \<and> (\<forall>(a, m) \<in> live (hb s') as'. \<forall>x. unat a \<le> unat x \<longrightarrow> unat x < unat a + 40 + unat m \<longrightarrow>
          mmu_page (kernel_pml4 s') x (vm s') \<noteq> None)"
proof -
  obtain p n s' as' where m: "kmalloc sz s = Some (p + 40, s')" "kheap_ok s' as'" "sz \<le> n"
     "p \<notin> fst ` live (hb s) as" "live (hb s') as' = insert (p, n) (live (hb s) as)" "heap_data s' = heap_data s"
    using kmalloc_contract [OF assms(1,2), of 0] assms(3) by auto
  note c = kheap_okD(2) [OF m(2)]
  have base: "heap_base \<le> unat a" if a: "(a, l) \<in> live (hb s') as'" for a l
    using chain_bounds [OF c] live_addr [OF a] m(2) by (simp add: kheap_ok_def)
  have mapped: "mmu_page (kernel_pml4 s') x (vm s') \<noteq> None"
    if a: "(a, l) \<in> live (hb s') as'" and x: "unat a \<le> unat x" "unat x < unat a + 40 + unat l" for a l x
  proof -
    have "heap_base \<le> unat x" "unat x < unat (heap_end s')"
      using base [OF a] live_nonzero(3) [OF m(2) a] x by simp_all
    with m(2) show ?thesis by (simp add: kheap_ok_def)
  qed
  show ?thesis
    using m live_disjoint [OF c] mapped by blast
qed

text \<open>A kernel heap before \<^verbatim>\<open>heap_init\<close>: no block yet, 62 free frames.\<close>

definition kheap_example :: kheap_state where
  "kheap_example = \<lparr>vm = vm_example, kernel_pml4 = 0x10000, hb = (\<lambda>_. \<lparr>magic = 0, bsize = 0, bfree = False, bnext = 0, bprev = 0\<rparr>),
     heap_data = (\<lambda>_. 0), heap_head = 0, heap_end = KHEAP_START\<rparr>"

lemma kheap_example_ok: "kheap_ok kheap_example []"
  by (simp add: kheap_ok_def heap_ok_def kheap_example_def KHEAP_START_def vm_example_private)

lemma kheap_example_room: "k \<le> 15 \<Longrightarrow> heap_room k kheap_example"
  by (simp add: heap_room_def kheap_example_def KHEAP_START_def vm_example_def)

theorem kmalloc_ok_witness:
  "\<exists>p n s' as'. kmalloc 100 kheap_example = Some (p + 40, s') \<and> kheap_ok s' as' \<and> 100 \<le> n
     \<and> live (hb s') as' = {(p, n)}"
proof -
  have "heap_room (pages_for 100) kheap_example" by (rule kheap_example_room) (simp add: pages_for_def)
  from kmalloc_ok [OF kheap_example_ok _ this] show ?thesis by auto
qed

text \<open>
  C13. \<^verbatim>\<open>kfree\<close> of a block in use returns, removes exactly that block, merges it with its free
  neighbours (the list never has two adjacent free blocks) and touches no payload.
\<close>

theorem kfree_ok:
  assumes "kheap_ok s as" and "(b, n) \<in> live (hb s) as"
  shows "\<exists>s' as'. kfree (b + 40) s = Some s' \<and> kheap_ok s' as' \<and> no_adjacent_free (hb s') as'
     \<and> live (hb s') as' = live (hb s) as - {(b, n)} \<and> heap_data s' = heap_data s"
  using kfree_contract [OF assms] kheap_okD(4) by blast

theorem kfree_ok_witness:
  "\<exists>p s s' as'. kmalloc 100 kheap_example = Some (p + 40, s) \<and> kfree (p + 40) s = Some s' \<and> live (hb s') as' = {}"
proof -
  have "heap_room (pages_for 100 + 0) kheap_example" by (rule kheap_example_room) (simp add: pages_for_def)
  from kmalloc_contract [OF kheap_example_ok _ this] obtain p n s as where
    m: "kmalloc 100 kheap_example = Some (p + 40, s)" "kheap_ok s as" "live (hb s) as = {(p, n)}" by auto
  from kfree_ok [OF m(2), of p n] m show ?thesis by auto
qed

text \<open>
  \<^verbatim>\<open>krealloc\<close> to a larger size returns a new block that starts with the old contents, gives the
  old block back, and leaves the contents of all other blocks in use as they were.
\<close>

theorem krealloc_ok:
  assumes "kheap_ok s as" and "(b, n) \<in> live (hb s) as" and "n < sz" and "heap_room (pages_for sz) s"
  shows "\<exists>p k s' as'. krealloc (b + 40) sz s = Some (p + 40, s') \<and> kheap_ok s' as' \<and> sz \<le> k
     \<and> live (hb s') as' = insert (p, k) (live (hb s) as - {(b, n)})
     \<and> load_bytes (heap_data s') (p + 40) (unat n) = load_bytes (heap_data s) (b + 40) (unat n)
     \<and> (\<forall>(q, m) \<in> live (hb s) as. load_bytes (heap_data s') (q + 40) (unat m) = load_bytes (heap_data s) (q + 40) (unat m))"
  using krealloc_grow_contract [OF assms] by blast


theorem krealloc_ok_witness:
  "\<exists>p q s s' as'. kmalloc 100 kheap_example = Some (p + 40, s) \<and> krealloc (p + 40) 5000 s = Some (q + 40, s')
     \<and> kheap_ok s' as'"
proof -
  have fit: "find_fit (heap_head kheap_example) (ALIGN_UP 100 ALIGNMENT) (hb kheap_example) = Some 0"
    by (subst find_fit.simps) (simp add: kheap_example_def)
  have room: "heap_room (pages_for 100 + pages_for 5000) kheap_example"
    by (rule kheap_example_room) (simp add: pages_for_def)
  obtain n s as where m: "kmalloc 100 kheap_example = Some (KHEAP_START + 40, s)" "kheap_ok s as"
    "(KHEAP_START, n) \<in> live (hb s) as" "heap_room (pages_for 5000) s"
    "unat (heap_end s) = unat KHEAP_START + 4096 * pages_for 100"
    using kmalloc_grow [OF kheap_example_ok _ room fit] by (auto simp: kheap_example_def)
  have "n < 5000" using live_nonzero(3) [OF m(2,3)] m(5) by (simp add: pages_for_def word_less_nat_alt)
  from krealloc_ok [OF m(2,3) this m(4)] m(1) show ?thesis by blast
qed

text \<open>
  \<^verbatim>\<open>heap_init\<close> on an empty heap with 16 free frames builds one free block of four pages less
  its header, backed by mapped pages; nothing is in use.
\<close>

theorem heap_init_ok:
  assumes "kheap_ok s []" and "heap_room 4 s"
  shows "\<exists>s'. heap_init s = Some s' \<and> kheap_ok s' [heap_end s] \<and> live (hb s') [heap_end s] = {}
     \<and> bsize (hb s' (heap_end s)) = 4 * PAGE_SIZE - 40"
  by (rule heap_init_contract [OF assms])

theorem heap_init_ok_witness: "\<exists>s'. heap_init kheap_example = Some s' \<and> kheap_ok s' [KHEAP_START]"
  using heap_init_ok [OF kheap_example_ok kheap_example_room] by (auto simp: kheap_example_def)

text \<open>
  A request close to the top of the address range wraps around in \<^verbatim>\<open>ALIGN_UP\<close>: the size
  becomes 0, so any free block satisfies it and the caller gets a block of 0 bytes instead of
  \<^verbatim>\<open>NULL\<close>.
\<close>

theorem kmalloc_size_wraps:
  assumes "kheap_ok s [b]" and "bfree (hb s b)" and "72 \<le> bsize (hb s b)" and "2 ^ 64 - 15 \<le> unat sz"
  shows "\<exists>s'. kmalloc sz s = Some (b + 40, s') \<and> bsize (hb s' b) = 0"
proof -
  have c: "chain HEAP_MAGIC (hb s) 0 ([] @ b # []) 0 (unat (heap_end s))" "heap_head s = b"
    using kheap_okD [OF assms(1)] by simp_all
  have "unat (sz + 15) = unat sz + 15 - 2 ^ 64"
    using assms(4) unat_bound [of sz] by (simp add: unat_word_ariths mod_if)
  then have "unat (sz + 15) < 16" using unat_bound [of sz] by simp
  then have "unat ((sz + 15) AND NOT (mask 4)) = 0" by (simp add: unat_and_not_mask)
  then have al: "ALIGN_UP sz ALIGNMENT = 0" by (simp add: ALIGN_UP_def para_mask unat_eq_0)
  have sz: "sz \<noteq> 0" using assms(4) by auto
  have "find_fit b 0 (hb s) = Some b" using c assms(2) by (subst find_fit.simps) simp
  moreover have "bsize (split_block HEAP_MAGIC b 0 (hb s) b) = 0"
    using split_block_chain(4) [OF c(1), of 0] unat_bound [of "heap_end s"] assms(3) by (simp add: word_le_nat_alt)
  ultimately show ?thesis using sz c(1,2) al by (simp add: kmalloc_def Let_def take_block_def)
qed


theorem kmalloc_size_wraps_witness:
  "\<exists>s s'. heap_init kheap_example = Some s \<and> kmalloc (- 1) s = Some (KHEAP_START + 40, s')
     \<and> bsize (hb s' KHEAP_START) = 0"
proof -
  obtain s where s: "heap_init kheap_example = Some s" "kheap_ok s [KHEAP_START]" "live (hb s) [KHEAP_START] = {}"
    "bsize (hb s KHEAP_START) = 4 * PAGE_SIZE - 40"
    using heap_init_contract [OF kheap_example_ok kheap_example_room] by (auto simp: kheap_example_def)
  have "unat (- 1 :: u64) = 2 ^ 64 - 1" by (simp add: unsigned_minus_1_eq_mask mask_eq_exp_minus_1)
  then have "2 ^ 64 - 15 \<le> unat (- 1 :: u64)" by simp
  from kmalloc_size_wraps [OF s(2) _ _ this] s show ?thesis by (auto split: if_splits)
qed

end
