(* ===== verification/RingQueue.thy ===== *)
theory RingQueue
  imports Prelude "HOL-Library.Monad_Syntax"
begin

text \<open>
  Bounded first-in first-out queues, the interface behind the keyboard buffer and the message
  queue of a process. The locale states what a client relies on; its lemmas lift the single
  operations to bursts of operations. The lemmas on \<open>ring_items\<close> serve the implementations, which
  both keep their elements in an array that wraps around.
\<close>

subsection \<open>The interface\<close>

locale bounded_queue =
  fixes wf :: "'q \<Rightarrow> bool"
    and items :: "'q \<Rightarrow> 'a list"
    and enq :: "'a \<Rightarrow> 'q \<Rightarrow> 'q option"
    and deq :: "'q \<Rightarrow> ('a \<times> 'q) option"
    and cap :: nat
  assumes items_cap: "wf q \<Longrightarrow> length (items q) \<le> cap"
    and enq_room: "wf q \<Longrightarrow> length (items q) < cap \<Longrightarrow>
          \<exists>q'. enq a q = Some q' \<and> wf q' \<and> items q' = items q @ [a]"
    and enq_full: "wf q \<Longrightarrow> length (items q) = cap \<Longrightarrow> enq a q = None"
    and deq_empty: "wf q \<Longrightarrow> items q = [] \<Longrightarrow> deq q = None"
    and deq_items: "wf q \<Longrightarrow> items q = a # as \<Longrightarrow> \<exists>q'. deq q = Some (a, q') \<and> wf q' \<and> items q' = as"
begin

text \<open>An insertion that is dropped when the queue is full, and bursts of insertions and removals.\<close>

definition offer :: "'a \<Rightarrow> 'q \<Rightarrow> 'q" where
  "offer a q = (case enq a q of None \<Rightarrow> q | Some q' \<Rightarrow> q')"

fun take_n :: "nat \<Rightarrow> 'q \<Rightarrow> 'a list \<times> 'q" where
  "take_n 0 q = ([], q)"
| "take_n (Suc n) q = (case deq q of None \<Rightarrow> ([], q)
     | Some (a, q') \<Rightarrow> let (as, q'') = take_n n q' in (a # as, q''))"

lemma offer_items: "wf q \<Longrightarrow> wf (offer a q) \<and> items (offer a q) = take cap (items q @ [a])"
proof (cases "length (items q) < cap")
  case True
  assume "wf q"
  from enq_room [OF this True, of a] True show ?thesis by (auto simp: offer_def)
next
  case False
  assume q: "wf q"
  with False items_cap have "length (items q) = cap" by fastforce
  with q enq_full show ?thesis by (auto simp: offer_def)
qed

lemma offers_items:
  "wf q \<Longrightarrow> wf (fold offer as q) \<and> items (fold offer as q) = take cap (items q @ as)"
proof (induction as arbitrary: q)
  case Nil
  then show ?case using items_cap by simp
next
  case (Cons a as)
  then have "wf (offer a q)" "items (offer a q) = take cap (items q @ [a])" using offer_items by auto
  with Cons.IH [of "offer a q"] show ?case by (simp add: take_Cons' min_def split: nat_diff_split)
qed

lemma take_n_items:
  "wf q \<Longrightarrow> fst (take_n n q) = take n (items q) \<and> wf (snd (take_n n q))
     \<and> items (snd (take_n n q)) = drop n (items q)"
proof (induction n arbitrary: q)
  case (Suc n)
  show ?case
  proof (cases "items q")
    case Nil
    with Suc.prems deq_empty show ?thesis by simp
  next
    case (Cons a as)
    from deq_items [OF Suc.prems Cons] obtain q' where "deq q = Some (a, q')" "wf q'" "items q' = as" by blast
    with Suc.IH [of q'] Cons show ?thesis by (auto split: prod.split)
  qed
qed simp

text \<open>First in, first out: what a burst put in comes out in order, up to the capacity.\<close>

lemma fifo: "wf q \<Longrightarrow> fst (take_n n (fold offer as q)) = take n (take cap (items q @ as))"
  using offers_items take_n_items by simp

end

subsection \<open>Arrays that wrap around\<close>

definition ring_items :: "'a list \<Rightarrow> nat \<Rightarrow> nat \<Rightarrow> 'a list" where
  "ring_items buf h c = map (\<lambda>i. buf ! ((h + i) mod length buf)) [0..<c]"

lemma length_ring_items [simp]: "length (ring_items buf h c) = c"
  by (simp add: ring_items_def)

lemma ring_items_0 [simp]: "ring_items buf h 0 = []"
  by (simp add: ring_items_def)

lemma mod_add_inj:
  assumes "i < (n :: nat)" "c < n" "(h + i) mod n = (h + c) mod n"
  shows "i = c"
proof -
  have *: "x = y" if xy: "x \<le> y" "y < n" "(h + x) mod n = (h + y) mod n" for x y
  proof -
    have "n dvd (h + y) - (h + x)" using xy mod_eq_dvd_iff_nat [of "h + x" "h + y" n] by simp
    with xy show ?thesis by (auto dest: dvd_imp_le)
  qed
  show ?thesis using assms * [of i c] * [of c i] by (cases "i \<le> c") auto
qed

lemma ring_items_put:
  assumes "c < length buf"
  shows "ring_items (buf[(h + c) mod length buf := a]) h (Suc c) = ring_items buf h c @ [a]"
proof (rule nth_equalityI)
  fix i assume "i < length (ring_items (buf[(h + c) mod length buf := a]) h (Suc c))"
  then have i: "i < Suc c" by simp
  have pos: "0 < length buf" using assms by linarith
  show "ring_items (buf[(h + c) mod length buf := a]) h (Suc c) ! i = (ring_items buf h c @ [a]) ! i"
  proof (cases "i = c")
    case True
    then show ?thesis using pos by (simp add: ring_items_def nth_append del: upt_Suc)
  next
    case False
    then have "(h + i) mod length buf \<noteq> (h + c) mod length buf"
      using mod_add_inj [of i "length buf" c h] i assms by auto
    with False i show ?thesis by (simp add: ring_items_def nth_append del: upt_Suc)
  qed
qed simp

lemma ring_items_take:
  assumes "0 < length buf"
  shows "ring_items buf h (Suc c) = buf ! (h mod length buf) # ring_items buf (Suc h mod length buf) c"
proof -
  have "[0..<Suc c] = 0 # map Suc [0..<c]" by (simp add: map_Suc_upt upt_conv_Cons)
  then show ?thesis by (simp add: ring_items_def mod_simps del: upt_Suc)
qed

end
