(* ===== verification/Keyboard.thy ===== *)
theory Keyboard
  imports RingQueue
begin

unbundle bit_operations_syntax

text \<open>
  The keyboard driver, \<^verbatim>\<open>src/src/drivers/keyboard.c\<close>: the interrupt handler as a state machine over
  scan codes, and the ring buffer that carries the packets to \<^verbatim>\<open>sys_read_key\<close>. The two port reads of
  the handler are an argument: \<open>inb\<close> gives the byte that a port delivers.
\<close>

subsection \<open>State and operations\<close>

record keyboard_state =
  keyboard_ring_buffer :: "u16 list"
  kb_head :: u16
  kb_tail :: u16
  mod_shift :: bool
  mod_ctrl :: bool
  mod_alt :: bool
  mod_super :: bool
  e0_prefix :: bool

definition KEY_MOD_SHIFT :: u16 where "KEY_MOD_SHIFT = 0x0100"
definition KEY_MOD_CTRL :: u16 where "KEY_MOD_CTRL = 0x0200"
definition KEY_MOD_ALT :: u16 where "KEY_MOD_ALT = 0x0400"
definition KEY_MOD_SUPER :: u16 where "KEY_MOD_SUPER = 0x0800"

abbreviation (input) KEYBOARD_RING_BUFFER_SIZE :: u16 where "KEYBOARD_RING_BUFFER_SIZE \<equiv> 256"
definition KEYBOARD_DATA_PORT :: u16 where "KEYBOARD_DATA_PORT = 0x60"
definition KEYBOARD_STATUS_PORT :: u16 where "KEYBOARD_STATUS_PORT = 0x64"

text \<open>The two scan code tables; the 70 entries that the source leaves out are 0.\<close>

definition scancode_map :: "u8 list" where
  "scancode_map = [
    0, 27, 49, 50, 51, 52, 53, 54, 55, 56, 57, 48, 45, 61, 8, 9, 113, 119, 101, 114, 116, 121,
    117, 105, 111, 112, 91, 93, 10, 0, 97, 115, 100, 102, 103, 104, 106, 107, 108, 59, 39, 96,
    0, 92, 122, 120, 99, 118, 98, 110, 109, 44, 46, 47, 0, 42, 0, 32] @ replicate 70 0"

definition scancode_map_shifted :: "u8 list" where
  "scancode_map_shifted = [
    0, 27, 33, 64, 35, 36, 37, 94, 38, 42, 40, 41, 95, 43, 8, 9, 81, 87, 69, 82, 84, 89, 85,
    73, 79, 80, 123, 125, 10, 0, 65, 83, 68, 70, 71, 72, 74, 75, 76, 58, 34, 126, 0, 124, 90,
    88, 67, 86, 66, 78, 77, 60, 62, 63, 0, 42, 0, 32] @ replicate 70 0"

definition keyboard_buffer_write :: "u16 \<Rightarrow> keyboard_state \<Rightarrow> keyboard_state" where
  "keyboard_buffer_write dat k =
     (let next_head = (kb_head k + 1) mod KEYBOARD_RING_BUFFER_SIZE
      in if next_head \<noteq> kb_tail k
         then k\<lparr>keyboard_ring_buffer := (keyboard_ring_buffer k)[unat (kb_head k) := dat], kb_head := next_head\<rparr>
         else k)"

definition keyboard_read_key :: "keyboard_state \<Rightarrow> u16 \<times> keyboard_state" where
  "keyboard_read_key k =
     (if kb_head k = kb_tail k then (0, k)
      else (keyboard_ring_buffer k ! unat (kb_tail k),
            k\<lparr>kb_tail := (kb_tail k + 1) mod KEYBOARD_RING_BUFFER_SIZE\<rparr>))"

text \<open>Modifier flags and the ASCII code packed into 16 bits.\<close>

definition key_packet :: "u8 \<Rightarrow> keyboard_state \<Rightarrow> u16" where
  "key_packet ascii k =
     (let packet = ucast ascii;
          packet = (if mod_shift k then packet OR KEY_MOD_SHIFT else packet);
          packet = (if mod_ctrl k then packet OR KEY_MOD_CTRL else packet);
          packet = (if mod_alt k then packet OR KEY_MOD_ALT else packet);
          packet = (if mod_super k then packet OR KEY_MOD_SUPER else packet)
      in packet)"

definition handle_scancode :: "u8 \<Rightarrow> keyboard_state \<Rightarrow> keyboard_state" where
  "handle_scancode scancode k =
     (if scancode = 0xE0 then k\<lparr>e0_prefix := True\<rparr>
      else if scancode = 0x2A \<or> scancode = 0x36 then k\<lparr>mod_shift := True, e0_prefix := False\<rparr>
      else if scancode = 0xAA \<or> scancode = 0xB6 then k\<lparr>mod_shift := False, e0_prefix := False\<rparr>
      else if scancode = 0x1D then k\<lparr>mod_ctrl := True, e0_prefix := False\<rparr>
      else if scancode = 0x9D then k\<lparr>mod_ctrl := False, e0_prefix := False\<rparr>
      else if scancode = 0x38 then k\<lparr>mod_alt := True, e0_prefix := False\<rparr>
      else if scancode = 0xB8 then k\<lparr>mod_alt := False, e0_prefix := False\<rparr>
      else if e0_prefix k \<and> scancode = 0x5B then k\<lparr>mod_super := True, e0_prefix := False\<rparr>
      else if e0_prefix k \<and> scancode = 0xDB then k\<lparr>mod_super := False, e0_prefix := False\<rparr>
      else if scancode AND 0x80 = 0 then
        (if e0_prefix k then k\<lparr>e0_prefix := False\<rparr>
         else if scancode < 128 \<and> scancode_map ! unat scancode \<noteq> 0 then
           (let ascii = (if mod_shift k then scancode_map_shifted ! unat scancode else scancode_map ! unat scancode)
            in (keyboard_buffer_write (key_packet ascii k) k)\<lparr>e0_prefix := False\<rparr>)
         else k\<lparr>e0_prefix := False\<rparr>)
      else k\<lparr>e0_prefix := False\<rparr>)"

definition keyboard_handler :: "(u16 \<Rightarrow> u8) \<Rightarrow> keyboard_state \<Rightarrow> keyboard_state" where
  "keyboard_handler inb k =
     (let status = inb KEYBOARD_STATUS_PORT
      in if status AND 0x01 \<noteq> 0 then handle_scancode (inb KEYBOARD_DATA_PORT) k else k)"

subsection \<open>The ring buffer is a queue of 255 packets\<close>

definition kb_wf :: "keyboard_state \<Rightarrow> bool" where
  "kb_wf k \<longleftrightarrow> length (keyboard_ring_buffer k) = 256 \<and> kb_head k < 256 \<and> kb_tail k < 256"

definition kb_count :: "keyboard_state \<Rightarrow> nat" where
  "kb_count k = (unat (kb_head k) + 256 - unat (kb_tail k)) mod 256"

definition kb_items :: "keyboard_state \<Rightarrow> u16 list" where
  "kb_items k = ring_items (keyboard_ring_buffer k) (unat (kb_tail k)) (kb_count k)"

definition kb_enq :: "u16 \<Rightarrow> keyboard_state \<Rightarrow> keyboard_state option" where
  "kb_enq a k = (if (kb_head k + 1) mod KEYBOARD_RING_BUFFER_SIZE = kb_tail k then None
                 else Some (keyboard_buffer_write a k))"

definition kb_deq :: "keyboard_state \<Rightarrow> (u16 \<times> keyboard_state) option" where
  "kb_deq k = (if kb_head k = kb_tail k then None else Some (keyboard_read_key k))"

lemma unat_next_256: "h < (256 :: u16) \<Longrightarrow> unat ((h + 1) mod 256) = (unat h + 1) mod 256"
  by (simp add: unat_mod unat_word_ariths word_less_nat_alt)

lemma next_256_less: "((h + 1) mod 256 :: u16) < 256"
  by (simp add: word_less_nat_alt unat_mod)

lemma ring_distance:
  assumes "h < (256 :: nat)" "t < 256"
  shows "(h + 256 - t) mod 256 = (if t \<le> h then h - t else h + 256 - t)"
proof (cases "t \<le> h")
  case True
  then have "h + 256 - t = (h - t) + 256" by simp
  also have "\<dots> mod 256 = h - t" using assms by simp
  finally show ?thesis using True by simp
qed (use assms in simp)

lemma ring_next: "h < (256 :: nat) \<Longrightarrow> (h + 1) mod 256 = (if h = 255 then 0 else h + 1)"
  by simp

lemma kb_count_arith:
  assumes "h < (256 :: nat)" "t < 256"
  shows "(t + (h + 256 - t) mod 256) mod 256 = h"
    and "(h + 256 - t) mod 256 = 0 \<longleftrightarrow> h = t"
    and "(h + 1) mod 256 = t \<longleftrightarrow> (h + 256 - t) mod 256 = 255"
    and "(h + 1) mod 256 \<noteq> t \<Longrightarrow> ((h + 1) mod 256 + 256 - t) mod 256 = Suc ((h + 256 - t) mod 256)"
    and "h \<noteq> t \<Longrightarrow> (h + 256 - t) mod 256 = Suc ((h + 256 - (t + 1) mod 256) mod 256)"
proof -
  note D = ring_distance [OF assms]
  show "(t + (h + 256 - t) mod 256) mod 256 = h" using assms by (simp add: D)
  show "(h + 256 - t) mod 256 = 0 \<longleftrightarrow> h = t" using assms by (auto simp: D)
  show "(h + 1) mod 256 = t \<longleftrightarrow> (h + 256 - t) mod 256 = 255"
    unfolding D ring_next [OF assms(1)] using assms by (auto split: if_splits)
  show "((h + 1) mod 256 + 256 - t) mod 256 = Suc ((h + 256 - t) mod 256)" if ne: "(h + 1) mod 256 \<noteq> t"
    using ne assms unfolding D ring_next [OF assms(1)]
    by (subst ring_distance) (auto split: if_splits)
  show "(h + 256 - t) mod 256 = Suc ((h + 256 - (t + 1) mod 256) mod 256)" if ne: "h \<noteq> t"
    using ne assms unfolding D ring_next [OF assms(2)]
    by (subst ring_distance) (auto split: if_splits)
qed

lemma kb_wf_bounds: "kb_wf k \<Longrightarrow> unat (kb_head k) < 256 \<and> unat (kb_tail k) < 256"
  by (simp add: kb_wf_def word_less_nat_alt)

lemma kb_enq_accept:
  assumes wf: "kb_wf k" and room: "(kb_head k + 1) mod 256 \<noteq> kb_tail k"
  shows "kb_wf (keyboard_buffer_write a k) \<and> kb_items (keyboard_buffer_write a k) = kb_items k @ [a]"
proof -
  note B = kb_wf_bounds [OF wf]
  have h: "kb_head k < 256" using wf by (simp add: kb_wf_def)
  have "(unat (kb_head k) + 1) mod 256 \<noteq> unat (kb_tail k)"
    using room unat_next_256 [OF h] by (metis word_unat_eq_iff)
  then have cnt: "kb_count (keyboard_buffer_write a k) = Suc (kb_count k)" and "kb_count k \<noteq> 255"
    using kb_count_arith(3,4) [of "unat (kb_head k)" "unat (kb_tail k)"] B room unat_next_256 [OF h]
    by (simp_all add: kb_count_def keyboard_buffer_write_def Let_def)
  then have "kb_count k < length (keyboard_ring_buffer k)" using wf by (simp add: kb_wf_def kb_count_def)
  moreover have "(unat (kb_tail k) + kb_count k) mod length (keyboard_ring_buffer k) = unat (kb_head k)"
    using kb_count_arith(1) B wf by (simp add: kb_wf_def kb_count_def)
  ultimately have "ring_items ((keyboard_ring_buffer k)[unat (kb_head k) := a]) (unat (kb_tail k)) (Suc (kb_count k))
      = kb_items k @ [a]"
    using ring_items_put [of "kb_count k" "keyboard_ring_buffer k" "unat (kb_tail k)" a] by (simp add: kb_items_def)
  with cnt room wf show ?thesis
    by (simp add: kb_items_def keyboard_buffer_write_def Let_def kb_wf_def next_256_less)
qed

lemma kb_deq_take:
  assumes wf: "kb_wf k" and ne: "kb_head k \<noteq> kb_tail k"
  shows "kb_wf (snd (keyboard_read_key k))
     \<and> kb_items k = fst (keyboard_read_key k) # kb_items (snd (keyboard_read_key k))"
proof -
  note B = kb_wf_bounds [OF wf]
  have t: "kb_tail k < 256" "length (keyboard_ring_buffer k) = 256" using wf by (simp_all add: kb_wf_def)
  have "unat (kb_head k) \<noteq> unat (kb_tail k)" using ne by (metis word_unat_eq_iff)
  then have cnt: "kb_count k = Suc (kb_count (snd (keyboard_read_key k)))"
    using kb_count_arith(5) B ne unat_next_256 [OF t(1)] by (simp add: kb_count_def keyboard_read_key_def)
  then show ?thesis
    using ring_items_take [of "keyboard_ring_buffer k" "unat (kb_tail k)" "kb_count (snd (keyboard_read_key k))"]
      ne t B wf unat_next_256 [OF t(1)]
    by (simp add: kb_items_def keyboard_read_key_def kb_wf_def next_256_less)
qed

lemma kb_items_Nil: "kb_wf k \<Longrightarrow> kb_items k = [] \<longleftrightarrow> kb_head k = kb_tail k"
  using kb_count_arith(2) [of "unat (kb_head k)" "unat (kb_tail k)"] kb_wf_bounds [of k]
  by (auto simp: kb_items_def kb_count_def ring_items_def word_unat_eq_iff)

lemma kb_full: "kb_wf k \<Longrightarrow> (kb_head k + 1) mod 256 = kb_tail k \<longleftrightarrow> length (kb_items k) = 255"
  using kb_count_arith(3) [of "unat (kb_head k)" "unat (kb_tail k)"] kb_wf_bounds [of k] unat_next_256 [of "kb_head k"]
  by (simp add: kb_items_def kb_count_def kb_wf_def word_unat_eq_iff)

interpretation kb_queue: bounded_queue kb_wf kb_items kb_enq kb_deq 255
proof
  fix k a as
  assume wf: "kb_wf k"
  show "length (kb_items k) \<le> 255"
    using mod_less_divisor [of 256 "unat (kb_head k) + 256 - unat (kb_tail k)"] by (simp add: kb_items_def kb_count_def)
  show "kb_enq a k = None" if "length (kb_items k) = 255"
    using that kb_full [OF wf] by (simp add: kb_enq_def)
  show "\<exists>k'. kb_enq a k = Some k' \<and> kb_wf k' \<and> kb_items k' = kb_items k @ [a]" if "length (kb_items k) < 255"
    using that kb_full [OF wf] kb_enq_accept [OF wf] by (simp add: kb_enq_def)
  show "kb_deq k = None" if "kb_items k = []"
    using that kb_items_Nil [OF wf] by (simp add: kb_deq_def)
  show "\<exists>k'. kb_deq k = Some (a, k') \<and> kb_wf k' \<and> kb_items k' = as" if "kb_items k = a # as"
  proof -
    have "kb_head k \<noteq> kb_tail k" using that kb_items_Nil [OF wf] by auto
    with kb_deq_take [OF wf this] that show ?thesis
      by (cases "keyboard_read_key k") (simp add: kb_deq_def)
  qed
qed

lemma keyboard_buffer_write_offer: "keyboard_buffer_write a k = kb_queue.offer a k"
  by (simp add: kb_queue.offer_def kb_enq_def keyboard_buffer_write_def Let_def)


subsection \<open>Properties\<close>

text \<open>
  C26. The keyboard buffer is a first-in first-out queue of 255 packets: after any burst of writes,
  the reads deliver what was buffered followed by the new packets in order, and packets that find
  the buffer full are dropped (the newest ones, never an older one).
\<close>

theorem keyboard_buffer_fifo:
  assumes "kb_wf k"
  shows "kb_wf (fold keyboard_buffer_write as k)
     \<and> kb_items (fold keyboard_buffer_write as k) = take 255 (kb_items k @ as)
     \<and> (kb_items k = [] \<longrightarrow> keyboard_read_key k = (0, k))
     \<and> (\<forall>a xs. kb_items k = a # xs \<longrightarrow> (\<exists>k'. keyboard_read_key k = (a, k') \<and> kb_wf k' \<and> kb_items k' = xs))"
proof -
  have "fold keyboard_buffer_write as k = fold kb_queue.offer as k"
    by (rule arg_cong [of _ _ "\<lambda>f. fold f as k"]) (intro ext keyboard_buffer_write_offer)
  moreover have "keyboard_read_key k = (0, k)" if "kb_items k = []"
    using that kb_items_Nil [OF assms] by (simp add: keyboard_read_key_def)
  moreover have "\<exists>k'. keyboard_read_key k = (a, k') \<and> kb_wf k' \<and> kb_items k' = xs" if "kb_items k = a # xs" for a xs
    using kb_queue.deq_items [OF assms that] by (auto simp: kb_deq_def split: if_splits)
  ultimately show ?thesis using kb_queue.offers_items [OF assms] by auto
qed

definition keyboard_example :: keyboard_state where
  "keyboard_example = \<lparr>keyboard_ring_buffer = replicate 256 0, kb_head = 255, kb_tail = 255, mod_shift = False,
     mod_ctrl = False, mod_alt = False, mod_super = False, e0_prefix = False\<rparr>"

lemma keyboard_example_wf: "kb_wf keyboard_example" "kb_items keyboard_example = []"
  by (simp_all add: kb_wf_def kb_items_def kb_count_def keyboard_example_def)

theorem keyboard_buffer_fifo_witness:
  "kb_items (fold keyboard_buffer_write [0x61, 0x62] keyboard_example) = [0x61, 0x62]
   \<and> keyboard_read_key keyboard_example = (0, keyboard_example)"
  using keyboard_buffer_fifo [OF keyboard_example_wf(1), of "[0x61, 0x62]"] keyboard_example_wf(2) by simp

lemma key_packet_bits:
  "ucast (key_packet c k) = c"
  "bit (key_packet c k) 8 = mod_shift k" "bit (key_packet c k) 9 = mod_ctrl k"
  "bit (key_packet c k) 10 = mod_alt k" "bit (key_packet c k) 11 = mod_super k"
proof -
  have single: "bit ((2 :: u16) ^ m) n \<longleftrightarrow> n = m" if "m < 16" for m n
    using that by (auto simp: bit_exp_iff)
  have flags: "bit KEY_MOD_SHIFT n \<longleftrightarrow> n = 8" "bit KEY_MOD_CTRL n \<longleftrightarrow> n = 9" "bit KEY_MOD_ALT n \<longleftrightarrow> n = 10"
    "bit KEY_MOD_SUPER n \<longleftrightarrow> n = 11" for n
    using single [of 8 n] single [of 9 n] single [of 10 n] single [of 11 n]
    by (simp_all add: KEY_MOD_SHIFT_def KEY_MOD_CTRL_def KEY_MOD_ALT_def KEY_MOD_SUPER_def)
  have bits: "bit (key_packet c k) n \<longleftrightarrow> n < 16 \<and> bit c n \<or> mod_shift k \<and> n = 8 \<or> mod_ctrl k \<and> n = 9
      \<or> mod_alt k \<and> n = 10 \<or> mod_super k \<and> n = 11" for n
    by (cases "mod_shift k"; cases "mod_ctrl k"; cases "mod_alt k"; cases "mod_super k")
       (simp_all add: key_packet_def Let_def bit_or_iff flags bit_ucast_iff disj_ac)
  show "ucast (key_packet c k) = c"
    by (rule bit_word_eqI) (auto simp: bits bit_ucast_iff)
  have "\<not> bit c 8" "\<not> bit c 9" "\<not> bit c 10" "\<not> bit c 11" 
    using bit_imp_le_length [of c 8] bit_imp_le_length [of c 9] bit_imp_le_length [of c 10] bit_imp_le_length [of c 11]
    by auto
  then show "bit (key_packet c k) 8 = mod_shift k" "bit (key_packet c k) 9 = mod_ctrl k"
    "bit (key_packet c k) 10 = mod_alt k" "bit (key_packet c k) 11 = mod_super k"
    by (simp_all add: bits)
qed

definition modifier_code :: "u8 \<Rightarrow> bool" where
  "modifier_code sc \<longleftrightarrow> sc \<in> {0xE0, 0x2A, 0x36, 0xAA, 0xB6, 0x1D, 0x9D, 0x38, 0xB8}"

text \<open>
  What the handler queues: a key press outside the modifiers, with an entry in the scan code
  table and no \<open>E0\<close> prefix pending, queues one packet whose low byte is the character of the table
  that the shift state selects and whose bits 8 to 11 are the states of shift, control, alt and
  super. The prefix is consumed by every byte but \<open>E0\<close> itself.
\<close>
theorem keyboard_handler_press:
  assumes "kb_wf k" and "inb KEYBOARD_STATUS_PORT AND 1 \<noteq> 0" and "inb KEYBOARD_DATA_PORT = sc"
    and "sc < 128" and "\<not> modifier_code sc" and "\<not> e0_prefix k" and "scancode_map ! unat sc \<noteq> 0"
    and "length (kb_items k) < 255"
  shows "\<exists>p. kb_items (keyboard_handler inb k) = kb_items k @ [p]
     \<and> ucast p = (if mod_shift k then scancode_map_shifted else scancode_map) ! unat sc
     \<and> bit p 8 = mod_shift k \<and> bit p 9 = mod_ctrl k \<and> bit p 10 = mod_alt k \<and> bit p 11 = mod_super k
     \<and> \<not> e0_prefix (keyboard_handler inb k)"
proof -
  have "unat sc < 128" using assms(4) by (simp add: word_less_nat_alt)
  then have "sc = take_bit 7 sc" by (simp add: word_unat_eq_iff unsigned_take_bit_eq take_bit_nat_eq_self)
  then have "\<not> bit sc 7" by (metis bit_take_bit_iff less_irrefl)
  then have press: "sc AND 0x80 = 0" using and_exp_eq_0_iff_not_bit [of sc 7] by simp
  let ?c = "(if mod_shift k then scancode_map_shifted else scancode_map) ! unat sc"
  have h: "keyboard_handler inb k = (keyboard_buffer_write (key_packet ?c k) k)\<lparr>e0_prefix := False\<rparr>"
    using assms press by (auto simp: keyboard_handler_def handle_scancode_def modifier_code_def Let_def)
  have "kb_items (keyboard_handler inb k) = kb_items (keyboard_buffer_write (key_packet ?c k) k)"
    by (simp add: h kb_items_def kb_count_def)
  also have "\<dots> = kb_items k @ [key_packet ?c k]"
    using kb_enq_accept kb_full assms(1,8) by (metis less_irrefl)
  finally show ?thesis using key_packet_bits [of ?c k] by (intro exI [of _ "key_packet ?c k"]) (simp add: h)
qed


theorem keyboard_handler_press_witness:
  "\<exists>p. kb_items (keyboard_handler (\<lambda>port. if port = KEYBOARD_STATUS_PORT then 1 else 0x1E)
            (keyboard_example\<lparr>mod_shift := True\<rparr>)) = [p] \<and> ucast p = (0x41 :: u8) \<and> bit p 8"
proof -
  let ?k = "keyboard_example\<lparr>mod_shift := True\<rparr>" and ?in = "\<lambda>port. if port = KEYBOARD_STATUS_PORT then 1 else 0x1E"
  have k: "kb_wf ?k" "kb_items ?k = []" "\<not> e0_prefix ?k" "mod_shift ?k"
    using keyboard_example_wf by (simp_all add: kb_wf_def kb_items_def kb_count_def keyboard_example_def)
  have "scancode_map ! unat (0x1E :: u8) = 0x61" "scancode_map_shifted ! unat (0x1E :: u8) = 0x41"
    by (simp_all add: scancode_map_def scancode_map_shifted_def)
  with keyboard_handler_press [OF k(1), of ?in "0x1E"] k show ?thesis
    by (auto simp: KEYBOARD_STATUS_PORT_def KEYBOARD_DATA_PORT_def modifier_code_def)
qed

lemma kb_items_update [simp]:
  "kb_items (k\<lparr>mod_shift := b\<rparr>) = kb_items k" "kb_items (k\<lparr>mod_ctrl := b\<rparr>) = kb_items k"
  "kb_items (k\<lparr>mod_alt := b\<rparr>) = kb_items k" "kb_items (k\<lparr>mod_super := b\<rparr>) = kb_items k"
  "kb_items (k\<lparr>e0_prefix := b\<rparr>) = kb_items k"
  by (simp_all add: kb_items_def kb_count_def)

lemma handle_scancode_no_write:
  assumes "128 \<le> sc \<or> modifier_code sc \<or> e0_prefix k"
  shows "kb_items (handle_scancode sc k) = kb_items k"
proof -
  consider "\<not> sc < 128" | "modifier_code sc" | "e0_prefix k" using assms by fastforce
  then show ?thesis
  proof cases
    case 1
    then show ?thesis by (simp add: handle_scancode_def del: not_less)
  next
    case 2
    then show ?thesis unfolding modifier_code_def by (elim insertE emptyE) (simp_all add: handle_scancode_def)
  next
    case 3
    then show ?thesis by (simp add: handle_scancode_def)
  qed
qed

lemma handle_scancode_prefix: "e0_prefix (handle_scancode sc k) \<longleftrightarrow> sc = 0xE0"
  by (simp add: handle_scancode_def Let_def)

text \<open>
  Releases and modifier bytes never queue anything, and no byte but \<open>E0\<close> leaves a prefix pending.
\<close>

theorem handle_scancode_quiet:
  "(128 \<le> sc \<or> modifier_code sc \<or> e0_prefix k \<longrightarrow> kb_items (handle_scancode sc k) = kb_items k)
   \<and> (e0_prefix (handle_scancode sc k) \<longleftrightarrow> sc = 0xE0)"
  using handle_scancode_no_write handle_scancode_prefix by blast

theorem handle_scancode_quiet_witness:
  "kb_items (handle_scancode 0x9E keyboard_example) = [] \<and> \<not> e0_prefix (handle_scancode 0x9E keyboard_example)"
  using handle_scancode_quiet [of "0x9E" keyboard_example] keyboard_example_wf by simp

end
