(* ===== verification/Task.thy ===== *)
theory Task
  imports Kheap Keyboard
begin

unbundle bit_operations_syntax

text \<open>
  Tasks, \<^verbatim>\<open>src/src/process/task.c\<close> with the message queues of \<^verbatim>\<open>src/src/syscall/sys_process.c\<close>: the ring
  of task structures, the round-robin scheduler, process exit and the release of a dead process's
  address space. \<open>tasks\<close> is the store of task structures, keyed by the pointer that \<^verbatim>\<open>kmalloc\<close>
  returned; fields that the C code leaves uninitialised keep what the store held. Kernel stacks
  live in the 8-byte cells of the virtual memory state. \<open>dram\<close> holds the bytes of user pages,
  keyed by their address in the direct map.
\<close>

subsection \<open>State\<close>

record message =
  sender_pid :: u32
  mtype :: u32
  data1 :: u64
  data2 :: u64
  data3 :: u64

record task =
  trsp :: u64
  tcr3 :: u64
  pid :: u64
  kernel_stack :: u64
  tnext :: u64
  is_wm :: u64
  program_break :: u64
  msgs :: "message list"
  msg_head :: int
  msg_tail :: int
  msg_count :: int
  waiting_for_msg :: int

record limine_framebuffer =
  fb_address :: u64
  fwidth :: u64
  fheight :: u64
  fpitch :: u64
  fbpp :: u64

record kernel =
  kheap :: kheap_state
  dram :: bytes
  tasks :: "u64 \<Rightarrow> task"
  current_task :: u64
  task_head :: u64
  zombie_task :: u64
  next_pid :: u64
  tss_rsp0 :: u64
  framebuffer :: limine_framebuffer
  kbd :: keyboard_state

abbreviation (input) MSG_QUEUE_SIZE :: int where "MSG_QUEUE_SIZE \<equiv> 16"
abbreviation (input) sizeof_task :: u64 where "sizeof_task \<equiv> 584"

text \<open>Access to the virtual memory state inside the kernel state.\<close>

definition kvm :: "kernel \<Rightarrow> vm_state" where
  "kvm k = vm (kheap k)"

definition with_vm :: "(vm_state \<Rightarrow> vm_state) \<Rightarrow> kernel \<Rightarrow> kernel" where
  "with_vm f k = k\<lparr>kheap := (kheap k)\<lparr>vm := f (vm (kheap k))\<rparr>\<rparr>"

definition upd_task :: "u64 \<Rightarrow> (task \<Rightarrow> task) \<Rightarrow> kernel \<Rightarrow> kernel" where
  "upd_task t f k = k\<lparr>tasks := (tasks k)(t := f (tasks k t))\<rparr>"

definition get_phys_addr :: "u64 \<Rightarrow> kernel \<Rightarrow> u64" where
  "get_phys_addr addr k = addr - limine_hhdm (pmm (kvm k))"

definition get_virt_addr :: "u64 \<Rightarrow> vm_state \<Rightarrow> u64" where
  "get_virt_addr phys v = phys + limine_hhdm (pmm v)"

definition tss_set_rsp0 :: "u64 \<Rightarrow> kernel \<Rightarrow> kernel" where
  "tss_set_rsp0 rsp0 k = k\<lparr>tss_rsp0 := rsp0\<rparr>"

definition kmalloc_k :: "u64 \<Rightarrow> kernel \<Rightarrow> (u64 \<times> kernel) option" where
  "kmalloc_k sz k = do { (p, h) \<leftarrow> kmalloc sz (kheap k); Some (p, k\<lparr>kheap := h\<rparr>) }"

definition kfree_k :: "u64 \<Rightarrow> kernel \<Rightarrow> kernel option" where
  "kfree_k p k = do { h \<leftarrow> kfree p (kheap k); Some (k\<lparr>kheap := h\<rparr>) }"

subsection \<open>Releasing an address space\<close>

definition PTE_PRESENT :: u64 where "PTE_PRESENT = 1"
definition PAGE_ADDR_MASK :: u64 where "PAGE_ADDR_MASK = 0x000FFFFFFFFFF000"

definition free_frame :: "u64 \<Rightarrow> vm_state \<Rightarrow> vm_state" where
  "free_frame a v = v\<lparr>pmm := pmm_free_page a (pmm v)\<rparr>"

fun free_page_table_level :: "nat \<Rightarrow> u64 \<Rightarrow> vm_state \<Rightarrow> vm_state" where
  "free_page_table_level level table_virt v =
     fold (\<lambda>i v.
       let entry = mem v (entry_addr table_virt i) in
       if entry AND PTE_PRESENT = 0 then v
       else
         let child_virt = get_virt_addr (entry AND PAGE_ADDR_MASK) v;
             v = (if level > 1 then free_page_table_level (level - 1) child_virt v
                  else if level = 1 then free_frame child_virt v else v);
             v = (if level > 1 then free_frame child_virt v else v)
         in v\<lparr>mem := (mem v)(entry_addr table_virt i := 0)\<rparr>)
       (map word_of_nat [0..<512]) v"

declare free_page_table_level.simps [simp del]

definition destroy_user_memory :: "u64 \<Rightarrow> vm_state \<Rightarrow> vm_state" where
  "destroy_user_memory pml4_phys v =
     (let pml4_virt = get_virt_addr pml4_phys v in
      fold (\<lambda>i v.
        let entry = mem v (entry_addr pml4_virt i) in
        if entry AND PTE_PRESENT \<noteq> 0 then
          let pdp_virt = get_virt_addr (entry AND PAGE_ADDR_MASK) v;
              v = free_frame pdp_virt (free_page_table_level 3 pdp_virt v)
          in v\<lparr>mem := (mem v)(entry_addr pml4_virt i := 0)\<rparr>
        else v)
        (map word_of_nat [0..<256]) v)"

subsection \<open>The scheduler\<close>

definition scheduler_init :: "kernel \<Rightarrow> kernel option" where
  "scheduler_init k =
     do {
       (root, k) \<leftarrow> kmalloc_k sizeof_task k;
       let k = upd_task root (\<lambda>t. t\<lparr>pid := 0, tnext := root, trsp := 0\<rparr>) k;
       Some (k\<lparr>current_task := root, task_head := root\<rparr>)
     }"

text \<open>The clean-up of an exited task at the start of \<^verbatim>\<open>scheduler_schedule\<close>.\<close>

definition reap_zombie :: "kernel \<Rightarrow> kernel option" where
  "reap_zombie k =
     (if zombie_task k \<noteq> 0 then
        let z = tasks k (zombie_task k) in
        do {
          k \<leftarrow> kfree_k (kernel_stack z - 4096) k;
          let k = with_vm (destroy_user_memory (tcr3 z)) k;
          let k = with_vm (free_frame (tcr3 z + limine_hhdm (pmm (kvm k)))) k;
          k \<leftarrow> kfree_k (zombie_task k) k;
          Some (k\<lparr>zombie_task := 0\<rparr>)
        }
      else Some k)"

text \<open>\<open>enter_task\<close>: the kernel stack and the address space of the task that runs next.\<close>

definition switch_cr3 :: "kernel \<Rightarrow> kernel" where
  "switch_cr3 k =
     (let old_cr3 = read_cr3 (kvm k); t = tasks k (current_task k)
      in if tcr3 t \<noteq> 0 \<and> tcr3 t \<noteq> old_cr3 then with_vm (write_cr3 (tcr3 t)) k else k)"

definition scheduler_schedule :: "u64 \<Rightarrow> kernel \<Rightarrow> (u64 \<times> kernel) option" where
  "scheduler_schedule current_rsp k =
     do {
       k \<leftarrow> reap_zombie k;
       if current_task k = 0 then Some (current_rsp, k)
       else do {
         let k = upd_task (current_task k) (\<lambda>t. t\<lparr>trsp := current_rsp\<rparr>) k;
         let k = k\<lparr>current_task := tnext (tasks k (current_task k))\<rparr>;
         let k = tss_set_rsp0 (kernel_stack (tasks k (current_task k))) k;
         let k = switch_cr3 k;
         Some (trsp (tasks k (current_task k)), k)
       }
     }"

subsection \<open>Looking up and leaving\<close>

partial_function (option) get_task_loop :: "u64 \<Rightarrow> u64 \<Rightarrow> kernel \<Rightarrow> u64 option" where
  "get_task_loop cur p k =
     (if pid (tasks k cur) = p then Some cur
      else let cur = tnext (tasks k cur)
           in if cur \<noteq> task_head k then get_task_loop cur p k else Some 0)"

definition get_task_by_pid :: "u64 \<Rightarrow> kernel \<Rightarrow> u64 option" where
  "get_task_by_pid p k = get_task_loop (task_head k) p k"

partial_function (option) find_prev :: "u64 \<Rightarrow> u64 \<Rightarrow> kernel \<Rightarrow> u64 option" where
  "find_prev prev victim k =
     (if tnext (tasks k prev) \<noteq> victim then
        let prev = tnext (tasks k prev)
        in if prev = task_head k \<and> victim \<noteq> task_head k then None
           else find_prev prev victim k
      else Some prev)"

text \<open>\<^verbatim>\<open>task_exit\<close> ends in \<^verbatim>\<open>exit_switch_to\<close>: the result is the stack pointer it switches to.\<close>

definition task_exit :: "kernel \<Rightarrow> (u64 \<times> kernel) option" where
  "task_exit k =
     (let victim = current_task k in
      do {
        prev \<leftarrow> find_prev (task_head k) victim k;
        let k = upd_task prev (\<lambda>t. t\<lparr>tnext := tnext (tasks k victim)\<rparr>) k;
        let k = (if victim = task_head k then k\<lparr>task_head := tnext (tasks k victim)\<rparr> else k);
        let k = k\<lparr>zombie_task := victim\<rparr>;
        let k = k\<lparr>current_task := tnext (tasks k victim)\<rparr>;
        let k = tss_set_rsp0 (kernel_stack (tasks k (current_task k)) + 4096) k;
        let k = switch_cr3 k;
        Some (trsp (tasks k (current_task k)), k)
      })"

subsection \<open>Messages\<close>

definition queue_put :: "message \<Rightarrow> task \<Rightarrow> task" where
  "queue_put m t = t\<lparr>msgs := (msgs t)[nat (msg_tail t) := m],
     msg_tail := (msg_tail t + 1) mod MSG_QUEUE_SIZE, msg_count := msg_count t + 1\<rparr>"

definition sys_ipc_send :: "u32 \<Rightarrow> u32 \<Rightarrow> u64 \<Rightarrow> u64 \<Rightarrow> u64 \<Rightarrow> kernel \<Rightarrow> (int \<times> kernel) option" where
  "sys_ipc_send dest_pid ty d1 d2 d3 k =
     do {
       target \<leftarrow> get_task_by_pid (scast dest_pid) k;
       if target = 0 then Some (-1, k)
       else if msg_count (tasks k target) \<ge> MSG_QUEUE_SIZE then Some (-2, k)
       else Some (0, upd_task target (queue_put
              \<lparr>sender_pid = ucast (pid (tasks k (current_task k))), mtype = ty, data1 = d1, data2 = d2, data3 = d3\<rparr>) k)
     }"

definition queue_drop :: "task \<Rightarrow> task" where
  "queue_drop t = t\<lparr>msg_head := (msg_head t + 1) mod MSG_QUEUE_SIZE, msg_count := msg_count t - 1\<rparr>"

definition sys_ipc_recv :: "kernel \<Rightarrow> int \<times> message option \<times> kernel" where
  "sys_ipc_recv k =
     (let t = tasks k (current_task k) in
      if msg_count t = 0 then (-1, None, k)
      else (0, Some (msgs t ! nat (msg_head t)), upd_task (current_task k) queue_drop k))"


subsection \<open>The message queue is a queue of 16 messages\<close>

definition ipc_wf :: "task \<Rightarrow> bool" where
  "ipc_wf t \<longleftrightarrow> length (msgs t) = 16 \<and> 0 \<le> msg_head t \<and> msg_head t < 16 \<and> 0 \<le> msg_count t \<and> msg_count t \<le> 16
     \<and> msg_tail t = (msg_head t + msg_count t) mod 16"

definition ipc_items :: "task \<Rightarrow> message list" where
  "ipc_items t = ring_items (msgs t) (nat (msg_head t)) (nat (msg_count t))"

definition ipc_enq :: "message \<Rightarrow> task \<Rightarrow> task option" where
  "ipc_enq m t = (if msg_count t \<ge> MSG_QUEUE_SIZE then None else Some (queue_put m t))"

definition ipc_deq :: "task \<Rightarrow> (message \<times> task) option" where
  "ipc_deq t = (if msg_count t = 0 then None else Some (msgs t ! nat (msg_head t), queue_drop t))"

lemma length_ipc_items: "ipc_wf t \<Longrightarrow> int (length (ipc_items t)) = msg_count t"
  by (simp add: ipc_items_def ipc_wf_def)

lemma queue_put_items:
  assumes wf: "ipc_wf t" and room: "msg_count t < 16"
  shows "ipc_wf (queue_put m t) \<and> ipc_items (queue_put m t) = ipc_items t @ [m]"
proof -
  have b: "0 \<le> msg_head t" "msg_head t < 16" "0 \<le> msg_count t" "length (msgs t) = 16"
    "msg_tail t = (msg_head t + msg_count t) mod 16" using wf by (simp_all add: ipc_wf_def)
  have tail: "nat (msg_tail t) = (nat (msg_head t) + nat (msg_count t)) mod length (msgs t)"
    using b by (simp add: nat_mod_distrib nat_add_distrib)
  have "nat (msg_count t + 1) = Suc (nat (msg_count t))" using b by simp
  then have "ipc_items (queue_put m t) = ipc_items t @ [m]"
    using ring_items_put [of "nat (msg_count t)" "msgs t" "nat (msg_head t)" m] room b(1-4)
    by (simp add: ipc_items_def queue_put_def tail)
  moreover have "(msg_tail t + 1) mod 16 = (msg_head t + (msg_count t + 1)) mod 16"
    unfolding b(5) by (simp only: mod_add_left_eq add.assoc)
  then have "ipc_wf (queue_put m t)"
    using b(1-4) room by (simp add: ipc_wf_def queue_put_def)
  ultimately show ?thesis by simp
qed

lemma queue_drop_items:
  assumes wf: "ipc_wf t" and ne: "msg_count t \<noteq> 0"
  shows "ipc_wf (queue_drop t) \<and> ipc_items t = msgs t ! nat (msg_head t) # ipc_items (queue_drop t)"
proof -
  have b: "0 \<le> msg_head t" "msg_head t < 16" "0 < msg_count t" "msg_count t \<le> 16" "length (msgs t) = 16"
    and tail: "msg_tail t = (msg_head t + msg_count t) mod 16" using wf ne by (simp_all add: ipc_wf_def)
  have cnt: "nat (msg_count t) = Suc (nat (msg_count t - 1))" using b by simp
  have nx: "nat ((msg_head t + 1) mod 16) = Suc (nat (msg_head t)) mod length (msgs t)"
    unfolding b(5) using b(1) by (simp add: nat_mod_distrib nat_add_distrib)
  have hd: "nat (msg_head t) mod length (msgs t) = nat (msg_head t)" unfolding b(5) using b(1,2) by simp
  have pos: "0 < length (msgs t)" unfolding b(5) by simp
  have "ipc_items t = msgs t ! nat (msg_head t) # ring_items (msgs t) (nat ((msg_head t + 1) mod 16)) (nat (msg_count t - 1))"
    unfolding ipc_items_def cnt nx ring_items_take [OF pos] hd by (rule refl)
  then have items: "ipc_items t = msgs t ! nat (msg_head t) # ipc_items (queue_drop t)"
    by (simp add: ipc_items_def queue_drop_def)
  have "((msg_head t + 1) mod 16 + (msg_count t - 1)) mod 16 = (msg_head t + msg_count t) mod 16"
    by (subst mod_add_left_eq) simp
  then have "ipc_wf (queue_drop t)"
    unfolding ipc_wf_def queue_drop_def using b tail by (intro conjI) simp_all
  with items show ?thesis by simp
qed

interpretation ipc_queue: bounded_queue ipc_wf ipc_items ipc_enq ipc_deq 16
proof
  fix t :: task and m ms
  assume wf: "ipc_wf t"
  note len = length_ipc_items [OF wf]
  show "length (ipc_items t) \<le> 16" using len wf by (simp add: ipc_wf_def)
  show "ipc_enq m t = None" if "length (ipc_items t) = 16" using that len by (simp add: ipc_enq_def)
  show "\<exists>t'. ipc_enq m t = Some t' \<and> ipc_wf t' \<and> ipc_items t' = ipc_items t @ [m]" if "length (ipc_items t) < 16"
    using that len queue_put_items [OF wf] by (simp add: ipc_enq_def)
  show "ipc_deq t = None" if "ipc_items t = []" using that len by (simp add: ipc_deq_def)
  show "\<exists>t'. ipc_deq t = Some (m, t') \<and> ipc_wf t' \<and> ipc_items t' = ms" if "ipc_items t = m # ms"
  proof -
    have "msg_count t \<noteq> 0" using that len by auto
    with queue_drop_items [OF wf this] that show ?thesis by (simp add: ipc_deq_def)
  qed
qed

subsection \<open>The ring of tasks\<close>

fun links :: "(u64 \<Rightarrow> u64) \<Rightarrow> u64 list \<Rightarrow> u64 \<Rightarrow> bool" where
  "links nx [] e = True"
| "links nx (a # as) e \<longleftrightarrow> nx a = next_of as e \<and> links nx as e"

lemma links_append [simp]: "links nx (xs @ ys) e \<longleftrightarrow> links nx xs (next_of ys e) \<and> links nx ys e"
  by (induction xs) auto

lemma links_cong: "(\<And>a. a \<in> set as \<Longrightarrow> nx' a = nx a) \<Longrightarrow> links nx' as e = links nx as e"
  by (induction as) auto

lemma links_set_last:
  "links nx (xs @ [l]) e \<Longrightarrow> l \<notin> set xs \<Longrightarrow> links (nx(l := e')) (xs @ [l]) e'"
proof -
  assume *: "links nx (xs @ [l]) e" "l \<notin> set xs"
  then have "links (nx(l := e')) xs l = links nx xs l" by (intro links_cong) auto
  with * show ?thesis by simp
qed

definition task_ring :: "kernel \<Rightarrow> u64 list \<Rightarrow> bool" where
  "task_ring k ts \<longleftrightarrow> ts \<noteq> [] \<and> distinct ts \<and> 0 \<notin> set ts \<and> task_head k = hd ts
     \<and> links (\<lambda>t. tnext (tasks k t)) ts (hd ts) \<and> current_task k \<in> set ts"

lemma task_ringD:
  assumes "task_ring k ts"
  shows "distinct ts" "task_head k = hd ts" "links (\<lambda>t. tnext (tasks k t)) ts (hd ts)" "0 \<notin> set ts"
    "current_task k \<in> set ts"
  using assms by (simp_all add: task_ring_def)

lemma hd_before: "distinct (us @ c # vs) \<Longrightarrow> v \<in> set vs \<Longrightarrow> v \<noteq> hd (us @ c # vs)"
  by (cases us) auto

lemma get_task_loop_ring:
  assumes "task_ring k ts" and "ts = us @ cur # vs"
  shows "get_task_loop cur p k = Some (case find (\<lambda>t. pid (tasks k t) = p) (cur # vs) of None \<Rightarrow> 0 | Some t \<Rightarrow> t)"
  using assms(2)
proof (induction vs arbitrary: us cur)
  case Nil
  have "tnext (tasks k cur) = task_head k" using assms(1) Nil by (simp add: task_ring_def)
  then show ?case by (subst get_task_loop.simps) simp
next
  case (Cons v vs)
  have nx: "tnext (tasks k cur) = v" using assms(1) Cons.prems by (simp add: task_ring_def)
  have "v \<noteq> task_head k"
    using task_ringD(1,2) [OF assms(1)] hd_before [of us cur "v # vs" v] Cons.prems by simp
  with nx Cons.IH [of "us @ [cur]" v] Cons.prems show ?case by (subst get_task_loop.simps) simp
qed

lemma get_task_by_pid_ring:
  assumes "task_ring k ts"
  shows "get_task_by_pid p k = Some (case find (\<lambda>t. pid (tasks k t) = p) ts of None \<Rightarrow> 0 | Some t \<Rightarrow> t)"
proof -
  obtain us where ts: "ts = task_head k # us" using assms by (cases ts) (auto simp: task_ring_def)
  with get_task_loop_ring [OF assms, of "[]" "task_head k" us p] show ?thesis by (simp add: get_task_by_pid_def)
qed

text \<open>The walk of \<^verbatim>\<open>task_exit\<close> to the predecessor.\<close>

lemma find_prev_inner:
  assumes "task_ring k (us @ cur # vs @ victim # ws)"
  shows "find_prev cur victim k = Some (last (cur # vs))"
  using assms
proof (induction vs arbitrary: us cur)
  case Nil
  then have "tnext (tasks k cur) = victim" by (simp add: task_ring_def)
  then show ?case by (subst find_prev.simps) simp
next
  case (Cons v vs)
  note R = task_ringD [OF Cons.prems]
  have nx: "tnext (tasks k cur) = v" using R(3) by simp
  have "v \<noteq> victim" "v \<noteq> task_head k"
    using R(1,2) hd_before [of us cur "v # vs @ victim # ws" v] by simp_all
  with nx Cons.IH [of "us @ [cur]" v] Cons.prems show ?case by (subst find_prev.simps) simp
qed

lemma find_prev_head:
  assumes "task_ring k (us @ cur # vs)" and "hd (us @ cur # vs) = h"
  shows "find_prev cur h k = Some (last (cur # vs))"
  using assms
proof (induction vs arbitrary: us cur)
  case Nil
  then have "tnext (tasks k cur) = h" by (simp add: task_ring_def)
  then show ?case by (subst find_prev.simps) simp
next
  case (Cons v vs)
  note R = task_ringD [OF Cons.prems(1)]
  have nx: "tnext (tasks k cur) = v" using R(3) by simp
  have "v \<noteq> h" "h = task_head k"
    using R(1,2) Cons.prems(2) hd_before [of us cur "v # vs" v] by simp_all
  with nx Cons.IH [of "us @ [cur]" v] Cons.prems show ?case by (subst find_prev.simps) simp
qed


text \<open>What the steps of the scheduler leave alone.\<close>

lemma task_step_frame [simp]:
  "tasks (with_vm f k) = tasks k" "current_task (with_vm f k) = current_task k"
  "task_head (with_vm f k) = task_head k" "zombie_task (with_vm f k) = zombie_task k"
  "tasks (tss_set_rsp0 r k) = tasks k" "current_task (tss_set_rsp0 r k) = current_task k"
  "task_head (tss_set_rsp0 r k) = task_head k" "zombie_task (tss_set_rsp0 r k) = zombie_task k"
  "tasks (switch_cr3 k) = tasks k" "current_task (switch_cr3 k) = current_task k"
  "task_head (switch_cr3 k) = task_head k" "zombie_task (switch_cr3 k) = zombie_task k"
  "tss_rsp0 (tss_set_rsp0 r k) = r" "tss_rsp0 (switch_cr3 k) = tss_rsp0 k"
  by (simp_all add: with_vm_def tss_set_rsp0_def switch_cr3_def Let_def)

lemma upd_task_simps [simp]:
  "tasks (upd_task t f k) = (tasks k)(t := f (tasks k t))" "current_task (upd_task t f k) = current_task k"
  "task_head (upd_task t f k) = task_head k" "zombie_task (upd_task t f k) = zombie_task k"
  "kheap (upd_task t f k) = kheap k"
  by (simp_all add: upd_task_def)

lemma switch_cr3_result:
  "cr3 (kvm (switch_cr3 k)) = (if tcr3 (tasks k (current_task k)) = 0 then cr3 (kvm k) else tcr3 (tasks k (current_task k)))"
  by (simp add: switch_cr3_def with_vm_def kvm_def write_cr3_def read_cr3_def Let_def)

lemma schedule_step:
  fixes r :: u64
  assumes "zombie_task k = 0" and "current_task k \<noteq> 0" and "n = tnext (tasks k (current_task k))"
  defines "k1 \<equiv> upd_task (current_task k) (\<lambda>t. t\<lparr>trsp := r\<rparr>) k"
  shows "\<exists>k'. scheduler_schedule r k = Some (trsp (tasks k' n), k') \<and> tasks k' = tasks k1 \<and> current_task k' = n
     \<and> task_head k' = task_head k \<and> zombie_task k' = 0 \<and> tss_rsp0 k' = kernel_stack (tasks k' n)
     \<and> (tcr3 (tasks k n) \<noteq> 0 \<longrightarrow> cr3 (kvm k') = tcr3 (tasks k n))"
proof -
  let ?k2 = "tss_set_rsp0 (kernel_stack (tasks k1 n)) (k1\<lparr>current_task := n\<rparr>)"
  have n: "tnext (tasks k1 (current_task k1)) = n" and cur: "current_task k1 = current_task k"
    using assms(3) by (simp_all add: k1_def)
  have tk: "tasks ?k2 = tasks k1" "current_task ?k2 = n" "task_head ?k2 = task_head k" "zombie_task ?k2 = 0"
    using assms(1) by (simp_all add: k1_def)
  have r: "scheduler_schedule r k = Some (trsp (tasks (switch_cr3 ?k2) n), switch_cr3 ?k2)"
    using assms(1,2) n cur by (simp add: scheduler_schedule_def reap_zombie_def k1_def Let_def)
  have "tcr3 (tasks k1 n) = tcr3 (tasks k n)" by (simp add: k1_def)
  then have "tcr3 (tasks k n) \<noteq> 0 \<longrightarrow> cr3 (kvm (switch_cr3 ?k2)) = tcr3 (tasks k n)"
    by (simp add: switch_cr3_result tk)
  with r tk show ?thesis by (intro exI [of _ "switch_cr3 ?k2"]) (simp del: upd_task_simps)
qed

text \<open>A run of timer ticks; each delivers the stack pointer of the task that runs next.\<close>

fun ticks :: "u64 list \<Rightarrow> kernel \<Rightarrow> (u64 list \<times> kernel) option" where
  "ticks [] k = Some ([], k)"
| "ticks (r # rs) k =
     do {
       (x, k) \<leftarrow> scheduler_schedule r k;
       (xs, k) \<leftarrow> ticks rs k;
       Some (x # xs, k)
     }"

lemma ticks_append:
  "ticks (rs @ rs') k = do { (xs, k) \<leftarrow> ticks rs k; (ys, k) \<leftarrow> ticks rs' k; Some (xs @ ys, k) }"
  by (induction rs arbitrary: k) (auto simp: bind_assoc split: bind_splits)

lemma ticks_path:
  assumes "zombie_task k = 0" and "links (\<lambda>t. tnext (tasks k t)) (c # ps) e" and "current_task k = c"
    and "distinct (c # ps)" and "0 \<notin> set (c # ps)" and "length rs = length ps"
  shows "\<exists>k'. ticks rs k = Some (map (\<lambda>t. trsp (tasks k t)) ps, k') \<and> current_task k' = last (c # ps)
     \<and> zombie_task k' = 0 \<and> task_head k' = task_head k
     \<and> (\<forall>t. \<exists>r. tasks k' t = (tasks k t)\<lparr>trsp := r\<rparr>)
     \<and> (ps \<noteq> [] \<longrightarrow> trsp (tasks k' c) = hd rs) \<and> (\<forall>t. t \<notin> set (c # ps) \<longrightarrow> tasks k' t = tasks k t)"
  using assms
proof (induction ps arbitrary: c k rs)
  case Nil
  have "\<exists>r. tasks k t = (tasks k t)\<lparr>trsp := r\<rparr>" for t by (rule exI [of _ "trsp (tasks k t)"]) simp
  with Nil show ?case by simp
next
  case (Cons p ps)
  obtain r rs' where rs: "rs = r # rs'" "length rs' = length ps" using Cons.prems(6) by (cases rs) auto
  have "p = tnext (tasks k (current_task k))" "current_task k \<noteq> 0" using Cons.prems by auto
  from schedule_step [OF Cons.prems(1) this(2,1), of r] obtain k1 where
    k1: "scheduler_schedule r k = Some (trsp (tasks k1 p), k1)"
        "tasks k1 = (tasks k)(c := (tasks k c)\<lparr>trsp := r\<rparr>)" "current_task k1 = p"
        "task_head k1 = task_head k" "zombie_task k1 = 0"
    using Cons.prems(3) by auto
  have tn: "tnext (tasks k1 t) = tnext (tasks k t)" for t by (simp add: k1(2))
  have "links (\<lambda>t. tnext (tasks k1 t)) (p # ps) e" using Cons.prems(2) by (simp add: tn)
  from Cons.IH [OF k1(5) this k1(3) _ _ rs(2)] Cons.prems(4,5) obtain k' where
    k': "ticks rs' k1 = Some (map (\<lambda>t. trsp (tasks k1 t)) ps, k')" "current_task k' = last (p # ps)"
      "zombie_task k' = 0" "task_head k' = task_head k1" "\<forall>t. \<exists>r. tasks k' t = (tasks k1 t)\<lparr>trsp := r\<rparr>"
      "\<forall>t. t \<notin> set (p # ps) \<longrightarrow> tasks k' t = tasks k1 t"
    by auto
  have same: "trsp (tasks k1 t) = trsp (tasks k t)" if "t \<in> set (p # ps)" for t
    using that Cons.prems(4) by (auto simp: k1(2))
  have "tasks k' c = tasks k1 c" using k'(6) Cons.prems(4) by simp
  then have "trsp (tasks k' c) = r" by (simp add: k1(2))
  moreover have "\<exists>r. tasks k' t = (tasks k t)\<lparr>trsp := r\<rparr>" for t
    using k'(5) [rule_format, of t] by (cases "t = c") (auto simp: k1(2))
  moreover have "ticks rs k = Some (map (\<lambda>t. trsp (tasks k t)) (p # ps), k')"
    using k1(1) k'(1) same by (simp add: rs(1))
  ultimately show ?case using k' k1 by (simp add: rs(1))
qed


lemma task_ring_same_links:
  assumes "task_ring k ts" and "\<And>t. tnext (tasks k' t) = tnext (tasks k t)" and "task_head k' = task_head k"
    and "current_task k' \<in> set ts"
  shows "task_ring k' ts"
  using assms by (simp add: task_ring_def)

lemma links_last: "links nx (c # ps) e \<Longrightarrow> nx (last (c # ps)) = e"
  by (induction ps arbitrary: c) auto

lemma round_robin_turn:
  assumes ring: "task_ring k (us @ c # vs)" and cur: "current_task k = c" and z: "zombie_task k = 0"
    and len: "length rs = length (us @ c # vs)"
  shows "\<exists>k'. ticks rs k = Some (map (\<lambda>t. trsp (tasks k t)) (vs @ us) @ [hd rs], k')
     \<and> current_task k' = c \<and> task_ring k' (us @ c # vs)"
proof -
  obtain rs1 r where rs: "rs = rs1 @ [r]" using len by (cases rs rule: rev_cases) auto
  have "hd (us @ c # vs) = next_of us c" by (cases us) simp_all
  then have ln: "links (\<lambda>t. tnext (tasks k t)) (c # vs @ us) c"
    and d: "distinct (c # vs @ us)" "0 \<notin> set (c # vs @ us)"
    using ring by (auto simp: task_ring_def)
  have "length rs1 = length (vs @ us)" using len rs by simp
  from ticks_path [OF z ln cur d this] obtain k1 where
    k1: "ticks rs1 k = Some (map (\<lambda>t. trsp (tasks k t)) (vs @ us), k1)" "current_task k1 = last (c # vs @ us)"
      "zombie_task k1 = 0" "task_head k1 = task_head k" "\<forall>t. \<exists>r. tasks k1 t = (tasks k t)\<lparr>trsp := r\<rparr>"
      "vs @ us \<noteq> [] \<longrightarrow> trsp (tasks k1 c) = hd rs1"
    by blast
  have tn: "tnext (tasks k1 t) = tnext (tasks k t)" for t using k1(5) [rule_format, of t] by auto
  let ?l = "last (c # vs @ us)"
  have l: "?l \<in> set (c # vs @ us)" by (rule last_in_set) simp
  have nx: "c = tnext (tasks k1 (current_task k1))" using links_last [OF ln] by (simp add: k1(2) tn)
  have nz: "current_task k1 \<noteq> 0" unfolding k1(2) using l d(2) by metis
  obtain k' where
    k': "scheduler_schedule r k1 = Some (trsp (tasks k' c), k')"
        "tasks k' = (tasks k1)(?l := (tasks k1 ?l)\<lparr>trsp := r\<rparr>)" "current_task k' = c" "task_head k' = task_head k1"
    using schedule_step [OF k1(3) nz nx, of r] unfolding upd_task_simps k1(2) by blast
  have "trsp (tasks k' c) = hd rs"
  proof (cases "vs @ us = []")
    case True
    then show ?thesis using \<open>length rs1 = length (vs @ us)\<close> by (simp add: k'(2) rs)
  next
    case False
    then have "?l \<in> set (vs @ us)" using last_in_set [of "vs @ us"] by simp
    then have "?l \<noteq> c" using d(1) by auto
    moreover have "rs1 \<noteq> []" using False \<open>length rs1 = length (vs @ us)\<close> by auto
    ultimately show ?thesis using False k1(6) by (simp add: k'(2) rs)
  qed
  then have "ticks rs k = Some (map (\<lambda>t. trsp (tasks k t)) (vs @ us) @ [hd rs], k')"
    using k1(1) k'(1) by (simp add: rs ticks_append)
  moreover have "task_ring k' (us @ c # vs)"
    using ring by (rule task_ring_same_links) (simp_all add: k' k1 tn)
  ultimately show ?thesis using k'(3) by blast
qed

text \<open>Unlinking the running task.\<close>

lemma find_prev_ring:
  assumes ring: "task_ring k ts" and v: "v \<in> set ts" and two: "2 \<le> length ts"
  obtains prev where "find_prev (task_head k) v k = Some prev" and "prev \<in> set ts" and "prev \<noteq> v"
    and "links ((\<lambda>t. tnext (tasks k t))(prev := tnext (tasks k v))) (remove1 v ts) (hd (remove1 v ts))"
    and "tnext (tasks k v) \<in> set (remove1 v ts)"
    and "v = task_head k \<Longrightarrow> hd (remove1 v ts) = tnext (tasks k v)"
    and "v \<noteq> task_head k \<Longrightarrow> hd (remove1 v ts) = task_head k"
proof -
  obtain us ws where ts: "ts = us @ v # ws" "v \<notin> set us" using v by (meson split_list_first)
  have R: "distinct ts" "task_head k = hd ts" "links (\<lambda>t. tnext (tasks k t)) ts (hd ts)"
    using ring by (simp_all add: task_ring_def)
  let ?nx = "\<lambda>t. tnext (tasks k t)"
  have rm: "remove1 v ts = us @ ws" using ts by (simp add: remove1_append)
  show ?thesis
  proof (cases us)
    case Nil
    then have tl: "ts = v # ws" "ws \<noteq> []" using ts two by auto
    obtain xs l where ws: "ws = xs @ [l]" using tl(2) by (cases ws rule: rev_cases) auto
    have "find_prev v (hd ts) k = Some (last (v # ws))" using find_prev_head [of k "[]" v ws] ring tl by simp
    then have fp: "find_prev (task_head k) v k = Some l" using R(2) tl by (simp add: ws)
    have nv: "?nx v = hd ws" using R(3) tl by (cases ws) auto
    have "links (?nx(l := hd ws)) ws (hd ws)"
      using R(1,3) unfolding tl(1) ws by (intro links_set_last) auto
    moreover have "hd ws \<in> set ws" using tl(2) by (rule list.set_sel)
    moreover have "task_head k = v" "l \<in> set ws" "l \<noteq> v" using R(1,2) tl by (auto simp: ws)
    ultimately show ?thesis using that [of l] fp nv rm Nil tl by simp
  next
    case (Cons h us')
    obtain xs l where us: "us = xs @ [l]" using Cons by (metis list.distinct(1) rev_exhaust)
    have "find_prev h v k = Some (last (h # us'))"
      using find_prev_inner [of k "[]" h us' v ws] ring ts Cons by simp
    then have fp: "find_prev (task_head k) v k = Some l" using R(2) ts Cons us by (metis append_Cons last_snoc list.sel(1))
    have nv: "?nx v = next_of ws h" using R(3) ts Cons by simp
    have "l \<notin> set xs" "l \<notin> set ws" "l \<noteq> v" using R(1) by (auto simp: ts us)
    moreover have "links (?nx(l := next_of ws h)) (xs @ [l]) (next_of ws h)"
      using R(3) calculation unfolding ts us by (intro links_set_last) auto
    moreover have "links (?nx(l := next_of ws h)) ws h"
      using R(3) calculation(2) ts Cons by (subst links_cong [of ws _ ?nx]) auto
    ultimately have "links (?nx(l := ?nx v)) (us @ ws) h" by (simp add: nv us)
    moreover have "next_of ws h \<in> set (us @ ws)" using Cons by (cases ws) auto
    moreover have "hd (us @ ws) = h" "task_head k = h" "v \<noteq> h" using Cons R ts by auto
    ultimately show ?thesis using that [of l] fp rm nv us ts \<open>l \<noteq> v\<close> by auto
  qed
qed

lemma task_exit_step:
  assumes ring: "task_ring k ts" and two: "2 \<le> length ts"
  defines "v \<equiv> current_task k"
  shows "\<exists>k'. task_exit k = Some (trsp (tasks k (tnext (tasks k v))), k')
     \<and> task_ring k' (remove1 v ts) \<and> current_task k' = tnext (tasks k v) \<and> zombie_task k' = v
     \<and> (\<forall>t. \<exists>n. tasks k' t = (tasks k t)\<lparr>tnext := n\<rparr>) \<and> kernel_stack (tasks k' v) = kernel_stack (tasks k v)"
proof -
  have v: "v \<in> set ts" using ring by (simp add: task_ring_def v_def)
  let ?n = "tnext (tasks k v)"
  obtain prev where p: "find_prev (task_head k) v k = Some prev" "prev \<in> set ts" "prev \<noteq> v"
    "links ((\<lambda>t. tnext (tasks k t))(prev := ?n)) (remove1 v ts) (hd (remove1 v ts))"
    "?n \<in> set (remove1 v ts)"
    "v = task_head k \<Longrightarrow> hd (remove1 v ts) = ?n" "v \<noteq> task_head k \<Longrightarrow> hd (remove1 v ts) = task_head k"
    using find_prev_ring [OF ring v two] by metis
  define k1 where "k1 = upd_task prev (\<lambda>t. t\<lparr>tnext := ?n\<rparr>) k"
  define k2 where "k2 = (if v = task_head k1 then k1\<lparr>task_head := tnext (tasks k1 v)\<rparr> else k1)"
  define k3 where "k3 = k2\<lparr>zombie_task := v\<rparr>"
  define k4 where "k4 = k3\<lparr>current_task := tnext (tasks k3 v)\<rparr>"
  define k5 where "k5 = tss_set_rsp0 (kernel_stack (tasks k4 (current_task k4)) + 4096) k4"
  define k6 where "k6 = switch_cr3 k5"
  have r: "task_exit k = Some (trsp (tasks k6 (current_task k6)), k6)"
    unfolding k6_def k5_def k4_def k3_def k2_def k1_def
    by (simp only: task_exit_def Let_def v_def [symmetric] p(1) bind.bind_lunit)
  have t1: "tasks k1 = (tasks k)(prev := (tasks k prev)\<lparr>tnext := ?n\<rparr>)" "task_head k1 = task_head k"
    by (simp_all add: k1_def)
  have t2: "tasks k2 = tasks k1" "task_head k2 = (if v = task_head k then ?n else task_head k)"
    using p(3) by (simp_all add: k2_def t1)
  have t6: "tasks k6 = tasks k1" "current_task k6 = ?n" "zombie_task k6 = v" "task_head k6 = task_head k2"
    using p(3) by (simp_all add: k6_def k5_def k4_def k3_def t2) (simp add: t1)
  have "(\<lambda>t. tnext (tasks k6 t)) = (\<lambda>t. tnext (tasks k t))(prev := ?n)" unfolding t6 t1 by auto
  moreover have "remove1 v ts \<noteq> []" using p(5) by auto
  moreover have "distinct (remove1 v ts)" "0 \<notin> set (remove1 v ts)"
    using task_ringD(1,4) [OF ring] by (simp_all add: notin_set_remove1)
  moreover have "task_head k6 = hd (remove1 v ts)" unfolding t6(4) t2(2) using p(6,7) by simp
  ultimately have "task_ring k6 (remove1 v ts)"
    using p(4,5) unfolding task_ring_def t6(2) by simp
  moreover have "\<exists>n. tasks k6 t = (tasks k t)\<lparr>tnext := n\<rparr>" for t
    unfolding t6 t1 by (cases "t = prev") (auto intro: exI [of _ "tnext (tasks k t)"])
  moreover have "kernel_stack (tasks k6 v) = kernel_stack (tasks k v)" unfolding t6 t1 by simp
  moreover have "trsp (tasks k6 (current_task k6)) = trsp (tasks k ?n)" unfolding t6 t1 by simp
  ultimately show ?thesis using r t6(2,3) by auto
qed


text \<open>Every exit and every tick keeps a ring; what a tick finds pending it releases.\<close>

lemma task_exit_ring:
  assumes ring: "task_ring k ts" and exit: "task_exit k = Some (r, k')"
  shows "\<exists>ts'. task_ring k' ts' \<and> set ts' \<subseteq> set ts \<and> zombie_task k' = current_task k"
proof (cases "2 \<le> length ts")
  case True
  from task_exit_step [OF ring True] exit have "task_ring k' (remove1 (current_task k) ts)" "zombie_task k' = current_task k" by auto
  then show ?thesis using set_remove1_subset by metis
next
  case False
  moreover obtain v us where "ts = v # us" using ring by (cases ts) (auto simp: task_ring_def)
  ultimately have ts: "ts = [v]" by (cases us) simp_all
  then have v: "current_task k = v" "task_head k = v" "tnext (tasks k v) = v" "v \<noteq> 0" using ring by (auto simp: task_ring_def)
  have fp: "find_prev v v k = Some v" by (subst find_prev.simps) (simp add: v)
  define k1 where "k1 = (upd_task v (\<lambda>t. t\<lparr>tnext := v\<rparr>) k)\<lparr>task_head := v, zombie_task := v, current_task := v\<rparr>"
  have "k' = switch_cr3 (tss_set_rsp0 (kernel_stack (tasks k1 v) + 4096) k1)"
    using exit by (simp add: task_exit_def v(1-3) fp Let_def k1_def)
  then have "tasks k' = (tasks k)(v := (tasks k v)\<lparr>tnext := v\<rparr>)" "current_task k' = v" "task_head k' = v" "zombie_task k' = v"
    by (simp_all add: k1_def)
  then have "task_ring k' ts \<and> zombie_task k' = v" using v(4) by (simp add: task_ring_def ts)
  then show ?thesis by (intro exI [of _ ts]) (simp add: v(1))
qed

lemma reap_zombie_frame:
  assumes "reap_zombie k = Some k'"
  shows "tasks k' = tasks k" "current_task k' = current_task k" "task_head k' = task_head k" "zombie_task k' = 0"
  using assms by (auto simp: reap_zombie_def kfree_k_def Let_def with_vm_def split: if_splits Option.bind_splits)

lemma ring_succ:
  assumes "task_ring k ts" and "c \<in> set ts"
  shows "tnext (tasks k c) \<in> set ts"
proof -
  from assms(2) obtain us vs where ts: "ts = us @ c # vs" by (meson split_list)
  then have "tnext (tasks k c) = next_of vs (hd ts)" using task_ringD(3) [OF assms(1)] by simp
  then show ?thesis by (cases vs; cases us) (simp_all add: ts)
qed

lemma schedule_ring:
  assumes ring: "task_ring k ts" and "scheduler_schedule r k = Some (x, k')"
  shows "task_ring k' ts \<and> zombie_task k' = 0"
proof -
  from assms(2) obtain k1 where k1: "reap_zombie k = Some k1" by (auto simp: scheduler_schedule_def split: Option.bind_splits)
  note fr = reap_zombie_frame [OF k1]
  have "reap_zombie k1 = Some k1" by (simp add: reap_zombie_def fr(4))
  then have s1: "scheduler_schedule r k1 = Some (x, k')" using assms(2) k1 by (simp add: scheduler_schedule_def)
  have ring1: "task_ring k1 ts" using ring by (rule task_ring_same_links) (use ring in \<open>simp_all add: fr task_ring_def\<close>)
  note R = task_ringD [OF ring1]
  have "current_task k1 \<noteq> 0" using R(4,5) by metis
  from schedule_step [OF fr(4) this refl, of r] s1 have k': "tasks k' = tasks (upd_task (current_task k1) (\<lambda>t. t\<lparr>trsp := r\<rparr>) k1)"
    "current_task k' = tnext (tasks k1 (current_task k1))" "task_head k' = task_head k1" "zombie_task k' = 0" by auto
  have "task_ring k' ts" using ring1
    by (rule task_ring_same_links) (use k' ring_succ [OF ring1 R(5)] in simp_all)
  then show ?thesis using k'(4) by blast
qed

lemma task_ring_upd:
  assumes "task_ring k ts" and "\<And>t. tnext (f t) = tnext t"
  shows "task_ring (upd_task u f k) ts"
  using assms(1) by (rule task_ring_same_links) (use assms in \<open>auto simp: task_ring_def\<close>)

lemma ipc_send_cases:
  assumes ring: "task_ring k ts"
  shows "sys_ipc_send d ty d1 d2 d3 k = Some (case find (\<lambda>t. pid (tasks k t) = scast d) ts of None \<Rightarrow> (-1, k)
     | Some t \<Rightarrow> if msg_count (tasks k t) \<ge> 16 then (-2, k)
         else (0, upd_task t (queue_put \<lparr>sender_pid = ucast (pid (tasks k (current_task k))), mtype = ty,
                 data1 = d1, data2 = d2, data3 = d3\<rparr>) k))"
proof (cases "find (\<lambda>t. pid (tasks k t) = scast d) ts")
  case None
  then show ?thesis by (simp add: sys_ipc_send_def get_task_by_pid_ring [OF ring])
next
  case (Some t)
  then have "t \<in> set ts" by (auto simp: find_Some_iff)
  then have "t \<noteq> 0" using task_ringD(4) [OF ring] by auto
  with Some show ?thesis by (simp add: sys_ipc_send_def get_task_by_pid_ring [OF ring])
qed

subsection \<open>Properties\<close>

text \<open>
  C6. Round robin: with no exited task pending, as many timer ticks as there are tasks resume every
  other task exactly once, in ring order and with the stack pointer it was saved with, and come
  back to the first task with the stack pointer it was interrupted at.
\<close>

theorem scheduler_round_robin:
  assumes "task_ring k (us @ c # vs)" and "current_task k = c" and "zombie_task k = 0"
    and "length rs = length (us @ c # vs)"
  shows "\<exists>k'. ticks rs k = Some (map (\<lambda>t. trsp (tasks k t)) (vs @ us) @ [hd rs], k')
     \<and> current_task k' = c \<and> task_ring k' (us @ c # vs)"
  by (rule round_robin_turn [OF assms])

definition task_example :: "u64 \<Rightarrow> u64 \<Rightarrow> u64 \<Rightarrow> task" where
  "task_example p n r = \<lparr>trsp = r, tcr3 = 0, pid = p, kernel_stack = 0x9000, tnext = n, is_wm = 0, program_break = 0x400000,
     msgs = replicate 16 \<lparr>sender_pid = 0, mtype = 0, data1 = 0, data2 = 0, data3 = 0\<rparr>,
     msg_head = 0, msg_tail = 0, msg_count = 0, waiting_for_msg = 0\<rparr>"

text \<open>A kernel with two tasks, at addresses 0x100 (process 0) and 0x200 (process 1).\<close>

definition kernel_example :: kernel where
  "kernel_example = \<lparr>kheap = kheap_example, dram = (\<lambda>_. 0),
     tasks = (\<lambda>a. if a = 0x100 then task_example 0 0x200 7 else task_example 1 0x100 9),
     current_task = 0x100, task_head = 0x100, zombie_task = 0, next_pid = 2, tss_rsp0 = 0,
     framebuffer = \<lparr>fb_address = 0, fwidth = 0, fheight = 0, fpitch = 0, fbpp = 0\<rparr>, kbd = keyboard_example\<rparr>"

lemma kernel_example_ring: "task_ring kernel_example [0x100, 0x200]"
  by (simp add: task_ring_def kernel_example_def task_example_def)

theorem scheduler_round_robin_witness:
  "\<exists>k'. ticks [11, 12] kernel_example = Some ([9, 11], k') \<and> current_task k' = 0x100"
proof -
  have "current_task kernel_example = 0x100" "zombie_task kernel_example = 0" by (simp_all add: kernel_example_def)
  moreover have "trsp (tasks kernel_example 0x200) = 9" by (simp add: kernel_example_def task_example_def)
  ultimately show ?thesis
    using scheduler_round_robin [of kernel_example "[]" "0x100" "[0x200]" "[11, 12]"] kernel_example_ring by auto
qed

text \<open>
  C18. \<^verbatim>\<open>task_exit\<close> takes the running task out of the ring, keeps the ring of the others intact,
  leaves the exited task to the next scheduler run and switches to its successor.
\<close>

theorem task_exit_ok:
  assumes "task_ring k ts" and "2 \<le> length ts"
  shows "\<exists>k'. task_exit k = Some (trsp (tasks k (tnext (tasks k (current_task k)))), k')
     \<and> task_ring k' (remove1 (current_task k) ts) \<and> current_task k' = tnext (tasks k (current_task k))
     \<and> zombie_task k' = current_task k"
  using task_exit_step [OF assms] by blast

theorem task_exit_ok_witness:
  "\<exists>k'. task_exit kernel_example = Some (9, k') \<and> task_ring k' [0x200] \<and> zombie_task k' = 0x100"
proof -
  have "current_task kernel_example = 0x100" "trsp (tasks kernel_example (tnext (tasks kernel_example 0x100))) = 9"
    by (simp_all add: kernel_example_def task_example_def)
  with task_exit_ok [OF kernel_example_ring] show ?thesis by auto
qed

text \<open>
  C23. Sending: \<^verbatim>\<open>sys_ipc_send\<close> always returns; it reports \<open>-1\<close> for an unknown process and \<open>-2\<close> for a full
  queue without changing anything, and otherwise appends the message to the queue of the first task
  with that process id and changes no other task.
\<close>

theorem sys_ipc_send_ok:
  assumes "task_ring k ts" and "\<forall>t \<in> set ts. ipc_wf (tasks k t)"
  shows "\<exists>r k'. sys_ipc_send d ty d1 d2 d3 k = Some (r, k') \<and> task_ring k' ts \<and> (\<forall>t \<in> set ts. ipc_wf (tasks k' t))
     \<and> (case find (\<lambda>t. pid (tasks k t) = scast d) ts of
          None \<Rightarrow> r = -1 \<and> k' = k
        | Some t \<Rightarrow> if length (ipc_items (tasks k t)) = 16 then r = -2 \<and> k' = k
            else r = 0 \<and> ipc_items (tasks k' t) = ipc_items (tasks k t) @
                     [\<lparr>sender_pid = ucast (pid (tasks k (current_task k))), mtype = ty, data1 = d1, data2 = d2, data3 = d3\<rparr>]
                 \<and> (\<forall>u. u \<noteq> t \<longrightarrow> tasks k' u = tasks k u))"
proof (cases "find (\<lambda>t. pid (tasks k t) = scast d) ts")
  case None
  then show ?thesis using assms by (simp add: ipc_send_cases [OF assms(1)])
next
  case (Some t)
  then have "t \<in> set ts" by (auto simp: find_Some_iff)
  then have wf: "ipc_wf (tasks k t)" using assms(2) by blast
  note len = length_ipc_items [OF wf] and cap = ipc_queue.items_cap [OF wf]
  show ?thesis
  proof (cases "length (ipc_items (tasks k t)) = 16")
    case True
    then show ?thesis using Some assms len by (simp add: ipc_send_cases [OF assms(1)])
  next
    case False
    let ?m = "\<lparr>sender_pid = ucast (pid (tasks k (current_task k))), mtype = ty, data1 = d1, data2 = d2, data3 = d3\<rparr>"
    have room: "msg_count (tasks k t) < 16" using False len cap by simp
    then have "sys_ipc_send d ty d1 d2 d3 k = Some (0, upd_task t (queue_put ?m) k)"
      using Some by (simp add: ipc_send_cases [OF assms(1)])
    moreover have "task_ring (upd_task t (queue_put ?m) k) ts"
      using assms(1) by (rule task_ring_upd) (simp add: queue_put_def)
    ultimately show ?thesis using Some False queue_put_items [OF wf room, of ?m] assms(2) by simp
  qed
qed

theorem sys_ipc_send_ok_witness:
  "\<exists>k'. sys_ipc_send 1 3 4 5 6 kernel_example = Some (0, k')
     \<and> ipc_items (tasks k' 0x200) = [\<lparr>sender_pid = 0, mtype = 3, data1 = 4, data2 = 5, data3 = 6\<rparr>]"
proof -
  have wf: "\<forall>t \<in> set [0x100, 0x200]. ipc_wf (tasks kernel_example t)"
    by (simp add: kernel_example_def task_example_def ipc_wf_def)
  have "find (\<lambda>t. pid (tasks kernel_example t) = scast (1 :: u32)) [0x100, 0x200] = Some 0x200"
    "ipc_items (tasks kernel_example 0x200) = []" "pid (tasks kernel_example (current_task kernel_example)) = 0"
    by (simp_all add: kernel_example_def task_example_def ipc_items_def)
  with sys_ipc_send_ok [OF kernel_example_ring wf, of 1 3 4 5 6] show ?thesis by auto
qed

text \<open>
  C24. Receiving: \<^verbatim>\<open>sys_ipc_recv\<close> delivers the oldest message of the running task and removes it, or
  reports \<open>-1\<close> when there is none.
\<close>

theorem sys_ipc_recv_ok:
  assumes "task_ring k ts" and "ipc_wf (tasks k (current_task k))"
  shows "case ipc_items (tasks k (current_task k)) of
       [] \<Rightarrow> sys_ipc_recv k = (-1, None, k)
     | m # ms \<Rightarrow> \<exists>k'. sys_ipc_recv k = (0, Some m, k') \<and> ipc_items (tasks k' (current_task k)) = ms
          \<and> ipc_wf (tasks k' (current_task k)) \<and> task_ring k' ts
          \<and> (\<forall>u. u \<noteq> current_task k \<longrightarrow> tasks k' u = tasks k u)"
proof (cases "msg_count (tasks k (current_task k)) = 0")
  case True
  then have "ipc_items (tasks k (current_task k)) = []" by (simp add: ipc_items_def)
  with True show ?thesis by (simp add: sys_ipc_recv_def)
next
  case False
  have "task_ring (upd_task (current_task k) queue_drop k) ts"
    using assms(1) by (rule task_ring_upd) (simp add: queue_drop_def)
  with False queue_drop_items [OF assms(2) False] show ?thesis by (simp add: sys_ipc_recv_def Let_def)
qed

theorem sys_ipc_recv_ok_witness: "sys_ipc_recv kernel_example = (-1, None, kernel_example)"
proof -
  have "ipc_wf (tasks kernel_example (current_task kernel_example))"
    "ipc_items (tasks kernel_example (current_task kernel_example)) = []"
    by (simp_all add: kernel_example_def task_example_def ipc_items_def ipc_wf_def)
  with sys_ipc_recv_ok [OF kernel_example_ring] show ?thesis by simp
qed

end
