(* ===== verification/UserMem.thy ===== *)
theory UserMem
  imports Task
begin

unbundle bit_operations_syntax

text \<open>
  The memory system calls, \<^verbatim>\<open>src/src/syscall/sys_memory.c\<close>: moving the program break, memory shared
  between two processes, and unmapping. User memory is seen through the page tables: \<open>user_byte\<close>
  is the byte that a process reads at a virtual address, \<open>user_store\<close> writes through the tables
  that the processor uses, and an access to an unmapped page does not return (it ends in the page
  fault handler, which halts). Frames are written at their address in the direct map.
\<close>

subsection \<open>User memory\<close>

definition user_byte :: "u64 \<Rightarrow> u64 \<Rightarrow> kernel \<Rightarrow> u8 option" where
  "user_byte root a k =
     map_option (\<lambda>p. dram k (p + (a AND 0xFFF) + limine_hhdm (pmm (kvm k)))) (mmu_page root a (kvm k))"

definition user_root :: "kernel \<Rightarrow> u64" where
  "user_root k = phys_to_virt (kvm k) (read_cr3 (kvm k))"

fun user_store :: "u64 \<Rightarrow> u8 list \<Rightarrow> kernel \<Rightarrow> kernel option" where
  "user_store a [] k = Some k"
| "user_store a (b # bs) k =
     (case mmu_page (user_root k) a (kvm k) of
        None \<Rightarrow> None
      | Some p \<Rightarrow> user_store (a + 1) bs
          (k\<lparr>dram := (dram k)(p + (a AND 0xFFF) + limine_hhdm (pmm (kvm k)) := b)\<rparr>))"

text \<open>
  \<^verbatim>\<open>copy_to_user_mem\<close> of \<^verbatim>\<open>src/src/process/task.c\<close>, which nothing calls: the copy goes through the tables of the
  other address space, loaded for its duration; \<open>data\<close> is an address in the direct map.
\<close>

definition copy_to_user_mem :: "u64 \<Rightarrow> u64 \<Rightarrow> u64 \<Rightarrow> u64 \<Rightarrow> kernel \<Rightarrow> kernel option" where
  "copy_to_user_mem user_pml4 vaddr data sz k =
     do {
       let old_cr3 = read_cr3 (kvm k);
       k \<leftarrow> user_store vaddr (load_bytes (dram k) data (unat sz)) (with_vm (write_cr3 user_pml4) k);
       Some (with_vm (write_cr3 old_cr3) k)
     }"

subsection \<open>The program break\<close>

definition alloc_page_k :: "kernel \<Rightarrow> (u64 \<times> kernel) option" where
  "alloc_page_k k = do { (page, p) \<leftarrow> pmm_alloc_page (pmm (kvm k)); Some (page, with_vm (\<lambda>v. v\<lparr>pmm := p\<rparr>) k) }"

definition map_page_k :: "u64 \<Rightarrow> u64 \<Rightarrow> u64 \<Rightarrow> u64 \<Rightarrow> kernel \<Rightarrow> kernel option" where
  "map_page_k root va phys flags k = do { v \<leftarrow> vmm_map_page root va phys flags (kvm k); Some (with_vm (\<lambda>_. v) k) }"

text \<open>One round of the loop in \<^verbatim>\<open>sys_sbrk\<close>; \<open>False\<close> is the return of \<^verbatim>\<open>(void*)-1\<close> for lack of memory.\<close>

definition sbrk_page :: "u64 \<Rightarrow> u64 \<Rightarrow> kernel \<Rightarrow> (bool \<times> kernel) option" where
  "sbrk_page user_pml4 map_addr k =
     do {
       (phys_page, k) \<leftarrow> alloc_page_k k;
       if phys_page = 0 then Some (False, k)
       else do {
         let phys_addr = phys_page - limine_hhdm (pmm (kvm k));
         k \<leftarrow> map_page_k user_pml4 map_addr phys_addr 7 k;
         k \<leftarrow> user_store map_addr (replicate 4096 0) k;
         Some (True, k\<lparr>dram := snd (memset phys_page 0 PAGE_SIZE (dram k))\<rparr>)
       }
     }"

fun sbrk_loop :: "nat \<Rightarrow> u64 \<Rightarrow> u64 \<Rightarrow> kernel \<Rightarrow> (bool \<times> kernel) option" where
  "sbrk_loop 0 user_pml4 map_addr k = Some (True, k)"
| "sbrk_loop (Suc n) user_pml4 map_addr k =
     do {
       (ok, k) \<leftarrow> sbrk_page user_pml4 map_addr k;
       if ok then sbrk_loop n user_pml4 (map_addr + PAGE_SIZE) k else Some (False, k)
     }"

definition sys_sbrk :: "u64 \<Rightarrow> kernel \<Rightarrow> (u64 \<times> kernel) option" where
  "sys_sbrk inc k =
     (let t = current_task k; old_break = program_break (tasks k t) in
      if inc = 0 then Some (old_break, k)
      else
        let new_break = old_break + inc;
            old_page_top = (old_break + PAGE_SIZE - 1) AND NOT (PAGE_SIZE - 1);
            new_page_top = (new_break + PAGE_SIZE - 1) AND NOT (PAGE_SIZE - 1)
        in do {
          (ok, k) \<leftarrow>
            (if new_page_top > old_page_top then
               sbrk_loop (unat ((new_page_top - old_page_top) div PAGE_SIZE))
                 (tcr3 (tasks k t) + limine_hhdm (pmm (kvm k))) old_page_top k
             else Some (True, k));
          if ok then Some (old_break, upd_task t (\<lambda>t. t\<lparr>program_break := new_break\<rparr>) k)
          else Some (- 1, k)
        })"

subsection \<open>Shared memory\<close>

definition align_break :: "u64 \<Rightarrow> kernel \<Rightarrow> kernel" where
  "align_break t k =
     (let b = program_break (tasks k t) in
      if b AND (PAGE_SIZE - 1) \<noteq> 0
      then upd_task t (\<lambda>t. t\<lparr>program_break := (b + PAGE_SIZE - 1) AND NOT (PAGE_SIZE - 1)\<rparr>) k else k)"

definition reserve :: "u64 \<Rightarrow> u64 \<Rightarrow> kernel \<Rightarrow> u64 \<times> kernel" where
  "reserve t sz k =
     (let k = align_break t k; vaddr = program_break (tasks k t)
      in (vaddr, upd_task t (\<lambda>t. t\<lparr>program_break := vaddr + sz\<rparr>) k))"

text \<open>One round of the mapping loop: with no frame left the code halts the machine.\<close>

definition share_page :: "u64 \<Rightarrow> u64 \<Rightarrow> u64 \<Rightarrow> u64 \<Rightarrow> kernel \<Rightarrow> kernel option" where
  "share_page my_pml4 my_vaddr their_pml4 their_vaddr k =
     do {
       (phys, k) \<leftarrow> alloc_page_k k;
       if phys = 0 then None
       else do {
         let phys_addr = phys - limine_hhdm (pmm (kvm k));
         k \<leftarrow> map_page_k my_pml4 my_vaddr phys_addr 7 k;
         map_page_k their_pml4 their_vaddr phys_addr 7 k
       }
     }"

fun share_loop :: "nat \<Rightarrow> u64 \<Rightarrow> u64 \<Rightarrow> u64 \<Rightarrow> u64 \<Rightarrow> kernel \<Rightarrow> kernel option" where
  "share_loop 0 my_pml4 my_vaddr their_pml4 their_vaddr k = Some k"
| "share_loop (Suc n) my_pml4 my_vaddr their_pml4 their_vaddr k =
     do {
       k \<leftarrow> share_page my_pml4 my_vaddr their_pml4 their_vaddr k;
       share_loop n my_pml4 (my_vaddr + PAGE_SIZE) their_pml4 (their_vaddr + PAGE_SIZE) k
     }"

text \<open>The result is the caller's address and what is stored through \<^verbatim>\<open>target_vaddr_out\<close>, if anything.\<close>

definition sys_share_mem :: "u32 \<Rightarrow> u64 \<Rightarrow> kernel \<Rightarrow> (u64 \<times> u64 option \<times> kernel) option" where
  "sys_share_mem target_pid sz k =
     (let len = ALIGN_UP sz PAGE_SIZE in
      do {
        target \<leftarrow> get_task_by_pid (scast target_pid) k;
        if target = 0 then Some (0, None, k)
        else do {
          let (my_vaddr, k) = reserve (current_task k) len k;
          let (their_vaddr, k) = reserve target len k;
          k \<leftarrow> share_loop (unat (len div PAGE_SIZE))
                 (phys_to_virt (kvm k) (tcr3 (tasks k (current_task k)))) my_vaddr
                 (phys_to_virt (kvm k) (tcr3 (tasks k target))) their_vaddr k;
          Some (my_vaddr, Some their_vaddr, k)
        }
      })"

subsection \<open>Unmapping\<close>

text \<open>The walk of \<^verbatim>\<open>sys_unmap\<close> for one page; every \<^verbatim>\<open>continue\<close> leaves the state alone.\<close>

definition unmap_walk :: "u64 \<Rightarrow> u64 \<Rightarrow> vm_state \<Rightarrow> vm_state" where
  "unmap_walk pml4 curr_vaddr v =
     (let e4 = mem v (entry_addr pml4 (PML4_INDEX curr_vaddr)) in
      if e4 AND 1 = 0 then v else
      let pdp = phys_to_virt v (e4 AND PAGE_ALIGN_MASK); e3 = mem v (entry_addr pdp (PDPT_INDEX curr_vaddr)) in
      if e3 AND 1 = 0 then v else
      let pd = phys_to_virt v (e3 AND PAGE_ALIGN_MASK); e2 = mem v (entry_addr pd (PD_INDEX curr_vaddr)) in
      if e2 AND 1 = 0 then v else
      let pt = phys_to_virt v (e2 AND PAGE_ALIGN_MASK); a = entry_addr pt (PT_INDEX curr_vaddr) in
      if mem v a AND 1 \<noteq> 0 then invlpg curr_vaddr (v\<lparr>mem := (mem v)(a := 0)\<rparr>) else v)"

definition sys_unmap :: "u64 \<Rightarrow> u64 \<Rightarrow> kernel \<Rightarrow> int \<times> kernel" where
  "sys_unmap vaddr sz k =
     (let len = ALIGN_UP sz PAGE_SIZE; pml4 = phys_to_virt (kvm k) (tcr3 (tasks k (current_task k)))
      in (0, with_vm (fold (\<lambda>i. unmap_walk pml4 (vaddr + word_of_nat i * PAGE_SIZE))
                        [0..<unat (len div PAGE_SIZE)]) k))"

subsection \<open>Addresses of user pages\<close>

lemma user_half_index:
  assumes "unat va < 2 ^ 47"
  shows "PML4_INDEX va \<in> user_half"
proof -
  have "unat (drop_bit 39 va) = unat va div 2 ^ 39"
    by (subst unat_drop_bit_eq) (simp add: drop_bit_eq_div)
  then have "unat (drop_bit 39 va) < 256" using assms by (simp add: less_mult_imp_div_less)
  then have "drop_bit 39 va < 256" by (simp add: word_less_nat_alt)
  moreover have "PML4_INDEX va \<le> drop_bit 39 va" unfolding PML4_INDEX_def by (rule word_and_le2)
  ultimately show ?thesis by (auto simp: user_half_def)
qed

lemma bit_index: "bit ((x :: u64) AND 0x1FF) n \<longleftrightarrow> n < 9 \<and> bit x n"
proof -
  have "(0x1FF :: u64) = mask 9" by (simp add: mask_eq_exp_minus_1)
  then show ?thesis by (simp only: bit_and_iff bit_mask_iff) auto
qed

lemma same_vpage_bits:
  assumes "same_vpage a b" "12 \<le> n" "n < 48"
  shows "bit a n = bit b n"
proof -
  have f: "bit (x AND 0x1FF) m = bit (y AND 0x1FF) m" if "x AND 0x1FF = y AND (0x1FF :: u64)" for x y m
    using that by simp
  have e: "drop_bit s a AND 0x1FF = drop_bit s b AND 0x1FF" if "s \<in> {12, 21, 30, 39}" for s
    using assms(1) that
    by (auto simp: same_vpage_def vpath_def PML4_INDEX_def PDPT_INDEX_def PD_INDEX_def PT_INDEX_def)
  have g: "bit a (s + m) = bit b (s + m)" if "s \<in> {12, 21, 30, 39}" "m < 9" for s m
    using f [OF e [OF that(1)], of m] that(2) by (simp add: bit_index bit_drop_bit_eq)
  consider "n < 21" | "21 \<le> n" "n < 30" | "30 \<le> n" "n < 39" | "39 \<le> n" by linarith
  then show ?thesis
    using assms(2,3) g [of 12 "n - 12"] g [of 21 "n - 21"] g [of 30 "n - 30"] g [of 39 "n - 39"]
    by cases simp_all
qed

lemma same_vpage_number:
  assumes "unat a < 2 ^ 48" "unat b < 2 ^ 48"
  shows "same_vpage a b \<longleftrightarrow> unat a div 4096 = unat b div 4096"
proof
  assume s: "same_vpage a b"
  have small: "\<not> bit x n" if "unat x < 2 ^ 48" "48 \<le> n" for x :: u64 and n
  proof
    assume "bit x n"
    then have "bit (unat x) n" by (simp add: bit_unsigned_iff bit_imp_le_length)
    then have "odd (unat x div 2 ^ n)" by (simp only: bit_iff_odd) simp
    moreover have "(2 :: nat) ^ 48 \<le> 2 ^ n" using that(2) by (rule power_increasing) simp
    then have "unat x < 2 ^ n" using that(1) by linarith
    then have "unat x div 2 ^ n = 0" by simp
    ultimately show False by simp
  qed
  have "drop_bit 12 a = drop_bit 12 b"
  proof (rule bit_word_eqI)
    fix n :: nat assume "n < LENGTH(64)"
    then show "bit (drop_bit 12 a) n = bit (drop_bit 12 b) n"
      using same_vpage_bits [OF s, of "12 + n"] small [OF assms(1), of "12 + n"] small [OF assms(2), of "12 + n"]
      by (cases "12 + n < 48") (auto simp: bit_drop_bit_eq)
  qed
  moreover have "unat (drop_bit 12 x) = unat x div 4096" for x :: u64
    by (subst unat_drop_bit_eq) (simp add: drop_bit_eq_div)
  ultimately show "unat a div 4096 = unat b div 4096" by metis
qed (rule same_page_offset)

subsection \<open>Bytes of frames\<close>

lemma offset_less: "(a :: u64) AND 0xFFF < 4096"
proof -
  have "a AND 0xFFF \<le> 0xFFF" by (rule word_and_le1)
  also have "\<dots> < (4096 :: u64)" by simp
  finally show ?thesis .
qed

lemma unat_offset: "unat ((a :: u64) AND 0xFFF) = unat a mod 4096"
proof -
  have "(0xFFF :: u64) = mask 12" by (simp add: mask_eq_exp_minus_1)
  then show ?thesis by (simp only: take_bit_eq_mask [symmetric] unsigned_take_bit_eq) (simp add: take_bit_eq_mod)
qed

lemma frame_byte:
  assumes "hhdm_ok v" "f < total_pages (pmm v)" "unat ofs < 4096"
  shows "unat (f * PAGE_SIZE + ofs + limine_hhdm (pmm v)) = unat f * 4096 + unat ofs + unat (limine_hhdm (pmm v))"
proof -
  have f: "unat f + 1 \<le> unat (total_pages (pmm v))" using assms(2) by (simp add: word_less_nat_alt)
  then have "(unat f + 1) * 4096 \<le> unat (total_pages (pmm v)) * 4096" by (rule mult_le_mono1)
  then have b: "unat f * 4096 + unat ofs + unat (limine_hhdm (pmm v)) < 2 ^ 64"
    using assms(1,3) by (simp add: hhdm_ok_def)
  then have "unat (f * PAGE_SIZE) = unat f * 4096" by (simp add: unat_word_ariths)
  with b show ?thesis by (simp add: unat_word_ariths)
qed

lemma frame_byte_inj:
  assumes "hhdm_ok v" "f < total_pages (pmm v)" "g < total_pages (pmm v)" "unat ofs < 4096" "unat ofs2 < 4096"
    and "f * PAGE_SIZE + ofs + limine_hhdm (pmm v) = g * PAGE_SIZE + ofs2 + limine_hhdm (pmm v)"
  shows "f = g"
proof -
  have e: "unat f * 4096 + unat ofs = unat g * 4096 + unat ofs2"
    using frame_byte [OF assms(1,2,4)] frame_byte [OF assms(1,3,5)] assms(6) by simp
  have "unat f = (unat f * 4096 + unat ofs) div 4096" using assms(4) by simp
  also have "\<dots> = unat g" unfolding e using assms(5) by simp
  finally show ?thesis by (simp add: word_unat_eq_iff)
qed

text \<open>Writing a whole frame: the bytes of the other frames stay.\<close>

lemma paste_frame:
  assumes "hhdm_ok v" "f < total_pages (pmm v)" "length bs = 4096"
  shows "paste (f * PAGE_SIZE + limine_hhdm (pmm v)) bs m (f * PAGE_SIZE + (a AND 0xFFF) + limine_hhdm (pmm v))
           = bs ! unat (a AND 0xFFF)"
    and "g < total_pages (pmm v) \<Longrightarrow> g \<noteq> f \<Longrightarrow>
         paste (f * PAGE_SIZE + limine_hhdm (pmm v)) bs m (g * PAGE_SIZE + (a AND 0xFFF) + limine_hhdm (pmm v))
           = m (g * PAGE_SIZE + (a AND 0xFFF) + limine_hhdm (pmm v))"
proof -
  have ofs: "unat (a AND 0xFFF) < 4096" using offset_less [of a] by (simp add: word_less_nat_alt)
  then show "paste (f * PAGE_SIZE + limine_hhdm (pmm v)) bs m (f * PAGE_SIZE + (a AND 0xFFF) + limine_hhdm (pmm v))
           = bs ! unat (a AND 0xFFF)"
    using assms(3) by (simp add: paste_def)
  assume g: "g < total_pages (pmm v)" "g \<noteq> f"
  show "paste (f * PAGE_SIZE + limine_hhdm (pmm v)) bs m (g * PAGE_SIZE + (a AND 0xFFF) + limine_hhdm (pmm v))
           = m (g * PAGE_SIZE + (a AND 0xFFF) + limine_hhdm (pmm v))"
  proof (rule paste_other)
    fix i assume i: "i < length bs"
    then have i': "unat (word_of_nat i :: u64) < 4096" using assms(3) by (simp add: unat_of_nat_small)
    show "g * PAGE_SIZE + (a AND 0xFFF) + limine_hhdm (pmm v) \<noteq> f * PAGE_SIZE + limine_hhdm (pmm v) + word_of_nat i"
    proof
      assume "g * PAGE_SIZE + (a AND 0xFFF) + limine_hhdm (pmm v) = f * PAGE_SIZE + limine_hhdm (pmm v) + word_of_nat i"
      then have "g * PAGE_SIZE + (a AND 0xFFF) + limine_hhdm (pmm v) = f * PAGE_SIZE + word_of_nat i + limine_hhdm (pmm v)"
        by (simp add: algebra_simps)
      from frame_byte_inj [OF assms(1) g(1) assms(2) ofs i' this] g(2) show False by simp
    qed
  qed
qed

lemma kvm_frame [simp]:
  "kvm (k\<lparr>dram := d\<rparr>) = kvm k" "kvm (upd_task t f k) = kvm k" "kvm (with_vm g k) = g (kvm k)"
  by (simp_all add: kvm_def upd_task_def with_vm_def)

lemma with_vm_frame [simp]:
  "dram (with_vm f k) = dram k" "tasks (with_vm f k) = tasks k" "current_task (with_vm f k) = current_task k"
  "task_head (with_vm f k) = task_head k" "zombie_task (with_vm f k) = zombie_task k"
  "next_pid (with_vm f k) = next_pid k" "framebuffer (with_vm f k) = framebuffer k" "kbd (with_vm f k) = kbd k"
  by (simp_all add: with_vm_def)

lemma user_root_frame [simp]: "user_root (k\<lparr>dram := d\<rparr>) = user_root k"
  by (simp add: user_root_def)

text \<open>The next byte of the same page.\<close>

lemma next_in_page:
  assumes "mmu_page root a v = Some p" and "unat a mod 4096 < 4095"
  shows "mmu_page root (a + 1) v = Some p" and "unat (a + 1) mod 4096 = unat a mod 4096 + 1"
    and "(a + 1) AND 0xFFF = (a AND 0xFFF) + 1"
proof -
  have "unat a + 1 < 2 ^ 64"
  proof (rule ccontr)
    assume "\<not> unat a + 1 < 2 ^ 64"
    then have "unat a = 2 ^ 64 - 1" using unat_bound [of a] by simp
    with assms(2) show False by simp
  qed
  then have u: "unat (a + 1) = unat a + 1" by (simp add: unat_word_ariths)
  have m: "(unat a + 1) mod 4096 = unat a mod 4096 + 1" "(unat a + 1) div 4096 = unat a div 4096"
    using assms(2) by (simp_all add: mod_Suc div_Suc)
  show "mmu_page root (a + 1) v = Some p"
    using same_vpage_page [OF same_page_offset [of a "a + 1"]] m u assms(1) by simp
  show "unat (a + 1) mod 4096 = unat a mod 4096 + 1" using u m(1) by simp
  show "(a + 1) AND 0xFFF = (a AND 0xFFF) + 1"
    using m(1) u assms(2) by (simp add: word_unat_eq_iff unat_offset unat_word_ariths)
qed

text \<open>A store that stays inside one mapped page.\<close>

lemma user_store_page:
  assumes "mmu_page (user_root k) a (kvm k) = Some p" and "unat a mod 4096 + length bs \<le> 4096"
  shows "user_store a bs k = Some (k\<lparr>dram := paste (p + (a AND 0xFFF) + limine_hhdm (pmm (kvm k))) bs (dram k)\<rparr>)"
  using assms
proof (induction bs arbitrary: a k)
  case (Cons b bs)
  let ?d = "p + (a AND 0xFFF) + limine_hhdm (pmm (kvm k))"
  let ?k = "k\<lparr>dram := (dram k)(?d := b)\<rparr>"
  show ?case
  proof (cases bs)
    case Nil
    moreover have "paste ?d [b] (dram k) = (dram k)(?d := b)" using paste_Cons [of "[]" ?d b "dram k"] by simp
    ultimately show ?thesis using Cons.prems(1) by (simp only: user_store.simps option.case)
  next
    case (Cons c cs)
    then have off: "unat a mod 4096 + 1 + length bs \<le> 4096" "unat a mod 4096 < 4095"
      using Cons.prems(2) by simp_all
    note nx = next_in_page [OF Cons.prems(1) off(2)]
    have "mmu_page (user_root ?k) (a + 1) (kvm ?k) = Some p" using nx(1) by simp
    from Cons.IH [OF this] off(1) nx(2)
    have "user_store (a + 1) bs ?k = Some (?k\<lparr>dram := paste (p + ((a + 1) AND 0xFFF) + limine_hhdm (pmm (kvm k))) bs (dram ?k)\<rparr>)"
      by (simp add: fun_upd_def)
    moreover have "length bs < 2 ^ 64" using off(1) by simp
    ultimately show ?thesis using Cons.prems(1) paste_Cons [of bs ?d b "dram k"] nx(3) by (simp add: algebra_simps fun_upd_def)
  qed
qed simp

lemma map_page_cr3: "vmm_map_page root va phys flags v = Some v' \<Longrightarrow> cr3 v' = cr3 v"
  by (auto simp: vmm_map_page_def invlpg_def dest!: get_or_alloc_log split: Option.bind_splits)

subsection \<open>A fresh page in a process\<close>

lemma with_vm_twice [simp]: "with_vm f (with_vm g k) = with_vm (\<lambda>v. f (g v)) k"
  by (simp add: with_vm_def)

lemma copy_to_user_mem_ok:
  assumes "mmu_page (phys_to_virt (kvm k) user_pml4) vaddr (kvm (with_vm (write_cr3 user_pml4) k)) = Some p"
    and "unat vaddr mod 4096 + unat sz \<le> 4096"
  shows "copy_to_user_mem user_pml4 vaddr data sz k =
    Some (k\<lparr>dram := paste (p + (vaddr AND 0xFFF) + limine_hhdm (pmm (kvm k))) (load_bytes (dram k) data (unat sz)) (dram k)\<rparr>)"
proof -
  let ?k = "with_vm (write_cr3 user_pml4) k"
  have "mmu_page (user_root ?k) vaddr (kvm ?k) = Some p" using assms(1)
    by (simp add: user_root_def kvm_def with_vm_def write_cr3_def read_cr3_def phys_to_virt_def)
  from user_store_page [OF this, of "load_bytes (dram k) data (unat sz)"] assms(2) show ?thesis
    by (simp add: copy_to_user_mem_def kvm_def with_vm_def write_cr3_def read_cr3_def)
qed

lemma rw_flags: "(7 :: u64) AND PAGE_ALIGN_MASK = 0"
  by (simp add: PAGE_ALIGN_MASK_def)

definition frames_left :: "kernel \<Rightarrow> nat" where
  "frames_left k = unat (total_pages (pmm (kvm k))) - unat (used_pages (pmm (kvm k)))"

lemma fresh_user_page:
  assumes inv: "private_map user_half (kvm k) root" and va: "PML4_INDEX va \<in> user_half" and room: "4 \<le> frames_left k"
    and flags: "flags AND PAGE_ALIGN_MASK = 0"
  obtains f p v' where "alloc_page_k k = Some (f * PAGE_SIZE + limine_hhdm (pmm (kvm k)), with_vm (\<lambda>v. v\<lparr>pmm := p\<rparr>) k)"
    and "f * PAGE_SIZE + limine_hhdm (pmm (kvm k)) \<noteq> 0" and "limine_hhdm p = limine_hhdm (pmm (kvm k))"
    and "map_page_k root va (f * PAGE_SIZE) flags (with_vm (\<lambda>v. v\<lparr>pmm := p\<rparr>) k) = Some (with_vm (\<lambda>_. v') k)"
    and "private_map user_half v' root" and "f < total_pages (pmm (kvm k))" and "\<not> page_used (pmm (kvm k)) f"
    and "mmu_page root va v' = Some (f * PAGE_SIZE)"
    and "\<And>w. PML4_INDEX w \<in> user_half \<Longrightarrow> \<not> same_vpage va w \<Longrightarrow> mmu_page root w v' = mmu_page root w (kvm k)"
    and "cr3 v' = cr3 (kvm k)" and "total_pages (pmm v') = total_pages (pmm (kvm k))"
    and "limine_hhdm (pmm v') = limine_hhdm (pmm (kvm k))"
    and "frames_left k \<le> frames_left (with_vm (\<lambda>_. v') k) + 4"
    and "grows user_half root ((kvm k)\<lparr>pmm := p\<rparr>) v'" and "\<And>q. page_used p q \<longleftrightarrow> q = f \<or> page_used (pmm (kvm k)) q"
    and "total_pages p = total_pages (pmm (kvm k))" and "pmm_inv p"
    and "unat (used_pages p) = unat (used_pages (pmm (kvm k))) + 1"
proof -
  have hh: "hhdm_ok (kvm k)" using private_map_wf [OF inv] by (simp add: pt_wf_def)
  have free: "unat (used_pages (pmm (kvm k))) + 4 \<le> unat (total_pages (pmm (kvm k)))"
    using room by (simp add: frames_left_def)
  obtain f p v' where m: "pmm_alloc_page (pmm (kvm k)) = Some (f * PAGE_SIZE + limine_hhdm (pmm (kvm k)), p)"
    "limine_hhdm p = limine_hhdm (pmm (kvm k))" "\<not> page_used (pmm (kvm k)) f" "f < total_pages (pmm (kvm k))"
    "vmm_map_page root va (f * PAGE_SIZE) flags ((kvm k)\<lparr>pmm := p\<rparr>) = Some v'" "private_map user_half v' root"
    "total_pages (pmm v') = total_pages (pmm (kvm k))" "limine_hhdm (pmm v') = limine_hhdm (pmm (kvm k))"
    "unat (used_pages (pmm v')) \<le> unat (used_pages (pmm (kvm k))) + 4" "mmu_page root va v' = Some (f * PAGE_SIZE)"
    "\<And>w. PML4_INDEX w \<in> user_half \<Longrightarrow> \<not> same_vpage va w \<Longrightarrow> mmu_page root w v' = mmu_page root w (kvm k)"
    "grows user_half root ((kvm k)\<lparr>pmm := p\<rparr>) v'" "\<And>q. page_used p q \<longleftrightarrow> q = f \<or> page_used (pmm (kvm k)) q"
    by (rule map_fresh_frame [OF inv va free flags]) blast
  have "used_pages (pmm (kvm k)) < total_pages (pmm (kvm k))" using free by (simp add: word_less_nat_alt)
  from take_fresh_frame [OF inv this] m(1) have p: "total_pages p = total_pages (pmm (kvm k))" "pmm_inv p"
    "used_pages p = used_pages (pmm (kvm k)) + 1" by (metis option.inject prod.inject)+
  have "unat (used_pages p) = unat (used_pages (pmm (kvm k))) + 1"
    using p(3) free unat_bound [of "total_pages (pmm (kvm k))"] by (simp add: unat_word_ariths)
  moreover have "f * PAGE_SIZE + limine_hhdm (pmm (kvm k)) \<noteq> 0"
    using frame_addr_nonzero [OF hh m(4)] by (simp add: frame_addr_def)
  moreover have "cr3 v' = cr3 (kvm k)" using map_page_cr3 [OF m(5)] by simp
  moreover have "alloc_page_k k = Some (f * PAGE_SIZE + limine_hhdm (pmm (kvm k)), with_vm (\<lambda>v. v\<lparr>pmm := p\<rparr>) k)"
    using m(1) by (simp add: alloc_page_k_def)
  moreover have "map_page_k root va (f * PAGE_SIZE) flags (with_vm (\<lambda>v. v\<lparr>pmm := p\<rparr>) k) = Some (with_vm (\<lambda>_. v') k)"
    using m(5) by (simp add: map_page_k_def)
  moreover have "frames_left k \<le> frames_left (with_vm (\<lambda>_. v') k) + 4" using m(7,9) by (simp add: frames_left_def)
  ultimately show ?thesis using that m p by blast
qed

lemma private_map_owner:
  assumes "private_map H v root" "PML4_INDEX w \<in> H" "mmu_page root w v = Some a" "\<not> page_used (pmm v) f"
  obtains g where "a = g * PAGE_SIZE" "g < total_pages (pmm v)" "g \<noteq> f"
  using private_map_frame [OF assms(1-3)] assms(4) by metis

text \<open>
  A fresh page filled with \<open>bs\<close> through the direct map: the process reads \<open>bs\<close> there and no other byte
  of the process changes.
\<close>

lemma fill_fresh_page:
  assumes inv: "private_map user_half (kvm k) root" and va: "PML4_INDEX va \<in> user_half"
    and room: "4 \<le> frames_left k" and flags: "flags AND PAGE_ALIGN_MASK = 0"
  obtains f p v where "alloc_page_k k = Some (f * PAGE_SIZE + limine_hhdm (pmm (kvm k)), with_vm (\<lambda>v. v\<lparr>pmm := p\<rparr>) k)"
    and "f * PAGE_SIZE + limine_hhdm (pmm (kvm k)) \<noteq> 0" and "limine_hhdm p = limine_hhdm (pmm (kvm k))"
    and "map_page_k root va (f * PAGE_SIZE) flags (with_vm (\<lambda>v. v\<lparr>pmm := p\<rparr>) k) = Some (with_vm (\<lambda>_. v) k)"
    and "private_map user_half v root" and "mmu_page root va v = Some (f * PAGE_SIZE)"
    and "cr3 v = cr3 (kvm k)" and "limine_hhdm (pmm v) = limine_hhdm (pmm (kvm k))"
    and "\<And>d. frames_left k \<le> frames_left ((with_vm (\<lambda>_. v) k)\<lparr>dram := d\<rparr>) + 4"
    and "\<And>bs a. length bs = 4096 \<Longrightarrow> same_vpage va a \<Longrightarrow>
          user_byte root a ((with_vm (\<lambda>_. v) k)\<lparr>dram := paste (f * PAGE_SIZE + limine_hhdm (pmm (kvm k))) bs (dram k)\<rparr>)
            = Some (bs ! unat (a AND 0xFFF))"
    and "\<And>bs a. length bs = 4096 \<Longrightarrow> PML4_INDEX a \<in> user_half \<Longrightarrow> \<not> same_vpage va a \<Longrightarrow>
          user_byte root a ((with_vm (\<lambda>_. v) k)\<lparr>dram := paste (f * PAGE_SIZE + limine_hhdm (pmm (kvm k))) bs (dram k)\<rparr>)
            = user_byte root a k"
proof -
  obtain f p v where m: "alloc_page_k k = Some (f * PAGE_SIZE + limine_hhdm (pmm (kvm k)), with_vm (\<lambda>v. v\<lparr>pmm := p\<rparr>) k)"
    "f * PAGE_SIZE + limine_hhdm (pmm (kvm k)) \<noteq> 0" "limine_hhdm p = limine_hhdm (pmm (kvm k))"
    "map_page_k root va (f * PAGE_SIZE) flags (with_vm (\<lambda>v. v\<lparr>pmm := p\<rparr>) k) = Some (with_vm (\<lambda>_. v) k)"
    "private_map user_half v root" "f < total_pages (pmm (kvm k))" "\<not> page_used (pmm (kvm k)) f"
    "mmu_page root va v = Some (f * PAGE_SIZE)"
    "\<And>w. PML4_INDEX w \<in> user_half \<Longrightarrow> \<not> same_vpage va w \<Longrightarrow> mmu_page root w v = mmu_page root w (kvm k)"
    "cr3 v = cr3 (kvm k)" "limine_hhdm (pmm v) = limine_hhdm (pmm (kvm k))"
    "frames_left k \<le> frames_left (with_vm (\<lambda>_. v) k) + 4"
    by (rule fresh_user_page [OF inv va room flags]) blast
  have hh: "hhdm_ok (kvm k)" using private_map_wf [OF inv] by (simp add: pt_wf_def)
  let ?h = "limine_hhdm (pmm (kvm k))"
  let ?k = "\<lambda>bs. (with_vm (\<lambda>_. v) k)\<lparr>dram := paste (f * PAGE_SIZE + ?h) bs (dram k)\<rparr>"
  have new: "user_byte root a (?k bs) = Some (bs ! unat (a AND 0xFFF))" if "length bs = 4096" "same_vpage va a" for bs a
    using same_vpage_page [OF that(2), of root v, symmetric] m(8,11) paste_frame(1) [OF hh m(6) that(1)]
    by (simp add: user_byte_def)
  have old: "user_byte root a (?k bs) = user_byte root a k"
    if bs: "length bs = 4096" and a: "PML4_INDEX a \<in> user_half" "\<not> same_vpage va a" for bs a
  proof (cases "mmu_page root a (kvm k)")
    case None
    then show ?thesis using m(9) [OF a] by (simp add: user_byte_def)
  next
    case (Some q)
    obtain g where "q = g * PAGE_SIZE" "g < total_pages (pmm (kvm k))" "g \<noteq> f"
      by (rule private_map_owner [OF inv a(1) Some m(7)])
    then show ?thesis using Some m(9) [OF a] m(11) paste_frame(2) [OF hh m(6) bs] by (simp add: user_byte_def)
  qed
  have left: "frames_left k \<le> frames_left ((with_vm (\<lambda>_. v) k)\<lparr>dram := d\<rparr>) + 4" for d
    using m(12) by (simp add: frames_left_def)
  show ?thesis by (rule that [OF m(1-5,8,10,11) left new old])
qed

lemma paste_same: "length bs = length cs \<Longrightarrow> paste d bs (paste d cs m) = paste d bs m"
  by (auto simp: paste_def fun_eq_iff)

text \<open>One page of the growing heap.\<close>

lemma sbrk_page_ok:
  assumes inv: "private_map user_half (kvm k) root" and va: "PML4_INDEX va \<in> user_half" "unat va mod 4096 = 0"
    and room: "4 \<le> frames_left k" and root: "user_root k = root"
  obtains v d where "sbrk_page root va k = Some (True, (with_vm (\<lambda>_. v) k)\<lparr>dram := d\<rparr>)"
    and "private_map user_half v root" and "user_root ((with_vm (\<lambda>_. v) k)\<lparr>dram := d\<rparr>) = root"
    and "cr3 v = cr3 (kvm k)"
    and "frames_left k \<le> frames_left ((with_vm (\<lambda>_. v) k)\<lparr>dram := d\<rparr>) + 4"
    and "\<And>a. same_vpage va a \<Longrightarrow> user_byte root a ((with_vm (\<lambda>_. v) k)\<lparr>dram := d\<rparr>) = Some 0"
    and "\<And>a. PML4_INDEX a \<in> user_half \<Longrightarrow> \<not> same_vpage va a \<Longrightarrow>
          user_byte root a ((with_vm (\<lambda>_. v) k)\<lparr>dram := d\<rparr>) = user_byte root a k"
proof -
  let ?h = "limine_hhdm (pmm (kvm k))" and ?z = "replicate 4096 (0 :: u8)"
  obtain f p v where m: "alloc_page_k k = Some (f * PAGE_SIZE + ?h, with_vm (\<lambda>v. v\<lparr>pmm := p\<rparr>) k)"
    "f * PAGE_SIZE + ?h \<noteq> 0" "limine_hhdm p = ?h"
    "map_page_k root va (f * PAGE_SIZE) 7 (with_vm (\<lambda>v. v\<lparr>pmm := p\<rparr>) k) = Some (with_vm (\<lambda>_. v) k)"
    "private_map user_half v root" "mmu_page root va v = Some (f * PAGE_SIZE)"
    "cr3 v = cr3 (kvm k)" "limine_hhdm (pmm v) = ?h"
    "\<And>d. frames_left k \<le> frames_left ((with_vm (\<lambda>_. v) k)\<lparr>dram := d\<rparr>) + 4"
    "\<And>bs a. length bs = 4096 \<Longrightarrow> same_vpage va a \<Longrightarrow>
       user_byte root a ((with_vm (\<lambda>_. v) k)\<lparr>dram := paste (f * PAGE_SIZE + ?h) bs (dram k)\<rparr>) = Some (bs ! unat (a AND 0xFFF))"
    "\<And>bs a. length bs = 4096 \<Longrightarrow> PML4_INDEX a \<in> user_half \<Longrightarrow> \<not> same_vpage va a \<Longrightarrow>
       user_byte root a ((with_vm (\<lambda>_. v) k)\<lparr>dram := paste (f * PAGE_SIZE + ?h) bs (dram k)\<rparr>) = user_byte root a k"
    by (rule fill_fresh_page [OF inv va(1) room rw_flags]) blast
  have off: "va AND 0xFFF = 0" using va(2) by (simp add: word_unat_eq_iff unat_offset)
  have root': "user_root (with_vm (\<lambda>_. v) k) = root"
    using root m(7,8) by (simp add: user_root_def phys_to_virt_def read_cr3_def)
  have st: "user_store va ?z (with_vm (\<lambda>_. v) k) = Some ((with_vm (\<lambda>_. v) k)\<lparr>dram := paste (f * PAGE_SIZE + ?h) ?z (dram k)\<rparr>)"
    using user_store_page [of "with_vm (\<lambda>_. v) k" va "f * PAGE_SIZE" ?z] m(6,8) root' va(2) off by simp
  have "sbrk_page root va k = Some (True, (with_vm (\<lambda>_. v) k)\<lparr>dram := paste (f * PAGE_SIZE + ?h) ?z (dram k)\<rparr>)"
    using m(1-4) st by (simp add: sbrk_page_def memset_result paste_same del: replicate.simps)
  moreover have "?z ! unat (a AND 0xFFF) = 0" for a :: u64
    using offset_less [of a] by (simp add: word_less_nat_alt)
  ultimately show ?thesis using that m(5,7,9) m(10) [of ?z] m(11) [of ?z] root' by simp
qed

lemma page_step:
  assumes "unat va mod 4096 = 0" "unat va + 4096 * Suc n \<le> 2 ^ 47"
  shows "unat (va + 4096) = unat va + 4096" "unat (va + 4096) mod 4096 = 0" "unat (va + 4096) + 4096 * n \<le> 2 ^ 47"
    "PML4_INDEX va \<in> user_half" "unat a < 2 ^ 47 \<Longrightarrow> same_vpage va a \<longleftrightarrow> unat va \<le> unat a \<and> unat a < unat va + 4096"
proof -
  show u: "unat (va + 4096) = unat va + 4096" using assms(2) by (simp add: unat_word_ariths)
  then show "unat (va + 4096) mod 4096 = 0" "unat (va + 4096) + 4096 * n \<le> 2 ^ 47" using assms by simp_all
  show "PML4_INDEX va \<in> user_half" using assms(2) by (intro user_half_index) simp
  obtain q where q: "unat va = 4096 * q" using assms(1) by blast
  assume "unat a < 2 ^ 47"
  then have "same_vpage va a \<longleftrightarrow> q = unat a div 4096"
    using same_vpage_number [of va a] assms(2) q by simp
  also have "\<dots> \<longleftrightarrow> unat va \<le> unat a \<and> unat a < unat va + 4096" unfolding q by linarith
  finally show "same_vpage va a \<longleftrightarrow> unat va \<le> unat a \<and> unat a < unat va + 4096" .
qed

lemma sbrk_loop_ok:
  assumes "private_map user_half (kvm k) root" and "unat va mod 4096 = 0" and "unat va + 4096 * n \<le> 2 ^ 47"
    and "4 * n \<le> frames_left k" and "user_root k = root"
  shows "\<exists>v d. sbrk_loop n root va k = Some (True, (with_vm (\<lambda>_. v) k)\<lparr>dram := d\<rparr>)
     \<and> private_map user_half v root \<and> user_root ((with_vm (\<lambda>_. v) k)\<lparr>dram := d\<rparr>) = root \<and> cr3 v = cr3 (kvm k)
     \<and> (\<forall>a. unat a < 2 ^ 47 \<longrightarrow> user_byte root a ((with_vm (\<lambda>_. v) k)\<lparr>dram := d\<rparr>)
            = (if unat va \<le> unat a \<and> unat a < unat va + 4096 * n then Some 0 else user_byte root a k))"
  using assms
proof (induction n arbitrary: va k)
  case 0
  have "(with_vm (\<lambda>_. kvm k) k)\<lparr>dram := dram k\<rparr> = k" by (simp add: with_vm_def kvm_def)
  with 0 show ?case by (intro exI [of _ "kvm k"] exI [of _ "dram k"]) auto
next
  case (Suc n)
  note P = page_step [OF Suc.prems(2,3)]
  have room: "4 \<le> frames_left k" using Suc.prems(4) by simp
  obtain v d where s: "sbrk_page root va k = Some (True, (with_vm (\<lambda>_. v) k)\<lparr>dram := d\<rparr>)" "private_map user_half v root"
    "user_root ((with_vm (\<lambda>_. v) k)\<lparr>dram := d\<rparr>) = root" "frames_left k \<le> frames_left ((with_vm (\<lambda>_. v) k)\<lparr>dram := d\<rparr>) + 4"
    "\<And>a. same_vpage va a \<Longrightarrow> user_byte root a ((with_vm (\<lambda>_. v) k)\<lparr>dram := d\<rparr>) = Some 0"
    "\<And>a. PML4_INDEX a \<in> user_half \<Longrightarrow> \<not> same_vpage va a \<Longrightarrow>
       user_byte root a ((with_vm (\<lambda>_. v) k)\<lparr>dram := d\<rparr>) = user_byte root a k" "cr3 v = cr3 (kvm k)"
    by (rule sbrk_page_ok [OF Suc.prems(1) P(4) Suc.prems(2) room Suc.prems(5)]) blast
  let ?k = "(with_vm (\<lambda>_. v) k)\<lparr>dram := d\<rparr>"
  have pm: "private_map user_half (kvm ?k) root" "4 * n \<le> frames_left ?k" using s(2,4) Suc.prems(4) by simp_all
  obtain v' d' where r: "sbrk_loop n root (va + 4096) ?k = Some (True, (with_vm (\<lambda>_. v') ?k)\<lparr>dram := d'\<rparr>)"
    "private_map user_half v' root" "user_root ((with_vm (\<lambda>_. v') ?k)\<lparr>dram := d'\<rparr>) = root" "cr3 v' = cr3 v"
    "\<forall>a. unat a < 2 ^ 47 \<longrightarrow> user_byte root a ((with_vm (\<lambda>_. v') ?k)\<lparr>dram := d'\<rparr>)
       = (if unat (va + 4096) \<le> unat a \<and> unat a < unat (va + 4096) + 4096 * n then Some 0 else user_byte root a ?k)"
    using Suc.IH [OF pm(1) P(2,3) pm(2) s(3)] by auto
  have k': "(with_vm (\<lambda>_. v') ?k)\<lparr>dram := d'\<rparr> = (with_vm (\<lambda>_. v') k)\<lparr>dram := d'\<rparr>" by (simp add: with_vm_def)
  have "user_byte root a ((with_vm (\<lambda>_. v') k)\<lparr>dram := d'\<rparr>)
      = (if unat va \<le> unat a \<and> unat a < unat va + 4096 * Suc n then Some 0 else user_byte root a k)"
    if a: "unat a < 2 ^ 47" for a
    using r(5) s(5,6) [of a] P(1) P(5) [OF a] user_half_index [OF a] a by (auto simp: k')
  then show ?case using s(1,7) r(1-4) k' by (intro exI [of _ v'] exI [of _ d']) simp
qed

lemma page_top:
  assumes "unat b + 4095 < 2 ^ 64"
  shows "unat ((b + PAGE_SIZE - 1) AND NOT (PAGE_SIZE - 1)) = (unat b + 4095) div 4096 * 4096"
  using unat_align_up_page [OF assms] by (simp add: align_up_def)

text \<open>A process that runs on its own address space.\<close>

definition user_process :: "kernel \<Rightarrow> bool" where
  "user_process k \<longleftrightarrow> tcr3 (tasks k (current_task k)) = cr3 (kvm k) \<and> private_map user_half (kvm k) (user_root k)"

definition break_top :: "u64 \<Rightarrow> nat" where
  "break_top b = (unat b + 4095) div 4096 * 4096"

lemma break_top_diff: "4096 * ((break_top a - break_top b) div 4096) = break_top a - break_top b"
  by (simp add: break_top_def flip: diff_mult_distrib)

lemma user_byte_upd_task [simp]: "user_byte root a (upd_task t f k) = user_byte root a k"
  by (simp add: user_byte_def) (simp add: upd_task_def)

subsection \<open>Two address spaces\<close>

lemma more_used_private:
  assumes inv: "private_map H v root" and p: "pmm_inv p"
    and same: "limine_hhdm p = limine_hhdm (pmm v)" "total_pages p = total_pages (pmm v)"
    and used: "\<And>q. page_used (pmm v) q \<Longrightarrow> page_used p q"
  shows "private_map H (v\<lparr>pmm := p\<rparr>) root"
  unfolding private_map_def more_used_view [OF same(1)]
  using inv more_used_wf [OF private_map_wf [OF inv] p same used] same used by (simp add: private_map_def) blast

text \<open>While the tables below one root grow, a space with disjoint tables keeps its invariant.\<close>

lemma private_map_other:
  assumes gr: "grows H r1 v v'" and inv1: "private_map H v r1" and inv1': "private_map H v' r1"
    and inv2: "private_map K v r2" and disj: "tables H v r1 \<inter> tables K v r2 = {}"
  shows "private_map K v' r2" and "tables K v' r2 = tables K v r2" and "tables H v' r1 \<inter> tables K v' r2 = {}"
    and "PML4_INDEX w \<in> K \<Longrightarrow> mmu_page r2 w v' = mmu_page r2 w v"
proof -
  note wf1 = private_map_wf [OF inv1] and wf2 = private_map_wf [OF inv2]
  have pinv: "pmm_inv (pmm v')" and hh: "hhdm_ok v"
    using private_map_wf [OF inv1'] wf1 by (simp_all add: pt_wf_def)
  show tab: "tables K v' r2 = tables K v r2"
    using grows_walk_other [OF gr wf1 wf2 disj] by (auto simp: tables_def)
  show map: "PML4_INDEX w \<in> K \<Longrightarrow> mmu_page r2 w v' = mmu_page r2 w v" for w
    by (rule grows_mapping_other [OF gr wf1 wf2 disj])
  have G: "total_pages (pmm v') = total_pages (pmm v)" "\<And>q. page_used (pmm v) q \<Longrightarrow> page_used (pmm v') q"
    "\<And>q. frame_addr v' q = frame_addr v q"
    using gr by (simp_all add: grows_def frame_addr_def)
  have "pt_wf K v' r2" by (rule grows_wf_other [OF gr wf1 wf2 disj pinv])
  then show "private_map K v' r2" using inv2 G by (simp add: private_map_def map tab) blast
  show "tables H v' r1 \<inter> tables K v' r2 = {}"
  proof (rule ccontr)
    assume "tables H v' r1 \<inter> tables K v' r2 \<noteq> {}"
    then obtain t where t: "t \<in> tables H v' r1" "t \<in> tables K v r2" using tab by auto
    then have "fresh_frame v t" using gr disj by (auto simp: grows_def)
    moreover obtain q where "q < total_pages (pmm v)" "page_used (pmm v) q" "t = frame_addr v q"
      using wf2 t(2) unfolding pt_wf_def by blast
    ultimately show False using frame_addr_inj [OF hh] by (auto simp: fresh_frame_def)
  qed
qed

definition two_spaces :: "vm_state \<Rightarrow> u64 \<Rightarrow> u64 \<Rightarrow> bool" where
  "two_spaces v r1 r2 \<longleftrightarrow> private_map user_half v r1 \<and> private_map user_half v r2
     \<and> tables user_half v r1 \<inter> tables user_half v r2 = {}"

lemma share_page_ok:
  assumes sp: "two_spaces (kvm k) r1 r2" and va: "PML4_INDEX va1 \<in> user_half" "PML4_INDEX va2 \<in> user_half"
    and room: "7 \<le> frames_left k"
  obtains f v where "share_page r1 va1 r2 va2 k = Some (with_vm (\<lambda>_. v) k)" and "two_spaces v r1 r2"
    and "frames_left k \<le> frames_left (with_vm (\<lambda>_. v) k) + 7" and "\<not> page_used (pmm (kvm k)) f"
    and "\<And>q. page_used (pmm (kvm k)) q \<Longrightarrow> page_used (pmm v) q"
    and "limine_hhdm (pmm v) = limine_hhdm (pmm (kvm k))" and "cr3 v = cr3 (kvm k)"
    and "mmu_page r1 va1 v = Some (f * PAGE_SIZE)" and "mmu_page r2 va2 v = Some (f * PAGE_SIZE)"
    and "\<And>w. PML4_INDEX w \<in> user_half \<Longrightarrow> \<not> same_vpage va1 w \<Longrightarrow> mmu_page r1 w v = mmu_page r1 w (kvm k)"
    and "\<And>w. PML4_INDEX w \<in> user_half \<Longrightarrow> \<not> same_vpage va2 w \<Longrightarrow> mmu_page r2 w v = mmu_page r2 w (kvm k)"
proof -
  have inv: "private_map user_half (kvm k) r1" "private_map user_half (kvm k) r2"
    and disj: "tables user_half (kvm k) r1 \<inter> tables user_half (kvm k) r2 = {}"
    using sp by (simp_all add: two_spaces_def)
  have room4: "4 \<le> frames_left k" using room by simp
  obtain f p v1 where m: "alloc_page_k k = Some (f * PAGE_SIZE + limine_hhdm (pmm (kvm k)), with_vm (\<lambda>v. v\<lparr>pmm := p\<rparr>) k)"
    "f * PAGE_SIZE + limine_hhdm (pmm (kvm k)) \<noteq> 0" "limine_hhdm p = limine_hhdm (pmm (kvm k))"
    "map_page_k r1 va1 (f * PAGE_SIZE) 7 (with_vm (\<lambda>v. v\<lparr>pmm := p\<rparr>) k) = Some (with_vm (\<lambda>_. v1) k)"
    "private_map user_half v1 r1" "f < total_pages (pmm (kvm k))" "\<not> page_used (pmm (kvm k)) f"
    "mmu_page r1 va1 v1 = Some (f * PAGE_SIZE)"
    "\<And>w. PML4_INDEX w \<in> user_half \<Longrightarrow> \<not> same_vpage va1 w \<Longrightarrow> mmu_page r1 w v1 = mmu_page r1 w (kvm k)"
    "cr3 v1 = cr3 (kvm k)" "total_pages (pmm v1) = total_pages (pmm (kvm k))"
    "limine_hhdm (pmm v1) = limine_hhdm (pmm (kvm k))" "frames_left k \<le> frames_left (with_vm (\<lambda>_. v1) k) + 4"
    "grows user_half r1 ((kvm k)\<lparr>pmm := p\<rparr>) v1" "\<And>q. page_used p q \<longleftrightarrow> q = f \<or> page_used (pmm (kvm k)) q"
    "total_pages p = total_pages (pmm (kvm k))" "pmm_inv p"
    by (rule fresh_user_page [OF inv(1) va(1) room4 rw_flags]) blast
  note view = more_used_view [OF m(3)]
  have used: "page_used (pmm (kvm k)) q \<Longrightarrow> page_used p q" for q by (simp add: m(15))
  have inv': "private_map user_half ((kvm k)\<lparr>pmm := p\<rparr>) r1" "private_map user_half ((kvm k)\<lparr>pmm := p\<rparr>) r2"
    by (rule more_used_private [OF inv(1) m(17,3,16)], erule used)
       (rule more_used_private [OF inv(2) m(17,3,16)], erule used)
  have disj': "tables user_half ((kvm k)\<lparr>pmm := p\<rparr>) r1 \<inter> tables user_half ((kvm k)\<lparr>pmm := p\<rparr>) r2 = {}"
    using disj by (simp add: view)
  note O = private_map_other [OF m(14) inv'(1) m(5) inv'(2) disj']
  have hh: "hhdm_ok (kvm k)" using private_map_wf [OF inv(1)] by (simp add: pt_wf_def)
  have G: "page_used p q \<Longrightarrow> page_used (pmm v1) q" for q using m(14) by (simp add: grows_def)
  have fa: "frame_addr v1 q = frame_addr (kvm k) q" for q using m(12) by (simp add: frame_addr_def)
  have f2: "f < total_pages (pmm v1)" "page_used (pmm v1) f" using m(6,11,15) G by simp_all
  have nt: "frame_addr v1 f \<notin> tables user_half v1 r2"
  proof
    assume "frame_addr v1 f \<in> tables user_half v1 r2"
    then have "frame_addr (kvm k) f \<in> tables user_half (kvm k) r2" using O(2) by (simp add: fa view)
    then obtain q where "q < total_pages (pmm (kvm k))" "page_used (pmm (kvm k)) q" "frame_addr (kvm k) f = frame_addr (kvm k) q"
      using private_map_wf [OF inv(2)] unfolding pt_wf_def by blast
    with frame_addr_inj [OF hh m(6)] m(7) show False by blast
  qed
  have un: "mmu_page r2 w v1 \<noteq> Some (f * PAGE_SIZE)" if "PML4_INDEX w \<in> user_half" for w
    using private_map_frame [OF inv(2) that] O(4) [OF that] m(7) frame_phys_inj frame_small [OF hh] m(6) view(4)
    by metis
  have free: "unat (used_pages (pmm v1)) + 3 \<le> unat (total_pages (pmm v1))"
    using room m(13) by (simp add: frames_left_def)
  obtain v where n: "vmm_map_page r2 va2 (f * PAGE_SIZE) 7 v1 = Some v" "private_map user_half v r2"
    "grows user_half r2 v1 v" "unat (used_pages (pmm v)) \<le> unat (used_pages (pmm v1)) + 3"
    "mmu_page r2 va2 v = Some (f * PAGE_SIZE)"
    "\<And>w. PML4_INDEX w \<in> user_half \<Longrightarrow> \<not> same_vpage va2 w \<Longrightarrow> mmu_page r2 w v = mmu_page r2 w v1"
    by (rule map_owned_frame [OF O(1) va(2) f2 nt _ free rw_flags]) (erule un, rule that, assumption+)
  have disj1: "tables user_half v1 r2 \<inter> tables user_half v1 r1 = {}" using O(3) by blast
  note Q = private_map_other [OF n(3) O(1) n(2) m(5) disj1]
  have "share_page r1 va1 r2 va2 k = Some (with_vm (\<lambda>_. v) k)"
    using m(1-4) n(1) by (simp add: share_page_def) (simp add: map_page_k_def)
  moreover have "two_spaces v r1 r2" using Q(1,3) n(2) by (auto simp: two_spaces_def)
  moreover have "frames_left k \<le> frames_left (with_vm (\<lambda>_. v) k) + 7"
    using m(13) n(3,4) by (simp add: frames_left_def grows_def)
  moreover have "page_used (pmm v) q" if "page_used (pmm (kvm k)) q" for q
    using that n(3) G used by (simp add: grows_def)
  moreover have "mmu_page r1 va1 v = Some (f * PAGE_SIZE)" using Q(4) [OF va(1)] m(8) by simp
  moreover have "mmu_page r1 w v = mmu_page r1 w (kvm k)" if "PML4_INDEX w \<in> user_half" "\<not> same_vpage va1 w" for w
    using Q(4) that m(9) by simp
  moreover have "mmu_page r2 w v = mmu_page r2 w (kvm k)" if "PML4_INDEX w \<in> user_half" "\<not> same_vpage va2 w" for w
    using n(6) that O(4) view(4) by simp
  moreover have "cr3 v = cr3 (kvm k)" using map_page_cr3 [OF n(1)] m(10) by simp
  moreover have "limine_hhdm (pmm v) = limine_hhdm (pmm (kvm k))" using n(3) m(12) by (simp add: grows_def)
  ultimately show ?thesis using that m(7) n(5) by blast
qed

text \<open>The whole loop: page by page the same frame appears in both spaces.\<close>

definition shared_range :: "nat \<Rightarrow> u64 \<Rightarrow> u64 \<Rightarrow> u64 \<Rightarrow> u64 \<Rightarrow> vm_state \<Rightarrow> vm_state \<Rightarrow> bool" where
  "shared_range n r1 va1 r2 va2 v v' \<longleftrightarrow>
     (\<forall>i < n. \<exists>f. \<not> page_used (pmm v) f \<and> mmu_page r1 (va1 + 4096 * word_of_nat i) v' = Some (f * PAGE_SIZE)
                 \<and> mmu_page r2 (va2 + 4096 * word_of_nat i) v' = Some (f * PAGE_SIZE))
     \<and> (\<forall>w. unat w < 2 ^ 47 \<longrightarrow> \<not> (unat va1 \<le> unat w \<and> unat w < unat va1 + 4096 * n) \<longrightarrow> mmu_page r1 w v' = mmu_page r1 w v)
     \<and> (\<forall>w. unat w < 2 ^ 47 \<longrightarrow> \<not> (unat va2 \<le> unat w \<and> unat w < unat va2 + 4096 * n) \<longrightarrow> mmu_page r2 w v' = mmu_page r2 w v)"

lemma share_loop_ok:
  assumes "two_spaces (kvm k) r1 r2" and "unat va1 mod 4096 = 0" "unat va1 + 4096 * n \<le> 2 ^ 47"
    and "unat va2 mod 4096 = 0" "unat va2 + 4096 * n \<le> 2 ^ 47" and "7 * n \<le> frames_left k"
  shows "\<exists>v. share_loop n r1 va1 r2 va2 k = Some (with_vm (\<lambda>_. v) k) \<and> two_spaces v r1 r2
     \<and> limine_hhdm (pmm v) = limine_hhdm (pmm (kvm k)) \<and> cr3 v = cr3 (kvm k) \<and> shared_range n r1 va1 r2 va2 (kvm k) v
     \<and> frames_left k \<le> frames_left (with_vm (\<lambda>_. v) k) + 7 * n"
  using assms
proof (induction n arbitrary: va1 va2 k)
  case 0
  have "with_vm (\<lambda>_. kvm k) k = k" by (simp add: with_vm_def kvm_def)
  with 0 show ?case by (intro exI [of _ "kvm k"]) (simp add: shared_range_def)
next
  case (Suc n)
  note P = page_step [OF Suc.prems(2,3)] and Q = page_step [OF Suc.prems(4,5)]
  have room: "7 \<le> frames_left k" using Suc.prems(6) by simp
  obtain f v where s: "share_page r1 va1 r2 va2 k = Some (with_vm (\<lambda>_. v) k)" "two_spaces v r1 r2"
    "frames_left k \<le> frames_left (with_vm (\<lambda>_. v) k) + 7" "\<not> page_used (pmm (kvm k)) f"
    "\<And>q. page_used (pmm (kvm k)) q \<Longrightarrow> page_used (pmm v) q"
    "limine_hhdm (pmm v) = limine_hhdm (pmm (kvm k))" "cr3 v = cr3 (kvm k)"
    "mmu_page r1 va1 v = Some (f * PAGE_SIZE)" "mmu_page r2 va2 v = Some (f * PAGE_SIZE)"
    "\<And>w. PML4_INDEX w \<in> user_half \<Longrightarrow> \<not> same_vpage va1 w \<Longrightarrow> mmu_page r1 w v = mmu_page r1 w (kvm k)"
    "\<And>w. PML4_INDEX w \<in> user_half \<Longrightarrow> \<not> same_vpage va2 w \<Longrightarrow> mmu_page r2 w v = mmu_page r2 w (kvm k)"
    by (rule share_page_ok [OF Suc.prems(1) P(4) Q(4) room]) blast
  let ?k = "with_vm (\<lambda>_. v) k"
  have pre: "two_spaces (kvm ?k) r1 r2" "7 * n \<le> frames_left ?k" using s(2,3) Suc.prems(6) by simp_all
  obtain v' where r: "share_loop n r1 (va1 + 4096) r2 (va2 + 4096) ?k = Some (with_vm (\<lambda>_. v') ?k)" "two_spaces v' r1 r2"
    "limine_hhdm (pmm v') = limine_hhdm (pmm v)" "cr3 v' = cr3 v" "shared_range n r1 (va1 + 4096) r2 (va2 + 4096) v v'"
    "frames_left ?k \<le> frames_left (with_vm (\<lambda>_. v') ?k) + 7 * n"
    using Suc.IH [OF pre(1) P(2,3) Q(2,3) pre(2)] by auto
  have a0: "unat va1 < 2 ^ 47" "unat va2 < 2 ^ 47" using Suc.prems(3,5) by simp_all
  have keep1: "mmu_page r1 w v' = mmu_page r1 w v" and keep2: "mmu_page r2 w' v' = mmu_page r2 w' v"
    if "unat w < 2 ^ 47" "\<not> (unat va1 + 4096 \<le> unat w \<and> unat w < unat va1 + 4096 * Suc n)"
       "unat w' < 2 ^ 47" "\<not> (unat va2 + 4096 \<le> unat w' \<and> unat w' < unat va2 + 4096 * Suc n)" for w w'
    using r(5) that P(1) Q(1) unfolding shared_range_def by (simp_all add: algebra_simps)
  have pages: "\<exists>g. \<not> page_used (pmm (kvm k)) g \<and> mmu_page r1 (va1 + 4096 * word_of_nat i) v' = Some (g * PAGE_SIZE)
      \<and> mmu_page r2 (va2 + 4096 * word_of_nat i) v' = Some (g * PAGE_SIZE)" if i: "i < Suc n" for i
  proof (cases i)
    case 0
    then show ?thesis using keep1 [of va1 va2] keep2 [of va1 va2] a0 s(4,8,9) by auto
  next
    case (Suc j)
    have sh: "va + 4096 + 4096 * word_of_nat j = va + 4096 * word_of_nat (Suc j)" for va :: u64
      by (simp add: algebra_simps)
    have "j < n" using i Suc by simp
    with r(5) obtain g where g: "\<not> page_used (pmm v) g" "mmu_page r1 (va1 + 4096 + 4096 * word_of_nat j) v' = Some (g * PAGE_SIZE)"
      "mmu_page r2 (va2 + 4096 + 4096 * word_of_nat j) v' = Some (g * PAGE_SIZE)"
      unfolding shared_range_def by blast
    have "\<not> page_used (pmm (kvm k)) g" using g(1) s(5) by blast
    then show ?thesis using g(2,3) unfolding sh Suc by blast
  qed
  have other1: "mmu_page r1 w v' = mmu_page r1 w (kvm k)"
    if w: "unat w < 2 ^ 47" "\<not> (unat va1 \<le> unat w \<and> unat w < unat va1 + 4096 * Suc n)" for w
  proof -
    have "\<not> same_vpage va1 w" using P(5) [OF w(1)] w(2) by auto
    moreover have "mmu_page r1 w v' = mmu_page r1 w v" by (rule keep1 [of w va2]) (use w a0 in auto)
    ultimately show ?thesis using s(10) user_half_index [OF w(1)] by simp
  qed
  have other2: "mmu_page r2 w v' = mmu_page r2 w (kvm k)"
    if w: "unat w < 2 ^ 47" "\<not> (unat va2 \<le> unat w \<and> unat w < unat va2 + 4096 * Suc n)" for w
  proof -
    have "\<not> same_vpage va2 w" using Q(5) [OF w(1)] w(2) by auto
    moreover have "mmu_page r2 w v' = mmu_page r2 w v" by (rule keep2 [of va1 w]) (use w a0 in auto)
    ultimately show ?thesis using s(11) user_half_index [OF w(1)] by simp
  qed
  have "shared_range (Suc n) r1 va1 r2 va2 (kvm k) v'"
    unfolding shared_range_def using pages other1 other2 by blast
  moreover have "frames_left k \<le> frames_left (with_vm (\<lambda>_. v') k) + 7 * Suc n" using s(3) r(6) by simp
  ultimately show ?case using s(1,6,7) r(1-4) by (intro exI [of _ v']) simp
qed

lemma aligned_top:
  assumes "unat b mod 4096 = 0"
  shows "(b + PAGE_SIZE - 1) AND NOT (PAGE_SIZE - 1) = (b :: u64)"
proof -
  obtain q where q: "unat b = 4096 * q" using assms by blast
  then have "unat b + 4095 < 2 ^ 64" using unat_bound [of b] by simp
  from page_top [OF this] q show ?thesis by (simp add: word_unat_eq_iff)
qed

lemma reserve_eq:
  "reserve t sz k = ((program_break (tasks k t) + PAGE_SIZE - 1) AND NOT (PAGE_SIZE - 1),
     upd_task t (\<lambda>u. u\<lparr>program_break := ((program_break (tasks k t) + PAGE_SIZE - 1) AND NOT (PAGE_SIZE - 1)) + sz\<rparr>) k)"
proof (cases "program_break (tasks k t) AND 0xFFF = 0")
  case True
  then have "unat (program_break (tasks k t)) mod 4096 = 0" by (metis unat_offset unat_0)
  from aligned_top [OF this] True show ?thesis by (simp add: reserve_def align_break_def Let_def)
next
  case False
  then show ?thesis by (simp add: reserve_def align_break_def upd_task_def Let_def)
qed

subsection \<open>Properties\<close>

lemma sys_sbrk_result:
  assumes "user_process k" and "unat (program_break (tasks k (current_task k))) + 4095 < 2 ^ 47"
    and "unat (program_break (tasks k (current_task k)) + inc) + 4095 < 2 ^ 47"
    and "4 * ((break_top (program_break (tasks k (current_task k)) + inc)
               - break_top (program_break (tasks k (current_task k)))) div 4096) \<le> frames_left k"
  shows "\<exists>k'. sys_sbrk inc k = Some (program_break (tasks k (current_task k)), k')
     \<and> program_break (tasks k' (current_task k)) = program_break (tasks k (current_task k)) + inc
     \<and> user_process k' \<and> current_task k' = current_task k
     \<and> (\<forall>a. unat a < 2 ^ 47 \<longrightarrow> user_byte (user_root k) a k' =
          (if break_top (program_break (tasks k (current_task k))) \<le> unat a
              \<and> unat a < break_top (program_break (tasks k (current_task k)) + inc)
           then Some 0 else user_byte (user_root k) a k))"
proof -
  let ?t = "current_task k" and ?b = "program_break (tasks k (current_task k))"
  let ?top = "\<lambda>b :: u64. (b + PAGE_SIZE - 1) AND NOT (PAGE_SIZE - 1)"
  let ?n = "unat ((?top (?b + inc) - ?top ?b) div PAGE_SIZE)"
  let ?upd = "upd_task ?t (\<lambda>t. t\<lparr>program_break := ?b + inc\<rparr>)"
  have top: "unat (?top ?b) = break_top ?b" "unat (?top (?b + inc)) = break_top (?b + inc)"
    using page_top [of ?b] page_top [of "?b + inc"] assms(2,3) by (simp_all add: break_top_def)
  have root: "tcr3 (tasks k ?t) + limine_hhdm (pmm (kvm k)) = user_root k"
    using assms(1) by (simp add: user_process_def user_root_def phys_to_virt_def read_cr3_def)
  show ?thesis
  proof (cases "?top (?b + inc) > ?top ?b")
    case small: False
    have le: "break_top (?b + inc) \<le> break_top ?b" using small top by (simp add: word_less_nat_alt)
    have "sys_sbrk inc k = Some (?b, ?upd k)"
    proof (cases "inc = 0")
      case True
      have "?upd k = k" using True by (simp add: upd_task_def)
      with True show ?thesis by (simp add: sys_sbrk_def Let_def)
    next
      case False
      with small show ?thesis by (simp add: sys_sbrk_def Let_def)
    qed
    moreover have "user_process (?upd k)"
      using assms(1) by (simp add: user_process_def user_root_def upd_task_def kvm_def)
    ultimately show ?thesis using le by (intro exI [of _ "?upd k"]) (auto simp: upd_task_def user_byte_def kvm_def)
  next
    case True
    have le: "break_top ?b < break_top (?b + inc)" using True top by (simp add: word_less_nat_alt)
    have n: "?n = (break_top (?b + inc) - break_top ?b) div 4096"
      using top le by (simp add: unat_div unat_sub word_le_nat_alt)
    have al: "unat (?top ?b) mod 4096 = 0" using top(1) by (simp add: break_top_def)
    have fill: "unat (?top ?b) + 4096 * ?n = break_top (?b + inc)"
      unfolding n top(1) break_top_diff using le by simp
    have fit: "unat (?top ?b) + 4096 * ?n \<le> 2 ^ 47" unfolding fill using assms(3) by (simp add: break_top_def)
    have pm: "private_map user_half (kvm k) (user_root k)" using assms(1) by (simp add: user_process_def)
    have room: "4 * ?n \<le> frames_left k" unfolding n by (rule assms(4))
    obtain v d where r: "sbrk_loop ?n (user_root k) (?top ?b) k = Some (True, (with_vm (\<lambda>_. v) k)\<lparr>dram := d\<rparr>)"
      "private_map user_half v (user_root k)" "user_root ((with_vm (\<lambda>_. v) k)\<lparr>dram := d\<rparr>) = user_root k" "cr3 v = cr3 (kvm k)"
      "\<forall>a. unat a < 2 ^ 47 \<longrightarrow> user_byte (user_root k) a ((with_vm (\<lambda>_. v) k)\<lparr>dram := d\<rparr>)
         = (if break_top ?b \<le> unat a \<and> unat a < break_top (?b + inc) then Some 0 else user_byte (user_root k) a k)"
      using sbrk_loop_ok [OF pm al fit room refl] unfolding top(1) fill [unfolded top(1)] by blast
    let ?k = "?upd ((with_vm (\<lambda>_. v) k)\<lparr>dram := d\<rparr>)"
    have "inc \<noteq> 0" using True by auto
    then have "sys_sbrk inc k = Some (?b, ?k)" using True r(1) root by (simp add: sys_sbrk_def Let_def)
    moreover have "user_root ?k = user_root k" using r(3) by (simp add: user_root_def)
    then have "user_process ?k"
      using assms(1) r(2,4) by (auto simp: user_process_def upd_task_def kvm_def with_vm_def)
    ultimately show ?thesis using r(5) by (intro exI [of _ ?k]) simp
  qed
qed

text \<open>
  C11. \<^verbatim>\<open>sys_sbrk\<close> in a process with enough free frames, for a new break inside user space: it returns
  the old break and moves the break; the pages between the old and the new page boundary read as
  zeros, and every other byte of the process, mapped or not, reads as before.
\<close>

theorem sys_sbrk_ok:
  assumes "user_process k" and "unat (program_break (tasks k (current_task k))) + 4095 < 2 ^ 47"
    and "unat (program_break (tasks k (current_task k)) + inc) + 4095 < 2 ^ 47"
    and "4 * ((break_top (program_break (tasks k (current_task k)) + inc)
               - break_top (program_break (tasks k (current_task k)))) div 4096) \<le> frames_left k"
  shows "\<exists>k'. sys_sbrk inc k = Some (program_break (tasks k (current_task k)), k')
     \<and> program_break (tasks k' (current_task k)) = program_break (tasks k (current_task k)) + inc
     \<and> user_process k'
     \<and> (\<forall>a. unat a < 2 ^ 47 \<longrightarrow> user_byte (user_root k) a k' =
          (if break_top (program_break (tasks k (current_task k))) \<le> unat a
              \<and> unat a < break_top (program_break (tasks k (current_task k)) + inc)
           then Some 0 else user_byte (user_root k) a k))"
proof -
  from sys_sbrk_result [OF assms] show ?thesis by blast
qed

lemma kernel_example_process: "user_process kernel_example" "user_root kernel_example = 0x10000"
proof -
  have vm: "kvm kernel_example = vm_example" by (simp add: kvm_def kernel_example_def kheap_example_def)
  have c: "cr3 vm_example = 0" "limine_hhdm (pmm vm_example) = 0x10000" by (simp_all add: vm_example_def)
  show root: "user_root kernel_example = 0x10000"
    by (simp add: user_root_def phys_to_virt_def read_cr3_def vm c)
  show "user_process kernel_example"
    unfolding user_process_def root vm c by (simp add: vm_example_private kernel_example_def task_example_def)
qed

lemma kernel_example_frames: "frames_left kernel_example = 62"
  by (simp add: frames_left_def kvm_def kernel_example_def kheap_example_def vm_example_def)

lemma kernel_example_break: "program_break (tasks kernel_example (current_task kernel_example)) = 0x400000"
  by (simp add: kernel_example_def task_example_def)

theorem sys_sbrk_ok_witness:
  "\<exists>k'. sys_sbrk 5000 kernel_example = Some (0x400000, k') \<and> user_byte 0x10000 0x401FFF k' = Some 0"
  using sys_sbrk_ok [OF kernel_example_process(1), of 5000, unfolded kernel_example_break kernel_example_process(2)]
  by (auto simp: break_top_def kernel_example_frames)

text \<open>
  Out of memory: when a page is needed and no frame is left, \<^verbatim>\<open>sys_sbrk\<close> returns \<open>-1\<close> and neither the
  break nor any other part of the state has changed.
\<close>

theorem sys_sbrk_no_memory:
  assumes "used_pages (pmm (kvm k)) \<ge> total_pages (pmm (kvm k))"
    and "unat (program_break (tasks k (current_task k))) + 4095 < 2 ^ 64"
    and "unat (program_break (tasks k (current_task k)) + inc) + 4095 < 2 ^ 64"
    and "break_top (program_break (tasks k (current_task k))) < break_top (program_break (tasks k (current_task k)) + inc)"
  shows "sys_sbrk inc k = Some (- 1, k)"
proof -
  let ?b = "program_break (tasks k (current_task k))"
  let ?top = "\<lambda>b :: u64. (b + PAGE_SIZE - 1) AND NOT (PAGE_SIZE - 1)"
  let ?n = "unat ((?top (?b + inc) - ?top ?b) div PAGE_SIZE)"
  have top: "unat (?top ?b) = break_top ?b" "unat (?top (?b + inc)) = break_top (?b + inc)"
    using page_top [OF assms(2)] page_top [OF assms(3)] by (simp_all add: break_top_def)
  have gr: "?top (?b + inc) > ?top ?b" using assms(4) top by (simp add: word_less_nat_alt)
  have "?n = (break_top (?b + inc) - break_top ?b) div 4096"
    using top assms(4) by (simp add: unat_div unat_sub word_le_nat_alt)
  also have "\<dots> = (unat (?b + inc) + 4095) div 4096 - (unat ?b + 4095) div 4096"
    by (simp add: break_top_def flip: diff_mult_distrib)
  finally obtain n where n: "?n = Suc n" using assms(4) by (cases ?n) (auto simp: break_top_def)
  have "alloc_page_k k = Some (0, k)" using assms(1)
    by (simp add: alloc_page_k_def pmm_alloc_page_def) (simp add: with_vm_def kvm_def)
  then have "sbrk_page root va k = Some (False, k)" for root va by (simp add: sbrk_page_def)
  moreover have "inc \<noteq> 0" using assms(4) by auto
  ultimately show ?thesis using gr n by (simp add: sys_sbrk_def Let_def)
qed

theorem sys_sbrk_no_memory_witness:
  "sys_sbrk 1 (with_vm (\<lambda>v. v\<lparr>pmm := (pmm v)\<lparr>used_pages := 64\<rparr>\<rparr>) kernel_example)
     = Some (- 1, with_vm (\<lambda>v. v\<lparr>pmm := (pmm v)\<lparr>used_pages := 64\<rparr>\<rparr>) kernel_example)"
proof (rule sys_sbrk_no_memory)
  have "total_pages (pmm (kvm kernel_example)) = 64"
    by (simp add: kvm_def kernel_example_def kheap_example_def vm_example_def)
  then show "total_pages (pmm (kvm (with_vm (\<lambda>v. v\<lparr>pmm := (pmm v)\<lparr>used_pages := 64\<rparr>\<rparr>) kernel_example)))
      \<le> used_pages (pmm (kvm (with_vm (\<lambda>v. v\<lparr>pmm := (pmm v)\<lparr>used_pages := 64\<rparr>\<rparr>) kernel_example)))"
    by simp
qed (simp_all add: kernel_example_break break_top_def)

lemma shared_range_at:
  assumes sh: "shared_range n r1 va1 r2 va2 v v'" and d: "unat d < 4096 * n"
    and va: "unat va1 mod 4096 = 0" "unat va2 mod 4096 = 0" "unat va1 + 4096 * n \<le> 2 ^ 47" "unat va2 + 4096 * n \<le> 2 ^ 47"
  shows "\<exists>f. \<not> page_used (pmm v) f \<and> mmu_page r1 (va1 + d) v' = Some (f * PAGE_SIZE) \<and> mmu_page r2 (va2 + d) v' = Some (f * PAGE_SIZE)"
proof -
  define i where "i = unat d div 4096"
  have i: "i < n" using d by (simp add: i_def less_mult_imp_div_less mult.commute)
  have same: "same_vpage (va + 4096 * word_of_nat i) (va + d)"
    if al: "unat va mod 4096 = 0" and fit: "unat va + 4096 * n \<le> 2 ^ 47" for va :: u64
  proof (rule same_page_offset)
    obtain q where q: "unat va = 4096 * q" using al by blast
    have n: "n \<le> 2 ^ 47" using fit by simp
    have "unat (va + 4096 * word_of_nat i) = unat va + 4096 * i"
      using i fit n by (simp add: unat_word_ariths unat_of_nat_small)
    moreover have "unat (va + d) = unat va + unat d" using d fit by (simp add: unat_word_ariths)
    ultimately show "unat (va + 4096 * word_of_nat i) div 4096 = unat (va + d) div 4096" by (simp add: q i_def)
  qed
  from sh i obtain f where "\<not> page_used (pmm v) f" "mmu_page r1 (va1 + 4096 * word_of_nat i) v' = Some (f * PAGE_SIZE)"
    "mmu_page r2 (va2 + 4096 * word_of_nat i) v' = Some (f * PAGE_SIZE)" unfolding shared_range_def by blast
  then show ?thesis
    using same_vpage_page [OF same [OF va(1,3)]] same_vpage_page [OF same [OF va(2,4)]] by auto
qed

lemma sys_share_mem_result:
  fixes k :: kernel and sz :: u64
  defines "cur \<equiv> current_task k" and "n \<equiv> (unat sz + 4095) div 4096"
  defines "r1 \<equiv> phys_to_virt (kvm k) (tcr3 (tasks k cur))"
  assumes "task_ring k ts" and "find (\<lambda>t. pid (tasks k t) = scast target_pid) ts = Some t" and "t \<noteq> cur"
    and "two_spaces (kvm k) r1 (phys_to_virt (kvm k) (tcr3 (tasks k t)))" and "unat sz + 4095 < 2 ^ 64"
    and "break_top (program_break (tasks k cur)) + 4096 * n \<le> 2 ^ 47"
    and "break_top (program_break (tasks k t)) + 4096 * n \<le> 2 ^ 47" and "7 * n \<le> frames_left k"
  shows "\<exists>my their k'. sys_share_mem target_pid sz k = Some (my, Some their, k')
     \<and> unat my = break_top (program_break (tasks k cur)) \<and> unat their = break_top (program_break (tasks k t))
     \<and> unat (program_break (tasks k' cur)) = unat my + 4096 * n \<and> unat (program_break (tasks k' t)) = unat their + 4096 * n
     \<and> two_spaces (kvm k') r1 (phys_to_virt (kvm k) (tcr3 (tasks k t)))
     \<and> (\<forall>d. unat d < 4096 * n \<longrightarrow> (\<exists>f. \<not> page_used (pmm (kvm k)) f \<and> mmu_page r1 (my + d) (kvm k') = Some (f * PAGE_SIZE)
            \<and> mmu_page (phys_to_virt (kvm k) (tcr3 (tasks k t))) (their + d) (kvm k') = Some (f * PAGE_SIZE)))
     \<and> shared_range n r1 my (phys_to_virt (kvm k) (tcr3 (tasks k t))) their (kvm k) (kvm k')
     \<and> current_task k' = cur \<and> tcr3 (tasks k' cur) = tcr3 (tasks k cur) \<and> cr3 (kvm k') = cr3 (kvm k)
     \<and> limine_hhdm (pmm (kvm k')) = limine_hhdm (pmm (kvm k)) \<and> frames_left k \<le> frames_left k' + 7 * n"
proof -
  let ?r2 = "phys_to_virt (kvm k) (tcr3 (tasks k t))" and ?len = "ALIGN_UP sz PAGE_SIZE"
  let ?top = "\<lambda>b :: u64. (b + PAGE_SIZE - 1) AND NOT (PAGE_SIZE - 1)"
  define my their where "my = ?top (program_break (tasks k cur))" and "their = ?top (program_break (tasks k t))"
  define k2 where "k2 = upd_task t (\<lambda>u. u\<lparr>program_break := their + ?len\<rparr>) (upd_task cur (\<lambda>u. u\<lparr>program_break := my + ?len\<rparr>) k)"
  have "t \<in> set ts" using assms(5) by (auto simp: find_Some_iff)
  then have t0: "t \<noteq> 0" using task_ringD(4) [OF assms(4)] by auto
  have small: "unat b + 4095 < 2 ^ 64" if "break_top b \<le> 2 ^ 47" for b
    using that by (simp add: break_top_def)
  have u: "unat my = break_top (program_break (tasks k cur))" "unat their = break_top (program_break (tasks k t))"
    using page_top [OF small] assms(9,10) by (simp_all add: my_def their_def break_top_def)
  have al: "unat my mod 4096 = 0" "unat their mod 4096 = 0" unfolding u by (simp_all add: break_top_def)
  have fit: "unat my + 4096 * n \<le> 2 ^ 47" "unat their + 4096 * n \<le> 2 ^ 47" using u assms(9,10) by simp_all
  have len: "unat ?len = 4096 * n" using assms(8) by (simp add: unat_ALIGN_UP_page n_def)
  have cnt: "unat (?len div PAGE_SIZE) = n" using len by (simp add: unat_div)
  have vk: "kvm k2 = kvm k" by (simp add: k2_def)
  have pre: "two_spaces (kvm k2) r1 ?r2" "7 * n \<le> frames_left k2" using assms(7,11) vk by (simp_all add: frames_left_def)
  from share_loop_ok [OF pre(1) al(1) fit(1) al(2) fit(2) pre(2)] obtain v where
    v: "share_loop n r1 my ?r2 their k2 = Some (with_vm (\<lambda>_. v) k2)" "two_spaces v r1 ?r2"
       "shared_range n r1 my ?r2 their (kvm k) v" "cr3 v = cr3 (kvm k)" "limine_hhdm (pmm v) = limine_hhdm (pmm (kvm k))"
       "frames_left k2 \<le> frames_left (with_vm (\<lambda>_. v) k2) + 7 * n" unfolding vk by blast
  have res: "reserve cur ?len k = (my, upd_task cur (\<lambda>u. u\<lparr>program_break := my + ?len\<rparr>) k)"
    "reserve t ?len (upd_task cur (\<lambda>u. u\<lparr>program_break := my + ?len\<rparr>) k) = (their, k2)"
    using assms(6) by (simp_all add: reserve_eq my_def their_def k2_def)
  have keep: "tcr3 (tasks k2 cur) = tcr3 (tasks k cur)" "tcr3 (tasks k2 t) = tcr3 (tasks k t)" "current_task k2 = cur"
    by (simp_all add: k2_def cur_def)
  have fl: "frames_left k2 = frames_left k" by (simp add: frames_left_def vk)
  have "sys_share_mem target_pid sz k = Some (my, Some their, with_vm (\<lambda>_. v) k2)"
    using keep v(1) res t0 assms(5) cnt by (simp add: sys_share_mem_def get_task_by_pid_ring [OF assms(4)] r1_def cur_def vk)
  moreover have "unat (program_break (tasks (with_vm (\<lambda>_. v) k2) cur)) = unat my + 4096 * n"
    "unat (program_break (tasks (with_vm (\<lambda>_. v) k2) t)) = unat their + 4096 * n"
    using assms(6) len fit by (simp_all add: k2_def unat_word_ariths)
  moreover note shared_range_at [OF v(3) _ al fit]
  ultimately show ?thesis using u v(2-6) keep fl
    by (intro exI [of _ my] exI [of _ their] exI [of _ "with_vm (\<lambda>_. v) k2"]) simp
qed

text \<open>
  C10. \<^verbatim>\<open>sys_share_mem\<close> between two processes with separate page tables, whose user halves map only frames of the
  allocator, none of them a table and none twice in one process (which excludes the window manager once the
  framebuffer is mapped in its user half), and with frames and address space left: it returns one address per
  process, both the page-aligned old breaks; every address of the range maps to the same frame in
  both processes, a frame that was free before the call; no other page of either process changes,
  and both breaks move past the range.
\<close>

theorem sys_share_mem_ok:
  fixes k :: kernel and sz :: u64
  defines "cur \<equiv> current_task k" and "n \<equiv> (unat sz + 4095) div 4096"
  defines "r1 \<equiv> phys_to_virt (kvm k) (tcr3 (tasks k cur))"
  assumes "task_ring k ts" and "find (\<lambda>t. pid (tasks k t) = scast target_pid) ts = Some t" and "t \<noteq> cur"
    and "two_spaces (kvm k) r1 (phys_to_virt (kvm k) (tcr3 (tasks k t)))" and "unat sz + 4095 < 2 ^ 64"
    and "break_top (program_break (tasks k cur)) + 4096 * n \<le> 2 ^ 47"
    and "break_top (program_break (tasks k t)) + 4096 * n \<le> 2 ^ 47" and "7 * n \<le> frames_left k"
  shows "\<exists>my their k'. sys_share_mem target_pid sz k = Some (my, Some their, k')
     \<and> unat my = break_top (program_break (tasks k cur)) \<and> unat their = break_top (program_break (tasks k t))
     \<and> unat (program_break (tasks k' cur)) = unat my + 4096 * n \<and> unat (program_break (tasks k' t)) = unat their + 4096 * n
     \<and> two_spaces (kvm k') r1 (phys_to_virt (kvm k) (tcr3 (tasks k t)))
     \<and> (\<forall>d. unat d < 4096 * n \<longrightarrow> (\<exists>f. \<not> page_used (pmm (kvm k)) f \<and> mmu_page r1 (my + d) (kvm k') = Some (f * PAGE_SIZE)
            \<and> mmu_page (phys_to_virt (kvm k) (tcr3 (tasks k t))) (their + d) (kvm k') = Some (f * PAGE_SIZE)))
     \<and> shared_range n r1 my (phys_to_virt (kvm k) (tcr3 (tasks k t))) their (kvm k) (kvm k')"
proof -
  note A = assms(4-11) [unfolded r1_def cur_def n_def]
  from sys_share_mem_result [OF A]  show ?thesis unfolding r1_def cur_def n_def by blast
qed

text \<open>The two example tasks, the second with an address space of its own.\<close>

definition kernel_two :: kernel where
  "kernel_two = upd_task 0x200 (\<lambda>t. t\<lparr>tcr3 := 0x1000\<rparr>) kernel_example"

lemma kernel_two_facts:
  "kvm kernel_two = vm_example" "current_task kernel_two = 0x100" "tcr3 (tasks kernel_two 0x100) = 0"
  "tcr3 (tasks kernel_two 0x200) = 0x1000" "program_break (tasks kernel_two t) = 0x400000"
  "phys_to_virt vm_example 0 = 0x10000" "phys_to_virt vm_example 0x1000 = 0x11000" "frames_left kernel_two = 62"
  by (simp_all add: kernel_two_def kvm_def kernel_example_def kheap_example_def task_example_def phys_to_virt_def
      frames_left_def upd_task_def) (simp_all add: vm_example_def)

lemma kernel_two_ring: "task_ring kernel_two [0x100, 0x200]"
  unfolding kernel_two_def by (rule task_ring_upd [OF kernel_example_ring]) simp

lemma kernel_two_spaces: "two_spaces vm_example 0x10000 0x11000"
  by (simp add: two_spaces_def private_map_def vm_example_wf vm_example_unmapped vm_example_tables)

lemma kernel_two_find: "find (\<lambda>t. pid (tasks kernel_two t) = scast (1 :: u32)) [0x100, 0x200] = Some 0x200"
  by (simp add: kernel_two_def kernel_example_def task_example_def)

theorem sys_share_mem_ok_witness:
  "\<exists>my their k'. sys_share_mem 1 100 kernel_two = Some (my, Some their, k') \<and> unat my = 0x400000
     \<and> mmu_page 0x10000 (my + 7) (kvm k') = mmu_page 0x11000 (their + 7) (kvm k')"
proof -
  have "\<exists>my their k'. sys_share_mem 1 100 kernel_two = Some (my, Some their, k') \<and> unat my = 0x400000
     \<and> (\<forall>d. unat d < 4096 \<longrightarrow> (\<exists>f. \<not> page_used (pmm vm_example) f \<and> mmu_page 0x10000 (my + d) (kvm k') = Some (f * PAGE_SIZE)
            \<and> mmu_page 0x11000 (their + d) (kvm k') = Some (f * PAGE_SIZE)))"
    using sys_share_mem_ok [OF kernel_two_ring kernel_two_find, of 100] kernel_two_spaces
    by (auto simp: kernel_two_facts break_top_def)
  then obtain my their k' where "sys_share_mem 1 100 kernel_two = Some (my, Some their, k')" "unat my = 0x400000"
    "\<forall>d. unat d < 4096 \<longrightarrow> (\<exists>f. \<not> page_used (pmm vm_example) f \<and> mmu_page 0x10000 (my + d) (kvm k') = Some (f * PAGE_SIZE)
            \<and> mmu_page 0x11000 (their + d) (kvm k') = Some (f * PAGE_SIZE))" by blast
  moreover from this(3) [rule_format, of 7] have "mmu_page 0x10000 (my + 7) (kvm k') = mmu_page 0x11000 (their + 7) (kvm k')"
    by auto
  ultimately show ?thesis by blast
qed

subsection \<open>Unmapping as a sequence of single unmappings\<close>

lemma unmap_page_child:
  assumes wf: "pt_wf H v root" and va: "PML4_INDEX va \<in> H"
  shows "vmm_unmap_page root va v = (case walk v root (vpath va) of None \<Rightarrow> v | Some pt \<Rightarrow>
     if mem v (entry_addr pt (PT_INDEX va)) AND VMM_PRESENT \<noteq> 0
     then invlpg va (v\<lparr>mem := (mem v)(entry_addr pt (PT_INDEX va) := 0)\<rparr>) else v)"
proof -
  note P = table_path_prefixes [OF va] and V = table_path_vpath [OF va, unfolded vpath_def]
  show ?thesis
  proof (cases "child v root (PML4_INDEX va)")
    case pdp: (Some pdp)
    then have "pdp \<noteq> 0" using pt_wf_nonzero [OF wf P(2)] by simp
    show ?thesis
    proof (cases "child v pdp (PDPT_INDEX va)")
      case pd: (Some pd)
      then have "pd \<noteq> 0" using pdp pt_wf_nonzero [OF wf P(3)] by simp
      then show ?thesis
        using pdp pd \<open>pdp \<noteq> 0\<close> pt_wf_nonzero [OF wf V]
        by (cases "child v pd (PD_INDEX va)")
           (simp_all add: vmm_unmap_page_def get_table_noalloc_child vpath_def Let_def)
    qed (simp add: pdp vmm_unmap_page_def get_table_noalloc_child vpath_def)
  qed (simp add: vmm_unmap_page_def get_table_noalloc_child vpath_def)
qed

lemma unmap_walk_eq:
  assumes wf: "pt_wf H v root" and va: "PML4_INDEX va \<in> H"
  shows "unmap_walk root va v = vmm_unmap_page root va v"
  by (simp add: unmap_page_child [OF assms] unmap_walk_def vpath_def child_def VMM_PRESENT_def Let_def)

lemma unmap_page_contract:
  assumes wf: "pt_wf H v root" and va: "PML4_INDEX va \<in> H"
  shows "pt_wf H (vmm_unmap_page root va v) root" and "mmu_page root va (vmm_unmap_page root va v) = None"
    and "PML4_INDEX w \<in> H \<Longrightarrow> \<not> same_vpage va w \<Longrightarrow> mmu_page root w (vmm_unmap_page root va v) = mmu_page root w v"
    and "pmm (vmm_unmap_page root va v) = pmm v"
proof -
  have "vmm_unmap_page root va v = v \<and> mmu_page root va v = None
     \<or> (\<exists>pt. walk v root (vpath va) = Some pt \<and>
          vmm_unmap_page root va v = invlpg va (v\<lparr>mem := (mem v)(entry_addr pt (PT_INDEX va) := 0)\<rparr>))"
    unfolding unmap_page_child [OF assms]
    by (cases "walk v root (vpath va)") (simp_all add: mmu_page_def leaf_def)
  then have "pt_wf H (vmm_unmap_page root va v) root \<and> mmu_page root va (vmm_unmap_page root va v) = None
    \<and> (\<forall>w. PML4_INDEX w \<in> H \<longrightarrow> \<not> same_vpage va w \<longrightarrow> mmu_page root w (vmm_unmap_page root va v) = mmu_page root w v)
    \<and> pmm (vmm_unmap_page root va v) = pmm v"
  proof (elim disjE exE conjE)
    fix pt
    assume pt: "walk v root (vpath va) = Some pt"
      and v': "vmm_unmap_page root va v = invlpg va (v\<lparr>mem := (mem v)(entry_addr pt (PT_INDEX va) := 0)\<rparr>)"
    have m: "mem (vmm_unmap_page root va v) = (mem v)(entry_addr pt (PT_INDEX va) := 0)"
      "pmm (vmm_unmap_page root va v) = pmm v" by (simp_all add: v' invlpg_def)
    from leaf_write [OF wf va pt m] m(2) show ?thesis by simp
  qed (use wf in simp)
  then show "pt_wf H (vmm_unmap_page root va v) root" "mmu_page root va (vmm_unmap_page root va v) = None"
    "PML4_INDEX w \<in> H \<Longrightarrow> \<not> same_vpage va w \<Longrightarrow> mmu_page root w (vmm_unmap_page root va v) = mmu_page root w v"
    "pmm (vmm_unmap_page root va v) = pmm v" by blast+
qed

lemma unmap_pages:
  assumes wf: "pt_wf user_half v root" and fit: "unat va + 4096 * n \<le> 2 ^ 47"
  defines "v' \<equiv> fold (\<lambda>i. unmap_walk root (va + word_of_nat i * PAGE_SIZE)) [0..<n] v"
  shows "v' = fold (\<lambda>i. vmm_unmap_page root (va + word_of_nat i * PAGE_SIZE)) [0..<n] v"
    and "pt_wf user_half v' root" and "pmm v' = pmm v"
    and "unat w < 2 ^ 47 \<Longrightarrow> mmu_page root w v' =
      (if unat va div 4096 \<le> unat w div 4096 \<and> unat w div 4096 < unat va div 4096 + n then None else mmu_page root w v)"
proof -
  let ?w = "\<lambda>n. fold (\<lambda>i. unmap_walk root (va + word_of_nat i * PAGE_SIZE)) [0..<n] v"
  let ?u = "\<lambda>n. fold (\<lambda>i. vmm_unmap_page root (va + word_of_nat i * PAGE_SIZE)) [0..<n] v"
  have step: "?w m = ?u m \<and> pt_wf user_half (?w m) root \<and> pmm (?w m) = pmm v \<and> (\<forall>w. unat w < 2 ^ 47 \<longrightarrow>
      mmu_page root w (?w m) = (if unat va div 4096 \<le> unat w div 4096 \<and> unat w div 4096 < unat va div 4096 + m
         then None else mmu_page root w v))" if "m \<le> n" for m
    using that
  proof (induction m)
    case 0
    then show ?case using wf by auto
  next
    case (Suc m)
    let ?a = "va + word_of_nat m * PAGE_SIZE"
    have "unat ?a = unat va + m * 4096" using Suc.prems fit by (simp add: unat_word_ariths unat_of_nat_small)
    then have a: "unat ?a < 2 ^ 47" "unat ?a div 4096 = unat va div 4096 + m" using Suc.prems fit by simp_all
    note IH = Suc.IH [OF Suc_leD [OF Suc.prems]]
    then have wfm: "pt_wf user_half (?w m) root" by blast
    note C = unmap_page_contract [OF wfm user_half_index [OF a(1)]]
    have eq: "?w (Suc m) = vmm_unmap_page root ?a (?w m)"
      using unmap_walk_eq [OF wfm user_half_index [OF a(1)]] by simp
    have "mmu_page root w (?w (Suc m)) = (if unat va div 4096 \<le> unat w div 4096 \<and> unat w div 4096 < unat va div 4096 + Suc m
         then None else mmu_page root w v)" if w: "unat w < 2 ^ 47" for w
    proof (cases "same_vpage ?a w")
      case True
      then have "unat w div 4096 = unat va div 4096 + m" using same_vpage_number [of ?a w] a w by simp
      with C(2) same_vpage_page [OF True] show ?thesis unfolding eq by simp
    next
      case False
      then have "unat w div 4096 \<noteq> unat va div 4096 + m" using same_vpage_number [of ?a w] a w by simp
      with C(3) [OF user_half_index [OF w] False] IH w show ?thesis unfolding eq by auto
    qed
    moreover have "?w (Suc m) = ?u (Suc m)" using IH eq by simp
    moreover have "pt_wf user_half (?w (Suc m)) root" "pmm (?w (Suc m)) = pmm v"
      unfolding eq C(4) using IH C(1) by blast+
    ultimately show ?case by blast
  qed
  from step [of n] show "v' = ?u n" "pt_wf user_half v' root" "pmm v' = pmm v"
    "unat w < 2 ^ 47 \<Longrightarrow> mmu_page root w v' =
      (if unat va div 4096 \<le> unat w div 4096 \<and> unat w div 4096 < unat va div 4096 + n then None else mmu_page root w v)"
    unfolding v'_def by blast+
qed

text \<open>
  C33. \<^verbatim>\<open>sys_unmap\<close>, which walks the tables by hand, does the same as \<^verbatim>\<open>vmm_unmap_page\<close> on each page of the
  range: afterwards exactly the pages of the range are unmapped, and no frame is given back to the
  allocator.
\<close>

theorem sys_unmap_ok:
  assumes "pt_wf user_half (kvm k) (phys_to_virt (kvm k) (tcr3 (tasks k (current_task k))))"
    and "unat sz + 4095 < 2 ^ 64" and "unat vaddr + 4096 * ((unat sz + 4095) div 4096) \<le> 2 ^ 47"
  shows "\<exists>k'. sys_unmap vaddr sz k = (0, k')
     \<and> kvm k' = fold (\<lambda>i. vmm_unmap_page (phys_to_virt (kvm k) (tcr3 (tasks k (current_task k)))) (vaddr + word_of_nat i * PAGE_SIZE))
          [0..<(unat sz + 4095) div 4096] (kvm k)
     \<and> pmm (kvm k') = pmm (kvm k) \<and> dram k' = dram k \<and> tasks k' = tasks k
     \<and> (\<forall>w. unat w < 2 ^ 47 \<longrightarrow> mmu_page (phys_to_virt (kvm k) (tcr3 (tasks k (current_task k)))) w (kvm k') =
          (if unat vaddr div 4096 \<le> unat w div 4096 \<and> unat w div 4096 < unat vaddr div 4096 + (unat sz + 4095) div 4096
           then None else mmu_page (phys_to_virt (kvm k) (tcr3 (tasks k (current_task k)))) w (kvm k)))"
proof -
  have "unat (ALIGN_UP sz PAGE_SIZE div PAGE_SIZE) = (unat sz + 4095) div 4096"
    using assms(2) by (simp add: unat_ALIGN_UP_page unat_div)
  with unmap_pages [OF assms(1,3)] show ?thesis by (simp add: sys_unmap_def Let_def)
qed

theorem sys_unmap_ok_witness:
  "\<exists>k'. sys_unmap 0x400000 100 kernel_example = (0, k') \<and> pmm (kvm k') = pmm (kvm kernel_example)"
proof -
  have root: "phys_to_virt (kvm kernel_example) (tcr3 (tasks kernel_example (current_task kernel_example))) = 0x10000"
    using kernel_example_process by (simp add: user_process_def user_root_def read_cr3_def)
  have wf: "pt_wf user_half (kvm kernel_example) 0x10000"
    using kernel_example_process private_map_wf by (metis user_process_def)
  show ?thesis using sys_unmap_ok [of kernel_example 100 "0x400000", unfolded root, OF wf] by auto
qed

end
