(* ===== verification/FileIface.thy ===== *)
theory FileIface
  imports KString
begin

unbundle bit_operations_syntax

text \<open>
  What the kernel uses of the FatFs file system (vendored under \<^verbatim>\<open>src/src/drivers/fatfs\<close>): the calls
  as a record of functions, an argument of every definition that reads files. Files are opened for
  reading only, so a file object is a value and \<^verbatim>\<open>f_close\<close> changes nothing that is modelled. The
  documented behaviour that properties rely on is \<open>reads_file\<close>: reading returns the bytes from the
  current position, seeking sets it, and a seek past the end stops at the end.

  The second part is the layout of integers in memory: the processor is little endian.
\<close>

record filinfo =
  fsize :: u64
  fattrib :: u8
  fname :: "u8 list"

record ('f, 'd) fatfs =
  f_open :: "u8 list \<Rightarrow> u32 \<times> 'f"
  f_size :: "'f \<Rightarrow> u64"
  f_read :: "'f \<Rightarrow> nat \<Rightarrow> u32 \<times> u8 list \<times> 'f"
  f_lseek :: "'f \<Rightarrow> u64 \<Rightarrow> 'f"
  f_stat :: "u8 list \<Rightarrow> u32 \<times> filinfo"
  f_opendir :: "u8 list \<Rightarrow> u32 \<times> 'd"
  f_readdir :: "'d \<Rightarrow> u32 \<times> filinfo \<times> 'd"

abbreviation (input) FR_OK :: u32 where "FR_OK \<equiv> 0"
definition AM_DIR :: u8 where "AM_DIR = 0x10"

definition reads_file :: "('f, 'd) fatfs \<Rightarrow> (nat \<Rightarrow> 'f) \<Rightarrow> u8 list \<Rightarrow> bool" where
  "reads_file fs at data \<longleftrightarrow>
     (\<forall>p n. f_read fs (at p) n = (FR_OK, take n (drop p data), at (p + length (take n (drop p data)))))
     \<and> (\<forall>p q. f_lseek fs (at p) q = at (min (unat q) (length data)))
     \<and> (\<forall>p. f_size fs (at p) = word_of_nat (length data))"

lemma reads_fileD:
  assumes "reads_file fs at data"
  shows "f_read fs (at p) n = (FR_OK, take n (drop p data), at (p + length (take n (drop p data))))"
    and "f_lseek fs (at p) q = at (min (unat q) (length data))" and "f_size fs (at p) = word_of_nat (length data)"
  using assms by (simp_all add: reads_file_def)

text \<open>A file system with one file, for examples.\<close>

definition one_file :: "u8 list \<Rightarrow> u8 list \<Rightarrow> (nat, nat) fatfs" where
  "one_file path data =
     \<lparr>f_open = (\<lambda>p. if p = path then (FR_OK, 0) else (4, 0)),
      f_size = (\<lambda>_. word_of_nat (length data)),
      f_read = (\<lambda>p n. (FR_OK, take n (drop p data), p + length (take n (drop p data)))),
      f_lseek = (\<lambda>p q. min (unat q) (length data)),
      f_stat = (\<lambda>p. if p = path then (FR_OK, \<lparr>fsize = word_of_nat (length data), fattrib = 0, fname = path\<rparr>)
                   else (4, \<lparr>fsize = 0, fattrib = 0, fname = []\<rparr>)),
      f_opendir = (\<lambda>_. (FR_OK, 0)),
      f_readdir = (\<lambda>i. (FR_OK, if i = 0 then \<lparr>fsize = word_of_nat (length data), fattrib = 0, fname = path\<rparr>
                            else \<lparr>fsize = 0, fattrib = 0, fname = []\<rparr>, Suc i))\<rparr>"

lemma one_file_reads: "reads_file (one_file path data) (\<lambda>p. p) data"
  by (simp add: reads_file_def one_file_def)

subsection \<open>Integers in memory\<close>

definition le_bytes :: "nat \<Rightarrow> u64 \<Rightarrow> u8 list" where
  "le_bytes n w = map (\<lambda>i. ucast (drop_bit (8 * i) w)) [0..<n]"

fun le_val :: "u8 list \<Rightarrow> u64" where
  "le_val [] = 0"
| "le_val (b # bs) = ucast b OR push_bit 8 (le_val bs)"

lemma length_le_bytes [simp]: "length (le_bytes n w) = n"
  by (simp add: le_bytes_def)

lemma le_val_bytes: "le_val (le_bytes n w) = take_bit (8 * n) w"
proof -
  have "le_val (map (\<lambda>i. ucast (drop_bit (8 * (i + s)) w)) [0..<n]) = take_bit (8 * n) (drop_bit (8 * s) w)" for s
  proof (induction n arbitrary: s)
    case (Suc n)
    have m: "map (\<lambda>i. ucast (drop_bit (8 * (i + s)) w) :: u8) [0..<Suc n]
        = ucast (drop_bit (8 * s) w) # map (\<lambda>i. ucast (drop_bit (8 * (i + Suc s)) w)) [0..<n]"
      by (simp only: upt_conv_Cons zero_less_Suc map_Suc_upt [symmetric] map_map list.map comp_def) simp
    show ?case unfolding m le_val.simps Suc.IH
      by (rule bit_word_eqI) (auto simp: bit_simps)
  qed simp
  from this [of 0] show ?thesis by (simp add: le_bytes_def)
qed

lemma le_val_8 [simp]: "le_val (le_bytes 8 w) = w"
  by (simp add: le_val_bytes take_bit_word_eq_self)

end
