(* ===== verification/Elf.thy ===== *)
theory Elf
  imports UserMem FileIface
begin

unbundle bit_operations_syntax

text \<open>
  The program loader, \<^verbatim>\<open>src/src/elf/kelf.c\<close>: reading and checking the ELF header, the program header
  table (in a kernel heap block) and the loadable segments, page by page, into fresh frames of a
  new address space. The file system is the parameter \<open>fs\<close>; the header structures are decoded from
  their bytes.
\<close>

subsection \<open>Headers\<close>

record Elf64_Ehdr =
  e_ident :: "u8 list"
  e_type :: u16
  e_machine :: u16
  e_version :: u32
  e_entry :: u64
  e_phoff :: u64
  e_shoff :: u64
  e_flags :: u32
  e_ehsize :: u16
  e_phentsize :: u16
  e_phnum :: u16
  e_shentsize :: u16
  e_shnum :: u16
  e_shstrndx :: u16

record Elf64_Phdr =
  p_type :: u32
  p_flags :: u32
  p_offset :: u64
  p_vaddr :: u64
  p_paddr :: u64
  p_filesz :: u64
  p_memsz :: u64
  p_align :: u64

record elf_load_result =
  elf_entry :: u64
  elf_break :: u64

definition field :: "u8 list \<Rightarrow> nat \<Rightarrow> nat \<Rightarrow> u64" where
  "field bs off n = le_val (take n (drop off bs))"

definition ehdr_of :: "u8 list \<Rightarrow> Elf64_Ehdr" where
  "ehdr_of bs = \<lparr>e_ident = take 16 bs, e_type = ucast (field bs 16 2), e_machine = ucast (field bs 18 2),
     e_version = ucast (field bs 20 4), e_entry = field bs 24 8, e_phoff = field bs 32 8, e_shoff = field bs 40 8,
     e_flags = ucast (field bs 48 4), e_ehsize = ucast (field bs 52 2), e_phentsize = ucast (field bs 54 2),
     e_phnum = ucast (field bs 56 2), e_shentsize = ucast (field bs 58 2), e_shnum = ucast (field bs 60 2),
     e_shstrndx = ucast (field bs 62 2)\<rparr>"

definition phdr_of :: "u8 list \<Rightarrow> Elf64_Phdr" where
  "phdr_of bs = \<lparr>p_type = ucast (field bs 0 4), p_flags = ucast (field bs 4 4), p_offset = field bs 8 8,
     p_vaddr = field bs 16 8, p_paddr = field bs 24 8, p_filesz = field bs 32 8, p_memsz = field bs 40 8,
     p_align = field bs 48 8\<rparr>"

definition PT_LOAD :: u32 where "PT_LOAD = 1"

definition elf_verify_header :: "Elf64_Ehdr \<Rightarrow> bool" where
  "elf_verify_header header \<longleftrightarrow> e_ident header ! 0 = 0x7F \<and> e_ident header ! 1 = 0x45
     \<and> e_ident header ! 2 = 0x4C \<and> e_ident header ! 3 = 0x46"

definition elf_read_header :: "('f, 'd) fatfs \<Rightarrow> 'f \<Rightarrow> (Elf64_Ehdr \<times> 'f) option" where
  "elf_read_header fs file =
     (let (res, bs, file) = f_read fs file 64 in
      if res \<noteq> FR_OK \<or> length bs \<noteq> 64 then None
      else let header = ehdr_of bs in if \<not> elf_verify_header header then None else Some (header, file))"

definition heap_write :: "u64 \<Rightarrow> u8 list \<Rightarrow> kernel \<Rightarrow> kernel" where
  "heap_write a bs k = k\<lparr>kheap := (kheap k)\<lparr>heap_data := paste a bs (heap_data (kheap k))\<rparr>\<rparr>"

text \<open>The result is the address of the table, 0 on every failure.\<close>

definition elf_read_program_headers ::
    "('f, 'd) fatfs \<Rightarrow> 'f \<Rightarrow> Elf64_Ehdr \<Rightarrow> kernel \<Rightarrow> (u64 \<times> 'f \<times> kernel) option" where
  "elf_read_program_headers fs file header k =
     (let ph_size = ucast (e_phnum header) * 56 :: u32 in
      do {
        (phdr, k) \<leftarrow> kmalloc_k (ucast ph_size) k;
        if phdr = 0 then Some (0, file, k)
        else
          let file = f_lseek fs file (e_phoff header);
              (_, bs, file) = f_read fs file (unat ph_size);
              k = heap_write phdr bs k
          in if length bs \<noteq> unat ph_size then do { k \<leftarrow> kfree_k phdr k; Some (0, file, k) }
             else Some (phdr, file, k)
      })"

subsection \<open>Segments\<close>

text \<open>
  One page of a segment. The loader does not check \<^verbatim>\<open>pmm_alloc_page\<close>: with no frame left the
  \<^verbatim>\<open>memset\<close> through \<^verbatim>\<open>NULL\<close> faults and the call does not return.
\<close>

definition load_page :: "('f, 'd) fatfs \<Rightarrow> u64 \<Rightarrow> Elf64_Phdr \<Rightarrow> u64 \<Rightarrow> 'f \<Rightarrow> kernel \<Rightarrow> ('f \<times> kernel) option" where
  "load_page fs pml4_virt ph offset file k =
     do {
       (page_virt, k) \<leftarrow> alloc_page_k k;
       let page_phys = page_virt - limine_hhdm (pmm (kvm k));
       k \<leftarrow> map_page_k pml4_virt (p_vaddr ph + offset) page_phys (VMM_USER OR VMM_WRITE OR VMM_PRESENT) k;
       if page_virt = 0 then None
       else
         let k = k\<lparr>dram := snd (memset page_virt 0 PAGE_SIZE (dram k))\<rparr> in
         if offset < p_filesz ph then
           let bytes_to_copy = p_filesz ph - offset;
               bytes_to_copy = (if bytes_to_copy > PAGE_SIZE then PAGE_SIZE else bytes_to_copy);
               file = f_lseek fs file (p_offset ph + offset);
               (_, bs, file) = f_read fs file (unat bytes_to_copy)
           in Some (file, k\<lparr>dram := paste page_virt bs (dram k)\<rparr>)
         else Some (file, k)
     }"

fun load_pages :: "('f, 'd) fatfs \<Rightarrow> u64 \<Rightarrow> Elf64_Phdr \<Rightarrow> nat \<Rightarrow> u64 \<Rightarrow> 'f \<Rightarrow> kernel \<Rightarrow> ('f \<times> kernel) option" where
  "load_pages fs pml4_virt ph 0 page_index file k = Some (file, k)"
| "load_pages fs pml4_virt ph (Suc n) page_index file k =
     do {
       (file, k) \<leftarrow> load_page fs pml4_virt ph (page_index * PAGE_SIZE) file k;
       load_pages fs pml4_virt ph n (page_index + 1) file k
     }"

definition load_segment :: "('f, 'd) fatfs \<Rightarrow> u64 \<Rightarrow> Elf64_Phdr \<Rightarrow> u64 \<times> 'f \<times> kernel \<Rightarrow> (u64 \<times> 'f \<times> kernel) option" where
  "load_segment fs pml4_virt ph = (\<lambda>(max_vaddr, file, k).
     if p_type ph \<noteq> PT_LOAD then Some (max_vaddr, file, k)
     else
       let pages_needed = (p_memsz ph + 0xFFF) div PAGE_SIZE in
       do {
         (file, k) \<leftarrow> load_pages fs pml4_virt ph (unat pages_needed) 0 file k;
         let segment_end = p_vaddr ph + p_memsz ph;
         Some (if segment_end > max_vaddr then segment_end else max_vaddr, file, k)
       })"

definition phdr_at :: "u64 \<Rightarrow> nat \<Rightarrow> kernel \<Rightarrow> Elf64_Phdr" where
  "phdr_at phdr i k = phdr_of (load_bytes (heap_data (kheap k)) (phdr + 56 * word_of_nat i) 56)"

fun segments_loop :: "('f, 'd) fatfs \<Rightarrow> u64 \<Rightarrow> u64 \<Rightarrow> nat list \<Rightarrow> u64 \<times> 'f \<times> kernel \<Rightarrow> (u64 \<times> 'f \<times> kernel) option" where
  "segments_loop fs pml4_virt phdr [] st = Some st"
| "segments_loop fs pml4_virt phdr (i # is) st =
     do { st \<leftarrow> load_segment fs pml4_virt (phdr_at phdr i (snd (snd st))) st; segments_loop fs pml4_virt phdr is st }"

definition elf_load_segments ::
    "('f, 'd) fatfs \<Rightarrow> 'f \<Rightarrow> u64 \<Rightarrow> Elf64_Ehdr \<Rightarrow> u64 \<Rightarrow> kernel \<Rightarrow> (u64 \<times> 'f \<times> kernel) option" where
  "elf_load_segments fs file pml4_virt header phdr k =
     segments_loop fs pml4_virt phdr [0..<unat (e_phnum header)] (0, file, k)"

text \<open>\<open>out\<close> says whether the caller passed a place for the result.\<close>

definition load_elf_file ::
    "('f, 'd) fatfs \<Rightarrow> u8 list \<Rightarrow> u64 \<Rightarrow> bool \<Rightarrow> kernel \<Rightarrow> (int \<times> elf_load_result option \<times> kernel) option" where
  "load_elf_file fs filename pml4_virt out k =
     (let (res, file) = f_open fs filename in
      if res \<noteq> FR_OK then Some (-1, None, k)
      else case elf_read_header fs file of
        None \<Rightarrow> Some (-1, None, k)
      | Some (header, file) \<Rightarrow>
          do {
            (phdrs, file, k) \<leftarrow> elf_read_program_headers fs file header k;
            if phdrs = 0 then Some (-1, None, k)
            else do {
              (max_vaddr, file, k) \<leftarrow> elf_load_segments fs file pml4_virt header phdrs k;
              k \<leftarrow> kfree_k phdrs k;
              if \<not> out then Some (-1, None, k)
              else Some (1, Some \<lparr>elf_entry = e_entry header, elf_break = (max_vaddr + 0xFFF) AND NOT 0xFFF\<rparr>, k)
            }
          })"

subsection \<open>What a loaded segment looks like\<close>

text \<open>
  A well-formed loadable segment of a file with contents \<open>data\<close>: page-aligned, inside user space and
  inside the file. Its image is the file's bytes followed by zeros up to a page boundary.
\<close>

definition seg_pages :: "Elf64_Phdr \<Rightarrow> nat" where
  "seg_pages ph = (unat (p_memsz ph) + 4095) div 4096"

definition seg_ok :: "u8 list \<Rightarrow> Elf64_Phdr \<Rightarrow> bool" where
  "seg_ok data ph \<longleftrightarrow> unat (p_vaddr ph) mod 4096 = 0 \<and> unat (p_memsz ph) + 4095 < 2 ^ 64
     \<and> unat (p_vaddr ph) + 4096 * seg_pages ph \<le> 2 ^ 47 \<and> unat (p_filesz ph) \<le> unat (p_memsz ph)
     \<and> unat (p_offset ph) + unat (p_filesz ph) \<le> length data \<and> length data < 2 ^ 64"

definition seg_byte :: "u8 list \<Rightarrow> Elf64_Phdr \<Rightarrow> nat \<Rightarrow> u8" where
  "seg_byte data ph x = (if x < unat (p_filesz ph) then data ! (unat (p_offset ph) + x) else 0)"

definition in_seg :: "Elf64_Phdr \<Rightarrow> u64 \<Rightarrow> bool" where
  "in_seg ph a \<longleftrightarrow> unat (p_vaddr ph) \<le> unat a \<and> unat a < unat (p_vaddr ph) + 4096 * seg_pages ph"

lemma paste_over:
  assumes "length bs \<le> n"
  shows "paste d bs (paste d (replicate n 0) m) = paste d (bs @ replicate (n - length bs) 0) m"
  using assms by (auto simp: paste_def fun_eq_iff nth_append)

lemma elf_flags: "(VMM_USER OR VMM_WRITE OR VMM_PRESENT) AND PAGE_ALIGN_MASK = 0"
  by (simp add: vmm_flags PAGE_ALIGN_MASK_def)

lemma load_page_ok:
  assumes fs: "reads_file fs at data" and ok: "seg_ok data ph" and i: "i < seg_pages ph"
    and inv: "private_map user_half (kvm k) root" and room: "4 \<le> frames_left k"
  defines "va \<equiv> p_vaddr ph + word_of_nat i * PAGE_SIZE"
  obtains v d p' where "load_page fs root ph (word_of_nat i * PAGE_SIZE) (at p) k = Some (at p', (with_vm (\<lambda>_. v) k)\<lparr>dram := d\<rparr>)"
    and "private_map user_half v root" and "frames_left k \<le> frames_left ((with_vm (\<lambda>_. v) k)\<lparr>dram := d\<rparr>) + 4"
    and "\<And>a. same_vpage va a \<Longrightarrow>
          user_byte root a ((with_vm (\<lambda>_. v) k)\<lparr>dram := d\<rparr>) = Some (seg_byte data ph (4096 * i + unat (a AND 0xFFF)))"
    and "\<And>a. PML4_INDEX a \<in> user_half \<Longrightarrow> \<not> same_vpage va a \<Longrightarrow>
          user_byte root a ((with_vm (\<lambda>_. v) k)\<lparr>dram := d\<rparr>) = user_byte root a k"
    and "cr3 v = cr3 (kvm k)" and "limine_hhdm (pmm v) = limine_hhdm (pmm (kvm k))"
proof -
  let ?h = "limine_hhdm (pmm (kvm k))" and ?ofs = "word_of_nat i * PAGE_SIZE"
  have fit: "unat (p_vaddr ph) + 4096 * seg_pages ph \<le> 2 ^ 47" and fz: "unat (p_offset ph) + unat (p_filesz ph) \<le> length data"
    and small: "length data < 2 ^ 64" using ok by (simp_all add: seg_ok_def)
  have uo: "unat ?ofs = i * 4096" using i fit by (simp add: unat_word_ariths unat_of_nat_small)
  have uva: "unat va = unat (p_vaddr ph) + i * 4096" using i fit uo by (simp add: va_def unat_word_ariths)
  have vaH: "PML4_INDEX va \<in> user_half" using uva i fit by (intro user_half_index) simp
  obtain f q v where m: "alloc_page_k k = Some (f * PAGE_SIZE + ?h, with_vm (\<lambda>v. v\<lparr>pmm := q\<rparr>) k)"
    "f * PAGE_SIZE + ?h \<noteq> 0" "limine_hhdm q = ?h"
    "map_page_k root va (f * PAGE_SIZE) (VMM_USER OR VMM_WRITE OR VMM_PRESENT) (with_vm (\<lambda>v. v\<lparr>pmm := q\<rparr>) k) = Some (with_vm (\<lambda>_. v) k)"
    "private_map user_half v root" "cr3 v = cr3 (kvm k)" "limine_hhdm (pmm v) = ?h"
    "\<And>d. frames_left k \<le> frames_left ((with_vm (\<lambda>_. v) k)\<lparr>dram := d\<rparr>) + 4"
    "\<And>bs a. length bs = 4096 \<Longrightarrow> same_vpage va a \<Longrightarrow>
       user_byte root a ((with_vm (\<lambda>_. v) k)\<lparr>dram := paste (f * PAGE_SIZE + ?h) bs (dram k)\<rparr>) = Some (bs ! unat (a AND 0xFFF))"
    "\<And>bs a. length bs = 4096 \<Longrightarrow> PML4_INDEX a \<in> user_half \<Longrightarrow> \<not> same_vpage va a \<Longrightarrow>
       user_byte root a ((with_vm (\<lambda>_. v) k)\<lparr>dram := paste (f * PAGE_SIZE + ?h) bs (dram k)\<rparr>) = user_byte root a k"
    by (rule fill_fresh_page [OF inv vaH room elf_flags]) blast
  define bs where "bs = (if i * 4096 < unat (p_filesz ph)
     then take (min (unat (p_filesz ph) - i * 4096) 4096) (drop (unat (p_offset ph) + i * 4096) data) else [])"
  define page where "page = bs @ replicate (4096 - length bs) 0"
  have lb: "length bs \<le> 4096" by (simp add: bs_def min.coboundedI2)
  have lp: "length page = 4096" using lb by (simp add: page_def)
  have "\<exists>p'. load_page fs root ph ?ofs (at p) k = Some (at p', (with_vm (\<lambda>_. v) k)\<lparr>dram := paste (f * PAGE_SIZE + ?h) page (dram k)\<rparr>)"
  proof (cases "i * 4096 < unat (p_filesz ph)")
    case True
    have lt: "?ofs < p_filesz ph" using True uo by (simp add: word_less_nat_alt)
    have sub: "unat (p_filesz ph - ?ofs) = unat (p_filesz ph) - i * 4096"
      using True uo by (simp add: unat_sub word_le_nat_alt)
    have n: "unat (if p_filesz ph - ?ofs > PAGE_SIZE then PAGE_SIZE else p_filesz ph - ?ofs) = min (unat (p_filesz ph) - i * 4096) 4096"
      using sub by (simp add: word_less_nat_alt)
    have pos: "min (unat (p_offset ph + ?ofs)) (length data) = unat (p_offset ph) + i * 4096"
      using True uo fz small by (simp add: unat_word_ariths)
    have rd: "f_read fs (f_lseek fs (at p) (p_offset ph + ?ofs)) (unat (if p_filesz ph - ?ofs > PAGE_SIZE then PAGE_SIZE else p_filesz ph - ?ofs))
        = (FR_OK, bs, at (unat (p_offset ph) + i * 4096 + length bs))"
      unfolding reads_fileD [OF fs] pos n bs_def if_P [OF True] by (rule refl)
    show ?thesis
      using m(1-4) lt rd paste_over [OF lb]
      by (intro exI [of _ "unat (p_offset ph) + i * 4096 + length bs"])
         (simp add: load_page_def va_def memset_result page_def Let_def del: replicate.simps)
  next
    case False
    then have "\<not> ?ofs < p_filesz ph" using uo by (simp add: word_less_nat_alt)
    then show ?thesis
      using m(1-4) False by (auto simp: load_page_def va_def memset_result bs_def page_def Let_def simp del: replicate.simps)
  qed
  then obtain p' where r: "load_page fs root ph ?ofs (at p) k
      = Some (at p', (with_vm (\<lambda>_. v) k)\<lparr>dram := paste (f * PAGE_SIZE + ?h) page (dram k)\<rparr>)" by blast
  have cont: "page ! x = seg_byte data ph (4096 * i + x)" if "x < 4096" for x
    using that fz by (auto simp: page_def bs_def seg_byte_def nth_append algebra_simps)
  have "page ! unat (a AND 0xFFF) = seg_byte data ph (4096 * i + unat (a AND 0xFFF))" for a :: u64
    using offset_less [of a] by (intro cont) (simp add: word_less_nat_alt)
  then show ?thesis using that [OF r m(5,8) _ _ m(6,7)] m(9,10) [OF lp] by simp
qed

lemma load_pages_ok:
  assumes fs: "reads_file fs at data" and ok: "seg_ok data ph"
    and "i + n \<le> seg_pages ph" and "private_map user_half (kvm k) root" and "4 * n \<le> frames_left k"
  shows "\<exists>v d p'. load_pages fs root ph n (word_of_nat i) (at p) k = Some (at p', (with_vm (\<lambda>_. v) k)\<lparr>dram := d\<rparr>)
     \<and> private_map user_half v root \<and> frames_left k \<le> frames_left ((with_vm (\<lambda>_. v) k)\<lparr>dram := d\<rparr>) + 4 * n
     \<and> cr3 v = cr3 (kvm k) \<and> limine_hhdm (pmm v) = limine_hhdm (pmm (kvm k))
     \<and> (\<forall>a. unat a < 2 ^ 47 \<longrightarrow> user_byte root a ((with_vm (\<lambda>_. v) k)\<lparr>dram := d\<rparr>)
           = (if unat (p_vaddr ph) + 4096 * i \<le> unat a \<and> unat a < unat (p_vaddr ph) + 4096 * (i + n)
              then Some (seg_byte data ph (unat a - unat (p_vaddr ph))) else user_byte root a k))"
  using assms(3-5)
proof (induction n arbitrary: i p k)
  case 0
  have "(with_vm (\<lambda>_. kvm k) k)\<lparr>dram := dram k\<rparr> = k" by (simp add: with_vm_def kvm_def)
  with 0 show ?case by (intro exI [of _ "kvm k"] exI [of _ "dram k"] exI [of _ p]) auto
next
  case (Suc n)
  let ?va = "p_vaddr ph + word_of_nat i * PAGE_SIZE" and ?b = "unat (p_vaddr ph)"
  have i: "i < seg_pages ph" and room: "4 \<le> frames_left k" using Suc.prems by simp_all
  have fit: "?b + 4096 * seg_pages ph \<le> 2 ^ 47" and al: "?b mod 4096 = 0" using ok by (simp_all add: seg_ok_def)
  obtain v d p1 where s: "load_page fs root ph (word_of_nat i * PAGE_SIZE) (at p) k = Some (at p1, (with_vm (\<lambda>_. v) k)\<lparr>dram := d\<rparr>)"
    "private_map user_half v root" "frames_left k \<le> frames_left ((with_vm (\<lambda>_. v) k)\<lparr>dram := d\<rparr>) + 4"
    "\<And>a. same_vpage ?va a \<Longrightarrow>
       user_byte root a ((with_vm (\<lambda>_. v) k)\<lparr>dram := d\<rparr>) = Some (seg_byte data ph (4096 * i + unat (a AND 0xFFF)))"
    "\<And>a. PML4_INDEX a \<in> user_half \<Longrightarrow> \<not> same_vpage ?va a \<Longrightarrow>
       user_byte root a ((with_vm (\<lambda>_. v) k)\<lparr>dram := d\<rparr>) = user_byte root a k"
    "cr3 v = cr3 (kvm k)" "limine_hhdm (pmm v) = limine_hhdm (pmm (kvm k))"
    by (rule load_page_ok [OF fs ok i Suc.prems(2) room]) blast
  let ?k = "(with_vm (\<lambda>_. v) k)\<lparr>dram := d\<rparr>"
  have w: "(word_of_nat (Suc i) :: u64) = word_of_nat i + 1" by simp
  have pre: "Suc i + n \<le> seg_pages ph" "private_map user_half (kvm ?k) root" "4 * n \<le> frames_left ?k"
    using Suc.prems s(2,3) by simp_all
  from Suc.IH [OF pre, of p1] obtain v' d' p' where
    r: "load_pages fs root ph n (word_of_nat i + 1) (at p1) ?k = Some (at p', (with_vm (\<lambda>_. v') ?k)\<lparr>dram := d'\<rparr>)"
      "private_map user_half v' root" "frames_left ?k \<le> frames_left ((with_vm (\<lambda>_. v') ?k)\<lparr>dram := d'\<rparr>) + 4 * n"
      "cr3 v' = cr3 (kvm ?k)" "limine_hhdm (pmm v') = limine_hhdm (pmm (kvm ?k))"
      "\<forall>a. unat a < 2 ^ 47 \<longrightarrow> user_byte root a ((with_vm (\<lambda>_. v') ?k)\<lparr>dram := d'\<rparr>)
         = (if ?b + 4096 * Suc i \<le> unat a \<and> unat a < ?b + 4096 * (Suc i + n)
            then Some (seg_byte data ph (unat a - ?b)) else user_byte root a ?k)" unfolding w by blast
  have k': "(with_vm (\<lambda>_. v') ?k)\<lparr>dram := d'\<rparr> = (with_vm (\<lambda>_. v') k)\<lparr>dram := d'\<rparr>" by (simp add: with_vm_def)
  have uva: "unat ?va = ?b + 4096 * i" using i fit by (simp add: unat_word_ariths unat_of_nat_small)
  have va: "unat ?va mod 4096 = 0" "unat ?va + 4096 * Suc 0 \<le> 2 ^ 47" using uva al i fit by (simp_all add: mod_add_eq)
  have "user_byte root a ((with_vm (\<lambda>_. v') k)\<lparr>dram := d'\<rparr>) = (if ?b + 4096 * i \<le> unat a \<and> unat a < ?b + 4096 * (i + Suc n)
      then Some (seg_byte data ph (unat a - ?b)) else user_byte root a k)" if a: "unat a < 2 ^ 47" for a
  proof (cases "same_vpage ?va a")
    case True
    then have in_page: "?b + 4096 * i \<le> unat a" "unat a < ?b + 4096 * i + 4096" using page_step(5) [OF va a] uva by simp_all
    obtain q where q: "?b = 4096 * q" using al by blast
    have "unat a mod 4096 = unat a - ?b - 4096 * i"
    proof -
      have "unat a = (unat a - ?b - 4096 * i) + 4096 * (q + i)" using in_page q by simp
      moreover have "unat a - ?b - 4096 * i < 4096" using in_page by simp
      ultimately show ?thesis by (metis mod_less mod_mult_self2)
    qed
    then have "4096 * i + unat (a AND 0xFFF) = unat a - ?b" using in_page by (simp add: unat_offset)
    then show ?thesis using r(6) s(4) [OF True] in_page a by (auto simp: k')
  next
    case False
    then have "\<not> (?b + 4096 * i \<le> unat a \<and> unat a < ?b + 4096 * i + 4096)" using page_step(5) [OF va a] uva by simp
    then show ?thesis using r(6) s(5) [OF user_half_index [OF a] False] a by (auto simp: k')
  qed
  moreover have "frames_left k \<le> frames_left ((with_vm (\<lambda>_. v') k)\<lparr>dram := d'\<rparr>) + 4 * Suc n"
    using s(3) r(3) unfolding k' by simp
  ultimately show ?case using s(1,6,7) r(1,2,4,5) k'
    by (intro exI [of _ v'] exI [of _ d'] exI [of _ p']) simp
qed

lemma load_segment_ok:
  assumes fs: "reads_file fs at data" and ok: "p_type ph = PT_LOAD \<Longrightarrow> seg_ok data ph"
    and inv: "private_map user_half (kvm k) root" and room: "p_type ph = PT_LOAD \<Longrightarrow> 4 * seg_pages ph \<le> frames_left k"
  shows "\<exists>v d p'. load_segment fs root ph (mx, at p, k) =
       Some (if p_type ph = PT_LOAD then max mx (p_vaddr ph + p_memsz ph) else mx, at p', (with_vm (\<lambda>_. v) k)\<lparr>dram := d\<rparr>)
     \<and> private_map user_half v root \<and> cr3 v = cr3 (kvm k) \<and> limine_hhdm (pmm v) = limine_hhdm (pmm (kvm k))
     \<and> frames_left k \<le> frames_left ((with_vm (\<lambda>_. v) k)\<lparr>dram := d\<rparr>) + (if p_type ph = PT_LOAD then 4 * seg_pages ph else 0)
     \<and> (\<forall>a. unat a < 2 ^ 47 \<longrightarrow> user_byte root a ((with_vm (\<lambda>_. v) k)\<lparr>dram := d\<rparr>)
           = (if p_type ph = PT_LOAD \<and> in_seg ph a then Some (seg_byte data ph (unat a - unat (p_vaddr ph))) else user_byte root a k))"
proof (cases "p_type ph = PT_LOAD")
  case True
  have "unat ((p_memsz ph + 0xFFF) div PAGE_SIZE) = seg_pages ph"
    using ok [OF True] by (simp add: seg_ok_def seg_pages_def unat_div unat_word_ariths)
  moreover obtain v d p' where "load_pages fs root ph (seg_pages ph) 0 (at p) k = Some (at p', (with_vm (\<lambda>_. v) k)\<lparr>dram := d\<rparr>)"
    "private_map user_half v root" "frames_left k \<le> frames_left ((with_vm (\<lambda>_. v) k)\<lparr>dram := d\<rparr>) + 4 * seg_pages ph"
    "cr3 v = cr3 (kvm k)" "limine_hhdm (pmm v) = limine_hhdm (pmm (kvm k))"
    "\<forall>a. unat a < 2 ^ 47 \<longrightarrow> user_byte root a ((with_vm (\<lambda>_. v) k)\<lparr>dram := d\<rparr>)
       = (if in_seg ph a then Some (seg_byte data ph (unat a - unat (p_vaddr ph))) else user_byte root a k)"
    using load_pages_ok [OF fs ok [OF True] _ inv room [OF True], of 0 p] by (auto simp: in_seg_def)
  moreover have "max mx (p_vaddr ph + p_memsz ph) = (if p_vaddr ph + p_memsz ph > mx then p_vaddr ph + p_memsz ph else mx)"
    by (auto simp: max_def)
  ultimately show ?thesis using True by (intro exI [of _ v] exI [of _ d] exI [of _ p']) (simp add: load_segment_def)
next
  case False
  have "(with_vm (\<lambda>_. kvm k) k)\<lparr>dram := dram k\<rparr> = k" by (simp add: with_vm_def kvm_def)
  with False inv show ?thesis
    by (intro exI [of _ "kvm k"] exI [of _ "dram k"] exI [of _ p]) (simp add: load_segment_def)
qed

subsection \<open>All segments\<close>

definition loads :: "u64 \<Rightarrow> kernel \<Rightarrow> nat list \<Rightarrow> nat set" where
  "loads phdr k is = {i \<in> set is. p_type (phdr_at phdr i k) = PT_LOAD}"

definition seg_frames :: "u64 \<Rightarrow> kernel \<Rightarrow> nat list \<Rightarrow> nat" where
  "seg_frames phdr k is = sum_list (map (\<lambda>i. if p_type (phdr_at phdr i k) = PT_LOAD then 4 * seg_pages (phdr_at phdr i k) else 0) is)"

definition segs_apart :: "u64 \<Rightarrow> kernel \<Rightarrow> nat list \<Rightarrow> bool" where
  "segs_apart phdr k is \<longleftrightarrow> (\<forall>i \<in> loads phdr k is. \<forall>j \<in> loads phdr k is. i \<noteq> j \<longrightarrow>
     (\<forall>a. \<not> (in_seg (phdr_at phdr i k) a \<and> in_seg (phdr_at phdr j k) a)))"

lemma phdr_at_frame [simp]:
  "phdr_at phdr i (k\<lparr>dram := d\<rparr>) = phdr_at phdr i k" "phdr_at phdr i (with_vm f k) = phdr_at phdr i k"
  by (simp_all add: phdr_at_def with_vm_def)

lemma phdr_at_sets [simp]:
  "loads phdr ((with_vm f k)\<lparr>dram := d\<rparr>) is = loads phdr k is"
  "seg_frames phdr ((with_vm f k)\<lparr>dram := d\<rparr>) is = seg_frames phdr k is"
  "segs_apart phdr ((with_vm f k)\<lparr>dram := d\<rparr>) is = segs_apart phdr k is"
  by (simp_all add: loads_def seg_frames_def segs_apart_def cong: if_cong)

definition image_byte :: "u8 list \<Rightarrow> Elf64_Phdr \<Rightarrow> u64 \<Rightarrow> u8" where
  "image_byte data ph a = seg_byte data ph (unat a - unat (p_vaddr ph))"

lemma in_seg_user: "seg_ok data ph \<Longrightarrow> in_seg ph a \<Longrightarrow> unat a < 2 ^ 47"
  by (simp add: seg_ok_def in_seg_def)

lemma segments_loop_ok:
  assumes fs: "reads_file fs at data" and "distinct is" and "\<forall>i \<in> loads phdr k is. seg_ok data (phdr_at phdr i k)"
    and "segs_apart phdr k is" and "private_map user_half (kvm k) root" and "seg_frames phdr k is \<le> frames_left k"
  shows "\<exists>v d p'. segments_loop fs root phdr is (mx, at p, k) =
       Some (fold (\<lambda>i mx. if p_type (phdr_at phdr i k) = PT_LOAD then max mx (p_vaddr (phdr_at phdr i k) + p_memsz (phdr_at phdr i k)) else mx) is mx,
             at p', (with_vm (\<lambda>_. v) k)\<lparr>dram := d\<rparr>)
     \<and> private_map user_half v root \<and> cr3 v = cr3 (kvm k) \<and> limine_hhdm (pmm v) = limine_hhdm (pmm (kvm k))
     \<and> (\<forall>i \<in> loads phdr k is. \<forall>a. in_seg (phdr_at phdr i k) a \<longrightarrow>
          user_byte root a ((with_vm (\<lambda>_. v) k)\<lparr>dram := d\<rparr>) = Some (image_byte data (phdr_at phdr i k) a))
     \<and> (\<forall>a. unat a < 2 ^ 47 \<longrightarrow> (\<forall>i \<in> loads phdr k is. \<not> in_seg (phdr_at phdr i k) a) \<longrightarrow>
          user_byte root a ((with_vm (\<lambda>_. v) k)\<lparr>dram := d\<rparr>) = user_byte root a k)"
  using assms(2-6)
proof (induction "is" arbitrary: mx p k)
  case Nil
  have "(with_vm (\<lambda>_. kvm k) k)\<lparr>dram := dram k\<rparr> = k" by (simp add: with_vm_def kvm_def)
  with Nil show ?case by (intro exI [of _ "kvm k"] exI [of _ "dram k"] exI [of _ p]) (simp add: loads_def)
next
  case (Cons i "is")
  let ?ph = "phdr_at phdr i k"
  let ?mx = "if p_type ?ph = PT_LOAD then max mx (p_vaddr ?ph + p_memsz ?ph) else mx"
  have L: "loads phdr k (i # is) = (if p_type ?ph = PT_LOAD then insert i (loads phdr k is) else loads phdr k is)"
    by (auto simp: loads_def)
  have i: "p_type ?ph = PT_LOAD \<Longrightarrow> seg_ok data ?ph" "p_type ?ph = PT_LOAD \<Longrightarrow> 4 * seg_pages ?ph \<le> frames_left k"
    using Cons.prems by (auto simp: L seg_frames_def)
  obtain v d p1 where s: "load_segment fs root ?ph (mx, at p, k) = Some (?mx, at p1, (with_vm (\<lambda>_. v) k)\<lparr>dram := d\<rparr>)"
    "private_map user_half v root" "cr3 v = cr3 (kvm k)" "limine_hhdm (pmm v) = limine_hhdm (pmm (kvm k))"
    "frames_left k \<le> frames_left ((with_vm (\<lambda>_. v) k)\<lparr>dram := d\<rparr>) + (if p_type ?ph = PT_LOAD then 4 * seg_pages ?ph else 0)"
    "\<forall>a. unat a < 2 ^ 47 \<longrightarrow> user_byte root a ((with_vm (\<lambda>_. v) k)\<lparr>dram := d\<rparr>)
       = (if p_type ?ph = PT_LOAD \<and> in_seg ?ph a then Some (image_byte data ?ph a) else user_byte root a k)"
    unfolding image_byte_def using load_segment_ok [OF fs i(1) Cons.prems(4) i(2), of mx p] by blast
  let ?k = "(with_vm (\<lambda>_. v) k)\<lparr>dram := d\<rparr>"
  have sub: "loads phdr k is \<subseteq> loads phdr k (i # is)" by (auto simp: loads_def)
  have pre: "distinct is" "\<forall>j \<in> loads phdr ?k is. seg_ok data (phdr_at phdr j ?k)" "segs_apart phdr ?k is"
    "private_map user_half (kvm ?k) root"
    using Cons.prems sub s(2) by (auto simp: segs_apart_def)
  have room: "seg_frames phdr ?k is \<le> frames_left ?k"
    using Cons.prems(5) s(5) by (simp only: phdr_at_sets) (simp add: seg_frames_def)
  obtain v' d' p' where r: "segments_loop fs root phdr is (?mx, at p1, ?k) = Some (fold (\<lambda>i mx. if p_type (phdr_at phdr i k) = PT_LOAD
          then max mx (p_vaddr (phdr_at phdr i k) + p_memsz (phdr_at phdr i k)) else mx) is ?mx, at p', (with_vm (\<lambda>_. v') ?k)\<lparr>dram := d'\<rparr>)"
      "private_map user_half v' root" "cr3 v' = cr3 v" "limine_hhdm (pmm v') = limine_hhdm (pmm v)"
      "\<forall>j \<in> loads phdr k is. \<forall>a. in_seg (phdr_at phdr j k) a \<longrightarrow>
         user_byte root a ((with_vm (\<lambda>_. v') ?k)\<lparr>dram := d'\<rparr>) = Some (image_byte data (phdr_at phdr j k) a)"
      "\<forall>a. unat a < 2 ^ 47 \<longrightarrow> (\<forall>j \<in> loads phdr k is. \<not> in_seg (phdr_at phdr j k) a) \<longrightarrow>
         user_byte root a ((with_vm (\<lambda>_. v') ?k)\<lparr>dram := d'\<rparr>) = user_byte root a ?k"
    using Cons.IH [OF pre room, of ?mx p1] unfolding phdr_at_frame phdr_at_sets kvm_frame by blast
  have k': "(with_vm (\<lambda>_. v') ?k)\<lparr>dram := d'\<rparr> = (with_vm (\<lambda>_. v') k)\<lparr>dram := d'\<rparr>" by (simp add: with_vm_def)
  have seg: "user_byte root a ((with_vm (\<lambda>_. v') k)\<lparr>dram := d'\<rparr>) = Some (image_byte data (phdr_at phdr j k) a)"
    if j: "j \<in> loads phdr k (i # is)" "in_seg (phdr_at phdr j k) a" for j a
  proof (cases "j \<in> loads phdr k is")
    case False
    then have ji: "j = i" "p_type ?ph = PT_LOAD" using j(1) by (auto simp: L split: if_splits)
    then have a: "unat a < 2 ^ 47" using in_seg_user [OF i(1)] j(2) by simp
    have "\<not> in_seg (phdr_at phdr m k) a" if m: "m \<in> loads phdr k is" for m
    proof -
      have "m \<noteq> j" using m False by auto
      with Cons.prems(3) [unfolded segs_apart_def, rule_format, of m j a] m sub j show ?thesis by auto
    qed
    then have "\<forall>m \<in> loads phdr k is. \<not> in_seg (phdr_at phdr m k) a" by blast
    with r(6) s(6) a ji j(2) show ?thesis unfolding k' by simp
  qed (use r(5) j(2) in \<open>auto simp: k'\<close>)
  have out: "user_byte root a ((with_vm (\<lambda>_. v') k)\<lparr>dram := d'\<rparr>) = user_byte root a k"
    if a: "unat a < 2 ^ 47" "\<forall>j \<in> loads phdr k (i # is). \<not> in_seg (phdr_at phdr j k) a" for a
    using r(6) s(6) a unfolding k' L by auto
  show ?case
    using s(1,3,4) r(1-4) seg out by (intro exI [of _ v'] exI [of _ d'] exI [of _ p']) (simp add: k')
qed

subsection \<open>Properties\<close>

text \<open>
  C12. Loading the segments of a program: for page-aligned segments that do not share pages and
  enough free frames, \<^verbatim>\<open>elf_load_segments\<close> returns; in the new address space every loadable segment
  reads as the bytes of the file followed by zeros up to the page boundary, no other byte changes,
  and the result is at or above the end of every loaded segment.
\<close>

theorem elf_load_segments_ok:
  assumes "reads_file fs at data" and "private_map user_half (kvm k) root"
    and "\<forall>i \<in> loads phdr k [0..<unat (e_phnum h)]. seg_ok data (phdr_at phdr i k)"
    and "segs_apart phdr k [0..<unat (e_phnum h)]" and "seg_frames phdr k [0..<unat (e_phnum h)] \<le> frames_left k"
  shows "\<exists>mx p' k'. elf_load_segments fs (at p) root h phdr k = Some (mx, at p', k') \<and> private_map user_half (kvm k') root
     \<and> (\<forall>i \<in> loads phdr k [0..<unat (e_phnum h)]. p_vaddr (phdr_at phdr i k) + p_memsz (phdr_at phdr i k) \<le> mx
          \<and> (\<forall>a. in_seg (phdr_at phdr i k) a \<longrightarrow> user_byte root a k' = Some (image_byte data (phdr_at phdr i k) a)))
     \<and> (\<forall>a. unat a < 2 ^ 47 \<longrightarrow> (\<forall>i \<in> loads phdr k [0..<unat (e_phnum h)]. \<not> in_seg (phdr_at phdr i k) a) \<longrightarrow>
          user_byte root a k' = user_byte root a k)"
proof -
  let ?e = "\<lambda>i. p_vaddr (phdr_at phdr i k) + p_memsz (phdr_at phdr i k)"
  let ?f = "\<lambda>i mx. if p_type (phdr_at phdr i k) = PT_LOAD then max mx (?e i) else mx"
  have mono: "mx \<le> fold ?f is mx" for "is" mx
    by (induction "is" arbitrary: mx) (auto intro: order_trans [OF max.cobounded1])
  have mx: "i \<in> loads phdr k is \<Longrightarrow> ?e i \<le> fold ?f is mx" for "is" i mx
  proof (induction "is" arbitrary: mx)
    case (Cons j "is")
    then show ?case using mono [of "max mx (?e i)" "is"] by (auto simp: loads_def)
  qed (simp add: loads_def)
  from segments_loop_ok [OF assms(1) distinct_upt assms(3,4,2,5), of 0 p] obtain v d p' where
    r: "elf_load_segments fs (at p) root h phdr k = Some (fold ?f [0..<unat (e_phnum h)] 0, at p', (with_vm (\<lambda>_. v) k)\<lparr>dram := d\<rparr>)"
      "private_map user_half v root"
      "\<forall>i \<in> loads phdr k [0..<unat (e_phnum h)]. \<forall>a. in_seg (phdr_at phdr i k) a \<longrightarrow>
         user_byte root a ((with_vm (\<lambda>_. v) k)\<lparr>dram := d\<rparr>) = Some (image_byte data (phdr_at phdr i k) a)"
      "\<forall>a. unat a < 2 ^ 47 \<longrightarrow> (\<forall>i \<in> loads phdr k [0..<unat (e_phnum h)]. \<not> in_seg (phdr_at phdr i k) a) \<longrightarrow>
         user_byte root a ((with_vm (\<lambda>_. v) k)\<lparr>dram := d\<rparr>) = user_byte root a k"
    unfolding elf_load_segments_def by (elim exE conjE)
  have "private_map user_half (kvm ((with_vm (\<lambda>_. v) k)\<lparr>dram := d\<rparr>)) root" using r(2) by simp
  with r(1,3,4) mx show ?thesis
    by (intro exI [of _ "fold ?f [0..<unat (e_phnum h)] 0"] exI [of _ p'] exI [of _ "(with_vm (\<lambda>_. v) k)\<lparr>dram := d\<rparr>"] conjI ballI)
       simp_all
qed

text \<open>A program header table with one segment: three bytes of the file at 0x400000.\<close>

definition phdr_example :: "u8 list" where
  "phdr_example = [1,0,0,0, 5,0,0,0, 0,0,0,0,0,0,0,0, 0,0,0x40,0,0,0,0,0, 0,0,0,0,0,0,0,0,
     3,0,0,0,0,0,0,0, 3,0,0,0,0,0,0,0, 0,0x10,0,0,0,0,0,0]"

definition elf_kernel :: kernel where
  "elf_kernel = heap_write 0x5000 phdr_example kernel_example"

definition ehdr_example :: Elf64_Ehdr where
  "ehdr_example = \<lparr>e_ident = [0x7F, 0x45, 0x4C, 0x46], e_type = 2, e_machine = 62, e_version = 1, e_entry = 0x400000,
     e_phoff = 64, e_shoff = 0, e_flags = 0, e_ehsize = 64, e_phentsize = 56, e_phnum = 1, e_shentsize = 0,
     e_shnum = 0, e_shstrndx = 0\<rparr>"

lemma elf_kernel_phdr:
  "phdr_at 0x5000 0 elf_kernel = \<lparr>p_type = 1, p_flags = 5, p_offset = 0, p_vaddr = 0x400000, p_paddr = 0,
     p_filesz = 3, p_memsz = 3, p_align = 0x1000\<rparr>"
proof -
  have "length phdr_example = 56" by (simp add: phdr_example_def)
  then have "load_bytes (heap_data (kheap elf_kernel)) 0x5000 56 = phdr_example"
    using load_paste [of phdr_example "0x5000" "heap_data (kheap kernel_example)"]
    by (simp add: elf_kernel_def heap_write_def)
  moreover have "phdr_of phdr_example = \<lparr>p_type = 1, p_flags = 5, p_offset = 0, p_vaddr = 0x400000, p_paddr = 0,
     p_filesz = 3, p_memsz = 3, p_align = 0x1000\<rparr>"
    by (simp add: phdr_of_def field_def phdr_example_def push_bit_eq_mult)
  ultimately show ?thesis by (simp add: phdr_at_def)
qed

lemma elf_kernel_vm: "kvm elf_kernel = vm_example" "frames_left elf_kernel = 62"
  by (simp_all add: elf_kernel_def heap_write_def kvm_def frames_left_def kernel_example_def kheap_example_def)
     (simp add: vm_example_def)

theorem elf_load_segments_ok_witness:
  "\<exists>mx p' k'. elf_load_segments (one_file [65] [7, 8, 9]) 0 0x10000 ehdr_example 0x5000 elf_kernel = Some (mx, p', k')
     \<and> user_byte 0x10000 0x400001 k' = Some 8 \<and> user_byte 0x10000 0x400003 k' = Some 0"
proof -
  let ?ph = "phdr_at 0x5000 0 elf_kernel"
  have ld: "loads 0x5000 elf_kernel [0..<unat (e_phnum ehdr_example)] = {0}"
    by (auto simp: loads_def ehdr_example_def elf_kernel_phdr PT_LOAD_def)
  have pre: "private_map user_half (kvm elf_kernel) 0x10000" "segs_apart 0x5000 elf_kernel [0..<unat (e_phnum ehdr_example)]"
    by (simp_all add: elf_kernel_vm vm_example_private segs_apart_def ld)
  have fr: "seg_frames 0x5000 elf_kernel [0..<unat (e_phnum ehdr_example)] \<le> frames_left elf_kernel"
    by (simp add: seg_frames_def ehdr_example_def elf_kernel_phdr elf_kernel_vm seg_pages_def)
  have ok: "\<forall>i \<in> loads 0x5000 elf_kernel [0..<unat (e_phnum ehdr_example)]. seg_ok [7, 8, 9] (phdr_at 0x5000 i elf_kernel)"
    by (simp add: ld elf_kernel_phdr seg_ok_def seg_pages_def)
  from elf_load_segments_ok [OF one_file_reads pre(1) ok pre(2) fr, of "[65]" 0] obtain mx p' k' where
    r: "elf_load_segments (one_file [65] [7, 8, 9]) 0 0x10000 ehdr_example 0x5000 elf_kernel = Some (mx, p', k')"
       "\<forall>a. in_seg ?ph a \<longrightarrow> user_byte 0x10000 a k' = Some (image_byte [7, 8, 9] ?ph a)"
    unfolding ld by blast
  have "in_seg ?ph 0x400001" "in_seg ?ph 0x400003" "image_byte [7, 8, 9] ?ph 0x400001 = 8" "image_byte [7, 8, 9] ?ph 0x400003 = 0"
    by (simp_all add: elf_kernel_phdr in_seg_def image_byte_def seg_byte_def seg_pages_def)
  with r show ?thesis by auto
qed

text \<open>
  A file that cannot be opened, that is shorter than an ELF header or that does not start with
  the ELF magic number is rejected with \<open>-1\<close>, before any kernel state changes.
\<close>

theorem load_elf_file_rejects:
  assumes "fst (f_open fs filename) \<noteq> FR_OK
     \<or> f_open fs filename = (FR_OK, at 0) \<and> reads_file fs at data
        \<and> (length data < 64 \<or> take 4 data \<noteq> [0x7F, 0x45, 0x4C, 0x46])"
  shows "load_elf_file fs filename pml4_virt out k = Some (-1, None, k)"
proof (cases "fst (f_open fs filename) = FR_OK")
  case True
  then have o: "f_open fs filename = (FR_OK, at 0)" and fs: "reads_file fs at data"
    and bad: "length data < 64 \<or> take 4 data \<noteq> [0x7F, 0x45, 0x4C, 0x46]" using assms by auto
  have "elf_read_header fs (at 0) = None"
  proof (cases "length data < 64")
    case True
    then show ?thesis by (simp add: elf_read_header_def reads_fileD [OF fs])
  next
    case False
    have "take 4 data = map ((!) data) [0..<4]" using False by (intro nth_equalityI) simp_all
    also have "[0..<4] = [0, 1, 2, 3 :: nat]" by (simp add: upt_rec)
    finally have "\<not> elf_verify_header (ehdr_of (take 64 data))"
      using bad False by (auto simp: elf_verify_header_def ehdr_of_def)
    then show ?thesis by (simp add: elf_read_header_def reads_fileD [OF fs])
  qed
  with o show ?thesis by (simp add: load_elf_file_def)
next
  case False
  then show ?thesis by (cases "f_open fs filename") (simp add: load_elf_file_def)
qed

theorem load_elf_file_rejects_witness:
  "load_elf_file (one_file [65] [0x7F, 0x45]) [65] 0x10000 True kernel_example = Some (-1, None, kernel_example)"
  by (rule load_elf_file_rejects [where at = "\<lambda>p. p" and data = "[0x7F, 0x45]"])
     (simp add: one_file_reads, simp add: one_file_def)

end
