(* ===== verification/Process.thy ===== *)
theory Process
  imports Elf "HOL-Library.Signed_Division"
begin

unbundle bit_operations_syntax

text \<open>
  Creating tasks, \<^verbatim>\<open>src/src/process/task.c\<close>, with the framebuffer geometry of
  \<^verbatim>\<open>src/src/drivers/graphics.c\<close>: kernel tasks, and user processes loaded from a file with their
  argument vector on the first page of the user stack and an interrupt frame on the kernel stack.
  The arguments are the list \<open>argv\<close> of \<open>argc\<close> strings without their terminating zero bytes.
\<close>

subsection \<open>The framebuffer\<close>

definition fb_width :: "kernel \<Rightarrow> u64" where "fb_width k = fwidth (framebuffer k)"
definition fb_height :: "kernel \<Rightarrow> u64" where "fb_height k = fheight (framebuffer k)"
definition fb_pitch :: "kernel \<Rightarrow> u64" where "fb_pitch k = fpitch (framebuffer k)"
definition fb_bpp :: "kernel \<Rightarrow> u64" where "fb_bpp k = fbpp (framebuffer k)"
definition fb_size :: "kernel \<Rightarrow> u64" where "fb_size k = fb_pitch k * fb_height k"

text \<open>\<^verbatim>\<open>graphics_init\<close>: without a framebuffer from the boot loader the kernel hangs.\<close>

definition graphics_init :: "limine_framebuffer list option \<Rightarrow> kernel \<Rightarrow> kernel option" where
  "graphics_init response k =
     (case response of None \<Rightarrow> None | Some [] \<Rightarrow> None | Some (fb # _) \<Rightarrow> Some (k\<lparr>framebuffer := fb\<rparr>))"

subsection \<open>Stacks\<close>

definition KERNEL_CS :: u64 where "KERNEL_CS = 0x08"
definition KERNEL_DS :: u64 where "KERNEL_DS = 0x10"
definition USER_STACK_SIZE :: u64 where "USER_STACK_SIZE = 16 * 1024 * 1024"
definition USER_STACK_TOP :: u64 where "USER_STACK_TOP = 0x700000000"
definition USER_FB_BASE :: u64 where "USER_FB_BASE = 0x800000000"

text \<open>\<^verbatim>\<open>sp--; *sp = x;\<close> for each value in turn.\<close>

fun push_all :: "u64 list \<Rightarrow> u64 \<Rightarrow> kernel \<Rightarrow> u64 \<times> kernel" where
  "push_all [] sp k = (sp, k)"
| "push_all (x # xs) sp k = push_all xs (sp - 8) (with_vm (\<lambda>v. v\<lparr>mem := (mem v)(sp - 8 := x)\<rparr>) k)"

text \<open>\<^verbatim>\<open>new->next = task_head->next; task_head->next = new;\<close>\<close>

definition link_task :: "u64 \<Rightarrow> kernel \<Rightarrow> kernel" where
  "link_task t k =
     (let k = upd_task t (\<lambda>u. u\<lparr>tnext := tnext (tasks k (task_head k))\<rparr>) k
      in upd_task (task_head k) (\<lambda>u. u\<lparr>tnext := t\<rparr>) k)"

definition create_kernel_task :: "u64 \<Rightarrow> kernel \<Rightarrow> kernel option" where
  "create_kernel_task entry_point k =
     do {
       (new_task, k) \<leftarrow> kmalloc_k sizeof_task k;
       (stack_bottom, k) \<leftarrow> kmalloc_k 4096 k;
       let stack_top = stack_bottom + 4096;
       let (sp, k) = push_all ([KERNEL_DS, stack_top, 0x202, KERNEL_CS, entry_point] @ replicate 15 0) stack_top k;
       let k = upd_task new_task (\<lambda>t. t\<lparr>trsp := sp, pid := next_pid k\<rparr>) k;
       let k = k\<lparr>next_pid := next_pid k + 1\<rparr>;
       (pml4, v) \<leftarrow> vmm_create_process_pml4 (kernel_pml4 (kheap k)) (kvm k);
       let k = upd_task new_task (\<lambda>t. t\<lparr>tcr3 := pml4\<rparr>) (with_vm (\<lambda>_. v) k);
       Some (link_task new_task k)
     }"

subsection \<open>The argument vector\<close>

text \<open>
  \<open>base\<close> is the first stack page in the direct map. Strings are copied downwards from the end of
  the page; the result is the new offset and the addresses in user space. The array
  \<^verbatim>\<open>user_argv_addrs\<close> has 32 entries: writing entry \<open>i \<ge> 32\<close> overruns it on the kernel stack, which has no result.
\<close>

fun copy_args :: "u64 \<Rightarrow> u8 list list \<Rightarrow> nat \<Rightarrow> int \<Rightarrow> bytes \<Rightarrow> (int \<times> u64 list \<times> bytes) option" where
  "copy_args base [] i ofs m = Some (ofs, [], m)"
| "copy_args base (s # ss) i ofs m =
     do {
       let len = int (length s) + 1;
       let ofs = ofs - len;
       let m = paste (base + word_of_int ofs) (s @ [0]) m;
       addr \<leftarrow> (if i < 32 then Some (USER_STACK_TOP - (4096 - word_of_int ofs)) else None);
       (ofs', addrs, m') \<leftarrow> copy_args base ss (i + 1) ofs m;
       Some (ofs', addr # addrs, m')
     }"

fun write_ptrs :: "u64 \<Rightarrow> u64 list \<Rightarrow> bytes \<Rightarrow> bytes" where
  "write_ptrs p [] m = m"
| "write_ptrs p (a # as) m = write_ptrs (p + 8) as (paste p (le_bytes 8 a) m)"

text \<open>The result is the user stack pointer, the user address of the pointer array and the memory.\<close>

definition setup_args :: "u64 \<Rightarrow> u8 list list \<Rightarrow> bytes \<Rightarrow> (u64 \<times> u64 \<times> bytes) option" where
  "setup_args stack_base argv m =
     do {
       (ofs, user_argv_addrs, m) \<leftarrow> copy_args stack_base argv 0 4096 m;
       let ofs = ofs - ofs smod 8;
       let ofs = ofs - (int (length argv) + 1) * 8;
       let argv_ptr_array = stack_base + word_of_int ofs;
       let m = write_ptrs argv_ptr_array (user_argv_addrs @ [0]) m;
       let ofs = ofs - ofs smod 16;
       let final_user_rsp = USER_STACK_TOP - (4096 - word_of_int ofs);
       let argv_user_addr = USER_STACK_TOP - (4096 - (argv_ptr_array - stack_base));
       Some (final_user_rsp, argv_user_addr, m)
     }"

subsection \<open>User processes\<close>

text \<open>
  The stack pages, from the top down; \<open>None\<close> in the first component is the return of \<open>-1\<close> for lack
  of memory. The first page is remembered for the arguments.
\<close>

fun stack_loop :: "nat \<Rightarrow> u64 \<Rightarrow> u64 \<Rightarrow> u64 \<Rightarrow> kernel \<Rightarrow> (u64 option \<times> kernel) option" where
  "stack_loop 0 i pml4_virt stack_page_virt k = Some (Some stack_page_virt, k)"
| "stack_loop (Suc n) i pml4_virt stack_page_virt k =
     do {
       (stack_page, k) \<leftarrow> alloc_page_k k;
       if stack_page = 0 then Some (None, k)
       else do {
         let stack_page_virt = (if i = 0 then stack_page else stack_page_virt);
         let page_vaddr = USER_STACK_TOP - (i + 1) * 4096;
         k \<leftarrow> map_page_k pml4_virt page_vaddr (get_phys_addr stack_page k) 7 k;
         stack_loop n (i + 1) pml4_virt stack_page_virt k
       }
     }"

fun fb_loop :: "nat \<Rightarrow> u64 \<Rightarrow> u64 \<Rightarrow> u64 \<Rightarrow> kernel \<Rightarrow> kernel option" where
  "fb_loop 0 ofs pml4_virt fb_phys k = Some k"
| "fb_loop (Suc n) ofs pml4_virt fb_phys k =
     do {
       k \<leftarrow> map_page_k pml4_virt (USER_FB_BASE + ofs) (fb_phys + ofs)
              (VMM_PRESENT OR VMM_WRITE OR VMM_USER OR VMM_PCD OR VMM_PWT) k;
       fb_loop n (ofs + PAGE_SIZE) pml4_virt fb_phys k
     }"

definition task_zero :: task where
  "task_zero = \<lparr>trsp = 0, tcr3 = 0, pid = 0, kernel_stack = 0, tnext = 0, is_wm = 0, program_break = 0,
     msgs = replicate 16 \<lparr>sender_pid = 0, mtype = 0, data1 = 0, data2 = 0, data3 = 0\<rparr>,
     msg_head = 0, msg_tail = 0, msg_count = 0, waiting_for_msg = 0\<rparr>"

definition user_frame :: "u64 \<Rightarrow> u64 \<Rightarrow> u64 \<Rightarrow> u64 \<Rightarrow> u64 list" where
  "user_frame final_user_rsp entry argv_user_addr argc =
     [0x23, final_user_rsp, 0x202, 0x1B, entry, 0, 0, 0, 0, argv_user_addr, argc, 0, 0, 0, 0, 0, 0, 0, 0, 0]"

text \<open>The new address space: the user half cleared and the kernel half copied.\<close>

definition new_pml4 :: "kernel \<Rightarrow> (u64 \<times> kernel) option" where
  "new_pml4 k =
     do {
       (pml4_virt, k) \<leftarrow> alloc_page_k k;
       if pml4_virt = 0 then None
       else Some (pml4_virt, with_vm (\<lambda>v. v\<lparr>mem := copy_kernel_half (kernel_pml4 (kheap k)) pml4_virt
                                             (clear_user_half pml4_virt (mem v))\<rparr>) k)
     }"

definition create_user_process_from_file ::
    "('f, 'd) fatfs \<Rightarrow> u8 list \<Rightarrow> u8 list list \<Rightarrow> bool \<Rightarrow> kernel \<Rightarrow> (u32 \<times> kernel) option" where
  "create_user_process_from_file fs filename argv wm k =
     do {
       (pml4_virt, k) \<leftarrow> new_pml4 k;
       let pml4_phys = get_phys_addr pml4_virt k;
       (load_err, out, k) \<leftarrow> load_elf_file fs filename pml4_virt True k;
       if load_err < 0 then Some (-1, k)
       else do {
         elf \<leftarrow> out;
         (stack_page, k) \<leftarrow> stack_loop (unat (USER_STACK_SIZE div 4096)) 0 pml4_virt 0 k;
         case stack_page of
           None \<Rightarrow> Some (-1, k)
         | Some stack_base \<Rightarrow>
             do {
               (final_user_rsp, argv_user_addr, d) \<leftarrow> setup_args stack_base argv (dram k);
               let k = k\<lparr>dram := d\<rparr>;
               (new_task, k) \<leftarrow> kmalloc_k sizeof_task k;
               let k = upd_task new_task (\<lambda>_. task_zero\<lparr>pid := next_pid k, tcr3 := pml4_phys\<rparr>) k;
               let k = k\<lparr>next_pid := next_pid k + 1\<rparr>;
               (stack, k) \<leftarrow> kmalloc_k (4096 * 4) k;
               let k = upd_task new_task (\<lambda>t. t\<lparr>kernel_stack := stack + 4096\<rparr>) k;
               if stack + 4096 = 0 then Some (-1, k)
               else do {
                 let k = upd_task new_task (\<lambda>t. t\<lparr>tnext := 0, program_break := elf_break elf\<rparr>) k;
                 k \<leftarrow> (if wm then
                          do {
                            k \<leftarrow> fb_loop ((unat (fb_size k) + 4095) div 4096) 0 pml4_virt
                                   (get_phys_addr (fb_address (framebuffer k)) k) k;
                            Some (upd_task new_task (\<lambda>t. t\<lparr>is_wm := 1\<rparr>) k)
                          }
                        else Some k);
                 let (sp, k) = push_all (user_frame final_user_rsp (elf_entry elf) argv_user_addr
                                   (word_of_nat (length argv))) (kernel_stack (tasks k new_task)) k;
                 let k = link_task new_task (upd_task new_task (\<lambda>t. t\<lparr>trsp := sp\<rparr>) k);
                 Some (ucast (pid (tasks k new_task)), k)
               }
             }
       }
     }"

definition sys_exec :: "('f, 'd) fatfs \<Rightarrow> u8 list \<Rightarrow> u8 list list \<Rightarrow> kernel \<Rightarrow> (u32 \<times> kernel) option" where
  "sys_exec fs path argv k = create_user_process_from_file fs path argv False k"

text \<open>\<^verbatim>\<open>sys_exit\<close> leaves through \<^verbatim>\<open>task_exit\<close>, which switches to the next task.\<close>

definition sys_exit :: "u32 \<Rightarrow> kernel \<Rightarrow> (u64 \<times> kernel) option" where
  "sys_exit code k = task_exit k"

subsection \<open>The argument block\<close>

definition args_size :: "u8 list list \<Rightarrow> nat" where
  "args_size argv = sum_list (map (\<lambda>s. length s + 1) argv)"

lemma args_size_simps [simp]: "args_size [] = 0" "args_size (s # ss) = length s + 1 + args_size ss"
  by (simp_all add: args_size_def)

lemma unat_minus_nat:
  assumes "n < 2 ^ 64"
  shows "unat (y - word_of_nat n :: u64) = (if n \<le> unat y then unat y - n else unat y + 2 ^ 64 - n)"
  using assms by (subst unat_sub_if') (simp add: unat_of_nat_small)

lemma paste_append:
  assumes "length bs + length cs < 2 ^ 64"
  shows "paste d bs (paste (d + word_of_nat (length bs)) cs m) = paste d (bs @ cs) m"
proof
  fix x
  have e: "x - (d + word_of_nat (length bs)) = (x - d) - word_of_nat (length bs)" by simp
  have l: "length bs < 2 ^ 64" using assms by simp
  show "paste d bs (paste (d + word_of_nat (length bs)) cs m) x = paste d (bs @ cs) m x"
    using assms unfolding paste_def e unat_minus_nat [OF l] by (auto simp: nth_append)
qed

lemma paste_commute:
  assumes "length bs \<le> n" "n + length cs \<le> 2 ^ 64" "n < 2 ^ 64"
  shows "paste (d + word_of_nat n) cs (paste d bs m) = paste d bs (paste (d + word_of_nat n) cs m)"
proof
  fix x
  have e: "x - (d + word_of_nat n) = (x - d) - word_of_nat n" by simp
  show "paste (d + word_of_nat n) cs (paste d bs m) x = paste d bs (paste (d + word_of_nat n) cs m) x"
    using assms(1,2) unfolding paste_def e unat_minus_nat [OF assms(3)] by auto
qed

text \<open>All strings together are one block that ends where the page ends, the first string last.\<close>

definition args_block :: "u8 list list \<Rightarrow> u8 list" where
  "args_block argv = concat (map (\<lambda>s. s @ [0]) (rev argv))"

lemma length_args_block [simp]: "length (args_block argv) = args_size argv"
  by (induction argv) (simp_all add: args_block_def)

lemma args_block_Cons: "args_block (s # ss) = args_block ss @ s @ [0]"
  by (simp add: args_block_def)

fun arg_offsets :: "nat \<Rightarrow> u8 list list \<Rightarrow> nat list" where
  "arg_offsets n [] = []"
| "arg_offsets n (s # ss) = (n - (length s + 1)) # arg_offsets (n - (length s + 1)) ss"

lemma copy_args_overrun: "i \<le> 32 \<Longrightarrow> 32 < i + length argv \<Longrightarrow> copy_args base argv i ofs m = None"
  by (induction argv arbitrary: i ofs m) (auto simp: Let_def)

lemma copy_args_eq:
  assumes "args_size argv \<le> n" "n \<le> 4096" "i + length argv \<le> 32"
  shows "copy_args base argv i (int n) m = Some (int (n - args_size argv),
     map (\<lambda>x. USER_STACK_TOP - (4096 - word_of_nat x)) (arg_offsets n argv),
     paste (base + word_of_nat (n - args_size argv)) (args_block argv) m)"
  using assms
proof (induction argv arbitrary: n m i)
  case Nil
  then show ?case by (simp add: args_block_def)
next
  case (Cons s ss)
  let ?n = "n - (length s + 1)"
  have n: "args_size ss \<le> ?n" "?n \<le> 4096" "i + 1 + length ss \<le> 32" "i < 32" "int n - (int (length s) + 1) = int ?n" using Cons.prems by simp_all
  have "base + word_of_nat (?n - args_size ss) + word_of_nat (length (args_block ss)) = base + word_of_nat ?n"
    unfolding add.assoc length_args_block of_nat_add [symmetric] using n(1) by (simp only: le_add_diff_inverse2)
  moreover have sz: "?n - args_size ss = n - args_size (s # ss)" by simp
  moreover have "length (args_block ss) + length (s @ [0]) < 2 ^ 64" using Cons.prems by simp
  ultimately have blk: "paste (base + word_of_nat (n - args_size (s # ss))) (args_block ss) (paste (base + word_of_nat ?n) (s @ [0]) m)
      = paste (base + word_of_nat (n - args_size (s # ss))) (args_block (s # ss)) m"
    using paste_append [of "args_block ss" "s @ [0]" "base + word_of_nat (?n - args_size ss)" m]
    by (simp only: args_block_Cons)
  show ?case
    unfolding copy_args.simps Let_def n(5) of_int_of_nat_eq Cons.IH [OF n(1-3)] sz blk arg_offsets.simps list.map
    using n(4) by simp
qed

lemma write_ptrs_eq:
  "8 * length as < 2 ^ 64 \<Longrightarrow> write_ptrs p as m = paste p (concat (map (le_bytes 8) as)) m"
proof (induction as arbitrary: p m)
  case (Cons a as)
  have l: "length (concat (map (le_bytes 8) as)) = 8 * length as" by (induction as) simp_all
  have "8 + length (concat (map (le_bytes 8) as)) \<le> 2 ^ 64" using Cons.prems l by simp
  from paste_commute [OF _ this, of "le_bytes 8 a" p m]
  have "paste (p + 8) (concat (map (le_bytes 8) as)) (paste p (le_bytes 8 a) m)
      = paste p (le_bytes 8 a) (paste (p + 8) (concat (map (le_bytes 8) as)) m)" by simp
  then show ?case
    using Cons paste_append [of "le_bytes 8 a" "concat (map (le_bytes 8) as)" p m] by (simp add: l)
qed simp

lemma arg_offset_block:
  assumes "args_size argv \<le> n" "i < length argv"
  shows "n - args_size argv \<le> arg_offsets n argv ! i" and "arg_offsets n argv ! i + length (argv ! i) + 1 \<le> n"
    and "x \<le> length (argv ! i) \<Longrightarrow>
      args_block argv ! (arg_offsets n argv ! i - (n - args_size argv) + x) = (argv ! i @ [0]) ! x"
  using assms
proof (induction argv arbitrary: n i)
  case (Cons s ss)
  case 1
  let ?n = "n - (length s + 1)"
  from 1 have "args_size ss \<le> ?n" by simp
  with 1 show ?case using Cons.IH(1) [of ?n "i - 1"] by (cases i) auto
next
  case (Cons s ss)
  case 2
  let ?n = "n - (length s + 1)"
  from 2 have "args_size ss \<le> ?n" by simp
  with 2 show ?case using Cons.IH(2) [of ?n "i - 1"] by (cases i) auto
next
  case (Cons s ss)
  case 3
  let ?n = "n - (length s + 1)"
  show ?case
  proof (cases i)
    case 0
    then have "arg_offsets n (s # ss) ! i - (n - args_size (s # ss)) = args_size ss" using 3 by simp
    then show ?thesis using 3 0 by (simp add: args_block_Cons nth_append)
  next
    case (Suc j)
    have p: "args_size ss \<le> ?n" "j < length ss" using 3 Suc by simp_all
    have e: "?n - args_size ss = n - args_size (s # ss)" by simp
    have "arg_offsets ?n ss ! j - (?n - args_size ss) + x < args_size ss"
      using Cons.IH(1,2) [OF p] 3(1) Suc p(1) by simp
    then show ?thesis using Cons.IH(3) [OF _ p] 3(1) Suc e by (simp add: args_block_Cons nth_append)
  qed
qed simp_all

lemma length_arg_offsets [simp]: "length (arg_offsets n argv) = length argv"
  by (induction argv arbitrary: n) simp_all

lemma nth_concat_le_bytes:
  "i < length as \<Longrightarrow> j < 8 \<Longrightarrow> concat (map (le_bytes 8) as) ! (8 * i + j) = le_bytes 8 (as ! i) ! j"
proof (induction as arbitrary: i)
  case (Cons a as)
  show ?case
  proof (cases i)
    case 0
    with Cons.prems show ?thesis by (simp add: nth_append)
  next
    case (Suc i')
    have "8 * Suc i' + j = 8 + (8 * i' + j)" by simp
    then show ?thesis using Cons.IH [of i'] Cons.prems Suc by (simp add: nth_append del: mult_Suc_right)
  qed
qed simp

lemma length_concat_le_bytes [simp]: "length (concat (map (le_bytes 8) as)) = 8 * length as"
  by (induction as) simp_all

lemma cstr_of_nth:
  "0 \<notin> set xs \<Longrightarrow> (\<And>i. i \<le> length xs \<Longrightarrow> m (s + word_of_nat i) = (xs @ [0]) ! i) \<Longrightarrow> cstr m s xs"
proof (induction xs arbitrary: s)
  case Nil
  from Nil.prems(2) [of 0] show ?case by simp
next
  case (Cons x xs)
  have "m (s + 1 + word_of_nat i) = (xs @ [0]) ! i" if "i \<le> length xs" for i
    using Cons.prems(2) [of "Suc i"] that by (simp add: algebra_simps)
  with Cons.IH [of "s + 1"] Cons.prems(1) Cons.prems(2) [of 0] show ?case by simp
qed

lemma smod_nat: "int n smod int m = int (n mod m)"
  by (cases n) (simp_all add: signed_modulo_int_def zmod_int)

text \<open>The kernel's view of an address in the first page of the user stack.\<close>

definition stack_view :: "u64 \<Rightarrow> u64 \<Rightarrow> u64" where
  "stack_view base u = base + (u - (USER_STACK_TOP - 4096))"

lemma stack_view_offset [simp]: "stack_view base (USER_STACK_TOP - (4096 - x)) = base + x"
  "stack_view base (USER_STACK_TOP - (4096 - x) + y) = base + x + y"
  by (simp_all add: stack_view_def)

definition args_top :: "u8 list list \<Rightarrow> nat" where
  "args_top argv = (let n = 4096 - args_size argv in n - n mod 8 - 8 * (length argv + 1))"

definition args_ptrs :: "u8 list list \<Rightarrow> u64 list" where
  "args_ptrs argv = map (\<lambda>x. USER_STACK_TOP - (4096 - word_of_nat x)) (arg_offsets 4096 argv) @ [0]"

lemma setup_args_eq:
  assumes fit: "args_size argv + 8 * (length argv + 1) + 7 \<le> 4096" and "length argv \<le> 32"
  shows "setup_args base argv m = Some
    (USER_STACK_TOP - (4096 - word_of_nat (args_top argv - args_top argv mod 16)),
     USER_STACK_TOP - (4096 - word_of_nat (args_top argv)),
     paste (base + word_of_nat (args_top argv)) (concat (map (le_bytes 8) (args_ptrs argv)))
       (paste (base + word_of_nat (4096 - args_size argv)) (args_block argv) m))"
proof -
  let ?n = "4096 - args_size argv"
  have c: "copy_args base argv 0 4096 m = Some (int ?n, map (\<lambda>x. USER_STACK_TOP - (4096 - word_of_nat x)) (arg_offsets 4096 argv),
      paste (base + word_of_nat ?n) (args_block argv) m)"
    using copy_args_eq [of argv 4096 0 base m] fit assms(2) by simp
  have l: "8 * (length argv + 1) \<le> ?n - ?n mod 8" using fit mod_less_divisor [of 8 ?n] by linarith
  have a8: "int ?n - int ?n smod 8 = int (?n - ?n mod 8)" using smod_nat [of ?n 8] by (simp add: of_nat_diff)
  have a: "int (?n - ?n mod 8) - (int (length argv) + 1) * 8 = int (args_top argv)"
    using l by (simp add: args_top_def Let_def of_nat_diff)
  have a16: "int (args_top argv) - int (args_top argv) smod 16 = int (args_top argv - args_top argv mod 16)"
    using smod_nat [of "args_top argv" 16] by (simp add: of_nat_diff)
  have "8 * length (args_ptrs argv) < 2 ^ 64" using fit by (simp add: args_ptrs_def)
  from write_ptrs_eq [OF this] show ?thesis
    unfolding setup_args_def c prod.case bind.bind_lunit Let_def a8 a a16 of_int_of_nat_eq args_ptrs_def [symmetric] by simp
qed

text \<open>What the page under the stack holds once the argument block and the pointers are written.\<close>

definition args_written :: "u8 list list \<Rightarrow> u64 \<Rightarrow> bytes \<Rightarrow> bytes" where
  "args_written argv base m = paste (base + word_of_nat (args_top argv)) (concat (map (le_bytes 8) (args_ptrs argv)))
     (paste (base + word_of_nat (4096 - args_size argv)) (args_block argv) m)"

lemma args_written_sizes:
  assumes "args_size argv + 8 * (length argv + 1) + 7 \<le> 4096"
  shows "length (args_ptrs argv) = length argv + 1" "args_size argv \<le> 4096" "4096 - args_size argv + args_size argv = 4096"
    "args_top argv + 8 * (length argv + 1) \<le> 4096 - args_size argv" "args_top argv \<le> 4096"
  using assms by (simp_all add: args_ptrs_def args_top_def Let_def)

lemma args_written_ok:
  assumes "args_size argv + 8 * (length argv + 1) + 7 \<le> 4096" and "\<forall>s \<in> set argv. 0 \<notin> set s" and av: "av = USER_STACK_TOP - (4096 - word_of_nat (args_top argv))"
  shows "i \<le> length argv \<Longrightarrow> load_bytes (args_written argv base m) (stack_view base (av + 8 * word_of_nat i)) 8 = le_bytes 8 (args_ptrs argv ! i)"
    and "i < length argv \<Longrightarrow> cstr (args_written argv base m) (stack_view base (args_ptrs argv ! i)) (argv ! i)"
proof -
  define n t where "n = 4096 - args_size argv" and "t = args_top argv"
  let ?m2 = "args_written argv base m"
  note lp = args_written_sizes(1) [OF assms(1)]
  note sz = args_written_sizes(2,3) [OF assms(1), folded n_def]
  note top = args_written_sizes(4,5) [OF assms(1), folded n_def t_def]
  note m2 = args_written_def [of argv base m, folded n_def t_def]
  have view: "unat (base + word_of_nat x - (base + word_of_nat y)) = (if y \<le> x then x - y else x + 2 ^ 64 - y)"
    if "x \<le> 4096" "y \<le> 4096" for x y
    using that unat_minus_nat [of y "word_of_nat x"] by (simp add: unat_of_nat_small)
  have hi: "?m2 (base + word_of_nat x) = args_block argv ! (x - n)" if "n \<le> x" "x < 4096" for x
  proof -
    have v: "unat (base + word_of_nat x - (base + word_of_nat t)) = x - t" "unat (base + word_of_nat x - (base + word_of_nat n)) = x - n"
      using view [of x t] view [of x n] that top sz by simp_all
    have "\<not> x - t < 8 * (length argv + 1)" "x - n < args_size argv" using that top sz by linarith+
    then show ?thesis unfolding m2 paste_def v by (simp add: lp)
  qed
  have lo: "?m2 (base + word_of_nat (t + x)) = concat (map (le_bytes 8) (args_ptrs argv)) ! x" if "x < 8 * (length argv + 1)" for x
  proof -
    have "t + x \<le> 4096" using that top sz by linarith
    then have v: "unat (base + word_of_nat (t + x) - (base + word_of_nat t)) = x" using view [of "t + x" t] top(2) by simp
    show ?thesis unfolding m2 paste_def v using that by (simp add: lp)
  qed
  have ptr: "load_bytes ?m2 (stack_view base (av + 8 * word_of_nat i)) 8 = le_bytes 8 (args_ptrs argv ! i)" if "i \<le> length argv" for i
  proof (rule nth_equalityI)
    fix j assume j: "j < length (load_bytes ?m2 (stack_view base (av + 8 * word_of_nat i)) 8)"
    then have "8 * i + j < 8 * (length argv + 1)" using that by simp
    moreover have e: "stack_view base (av + 8 * word_of_nat i) + word_of_nat j = base + word_of_nat (t + (8 * i + j))"
      unfolding av [folded t_def] stack_view_offset by simp
    ultimately show "load_bytes ?m2 (stack_view base (av + 8 * word_of_nat i)) 8 ! j = le_bytes 8 (args_ptrs argv ! i) ! j"
      using lo [of "8 * i + j"] j that nth_concat_le_bytes [of i "args_ptrs argv" j] lp by (simp only: nth_load_bytes length_load_bytes e)
  qed simp
  have str: "cstr ?m2 (stack_view base (args_ptrs argv ! i)) (argv ! i)" if i: "i < length argv" for i
  proof -
    let ?x = "arg_offsets 4096 argv ! i"
    note B = arg_offset_block [OF sz(1) i, folded n_def]
    have "?m2 (base + word_of_nat ?x + word_of_nat j) = (argv ! i @ [0]) ! j" if "j \<le> length (argv ! i)" for j
    proof -
      have "?x + j - n = ?x - n + j" using B(1) by simp
      then show ?thesis using hi [of "?x + j"] B(1,2) B(3) [OF that] that by (simp add: algebra_simps)
    qed
    moreover have "stack_view base (args_ptrs argv ! i) = base + word_of_nat ?x" using i by (simp add: args_ptrs_def nth_append)
    ultimately show ?thesis using assms(2) i by (intro cstr_of_nth) auto
  qed
  from ptr show "i \<le> length argv \<Longrightarrow> load_bytes ?m2 (stack_view base (av + 8 * word_of_nat i)) 8 = le_bytes 8 (args_ptrs argv ! i)" .
  from str show "i < length argv \<Longrightarrow> cstr ?m2 (stack_view base (args_ptrs argv ! i)) (argv ! i)" .
qed

lemma args_written_other:
  assumes "args_size argv + 8 * (length argv + 1) + 7 \<le> 4096" and "4096 \<le> unat (a - base)"
  shows "args_written argv base m a = m a"
proof -
  define n t where "n = 4096 - args_size argv" and "t = args_top argv"
  note lp = args_written_sizes(1) [OF assms(1)]
  note sz = args_written_sizes(2,3) [OF assms(1), folded n_def]
  note top = args_written_sizes(4,5) [OF assms(1), folded n_def t_def]
  have v: "unat (a - (base + word_of_nat x)) = unat (a - base) - x" if "x \<le> 4096" for x
    using that assms(2) unat_minus_nat [of x "a - base"] by (simp add: diff_diff_eq [symmetric])
  have vt: "unat (a - (base + word_of_nat t)) = unat (a - base) - t" "unat (a - (base + word_of_nat n)) = unat (a - base) - n"
    using v [of t] v [of n] top sz by simp_all
  have "\<not> unat (a - base) - t < 8 * (length argv + 1)" "\<not> unat (a - base) - n < args_size argv"
    using assms(2) top sz by linarith+
  then show ?thesis unfolding args_written_def n_def [symmetric] t_def [symmetric] paste_def vt by (simp add: lp)
qed

subsection \<open>Properties\<close>

text \<open>
  C21. The argument vector survives the trip: for at most 32 strings that fit the first stack page together with
  the pointer array and the padding, the new program finds at \<open>argv\<close> a pointer to each of its arguments, in order
  and terminated by \<^verbatim>\<open>NULL\<close>, each argument is the string that was passed, the stack pointer is
  16-byte aligned and below all of it, and nothing outside the page is written. With more than 32
  arguments there is no result: the kernel overruns \<^verbatim>\<open>user_argv_addrs\<close> on its own stack.
\<close>

theorem setup_args_ok:
  assumes "args_size argv + 8 * (length argv + 1) + 7 \<le> 4096" and "\<forall>s \<in> set argv. 0 \<notin> set s"
  shows "if length argv \<le> 32
     then \<exists>rsp av m'. setup_args base argv m = Some (rsp, av, m')
       \<and> unat rsp mod 16 = 0 \<and> unat USER_STACK_TOP - 4096 \<le> unat rsp \<and> unat rsp \<le> unat av
       \<and> (\<forall>i < length argv. \<exists>p. load_bytes m' (stack_view base (av + 8 * word_of_nat i)) 8 = le_bytes 8 p
            \<and> cstr m' (stack_view base p) (argv ! i))
       \<and> load_bytes m' (stack_view base (av + 8 * word_of_nat (length argv))) 8 = le_bytes 8 0
       \<and> (\<forall>a. 4096 \<le> unat (a - base) \<longrightarrow> m' a = m a)
     else setup_args base argv m = None"
proof (cases "length argv \<le> 32")
  case False
  then show ?thesis using copy_args_overrun [of 0 argv base 4096 m] by (simp add: setup_args_def)
next
  case few: True
  define t where "t = args_top argv"
  let ?av = "USER_STACK_TOP - (4096 - word_of_nat t)" and ?rsp = "USER_STACK_TOP - (4096 - word_of_nat (t - t mod 16))"
  let ?m = "args_written argv base m"
  note top = args_written_sizes(5) [OF assms(1), folded t_def]
  note w = args_written_ok [OF assms refl, of _ base m, folded t_def]
  have u: "unat (USER_STACK_TOP - (4096 - word_of_nat x)) = 0x6FFFFF000 + x" if "x \<le> 4096" for x
  proof -
    have "USER_STACK_TOP - (4096 - word_of_nat x) = 0x6FFFFF000 + word_of_nat x" by (simp add: USER_STACK_TOP_def)
    then show ?thesis using that by (simp only: unat_word_ariths unat_of_nat_small) (simp add: unat_of_nat_small)
  qed
  have al: "unat ?rsp = 0x6FFFFF000 + (t - t mod 16)" "unat ?av = 0x6FFFFF000 + t"
    using u [of t] u [of "t - t mod 16"] top by simp_all
  have "t - t mod 16 = 16 * (t div 16)" by (simp add: minus_mod_eq_mult_div)
  then have "unat ?rsp mod 16 = (0x6FFFFF000 + 16 * (t div 16)) mod 16" using al(1) by (simp only:)
  also have "\<dots> = 0" by simp
  finally have "unat ?rsp mod 16 = 0" .
  moreover have "unat USER_STACK_TOP - 4096 \<le> unat ?rsp" "unat ?rsp \<le> unat ?av"
    unfolding al by (simp_all add: USER_STACK_TOP_def)
  moreover have "args_ptrs argv ! length argv = 0" by (simp add: args_ptrs_def nth_append)
  ultimately have "\<exists>rsp av m'. setup_args base argv m = Some (rsp, av, m')
       \<and> unat rsp mod 16 = 0 \<and> unat USER_STACK_TOP - 4096 \<le> unat rsp \<and> unat rsp \<le> unat av
       \<and> (\<forall>i < length argv. \<exists>p. load_bytes m' (stack_view base (av + 8 * word_of_nat i)) 8 = le_bytes 8 p
            \<and> cstr m' (stack_view base p) (argv ! i))
       \<and> load_bytes m' (stack_view base (av + 8 * word_of_nat (length argv))) 8 = le_bytes 8 0
       \<and> (\<forall>a. 4096 \<le> unat (a - base) \<longrightarrow> m' a = m a)"
    using setup_args_eq [OF assms(1) few, folded args_written_def t_def, of base m] w w(1) [of "length argv"] args_written_other [OF assms(1)]
    by (intro exI [of _ ?rsp] exI [of _ ?av] exI [of _ ?m]) auto
  with few show ?thesis by (simp only: if_True)
qed

theorem setup_args_ok_witness:
  "\<exists>rsp av m'. setup_args 0x20000 [[108, 115], [47]] (\<lambda>_. 0) = Some (rsp, av, m') \<and> unat rsp mod 16 = 0
     \<and> (\<exists>p. load_bytes m' (stack_view 0x20000 (av + 8 * word_of_nat 1)) 8 = le_bytes 8 p \<and> cstr m' (stack_view 0x20000 p) [47])
     \<and> setup_args 0x20000 (replicate 33 [47]) (\<lambda>_. 0) = None"
proof -
  have "args_size [[108, 115 :: u8], [47]] + 8 * (length [[108, 115 :: u8], [47]] + 1) + 7 \<le> 4096"
    "\<forall>s \<in> set [[108, 115 :: u8], [47]]. 0 \<notin> set s" by simp_all
  from setup_args_ok [OF this, of "0x20000" "\<lambda>_. 0"] have "\<exists>rsp av m'. setup_args 0x20000 [[108, 115], [47]] (\<lambda>_. 0) = Some (rsp, av, m')
      \<and> unat rsp mod 16 = 0 \<and> (\<forall>i < length [[108, 115 :: u8], [47]]. \<exists>p. load_bytes m' (stack_view 0x20000 (av + 8 * word_of_nat i)) 8 = le_bytes 8 p
          \<and> cstr m' (stack_view 0x20000 p) ([[108, 115], [47]] ! i))" by (simp only: list.size if_True) auto
  then obtain rsp av m' where
    r: "setup_args 0x20000 [[108, 115], [47]] (\<lambda>_. 0) = Some (rsp, av, m')" "unat rsp mod 16 = 0"
      "\<forall>i < length [[108, 115 :: u8], [47]]. \<exists>p. load_bytes m' (stack_view 0x20000 (av + 8 * word_of_nat i)) 8 = le_bytes 8 p
          \<and> cstr m' (stack_view 0x20000 p) ([[108, 115], [47]] ! i)" by (elim exE conjE)
  have "args_size (replicate 33 [47 :: u8]) + 8 * (length (replicate 33 [47 :: u8]) + 1) + 7 \<le> 4096"
    "\<forall>s \<in> set (replicate 33 [47 :: u8]). 0 \<notin> set s" by (simp_all add: args_size_def sum_list_replicate)
  from setup_args_ok [OF this, of "0x20000" "\<lambda>_. 0"] have "setup_args 0x20000 (replicate 33 [47]) (\<lambda>_. 0) = None" by simp
  with r(3) [rule_format, of 1] r(1,2) show ?thesis by (simp del: of_nat_1)
qed

text \<open>
  A new task joins the ring right after the head: the ring of all other tasks keeps its order,
  so the scheduler reaches the new task in its next round.
\<close>

theorem link_task_ring:
  assumes "task_ring k (h # ts)" and "t \<noteq> 0" and "t \<notin> set (h # ts)"
  shows "task_ring (link_task t k) (h # t # ts) \<and> current_task (link_task t k) = current_task k
     \<and> (\<forall>u. u \<noteq> t \<longrightarrow> u \<noteq> h \<longrightarrow> tasks (link_task t k) u = tasks k u)"
proof -
  have hd: "task_head k = h" and ne: "h \<noteq> t" "t \<noteq> h" using assms by (auto simp: task_ring_def)
  have lk: "links (\<lambda>u. tnext (tasks k u)) (h # ts) h" "h \<notin> set ts" using assms(1) by (auto simp: task_ring_def)
  have "links (\<lambda>u. tnext (tasks (link_task t k) u)) ts h = links (\<lambda>u. tnext (tasks k u)) ts h"
    using assms(3) lk(2) ne by (intro links_cong) (auto simp: link_task_def hd Let_def)
  moreover have "tnext (tasks (link_task t k) h) = t" "tnext (tasks (link_task t k) t) = tnext (tasks k h)"
    using ne by (simp_all add: link_task_def hd Let_def)
  ultimately have "links (\<lambda>u. tnext (tasks (link_task t k) u)) (h # t # ts) h"
    using lk(1) by simp
  moreover have "task_head (link_task t k) = h" "current_task (link_task t k) = current_task k"
    "\<forall>u. u \<noteq> t \<longrightarrow> u \<noteq> h \<longrightarrow> tasks (link_task t k) u = tasks k u"
    by (simp_all add: link_task_def hd Let_def)
  ultimately show ?thesis using assms ne unfolding task_ring_def by auto
qed

theorem link_task_ring_witness: "task_ring (link_task 0x300 kernel_example) [0x100, 0x300, 0x200]"
  using link_task_ring [OF kernel_example_ring, of "0x300"] by simp










end
