(* ===== verification/Serial.thy ===== *)
theory Serial
  imports KString
begin

unbundle bit_operations_syntax

text \<open>
  Port I/O and the drivers that only talk to ports: \<^verbatim>\<open>src/src/utility/io.c\<close>, the serial console
  \<^verbatim>\<open>src/src/drivers/com1.c\<close> with its \<^verbatim>\<open>printf\<close>, the interrupt controller \<^verbatim>\<open>src/src/utility/pic.c\<close> and
  the timer set-up of \<^verbatim>\<open>src/src/drivers/pit.c\<close>. The devices behind the ports are the parameter \<open>D\<close>, a
  record of the four port instructions over a device state \<open>'d\<close>. Polling loops are partial functions:
  a device that never becomes ready makes them run forever.
\<close>

record 'd ports =
  p_inb :: "u16 \<Rightarrow> 'd \<Rightarrow> u8 \<times> 'd"
  p_outb :: "u16 \<Rightarrow> u8 \<Rightarrow> 'd \<Rightarrow> 'd"
  p_inw :: "u16 \<Rightarrow> 'd \<Rightarrow> u16 \<times> 'd"
  p_outw :: "u16 \<Rightarrow> u16 \<Rightarrow> 'd \<Rightarrow> 'd"

definition inb :: "'d ports \<Rightarrow> u16 \<Rightarrow> 'd \<Rightarrow> u8 \<times> 'd" where "inb D port d = p_inb D port d"
definition outb :: "'d ports \<Rightarrow> u16 \<Rightarrow> u8 \<Rightarrow> 'd \<Rightarrow> 'd" where "outb D port value d = p_outb D port value d"
definition inw :: "'d ports \<Rightarrow> u16 \<Rightarrow> 'd \<Rightarrow> u16 \<times> 'd" where "inw D port d = p_inw D port d"
definition outw :: "'d ports \<Rightarrow> u16 \<Rightarrow> u16 \<Rightarrow> 'd \<Rightarrow> 'd" where "outw D port value d = p_outw D port value d"

subsection \<open>The console\<close>

definition SERIAL_COM1_BASE :: u16 where "SERIAL_COM1_BASE = 0x3F8"

partial_function (option) serial_write_char :: "'d ports \<Rightarrow> u8 \<Rightarrow> 'd \<Rightarrow> 'd option" where
  "serial_write_char D c d =
     (let (status, d) = inb D (SERIAL_COM1_BASE + 5) d
      in if status AND 0x20 = 0 then serial_write_char D c d else Some (outb D SERIAL_COM1_BASE c d))"

fun serial_write_chars :: "'d ports \<Rightarrow> u8 list \<Rightarrow> 'd \<Rightarrow> 'd option" where
  "serial_write_chars D [] d = Some d"
| "serial_write_chars D (c # cs) d = do { d \<leftarrow> serial_write_char D c d; serial_write_chars D cs d }"

text \<open>
  The digits of a number, least significant first, as they are put into \<^verbatim>\<open>buffer\<close>. The base is 10 or
  16 at every call; the guard on it only makes the recursion well founded.
\<close>

definition digit_char :: "u64 \<Rightarrow> u8" where
  "digit_char digit = (if digit < 10 then ucast (0x30 + digit) else ucast (0x61 + digit - 10))"

function uint_digits :: "u64 \<Rightarrow> u64 \<Rightarrow> u8 list" where
  "uint_digits value base =
     (if value = 0 \<or> base < 2 then [] else digit_char (value mod base) # uint_digits (value div base) base)"
  by pat_completeness auto
termination
proof (relation "measure (\<lambda>(v, b). unat v)")
  fix v b :: u64
  assume a: "\<not> (v = 0 \<or> b < 2)"
  then have "0 < unat v" "1 < unat b" by (simp_all add: word_less_nat_alt unat_gt_0)
  then have "unat v div unat b < unat v" by (rule div_less_dividend [rotated])
  then show "((v div b, b), v, b) \<in> measure (\<lambda>(v, b). unat v)" by (simp add: unat_div)
qed simp

declare uint_digits.simps [simp del]

definition serial_write_uint :: "'d ports \<Rightarrow> u64 \<Rightarrow> u64 \<Rightarrow> 'd \<Rightarrow> 'd option" where
  "serial_write_uint D value base d =
     (if value = 0 then serial_write_char D 0x30 d
      else serial_write_chars D (rev (uint_digits value base)) d)"

definition serial_write_int :: "'d ports \<Rightarrow> u64 \<Rightarrow> 'd \<Rightarrow> 'd option" where
  "serial_write_int D value d =
     (if sint value < 0 then do { d \<leftarrow> serial_write_char D 0x2D d; serial_write_uint D (- value) 10 d }
      else serial_write_uint D value 10 d)"

fun serial_write_string :: "'d ports \<Rightarrow> u8 list \<Rightarrow> 'd \<Rightarrow> 'd option" where
  "serial_write_string D [] d = Some d"
| "serial_write_string D (c # cs) d =
     do {
       d \<leftarrow> (if c = 0x0A then serial_write_char D 0x0D d else Some d);
       d \<leftarrow> serial_write_char D c d;
       serial_write_string D cs d
     }"

text \<open>
  The variable arguments: a string (or \<^verbatim>\<open>NULL\<close>) or a 32-bit integer. An argument of the wrong kind,
  a missing one, and a \<^verbatim>\<open>%\<close> at the very end (the code then reads past the terminator) are undefined
  in C and have no result here.
\<close>

datatype va_arg = VStr "u8 list option" | VInt u32

definition literal :: "string \<Rightarrow> u8 list" where
  "literal s = map (\<lambda>c. word_of_nat (of_char c)) s"

definition null_string :: "u8 list" where
  "null_string = literal ''(null)''"

fun serial_printf :: "'d ports \<Rightarrow> u8 list \<Rightarrow> va_arg list \<Rightarrow> 'd \<Rightarrow> 'd option" where
  "serial_printf D [] args d = Some d"
| "serial_printf D (c # fmt) args d =
     (if c \<noteq> 0x25 then do { d \<leftarrow> serial_write_char D c d; serial_printf D fmt args d }
      else case fmt of
        [] \<Rightarrow> None
      | f # fmt \<Rightarrow>
          if f = 0x73 then
            (case args of
               VStr s # args \<Rightarrow> do { d \<leftarrow> serial_write_string D (case s of None \<Rightarrow> null_string | Some s \<Rightarrow> s) d;
                                       serial_printf D fmt args d }
             | _ \<Rightarrow> None)
          else if f = 0x63 then
            (case args of VInt v # args \<Rightarrow> do { d \<leftarrow> serial_write_char D (ucast v) d; serial_printf D fmt args d } | _ \<Rightarrow> None)
          else if f = 0x64 then
            (case args of VInt v # args \<Rightarrow> do { d \<leftarrow> serial_write_int D (scast v) d; serial_printf D fmt args d } | _ \<Rightarrow> None)
          else if f = 0x75 then
            (case args of VInt v # args \<Rightarrow> do { d \<leftarrow> serial_write_uint D (ucast v) 10 d; serial_printf D fmt args d } | _ \<Rightarrow> None)
          else if f = 0x78 then
            (case args of VInt v # args \<Rightarrow> do { d \<leftarrow> serial_write_uint D (ucast v) 16 d; serial_printf D fmt args d } | _ \<Rightarrow> None)
          else if f = 0x25 then do { d \<leftarrow> serial_write_char D 0x25 d; serial_printf D fmt args d }
          else do { d \<leftarrow> serial_write_string D (literal ''[?]'') d; serial_printf D fmt args d })"

definition serial_init :: "'d ports \<Rightarrow> 'd \<Rightarrow> 'd option" where
  "serial_init D d =
     (let d = outb D (SERIAL_COM1_BASE + 1) 0x00 d;
          d = outb D (SERIAL_COM1_BASE + 3) 0x80 d;
          d = outb D (SERIAL_COM1_BASE + 0) (115200 div 38400 AND 0xFF) d;
          d = outb D (SERIAL_COM1_BASE + 1) (ucast ((drop_bit 8 (115200 div 38400 :: u32)) AND 0xFF)) d;
          d = outb D (SERIAL_COM1_BASE + 3) (0x03 OR 0x00 OR 0x00) d;
          d = outb D (SERIAL_COM1_BASE + 2) (0x01 OR 0x02 OR 0x04 OR 0xC0) d;
          d = outb D (SERIAL_COM1_BASE + 4) (0x01 OR 0x02 OR 0x08) d
      in serial_printf D (literal ''Serial output ready on COM1.'' @ [0x0A]) [] d)"

subsection \<open>The interrupt controller and the timer\<close>

definition PIC1_CMD :: u16 where "PIC1_CMD = 0x20"
definition PIC1_DATA :: u16 where "PIC1_DATA = 0x21"
definition PIC2_CMD :: u16 where "PIC2_CMD = 0xA0"
definition PIC2_DATA :: u16 where "PIC2_DATA = 0xA1"

definition pic_init :: "'d ports \<Rightarrow> 'd \<Rightarrow> 'd option" where
  "pic_init D d =
     (let d = outb D PIC1_CMD 0x11 d; d = outb D PIC2_CMD 0x11 d;
          d = outb D PIC1_DATA 0x20 d; d = outb D PIC2_DATA 0x28 d;
          d = outb D PIC1_DATA 0x04 d; d = outb D PIC2_DATA 0x02 d;
          d = outb D PIC1_DATA 0x01 d; d = outb D PIC2_DATA 0x01 d;
          d = outb D PIC1_DATA 0xFF d; d = outb D PIC2_DATA 0xFF d
      in serial_printf D (literal ''PIC initialized'' @ [0x0A]) [] d)"

definition pic_enable_irq :: "'d ports \<Rightarrow> u8 \<Rightarrow> 'd \<Rightarrow> 'd" where
  "pic_enable_irq D irq d =
     (let (port, irq) = (if irq < 8 then (PIC1_DATA, irq) else (PIC2_DATA, irq - 8));
          (mask, d) = inb D port d;
          value = mask AND NOT (push_bit (unat irq) 1)
      in outb D port value d)"

definition PIT_CHANNEL0 :: u16 where "PIT_CHANNEL0 = 0x40"
definition PIT_COMMAND :: u16 where "PIT_COMMAND = 0x43"
definition PIT_FREQUENCY :: u32 where "PIT_FREQUENCY = 1193182"

definition pit_divisor :: "u32 \<Rightarrow> u16" where
  "pit_divisor frequency = ucast (PIT_FREQUENCY div (if frequency = 0 then 100 else frequency))"

definition pit_init :: "'d ports \<Rightarrow> u32 \<Rightarrow> 'd \<Rightarrow> 'd option" where
  "pit_init D frequency d =
     (let divisor = pit_divisor frequency;
          d = outb D PIT_COMMAND 0x36 d;
          d = outb D PIT_CHANNEL0 (ucast (divisor AND 0xFF)) d;
          d = outb D PIT_CHANNEL0 (ucast (drop_bit 8 divisor)) d
      in serial_printf D (literal ''PIT initialized at %d Hz'' @ [0x0A]) [VInt (if frequency = 0 then 100 else frequency)] d)"

subsection \<open>Reading numbers back\<close>

definition char_digit :: "u8 \<Rightarrow> nat" where
  "char_digit c = (if unat c < 0x3A then unat c - 0x30 else unat c - 0x61 + 10)"

fun digits_val :: "nat \<Rightarrow> u8 list \<Rightarrow> nat" where
  "digits_val b [] = 0"
| "digits_val b (c # cs) = char_digit c + b * digits_val b cs"

lemma digit_char_digit:
  assumes "unat x < 36"
  shows "char_digit (digit_char x) = unat x"
proof -
  have "unat (ucast (y :: u64) :: u8) = unat y" if "unat y < 256" for y
    using that by (simp add: unsigned_ucast_eq take_bit_nat_eq_self)
  moreover have "unat (0x30 + x) = 0x30 + unat x" "unat (0x61 + x - 10) = 0x57 + unat x"
    using assms by (simp_all add: unat_word_ariths)
  ultimately show ?thesis using assms by (auto simp: char_digit_def digit_char_def word_less_nat_alt)
qed

lemma uint_digits_val:
  assumes "2 \<le> unat b" "unat b \<le> 36"
  shows "digits_val (unat b) (uint_digits v b) = unat v"
  using assms
proof (induction v b rule: uint_digits.induct)
  case (1 v b)
  have b2: "\<not> b < 2" using 1(2) by (simp add: word_less_nat_alt)
  show ?case
  proof (cases "v = 0")
    case False
    have "unat (v mod b) < unat b" using 1(2) by (simp add: unat_mod)
    then have "char_digit (digit_char (v mod b)) = unat v mod unat b"
      using 1(3) by (subst digit_char_digit) (simp_all add: unat_mod)
    with 1(1) [OF _ 1(2,3)] False b2 show ?thesis
      by (subst uint_digits.simps) (simp add: unat_div)
  qed (simp add: uint_digits.simps)
qed

text \<open>Ten digits are enough for every ten-fold of the base, so the 32-byte buffer is never overrun.\<close>

lemma uint_digits_length:
  assumes "2 \<le> unat b" "unat v < unat b ^ n"
  shows "length (uint_digits v b) \<le> n"
  using assms
proof (induction n arbitrary: v)
  case 0
  then have "v = 0" by (simp add: unat_eq_0)
  then show ?case by (simp add: uint_digits.simps)
next
  case (Suc n)
  show ?case
  proof (cases "v = 0")
    case False
    have "unat (v div b) < unat b ^ n" using Suc.prems by (simp add: unat_div less_mult_imp_div_less mult.commute)
    from Suc.IH [OF Suc.prems(1) this] show ?thesis by (subst uint_digits.simps) simp
  qed (simp add: uint_digits.simps)
qed

subsection \<open>What reaches the line\<close>

text \<open>
  The documented behaviour of the transmitter, for a device with the transmitted bytes \<open>sent\<close>: bit 5 of
  the line status register is clear for at most \<open>busy\<close> polls, reading the register sends nothing, and
  a byte written to the data register is transmitted.
\<close>

definition uart_ok :: "'d ports \<Rightarrow> ('d \<Rightarrow> u8 list) \<Rightarrow> ('d \<Rightarrow> nat) \<Rightarrow> bool" where
  "uart_ok D sent busy \<longleftrightarrow>
     (\<forall>d s d'. p_inb D 0x3FD d = (s, d') \<longrightarrow> sent d' = sent d \<and> (s AND 0x20 = 0 \<longrightarrow> busy d' < busy d))
     \<and> (\<forall>d c. sent (p_outb D 0x3F8 c d) = sent d @ [c])"

lemma serial_write_char_ok:
  assumes "uart_ok D sent busy"
  shows "\<exists>d'. serial_write_char D c d = Some d' \<and> sent d' = sent d @ [c]"
proof (induction "busy d" arbitrary: d rule: less_induct)
  case less
  obtain s d1 where r: "p_inb D 0x3FD d = (s, d1)" by fastforce
  have d1: "sent d1 = sent d" "s AND 0x20 = 0 \<Longrightarrow> busy d1 < busy d" using assms r unfolding uart_ok_def by blast+
  have "serial_write_char D c d = (if s AND 0x20 = 0 then serial_write_char D c d1 else Some (p_outb D 0x3F8 c d1))"
    by (subst serial_write_char.simps) (simp add: inb_def outb_def SERIAL_COM1_BASE_def r)
  moreover have "sent (p_outb D 0x3F8 c d1) = sent d1 @ [c]" using assms by (simp add: uart_ok_def)
  ultimately show ?case using less [of d1] d1 by (cases "s AND 0x20 = 0") auto
qed

lemma serial_write_chars_ok:
  "uart_ok D sent busy \<Longrightarrow> \<exists>d'. serial_write_chars D cs d = Some d' \<and> sent d' = sent d @ cs"
proof (induction cs arbitrary: d)
  case (Cons c cs)
  from serial_write_char_ok [OF Cons.prems] obtain d1 where d1: "serial_write_char D c d = Some d1" "sent d1 = sent d @ [c]"
    by blast
  from Cons.IH [OF Cons.prems, of d1] d1 show ?case by auto
qed simp

fun line_text :: "u8 list \<Rightarrow> u8 list" where
  "line_text [] = []"
| "line_text (c # cs) = (if c = 0x0A then [0x0D, c] else [c]) @ line_text cs"

lemma serial_write_string_ok:
  "uart_ok D sent busy \<Longrightarrow> \<exists>d'. serial_write_string D cs d = Some d' \<and> sent d' = sent d @ line_text cs"
proof (induction cs arbitrary: d)
  case (Cons c cs)
  have "\<exists>d1. (if c = 0x0A then serial_write_char D 0x0D d else Some d) = Some d1
      \<and> sent d1 = sent d @ (if c = 0x0A then [0x0D] else [])"
    using serial_write_char_ok [OF Cons.prems, of "0x0D" d] by auto
  then obtain d1 where d1: "(if c = 0x0A then serial_write_char D 0x0D d else Some d) = Some d1"
    "sent d1 = sent d @ (if c = 0x0A then [0x0D] else [])" by blast
  from serial_write_char_ok [OF Cons.prems, of c d1] obtain d2 where
    d2: "serial_write_char D c d1 = Some d2" "sent d2 = sent d1 @ [c]" by blast
  from Cons.IH [OF Cons.prems, of d2] d1 d2 show ?case by auto
qed simp

text \<open>The text that a format string stands for.\<close>

definition uint_text :: "u64 \<Rightarrow> u64 \<Rightarrow> u8 list" where
  "uint_text v b = (if v = 0 then [0x30] else rev (uint_digits v b))"

definition int_text :: "u64 \<Rightarrow> u8 list" where
  "int_text v = (if sint v < 0 then 0x2D # uint_text (- v) 10 else uint_text v 10)"

fun printf_text :: "u8 list \<Rightarrow> va_arg list \<Rightarrow> u8 list option" where
  "printf_text [] args = Some []"
| "printf_text (c # fmt) args =
     (if c \<noteq> 0x25 then map_option ((@) [c]) (printf_text fmt args)
      else case fmt of
        [] \<Rightarrow> None
      | f # fmt \<Rightarrow>
          if f = 0x73 then
            (case args of VStr s # args \<Rightarrow>
               map_option ((@) (line_text (case s of None \<Rightarrow> null_string | Some s \<Rightarrow> s))) (printf_text fmt args) | _ \<Rightarrow> None)
          else if f = 0x63 then
            (case args of VInt v # args \<Rightarrow> map_option ((@) [ucast v]) (printf_text fmt args) | _ \<Rightarrow> None)
          else if f = 0x64 then
            (case args of VInt v # args \<Rightarrow> map_option ((@) (int_text (scast v))) (printf_text fmt args) | _ \<Rightarrow> None)
          else if f = 0x75 then
            (case args of VInt v # args \<Rightarrow> map_option ((@) (uint_text (ucast v) 10)) (printf_text fmt args) | _ \<Rightarrow> None)
          else if f = 0x78 then
            (case args of VInt v # args \<Rightarrow> map_option ((@) (uint_text (ucast v) 16)) (printf_text fmt args) | _ \<Rightarrow> None)
          else if f = 0x25 then map_option ((@) [0x25]) (printf_text fmt args)
          else map_option ((@) (literal ''[?]'')) (printf_text fmt args))"

definition emits :: "('d \<Rightarrow> u8 list) \<Rightarrow> ('d \<Rightarrow> 'd option) \<Rightarrow> u8 list \<Rightarrow> bool" where
  "emits sent f cs \<longleftrightarrow> (\<forall>d. \<exists>d'. f d = Some d' \<and> sent d' = sent d @ cs)"

lemma emits_bind: "emits sent f cs \<Longrightarrow> emits sent g ds \<Longrightarrow> emits sent (\<lambda>d. f d \<bind> g) (cs @ ds)"
  unfolding emits_def by (metis Option.bind.bind_lunit append_assoc)

lemma emits_write:
  assumes "uart_ok D sent busy"
  shows "emits sent (serial_write_char D c) [c]" "emits sent (serial_write_string D cs) (line_text cs)"
    "emits sent (serial_write_uint D v b) (uint_text v b)" "emits sent (serial_write_int D v) (int_text v)"
proof -
  show c: "emits sent (serial_write_char D c) [c]" for c using serial_write_char_ok [OF assms] by (simp add: emits_def)
  show "emits sent (serial_write_string D cs) (line_text cs)" using serial_write_string_ok [OF assms] by (simp add: emits_def)
  show u: "emits sent (serial_write_uint D v b) (uint_text v b)" for v b
    using serial_write_chars_ok [OF assms] serial_write_char_ok [OF assms]
    by (simp add: emits_def serial_write_uint_def uint_text_def)
  have "emits sent (\<lambda>d. serial_write_char D 0x2D d \<bind> serial_write_uint D (- v) 10) ([0x2D] @ uint_text (- v) 10)"
    by (rule emits_bind [OF c u])
  with u [of v 10] show "emits sent (serial_write_int D v) (int_text v)"
    by (simp add: emits_def serial_write_int_def int_text_def)
qed

lemma printf_step:
  assumes "\<And>d. serial_printf D fs as d = f d \<bind> serial_printf D fmt args" and "emits sent f cs"
    and "map_option ((@) cs) (printf_text fmt args) = Some out"
    and "\<And>out. printf_text fmt args = Some out \<Longrightarrow> emits sent (serial_printf D fmt args) out"
  shows "emits sent (serial_printf D fs as) out"
proof -
  obtain t where t: "printf_text fmt args = Some t" "out = cs @ t" using assms(3) by auto
  have "serial_printf D fs as = (\<lambda>d. f d \<bind> serial_printf D fmt args)" using assms(1) by (rule ext)
  with emits_bind [OF assms(2) assms(4) [OF t(1)]] t(2) show ?thesis by simp
qed

lemma serial_printf_emits:
  assumes uart: "uart_ok D sent busy"
  shows "printf_text fmt args = Some out \<Longrightarrow> emits sent (serial_printf D fmt args) out"
proof (induction "length fmt" arbitrary: fmt args out rule: less_induct)
  case less
  note E = emits_write [OF uart]
  show ?case
  proof (cases fmt)
    case Nil
    with less.prems show ?thesis by (simp add: emits_def)
  next
    case (Cons c fmt1)
    show ?thesis
    proof (cases "c = 0x25")
      case False
      show ?thesis
        by (rule printf_step [OF _ E(1) [of c], where fmt = fmt1 and args = args]) (use less False Cons in auto)
    next
      case True
      with less.prems Cons obtain f fmt2 where f: "fmt1 = f # fmt2" by (cases fmt1) auto
      have IH: "printf_text fmt2 as = Some t \<Longrightarrow> emits sent (serial_printf D fmt2 as) t" for as t
        using less.hyps [of fmt2] Cons f by simp
      have fm: "fmt = 0x25 # f # fmt2" using Cons f True by simp
      have p: "printf_text (0x25 # f # fmt2) args = Some out" using less.prems Cons f True by simp
      then consider
          (str) s as where "f = 0x73" "args = VStr s # as"
            "map_option ((@) (line_text (case s of None \<Rightarrow> null_string | Some s \<Rightarrow> s))) (printf_text fmt2 as) = Some out"
        | (chr) v as where "f = 0x63" "args = VInt v # as" "map_option ((@) [ucast v]) (printf_text fmt2 as) = Some out"
        | (dec) v as where "f = 0x64" "args = VInt v # as" "map_option ((@) (int_text (scast v))) (printf_text fmt2 as) = Some out"
        | (uns) v as where "f = 0x75" "args = VInt v # as" "map_option ((@) (uint_text (ucast v) 10)) (printf_text fmt2 as) = Some out"
        | (hex) v as where "f = 0x78" "args = VInt v # as" "map_option ((@) (uint_text (ucast v) 16)) (printf_text fmt2 as) = Some out"
        | (pct) "f = 0x25" "map_option ((@) [0x25]) (printf_text fmt2 args) = Some out"
        | (other) "f \<notin> {0x73, 0x63, 0x64, 0x75, 0x78, 0x25}" "map_option ((@) (literal ''[?]'')) (printf_text fmt2 args) = Some out"
        by (simp split: if_splits list.splits va_arg.splits)
      then show ?thesis
      proof cases
        case str
        show ?thesis by (rule printf_step [OF _ E(2) str(3) IH]) (simp add: fm str)
      next
        case chr
        show ?thesis by (rule printf_step [OF _ E(1) chr(3) IH]) (simp add: fm chr)
      next
        case dec
        show ?thesis by (rule printf_step [OF _ E(4) dec(3) IH]) (simp add: fm dec)
      next
        case uns
        show ?thesis by (rule printf_step [OF _ E(3) uns(3) IH]) (simp add: fm uns)
      next
        case hex
        show ?thesis by (rule printf_step [OF _ E(3) hex(3) IH]) (simp add: fm hex)
      next
        case pct
        show ?thesis by (rule printf_step [OF _ E(1) pct(2) IH]) (simp add: fm pct)
      next
        case other
        have "line_text (literal ''[?]'') = literal ''[?]''" by (simp add: literal_def)
        then have e: "emits sent (serial_write_string D (literal ''[?]'')) (literal ''[?]'')" using E(2) [of "literal ''[?]''"] by simp
        show ?thesis by (rule printf_step [OF _ e other(2) IH]) (use other(1) in \<open>simp add: fm\<close>)
      qed
    qed
  qed
qed

subsection \<open>Properties\<close>

text \<open>
  \<^verbatim>\<open>serial_printf\<close> on a working transmitter returns, and exactly the text of the format reaches the line,
  in order: literal characters, strings (with a carriage return before each line feed), characters,
  and numbers in decimal or hexadecimal.
\<close>

theorem serial_printf_ok:
  assumes "uart_ok D sent busy" and "printf_text fmt args = Some out"
  shows "\<exists>d'. serial_printf D fmt args d = Some d' \<and> sent d' = sent d @ out"
  using serial_printf_emits [OF assms] by (simp add: emits_def)

text \<open>A transmitter that is busy for one poll after each byte.\<close>

definition uart_example :: "(u8 list \<times> bool) ports" where
  "uart_example = \<lparr>p_inb = (\<lambda>p (out, b). (if b then 0 else 0x20, (out, False))),
     p_outb = (\<lambda>p c (out, b). if p = 0x3F8 then (out @ [c], True) else (out, b)),
     p_inw = (\<lambda>p d. (0, d)), p_outw = (\<lambda>p w d. d)\<rparr>"

lemma uart_example_ok: "uart_ok uart_example fst (\<lambda>d. if snd d then 1 else 0)"
  by (auto simp: uart_ok_def uart_example_def split: if_splits)

theorem serial_printf_ok_witness:
  "\<exists>d'. serial_printf uart_example (literal ''a%d'') [VInt (- 5)] ([], True) = Some d' \<and> fst d' = [0x61, 0x2D, 0x35]"
proof -
  have "printf_text (literal ''a%d'') [VInt (- 5)] = Some [0x61, 0x2D, 0x35]"
    by (simp add: literal_def int_text_def uint_text_def uint_digits.simps digit_char_def)
  from serial_printf_ok [OF uart_example_ok this, of "([], True)"] show ?thesis by auto
qed

text \<open>
  Numbers print as themselves: in every base from 2 to 36 the digits that \<^verbatim>\<open>serial_write_uint\<close> puts
  into its buffer stand for the number, and in base 10 or more there are at most 20 of them, so the
  32-byte buffer is not overrun.
\<close>

theorem serial_write_uint_digits:
  assumes "2 \<le> unat b" "unat b \<le> 36"
  shows "digits_val (unat b) (uint_digits v b) = unat v \<and> (10 \<le> unat b \<longrightarrow> length (uint_digits v b) \<le> 20)"
proof -
  have "length (uint_digits v b) \<le> 20" if "10 \<le> unat b"
  proof (rule uint_digits_length [OF assms(1)])
    have "unat v < 10 ^ 20" using unat_bound [of v] by simp
    also have "\<dots> \<le> unat b ^ 20" using that by (rule power_mono) simp
    finally show "unat v < unat b ^ 20" .
  qed
  with uint_digits_val [OF assms] show ?thesis by simp
qed

theorem serial_write_uint_digits_witness: "digits_val 16 (uint_digits 0xBEEF 16) = 0xBEEF"
  using serial_write_uint_digits [of 16 "0xBEEF"] by simp

end
