(* ===== verification/Syscall.thy ===== *)
theory Syscall
  imports Process Serial
begin

unbundle bit_operations_syntax

text \<open>
  The system call interface: the file, framebuffer and console calls of \<^verbatim>\<open>src/src/syscall\<close> and the
  dispatcher \<^verbatim>\<open>ksyscall.c\<close>, which reads the call number and the arguments from the saved registers.
  Pointers from user space are followed through the page tables of the running process; the kernel
  does not check them, and an unmapped page ends in the page fault handler.
\<close>

subsection \<open>Reading user memory\<close>

partial_function (option) user_cstr :: "u64 \<Rightarrow> kernel \<Rightarrow> u8 list option" where
  "user_cstr a k =
     do {
       b \<leftarrow> user_byte (user_root k) a k;
       if b = 0 then Some [] else do { bs \<leftarrow> user_cstr (a + 1) k; Some (b # bs) }
     }"

fun user_load :: "nat \<Rightarrow> u64 \<Rightarrow> kernel \<Rightarrow> u8 list option" where
  "user_load 0 a k = Some []"
| "user_load (Suc n) a k =
     do { b \<leftarrow> user_byte (user_root k) a k; bs \<leftarrow> user_load n (a + 1) k; Some (b # bs) }"

fun user_argv :: "nat \<Rightarrow> u64 \<Rightarrow> kernel \<Rightarrow> u8 list list option" where
  "user_argv 0 a k = Some []"
| "user_argv (Suc n) a k =
     do {
       p \<leftarrow> user_load 8 a k;
       s \<leftarrow> user_cstr (le_val p) k;
       ss \<leftarrow> user_argv n (a + 8) k;
       Some (s # ss)
     }"

subsection \<open>Files\<close>

definition sys_file_read :: "('f, 'd) fatfs \<Rightarrow> u8 list \<Rightarrow> u64 \<Rightarrow> u64 \<Rightarrow> kernel \<Rightarrow> (int \<times> kernel) option" where
  "sys_file_read fs path user_buf max_len k =
     (let (res, file) = f_open fs path in
      if res \<noteq> FR_OK then Some (-1, k)
      else
        let fsize = f_size fs file;
            fsize = (if fsize > max_len then max_len else fsize);
            (res, bs, file) = f_read fs file (unat (ucast fsize :: u32))
        in do {
          k \<leftarrow> user_store user_buf bs k;
          if res \<noteq> FR_OK then Some (-1, k) else Some (int (length bs), k)
        })"

definition is_dir_flag :: "u8 \<Rightarrow> u64" where
  "is_dir_flag attrib = (if attrib AND AM_DIR \<noteq> 0 then 1 else 0)"

text \<open>
  The structure \<^verbatim>\<open>kstat\<close> is 16 bytes, the last four of which are padding that the code never sets:
  \<open>pad\<close> is what the kernel stack held there.
\<close>

definition kstat_bytes :: "filinfo \<Rightarrow> u8 list \<Rightarrow> u8 list" where
  "kstat_bytes fno pad = le_bytes 8 (fsize fno) @ le_bytes 4 (is_dir_flag (fattrib fno)) @ pad"

definition sys_stat :: "('f, 'd) fatfs \<Rightarrow> u8 list \<Rightarrow> u8 list \<Rightarrow> u64 \<Rightarrow> kernel \<Rightarrow> (int \<times> kernel) option" where
  "sys_stat fs pad user_path user_stat_out k =
     (let (res, fno) = f_stat fs user_path in
      if res \<noteq> FR_OK then Some (-1, k)
      else do { k \<leftarrow> user_store user_stat_out (kstat_bytes fno pad) k; Some (0, k) })"

text \<open>\<^verbatim>\<open>kdirent\<close>: a name of at most 127 bytes in a zeroed field of 128, the size and the directory flag.\<close>

definition kdirent_bytes :: "filinfo \<Rightarrow> u8 list" where
  "kdirent_bytes fno =
     (let name = take 127 (fname fno)
      in name @ replicate (128 - length name) 0 @ le_bytes 8 (fsize fno)
           @ le_bytes 1 (is_dir_flag (fattrib fno)) @ replicate 7 0)"

fun readdir_loop :: "('f, 'd) fatfs \<Rightarrow> nat \<Rightarrow> 'd \<Rightarrow> filinfo option" where
  "readdir_loop fs n dir =
     (let (res, fno, dir) = f_readdir fs dir in
      if res \<noteq> FR_OK \<or> fname fno = [] then None
      else case n of 0 \<Rightarrow> Some fno | Suc m \<Rightarrow> readdir_loop fs m dir)"

declare readdir_loop.simps [simp del]

definition sys_read_dir_entry :: "('f, 'd) fatfs \<Rightarrow> u8 list \<Rightarrow> u64 \<Rightarrow> u64 \<Rightarrow> kernel \<Rightarrow> (int \<times> kernel) option" where
  "sys_read_dir_entry fs path index user_out k =
     (let (res, dir) = f_opendir fs path in
      if res \<noteq> FR_OK then Some (-1, k)
      else case readdir_loop fs (unat index) dir of
        None \<Rightarrow> Some (-2, k)
      | Some fno \<Rightarrow> do { k \<leftarrow> user_store user_out (kdirent_bytes fno) k; Some (0, k) })"

subsection \<open>Framebuffer and console\<close>

definition fb_info_bytes :: "kernel \<Rightarrow> u8 list" where
  "fb_info_bytes k = le_bytes 8 USER_FB_BASE @ le_bytes 8 (fb_width k) @ le_bytes 8 (fb_height k)
     @ le_bytes 8 (fb_pitch k) @ le_bytes 8 (fb_bpp k)"

definition sys_get_fb_info :: "u64 \<Rightarrow> kernel \<Rightarrow> (int \<times> kernel) option" where
  "sys_get_fb_info user_out k =
     (if is_wm (tasks k (current_task k)) = 0 then Some (-1, k)
      else do { k \<leftarrow> user_store user_out (fb_info_bytes k) k; Some (0, k) })"

text \<open>The buffer is passed to \<^verbatim>\<open>serial_printf\<close> as the format, with no arguments.\<close>

definition sys_write :: "'p ports \<Rightarrow> u32 \<Rightarrow> u8 list \<Rightarrow> 'p \<Rightarrow> 'p option" where
  "sys_write D fd buf d = serial_printf D buf [] d"

definition sys_read_key :: "kernel \<Rightarrow> u64 \<times> kernel" where
  "sys_read_key k =
     (if msg_count (tasks k (current_task k)) > 0 then (0, k)
      else let (val, kb) = keyboard_read_key (kbd k) in (ucast val, k\<lparr>kbd := kb\<rparr>))"

subsection \<open>The dispatcher\<close>

record registers =
  reg_r15 :: u64
  reg_r14 :: u64
  reg_r13 :: u64
  reg_r12 :: u64
  reg_r11 :: u64
  reg_r10 :: u64
  reg_r9 :: u64
  reg_r8 :: u64
  reg_rbp :: u64
  reg_rdi :: u64
  reg_rsi :: u64
  reg_rdx :: u64
  reg_rcx :: u64
  reg_rbx :: u64
  reg_rax :: u64
  reg_rip :: u64
  reg_cs :: u64
  reg_rflags :: u64
  reg_rsp :: u64
  reg_ss :: u64

text \<open>A call returns a value in \<^verbatim>\<open>RAX\<close>, or (\<^verbatim>\<open>SYS_EXIT\<close>) continues on the stack of another task.\<close>

datatype outcome = Return u64 | SwitchTo u64

definition message_bytes :: "message \<Rightarrow> u8 list" where
  "message_bytes m = le_bytes 4 (ucast (sender_pid m)) @ le_bytes 4 (ucast (mtype m)) @ le_bytes 8 (data1 m)
     @ le_bytes 8 (data2 m) @ le_bytes 8 (data3 m)"

definition syscall_dispatcher ::
    "('f, 'd) fatfs \<Rightarrow> 'p ports \<Rightarrow> u8 list \<Rightarrow> registers \<Rightarrow> kernel \<times> 'p \<Rightarrow> (outcome \<times> kernel \<times> 'p) option" where
  "syscall_dispatcher fs D pad regs = (\<lambda>(k, d).
     let n = reg_rax regs;
         int_result = map_option (\<lambda>(r :: int, k). (Return (word_of_int r), k, d))
     in
     if n = 0 then do {
       buf \<leftarrow> user_cstr (reg_rsi regs) k;
       d \<leftarrow> sys_write D (ucast (reg_rdi regs)) buf d;
       Some (Return (reg_rdx regs), k, d)
     }
     else if n = 1 then do { (sp, k) \<leftarrow> sys_exit (ucast (reg_rdi regs)) k; Some (SwitchTo sp, k, d) }
     else if n = 2 then let (key, k) = sys_read_key k in Some (Return key, k, d)
     else if n = 7 then do {
       path \<leftarrow> user_cstr (reg_rdi regs) k;
       argv \<leftarrow> user_argv (nat (sint (ucast (reg_rsi regs) :: u32))) (reg_rdx regs) k;
       (pid, k) \<leftarrow> sys_exec fs path argv k;
       Some (Return (scast pid), k, d)
     }
     else if n = 8 then int_result (sys_get_fb_info (reg_rdi regs) k)
     else if n = 9 then do { (p, k) \<leftarrow> sys_sbrk (reg_rdi regs) k; Some (Return p, k, d) }
     else if n = 10 then
       int_result (sys_ipc_send (ucast (reg_rdi regs)) (ucast (reg_rsi regs)) (reg_rdx regs) (reg_rcx regs) (reg_r8 regs) k)
     else if n = 11 then
       (case sys_ipc_recv k of
          (r, None, k) \<Rightarrow> Some (Return (word_of_int r), k, d)
        | (r, Some m, k) \<Rightarrow> do { k \<leftarrow> user_store (reg_rdi regs) (message_bytes m) k; Some (Return (word_of_int r), k, d) })
     else if n = 12 then do {
       (p, out, k) \<leftarrow> sys_share_mem (ucast (reg_rdi regs)) (reg_rsi regs) k;
       k \<leftarrow> (case out of None \<Rightarrow> Some k | Some a \<Rightarrow> user_store (reg_rdx regs) (le_bytes 8 a) k);
       Some (Return p, k, d)
     }
     else if n = 13 then do {
       path \<leftarrow> user_cstr (reg_rdi regs) k;
       int_result (sys_file_read fs path (reg_rsi regs) (reg_rdx regs) k)
     }
     else if n = 14 then let (r, k) = sys_unmap (reg_rdi regs) (reg_rsi regs) k in Some (Return (word_of_int r), k, d)
     else if n = 15 then do {
       path \<leftarrow> user_cstr (reg_rdi regs) k;
       int_result (sys_stat fs pad path (reg_rsi regs) k)
     }
     else if n = 16 then do {
       path \<leftarrow> user_cstr (reg_rdi regs) k;
       int_result (sys_read_dir_entry fs path (reg_rsi regs) (reg_rdx regs) k)
     }
     else do {
       d \<leftarrow> serial_printf D (literal ''[KERNEL] Unknown Syscall: %d'' @ [0x0A]) [VInt (ucast n)] d;
       Some (Return (- 1), k, d)
     })"

subsection \<open>Directories\<close>

text \<open>
  The documented behaviour of the directory calls: \<^verbatim>\<open>f_readdir\<close> returns the entries in order and then
  entries with an empty name.
\<close>

definition lists_dir :: "('f, 'd) fatfs \<Rightarrow> u8 list \<Rightarrow> (nat \<Rightarrow> 'd) \<Rightarrow> filinfo list \<Rightarrow> bool" where
  "lists_dir fs path at entries \<longleftrightarrow> f_opendir fs path = (FR_OK, at 0)
     \<and> (\<forall>i < length entries. f_readdir fs (at i) = (FR_OK, entries ! i, at (Suc i)) \<and> fname (entries ! i) \<noteq> [])
     \<and> (\<forall>i \<ge> length entries. fst (f_readdir fs (at i)) = FR_OK \<and> fname (fst (snd (f_readdir fs (at i)))) = [])"

lemma readdir_loop_at:
  assumes "lists_dir fs path at entries"
  shows "readdir_loop fs n (at i) = (if i + n < length entries then Some (entries ! (i + n)) else None)"
proof -
  have dir: "if i < length entries then f_readdir fs (at i) = (FR_OK, entries ! i, at (Suc i)) \<and> fname (entries ! i) \<noteq> []
      else \<exists>e d. f_readdir fs (at i) = (FR_OK, e, d) \<and> fname e = []" for i
    using assms unfolding lists_dir_def by (metis leI prod.collapse)
  show ?thesis
proof (induction n arbitrary: i)
  case 0
  show ?case using dir [of i] by (subst readdir_loop.simps) (auto split: prod.split if_splits)
next
  case (Suc n)
  show ?case using dir [of i] Suc.IH [of "Suc i"] by (subst readdir_loop.simps) (auto split: prod.split if_splits)
  qed
qed

lemma length_kdirent [simp]: "length (kdirent_bytes e) = 144"
  by (simp add: kdirent_bytes_def Let_def min_def)

lemma kdirent_name:
  "take 127 (kdirent_bytes e) = take 127 (fname e) @ replicate (127 - length (fname e)) 0" "kdirent_bytes e ! 127 = 0"
  by (simp_all add: kdirent_bytes_def Let_def nth_append take_append min_def del: replicate.simps)
     (auto simp: take_replicate min_def)

subsection \<open>Properties\<close>

text \<open>
  On a directory that opens, \<^verbatim>\<open>sys_read_dir_entry\<close> writes the record of the entry with the given index in
  directory order and returns \<open>0\<close>, or returns \<open>-2\<close> past the end; the name in a record is the file name
  cut to 127 bytes and always terminated.
\<close>

theorem sys_read_dir_entry_ok:
  assumes "lists_dir fs path at entries" and "mmu_page (user_root k) user_out (kvm k) = Some p"
    and "unat user_out mod 4096 + 144 \<le> 4096"
  shows "sys_read_dir_entry fs path index user_out k =
     (if unat index < length entries
      then Some (0, k\<lparr>dram := paste (p + (user_out AND 0xFFF) + limine_hhdm (pmm (kvm k))) (kdirent_bytes (entries ! unat index)) (dram k)\<rparr>)
      else Some (-2, k))
     \<and> take 127 (kdirent_bytes (entries ! unat index)) = take 127 (fname (entries ! unat index)) @ replicate (127 - length (fname (entries ! unat index))) 0
     \<and> kdirent_bytes (entries ! unat index) ! 127 = 0"
proof -
  have "f_opendir fs path = (FR_OK, at 0)" using assms(1) by (simp add: lists_dir_def)
  moreover have "user_store user_out (kdirent_bytes e) k
      = Some (k\<lparr>dram := paste (p + (user_out AND 0xFFF) + limine_hhdm (pmm (kvm k))) (kdirent_bytes e) (dram k)\<rparr>)" for e
    using user_store_page [OF assms(2), of "kdirent_bytes e"] assms(3) by simp
  ultimately show ?thesis
    using readdir_loop_at [OF assms(1), of "unat index" 0] kdirent_name by (simp add: sys_read_dir_entry_def)
qed

text \<open>A process with one mapped page, at address 0, whose page tables all sit in frame 0.\<close>

definition mapped_kernel :: kernel where
  "mapped_kernel = with_vm (\<lambda>v. v\<lparr>mem := (\<lambda>a. if a = 0x10000 then 7 else 0)\<rparr>) kernel_example"

lemma mapped_kernel_page: "mmu_page (user_root mapped_kernel) 0 (kvm mapped_kernel) = Some 0"
  by (simp add: mapped_kernel_def mmu_page_def vpath_def child_def leaf_def user_root_def phys_to_virt_def read_cr3_def
      kvm_def kernel_example_def kheap_example_def with_vm_def PML4_INDEX_def PDPT_INDEX_def PD_INDEX_def PT_INDEX_def
      entry_addr_def VMM_PRESENT_def PAGE_ALIGN_MASK_def) (simp add: vm_example_def)

lemma one_file_dir: "path \<noteq> [] \<Longrightarrow> lists_dir (one_file path data) p (\<lambda>i. i) [\<lparr>fsize = word_of_nat (length data), fattrib = 0, fname = path\<rparr>]"
  by (simp add: lists_dir_def one_file_def)

theorem sys_read_dir_entry_ok_witness:
  "sys_read_dir_entry (one_file [65] [1, 2]) [47] 1 0 mapped_kernel = Some (-2, mapped_kernel)"
  using sys_read_dir_entry_ok [OF one_file_dir mapped_kernel_page, of "[65]" "[1, 2]" "[47]" 1] by simp

text \<open>
  Refused calls have no effect: an unknown call number and a request for the framebuffer by a
  process that is not the window manager return \<open>-1\<close> and leave the kernel state as it was.
\<close>

theorem syscall_refused:
  assumes "uart_ok D sent busy"
    and "reg_rax regs = 8 \<and> is_wm (tasks k (current_task k)) = 0 \<or> reg_rax regs \<notin> {0, 1, 2, 7, 8, 9, 10, 11, 12, 13, 14, 15, 16}"
  shows "\<exists>d'. syscall_dispatcher fs D pad regs (k, d) = Some (Return (- 1), k, d')"
proof (cases "reg_rax regs = 8")
  case True
  with assms(2) show ?thesis by (simp add: syscall_dispatcher_def sys_get_fb_info_def)
next
  case False
  let ?fmt = "literal ''[KERNEL] Unknown Syscall: %d'' @ [0x0A]"
  have "\<exists>out. printf_text ?fmt [VInt v] = Some out" for v by (simp add: literal_def)
  then obtain out where "printf_text ?fmt [VInt (ucast (reg_rax regs))] = Some out" by blast
  from serial_printf_emits [OF assms(1) this] obtain d' where
    "serial_printf D ?fmt [VInt (ucast (reg_rax regs))] d = Some d'" unfolding emits_def by blast
  with False assms(2) show ?thesis by (simp add: syscall_dispatcher_def)
qed

definition regs_example :: registers where
  "regs_example = \<lparr>reg_r15 = 0, reg_r14 = 0, reg_r13 = 0, reg_r12 = 0, reg_r11 = 0, reg_r10 = 0, reg_r9 = 0, reg_r8 = 0, reg_rbp = 0, reg_rdi = 0, reg_rsi = 0,
     reg_rdx = 0, reg_rcx = 0, reg_rbx = 0, reg_rax = 3, reg_rip = 0, reg_cs = 0, reg_rflags = 0, reg_rsp = 0, reg_ss = 0\<rparr>"

theorem syscall_refused_witness:
  "\<exists>d'. syscall_dispatcher (one_file [65] []) uart_example [] regs_example (kernel_example, ([], False))
     = Some (Return (- 1), kernel_example, d')"
  by (rule syscall_refused [OF uart_example_ok]) (simp add: regs_example_def)

end
