(* ===== verification/Interrupts.thy ===== *)
theory Interrupts
  imports Syscall
begin

unbundle bit_operations_syntax

text \<open>
  The descriptor tables and the interrupt path: \<^verbatim>\<open>src/src/descriptors/gdt.c\<close>, \<^verbatim>\<open>idt.c\<close> and \<^verbatim>\<open>tss.c\<close>, the
  interrupt handler that the assembly stubs call, and the exception and page fault reports of
  \<^verbatim>\<open>src/src/faults/exception.c\<close> and \<^verbatim>\<open>src/src/memory/pagefault.c\<close>. The addresses of the assembly stubs,
  of the tables and of the task state segment are parameters.
\<close>

subsection \<open>The global descriptor table\<close>

record gdt_entry =
  limit_low :: u16
  base_low :: u16
  base_middle :: u8
  access :: u8
  granularity :: u8
  base_high :: u8

definition GDT_KERNEL_CODE :: u8 where "GDT_KERNEL_CODE = 0x80 OR 0x00 OR 0x10 OR 0x08 OR 0x02"
definition GDT_KERNEL_DATA :: u8 where "GDT_KERNEL_DATA = 0x80 OR 0x00 OR 0x10 OR 0x00 OR 0x02"
definition GDT_USER_CODE :: u8 where "GDT_USER_CODE = 0x80 OR 0x60 OR 0x10 OR 0x08 OR 0x02"
definition GDT_USER_DATA :: u8 where "GDT_USER_DATA = 0x80 OR 0x60 OR 0x10 OR 0x00 OR 0x02"
definition GDT_FLAGS_CODE :: u8 where "GDT_FLAGS_CODE = 0x20"
definition GDT_FLAGS_DATA :: u8 where "GDT_FLAGS_DATA = 0x00"

definition gdt_set_entry :: "nat \<Rightarrow> u8 \<Rightarrow> u8 \<Rightarrow> gdt_entry list \<Rightarrow> gdt_entry list" where
  "gdt_set_entry i acc flags gdt =
     gdt[i := \<lparr>limit_low = 0, base_low = 0, base_middle = 0, access = acc, granularity = flags, base_high = 0\<rparr>]"

text \<open>\<^verbatim>\<open>*(uint64_t*)high_part = x\<close>: the eight bytes of an entry in little-endian order.\<close>

definition gdt_entry_of :: "u64 \<Rightarrow> gdt_entry" where
  "gdt_entry_of x = \<lparr>limit_low = ucast x, base_low = ucast (drop_bit 16 x), base_middle = ucast (drop_bit 32 x),
     access = ucast (drop_bit 40 x), granularity = ucast (drop_bit 48 x), base_high = ucast (drop_bit 56 x)\<rparr>"

record idt_entry =
  isr_low :: u16
  kernel_cs :: u16
  ist :: u8
  attributes :: u8
  isr_mid :: u16
  isr_high :: u32
  reserved :: u32

record cpu_tables =
  gdt :: "gdt_entry list"
  gdtr_size :: u16
  gdtr_addr :: u64
  task_register :: u16
  idt :: "idt_entry list"
  idtr_limit :: u16
  idtr_base :: u64
  vectors :: "bool list"

text \<open>\<open>gdt_addr\<close> and \<open>tss_base\<close> are the addresses of the table and of the task state segment (104 bytes).\<close>

definition gdt_tables :: "u64 \<Rightarrow> u64 \<Rightarrow> cpu_tables \<Rightarrow> cpu_tables" where
  "gdt_tables gdt_addr tss_base c =
     (let g = gdt_set_entry 0 0 0 (gdt c);
          g = gdt_set_entry 1 GDT_KERNEL_CODE GDT_FLAGS_CODE g;
          g = gdt_set_entry 2 GDT_KERNEL_DATA GDT_FLAGS_DATA g;
          g = gdt_set_entry 3 GDT_USER_CODE GDT_FLAGS_CODE g;
          g = gdt_set_entry 4 GDT_USER_DATA GDT_FLAGS_DATA g;
          tss_limit = 104 - 1 :: u64;
          g = g[5 := \<lparr>limit_low = ucast (tss_limit AND 0xFFFF), base_low = ucast (tss_base AND 0xFFFF),
                      base_middle = ucast (drop_bit 16 tss_base AND 0xFF), access = 0x89, granularity = 0,
                      base_high = ucast (drop_bit 24 tss_base AND 0xFF)\<rparr>];
          g = g[6 := gdt_entry_of (drop_bit 32 tss_base)]
      in c\<lparr>gdt := g, gdtr_size := 7 * 8 - 1, gdtr_addr := gdt_addr, task_register := 0x28\<rparr>)"

definition gdt_init :: "'p ports \<Rightarrow> u64 \<Rightarrow> u64 \<Rightarrow> cpu_tables \<times> 'p \<Rightarrow> (cpu_tables \<times> 'p) option" where
  "gdt_init D gdt_addr tss_base = (\<lambda>(c, d).
     do {
       d \<leftarrow> serial_printf D (literal ''GDT initialized.'' @ [0x0A]) [] d;
       Some (gdt_tables gdt_addr tss_base c, d)
     })"

subsection \<open>The interrupt descriptor table\<close>

definition IDT_INTERRUPT_GATE :: u8 where "IDT_INTERRUPT_GATE = 0x80 OR 0x00 OR 0xE"
definition IDT_USER_INTERRUPT :: u8 where "IDT_USER_INTERRUPT = 0x80 OR 0x60 OR 0xE"

definition idt_set_descriptor :: "u8 \<Rightarrow> u64 \<Rightarrow> u8 \<Rightarrow> cpu_tables \<Rightarrow> cpu_tables" where
  "idt_set_descriptor vector isr flags c =
     c\<lparr>idt := (idt c)[unat vector :=
       \<lparr>isr_low = ucast (isr AND 0xFFFF), kernel_cs = ucast KERNEL_CS, ist = 0, attributes = flags,
        isr_mid = ucast (drop_bit 16 isr AND 0xFFFF), isr_high = ucast (drop_bit 32 isr AND 0xFFFFFFFF), reserved = 0\<rparr>]\<rparr>"

definition set_vector :: "(nat \<Rightarrow> u64) \<Rightarrow> nat \<Rightarrow> cpu_tables \<Rightarrow> cpu_tables" where
  "set_vector isr_stub_table i c =
     (let c = idt_set_descriptor (word_of_nat i) (isr_stub_table i) IDT_INTERRUPT_GATE c
      in c\<lparr>vectors := (vectors c)[i := True]\<rparr>)"

definition setup_isrs :: "(nat \<Rightarrow> u64) \<Rightarrow> cpu_tables \<Rightarrow> cpu_tables" where
  "setup_isrs isr_stub_table c = fold (set_vector isr_stub_table) [0..<32] c"

definition setup_irqs :: "(nat \<Rightarrow> u64) \<Rightarrow> u64 \<Rightarrow> cpu_tables \<Rightarrow> cpu_tables" where
  "setup_irqs isr_stub_table syscall_stub c =
     idt_set_descriptor 0x80 syscall_stub IDT_USER_INTERRUPT
       (fold (\<lambda>i. set_vector isr_stub_table (32 + i)) [0..<16] c)"

definition idt_init :: "'p ports \<Rightarrow> (nat \<Rightarrow> u64) \<Rightarrow> u64 \<Rightarrow> u64 \<Rightarrow> cpu_tables \<times> 'p \<Rightarrow> (cpu_tables \<times> 'p) option" where
  "idt_init D isr_stub_table syscall_stub idt_addr = (\<lambda>(c, d).
     do {
       let c = c\<lparr>idtr_base := idt_addr, idtr_limit := 16 * 256 - 1\<rparr>;
       d \<leftarrow> pic_init D d;
       let c = setup_irqs isr_stub_table syscall_stub (setup_isrs isr_stub_table c);
       let d = pic_enable_irq D 0 d;
       d \<leftarrow> serial_printf D (literal ''IDT initialized.'' @ [0x0A]) [] d;
       Some (c, d)
     })"

subsection \<open>Interrupts\<close>

definition IRQ_PIT :: u64 where "IRQ_PIT = 32"
definition IRQ_KEYBOARD :: u64 where "IRQ_KEYBOARD = 33"

definition pit_handler :: "u64 \<Rightarrow> kernel \<Rightarrow> (u64 \<times> kernel) option" where
  "pit_handler current_rsp k = scheduler_schedule current_rsp k"

definition keyboard_init :: "'p ports \<Rightarrow> 'p \<Rightarrow> 'p option" where
  "keyboard_init D d =
     serial_printf D (literal ''Keyboard driver installed (PIC 1 unmasked)'' @ [0x0A]) [] (pic_enable_irq D 1 d)"

text \<open>The keyboard handler reads the data port only when the status port reports a byte.\<close>

definition keyboard_irq :: "'p ports \<Rightarrow> kernel \<times> 'p \<Rightarrow> kernel \<times> 'p" where
  "keyboard_irq D = (\<lambda>(k, d).
     let (status, d) = inb D KEYBOARD_STATUS_PORT d in
     if status AND 0x01 \<noteq> 0 then
       let (scancode, d) = inb D KEYBOARD_DATA_PORT d in (k\<lparr>kbd := handle_scancode scancode (kbd k)\<rparr>, d)
     else (k, d))"

definition irq_handler :: "'p ports \<Rightarrow> u64 \<Rightarrow> u64 \<Rightarrow> kernel \<times> 'p \<Rightarrow> (u64 \<times> kernel \<times> 'p) option" where
  "irq_handler D irq current_rsp = (\<lambda>(k, d).
     do {
       (new_rsp, k, d) \<leftarrow>
         (if irq = IRQ_PIT then do { (r, k) \<leftarrow> pit_handler current_rsp k; Some (r, k, d) }
          else if irq = IRQ_KEYBOARD then let (k, d) = keyboard_irq D (k, d) in Some (current_rsp, k, d)
          else Some (current_rsp, k, d));
       let d = (if irq \<ge> 8 then outb D 0xA0 0x20 d else d);
       let d = outb D 0x20 0x20 d;
       Some (new_rsp, k, d)
     })"

subsection \<open>Faults\<close>

text \<open>
  The reports that the fault handlers print, as the sequence of \<^verbatim>\<open>serial_printf\<close> calls. Both handlers
  halt the machine afterwards. Addresses are passed for a \<^verbatim>\<open>%x\<close>, which reads 32 bits.
\<close>

type_synonym report = "(u8 list \<times> va_arg list) list"

definition msg :: "string \<Rightarrow> va_arg list \<Rightarrow> u8 list \<times> va_arg list" where
  "msg s args = (literal s @ [0x0A], args)"

definition pagefault_handler :: "u64 \<Rightarrow> u64 \<Rightarrow> u64 \<Rightarrow> report" where
  "pagefault_handler fault_addr error_code rip =
     [([0x0A] @ literal ''=== PAGE FAULT ==='' @ [0x0A], []),
      msg ''Fault address: 0x%x'' [VInt (ucast fault_addr)],
      msg ''RIP:           0x%x'' [VInt (ucast rip)],
      msg ''Error code:    0x%x'' [VInt (ucast error_code)],
      msg ''Reason:'' [],
      (if error_code AND 1 = 0 then msg '' - Page not present'' [] else msg '' - Protection violation'' []),
      (if error_code AND 2 \<noteq> 0 then msg '' - Write access'' [] else msg '' - Read access'' []),
      (if error_code AND 4 \<noteq> 0 then msg '' - From user mode'' [] else msg '' - From kernel mode'' [])]
     @ (if error_code AND 8 \<noteq> 0 then [msg '' - Reserved bits overwritten'' []] else [])
     @ (if error_code AND 16 \<noteq> 0 then [msg '' - Instruction fetch (NX)'' []] else [])
     @ [msg ''SYSTEM HALTED'' []]"

definition exception_names :: "string list" where
  "exception_names = [''Divide by Zero'', ''Debug'', ''NMI'', ''Breakpoint'', ''Overflow'', ''Bound Range'',
     ''Invalid Opcode'', ''Device Not Available'', ''Double Fault'', ''Coprocessor Overrun'', ''Invalid TSS'',
     ''Segment Not Present'', ''Stack Fault'', ''General Protection Fault'', ''Page Fault'', ''Reserved'',
     ''x87 FP Exception'', ''Alignment Check'', ''Machine Check'', ''SIMD FP Exception'', ''Virtualization'',
     ''Control Protection'', ''Reserved'', ''Reserved'', ''Reserved'', ''Reserved'', ''Reserved'', ''Reserved'',
     ''Hypervisor'', ''VMM'', ''Security'', ''Reserved'']"

text \<open>\<open>rbp\<close> is the frame pointer at the fault and \<open>m\<close> the memory that the chain of frames is read from.\<close>

fun stack_trace :: "nat \<Rightarrow> nat \<Rightarrow> u64 \<Rightarrow> (u64 \<Rightarrow> u64) \<Rightarrow> report" where
  "stack_trace 0 i rbp m = []"
| "stack_trace (Suc n) i rbp m =
     (if rbp \<noteq> 0 \<and> rbp \<ge> 0xFFFF800000000000
      then msg ''  [%d] RBP=%x -> RIP=%x'' [VInt (word_of_nat i), VInt (ucast rbp), VInt (ucast (m (rbp + 8)))]
             # stack_trace n (Suc i) (m rbp) m
      else [])"

text \<open>\<open>seg\<close> holds the segment registers CS, DS and SS, \<open>cr2\<close> the faulting address.\<close>

definition exception_handler ::
    "u64 \<Rightarrow> u64 \<times> u64 \<times> u64 \<Rightarrow> u64 \<Rightarrow> (u64 \<Rightarrow> u64) \<Rightarrow> u64 \<Rightarrow> u64 \<Rightarrow> u64 \<Rightarrow> report" where
  "exception_handler cr2 seg rbp m vector error rip =
     [msg ''EXCEPTION %d: %s'' [VInt (ucast vector), VStr (Some (literal (exception_names ! unat vector)))],
      msg ''RIP: 0x%x'' [VInt (ucast rip)]]
     @ (if vector = 14 then pagefault_handler cr2 error rip
        else
          (if vector = 13 then
             (case seg of (cs, ds, ss) \<Rightarrow>
             [msg ''General Protection Fault details:'' [],
              msg ''  External: %s'' [VStr (Some (literal (if error AND 1 \<noteq> 0 then ''yes'' else ''no'')))],
              msg ''  Table: %s'' [VStr (Some (literal (if error AND 2 \<noteq> 0 then ''IDT'' else if error AND 4 \<noteq> 0 then ''LDT'' else ''GDT'')))],
              msg ''  Index: %d'' [VInt (ucast (drop_bit 3 error AND 0x1FFF))],
              msg ''Segment registers:'' [],
              msg ''  CS: 0x%x'' [VInt (ucast cs)], msg ''  DS: 0x%x'' [VInt (ucast ds)], msg ''  SS: 0x%x'' [VInt (ucast ss)]])
           else [])
          @ [msg ''Stack trace (RBP chain):'' []] @ stack_trace 10 0 rbp m
          @ [(literal '' error=%x'' @ [0x0A], [VInt (ucast error)])])"

subsection \<open>What the processor reads\<close>

text \<open>The address in a gate, and the base of a task state segment from its two table entries.\<close>

definition isr_addr :: "idt_entry \<Rightarrow> u64" where
  "isr_addr e = ucast (isr_low e) OR push_bit 16 (ucast (isr_mid e)) OR push_bit 32 (ucast (isr_high e))"

definition tss_addr :: "gdt_entry \<Rightarrow> gdt_entry \<Rightarrow> u64" where
  "tss_addr lo hi = ucast (base_low lo) OR push_bit 16 (ucast (base_middle lo)) OR push_bit 24 (ucast (base_high lo))
     OR push_bit 32 (ucast (limit_low hi)) OR push_bit 48 (ucast (base_low hi))"

lemma low_masks:
  "(ucast (x AND 0xFFFF) :: u16) = ucast (x :: u64)" "(ucast (x AND 0xFF) :: u8) = ucast x"
  "(ucast (x AND 0xFFFFFFFF) :: u32) = ucast x"
proof -
  have m: "(0xFFFF :: u64) = mask 16" "(0xFF :: u64) = mask 8" "(0xFFFFFFFF :: u64) = mask 32"
    by (simp_all add: mask_eq_exp_minus_1)
  show "(ucast (x AND 0xFFFF) :: u16) = ucast x" "(ucast (x AND 0xFF) :: u8) = ucast x"
    "(ucast (x AND 0xFFFFFFFF) :: u32) = ucast x"
    unfolding m by (rule bit_word_eqI, auto simp: bit_simps)+
qed

definition gate :: "u64 \<Rightarrow> u8 \<Rightarrow> idt_entry" where
  "gate isr flags = \<lparr>isr_low = ucast isr, kernel_cs = ucast KERNEL_CS, ist = 0, attributes = flags,
     isr_mid = ucast (drop_bit 16 isr), isr_high = ucast (drop_bit 32 isr), reserved = 0\<rparr>"

lemma isr_addr_gate [simp]: "isr_addr (gate isr flags) = isr"
proof (rule bit_word_eqI)
  fix n
  assume "n < LENGTH(64)"
  then show "bit (isr_addr (gate isr flags)) n = bit isr n"
    by (cases "n < 16"; cases "n < 32") (auto simp: isr_addr_def gate_def bit_simps)
qed

lemma attributes_gate [simp]: "attributes (gate isr flags) = flags"
  by (simp add: gate_def)

lemma idt_set_descriptor_gate: "idt_set_descriptor vec isr flags c = c\<lparr>idt := (idt c)[unat vec := gate isr flags]\<rparr>"
  by (simp add: idt_set_descriptor_def gate_def low_masks)

lemma fold_set_vector:
  assumes "length (idt c) = 256" "b \<le> 256"
  shows "length (idt (fold (set_vector t) [a..<b] c)) = 256"
    and "v < 256 \<Longrightarrow> idt (fold (set_vector t) [a..<b] c) ! v = (if a \<le> v \<and> v < b then gate (t v) IDT_INTERRUPT_GATE else idt c ! v)"
proof -
  have "length (idt (fold (set_vector t) [a..<b] c)) = 256 \<and> (\<forall>v < 256. idt (fold (set_vector t) [a..<b] c) ! v
      = (if a \<le> v \<and> v < b then gate (t v) IDT_INTERRUPT_GATE else idt c ! v))"
    using assms(2)
  proof (induction b)
    case 0
    then show ?case using assms(1) by simp
  next
    case (Suc b)
    then have u: "unat (word_of_nat b :: u8) = b" by (simp add: unat_of_nat_small)
    show ?case
    proof (cases "a \<le> b")
      case True
      then show ?thesis using Suc by (auto simp: set_vector_def idt_set_descriptor_gate u nth_list_update)
    next
      case False
      then show ?thesis using assms(1) by auto
    qed
  qed
  then show "length (idt (fold (set_vector t) [a..<b] c)) = 256"
    "v < 256 \<Longrightarrow> idt (fold (set_vector t) [a..<b] c) ! v = (if a \<le> v \<and> v < b then gate (t v) IDT_INTERRUPT_GATE else idt c ! v)"
    by blast+
qed

lemma setup_gates:
  assumes "length (idt c) = 256"
  shows "v < 256 \<Longrightarrow> idt (setup_irqs t sc (setup_isrs t c)) ! v =
     (if v < 48 then gate (t v) IDT_INTERRUPT_GATE else if v = 0x80 then gate sc IDT_USER_INTERRUPT else idt c ! v)"
proof -
  have "fold (\<lambda>i. set_vector t (32 + i)) [0..<16] = fold (set_vector t) (map ((+) 32) [0..<16])" by (simp add: fold_map comp_def)
  also have "map ((+) 32) [0..<16] = [32..<48]" by (simp add: upt_rec)
  finally have e: "setup_irqs t sc (setup_isrs t c) = idt_set_descriptor 0x80 sc IDT_USER_INTERRUPT (fold (set_vector t) [32..<48] (fold (set_vector t) [0..<32] c))"
    by (simp add: setup_irqs_def setup_isrs_def)
  note F = fold_set_vector [OF assms, where a = 0 and b = 32 and t = t, simplified]
  note G = fold_set_vector [OF F(1), where a = 32 and b = 48 and t = t, simplified]
  show "v < 256 \<Longrightarrow> idt (setup_irqs t sc (setup_isrs t c)) ! v =
     (if v < 48 then gate (t v) IDT_INTERRUPT_GATE else if v = 0x80 then gate sc IDT_USER_INTERRUPT else idt c ! v)"
    unfolding e using F G by (auto simp: idt_set_descriptor_gate nth_list_update)
qed

subsection \<open>Properties\<close>

text \<open>
  C34. The descriptor tables say what they were given: after the set-up, the processor finds at each of the
  vectors 0 to 47 the address of that vector's stub in a ring-0 interrupt gate, at vector 0x80 the
  system call stub in a gate that user code may enter, and the table entries 5 and 6 hold the address
  of the task state segment.
\<close>

theorem descriptor_tables_ok:
  assumes "length (idt c) = 256" and "length (gdt c) = 7"
  shows "(\<forall>v < 48. isr_addr (idt (setup_irqs t sc (setup_isrs t c)) ! v) = t v
            \<and> attributes (idt (setup_irqs t sc (setup_isrs t c)) ! v) = 0x8E)
     \<and> isr_addr (idt (setup_irqs t sc (setup_isrs t c)) ! 0x80) = sc
     \<and> attributes (idt (setup_irqs t sc (setup_isrs t c)) ! 0x80) = 0xEE
     \<and> tss_addr (gdt (gdt_tables ga tss c) ! 5) (gdt (gdt_tables ga tss c) ! 6) = tss
     \<and> limit_low (gdt (gdt_tables ga tss c) ! 5) = 103"
proof -
  have "tss_addr (gdt (gdt_tables ga tss c) ! 5) (gdt (gdt_tables ga tss c) ! 6) = tss"
  proof (rule bit_word_eqI)
    fix n
    assume "n < LENGTH(64)"
    then show "bit (tss_addr (gdt (gdt_tables ga tss c) ! 5) (gdt (gdt_tables ga tss c) ! 6)) n = bit tss n"
      using assms(2) by (cases "n < 16"; cases "n < 24"; cases "n < 32"; cases "n < 48")
        (auto simp: gdt_tables_def gdt_set_entry_def gdt_entry_of_def low_masks tss_addr_def Let_def bit_simps)
  qed
  moreover have "limit_low (gdt (gdt_tables ga tss c) ! 5) = 103"
    using assms(2) by (simp add: gdt_tables_def gdt_set_entry_def Let_def)
  ultimately show ?thesis
    using setup_gates [OF assms(1), of _ t sc]
    by (auto simp: IDT_INTERRUPT_GATE_def IDT_USER_INTERRUPT_def)
qed

definition no_tables :: cpu_tables where
  "no_tables = \<lparr>gdt = replicate 7 (gdt_entry_of 0), gdtr_size = 0, gdtr_addr = 0, task_register = 0,
     idt = replicate 256 (gate 0 0), idtr_limit = 0, idtr_base = 0, vectors = replicate 256 False\<rparr>"

theorem descriptor_tables_ok_witness:
  "length (idt no_tables) = 256 \<and> length (gdt no_tables) = 7
   \<and> isr_addr (idt (setup_irqs (\<lambda>v. 0xFFFFFFFF80001000 + 16 * word_of_nat v) 0xFFFFFFFF80002000
       (setup_isrs (\<lambda>v. 0xFFFFFFFF80001000 + 16 * word_of_nat v) no_tables)) ! 33) = 0xFFFFFFFF80001210
   \<and> tss_addr (gdt (gdt_tables 0 0xFFFFFFFF80123456 no_tables) ! 5) (gdt (gdt_tables 0 0xFFFFFFFF80123456 no_tables) ! 6)
       = 0xFFFFFFFF80123456"
  using descriptor_tables_ok [of no_tables "\<lambda>v. 0xFFFFFFFF80001000 + 16 * word_of_nat v" "0xFFFFFFFF80002000" 0 "0xFFFFFFFF80123456"]
  by (auto simp: no_tables_def)

end
