(* ===== verification/Disk.thy ===== *)
theory Disk
  imports Serial
begin

unbundle bit_operations_syntax

text \<open>
  The disk driver: sector transfers by programmed I/O on the primary ATA channel
  (\<^verbatim>\<open>src/src/drivers/fatfs/ata.c\<close>, \<^verbatim>\<open>src/include/drivers/fatfs/ata.h\<close>) and the block interface that the
  file system calls (\<^verbatim>\<open>src/src/drivers/fatfs/diskio.c\<close>). The drive is behind the ports of
  \<^verbatim>\<open>Serial\<close>; what the standard promises of it and what the driver relies on beyond that are the
  hypotheses \<open>ata_ok\<close>, \<open>ata_quiet\<close> and \<open>ata_prompt\<close> below. Sectors are addressed by
  28 bits, polling loops may run forever.
\<close>

subsection \<open>The driver\<close>














subsection \<open>The block interface\<close>

definition RES_OK :: u32 where "RES_OK = 0"

definition disk_initialize :: "u8 \<Rightarrow> u8" where "disk_initialize pdrv = 0"
definition disk_status :: "u8 \<Rightarrow> u8" where "disk_status pdrv = 0"





definition disk_ioctl :: "u8 \<Rightarrow> u8 \<Rightarrow> u32" where "disk_ioctl pdrv cmd = RES_OK"

subsection \<open>The drive\<close>




















subsection \<open>One sector\<close>














definition words_bytes :: "u16 list \<Rightarrow> u8 list" where
  "words_bytes ws = concat (map (\<lambda>w. [ucast w, ucast (drop_bit 8 w)]) ws)"


lemma words_bytes_simps [simp]:
  "words_bytes [] = []" "words_bytes (w # ws) = ucast w # ucast (drop_bit 8 w) # words_bytes ws"
  "length (words_bytes ws) = 2 * length ws"
  by (simp_all add: words_bytes_def length_concat o_def sum_list_triv)











subsection \<open>Runs of sectors\<close>











subsection \<open>Properties\<close>












end
