(* ===== verification/Boot.thy ===== *)
theory Boot
  imports Interrupts
begin

unbundle bit_operations_syntax

text \<open>
  The boot sequence of \<^verbatim>\<open>src/src/main.c\<close>: \<^verbatim>\<open>system_init\<close> runs the set-up of every component in the order of
  the code and \<^verbatim>\<open>kmain\<close> starts the window manager. What the boot loader hands over, the addresses that the
  linker chooses and the result of mounting the FAT volume are the fields of \<open>boot_info\<close>.
\<close>

record boot_info =
  base_revision_supported :: bool
  memmap :: "memmap_entry list"
  kernel_physical_base :: u64
  kernel_size :: u64
  hhdm_offset :: u64
  framebuffers :: "limine_framebuffer list option"
  mount_result :: u32
  gdt_address :: u64
  tss_address :: u64
  idt_address :: u64
  stub_table :: "nat \<Rightarrow> u64"
  syscall_stub :: u64

definition PIT_FREQUENCY_HZ :: u32 where "PIT_FREQUENCY_HZ = 500"

text \<open>The loop that copies the present entries of the boot loader's top-level table.\<close>

definition copy_present :: "nat \<Rightarrow> u64 \<Rightarrow> u64 \<Rightarrow> (u64 \<Rightarrow> u64) \<Rightarrow> u64 \<Rightarrow> u64" where
  "copy_present n boot_pml4 pml4 m =
     fold (\<lambda>i m. if m (entry_addr boot_pml4 (word_of_nat i)) AND VMM_PRESENT \<noteq> 0
                 then m(entry_addr pml4 (word_of_nat i) := m (entry_addr boot_pml4 (word_of_nat i))) else m) [0..<n] m"

definition copy_bootloader_pml4 :: "u64 \<Rightarrow> vm_state \<Rightarrow> (u64 \<times> vm_state) option" where
  "copy_bootloader_pml4 hhdm s =
     do {
       let boot_cr3 = read_cr3 s;
       let boot_pml4 = (boot_cr3 AND PAGE_ALIGN_MASK) + hhdm;
       (pml4, s) \<leftarrow> vmm_create_pml4 s;
       Some (pml4, s\<lparr>mem := copy_present 512 boot_pml4 pml4 (mem s)\<rparr>)
     }"

definition mount_filesystem :: "'p ports \<Rightarrow> u32 \<Rightarrow> 'p \<Rightarrow> 'p option" where
  "mount_filesystem D res d =
     (if res \<noteq> FR_OK then serial_printf D (literal ''Failed to mount filesystem'' @ [0x0A]) [] d
      else serial_printf D (literal ''Mounted filesystem'' @ [0x0A]) [] d)"

definition system_init :: "'p ports \<Rightarrow> boot_info \<Rightarrow> cpu_tables \<times> kernel \<times> 'p \<Rightarrow> (cpu_tables \<times> kernel \<times> 'p) option" where
  "system_init D b = (\<lambda>(c, k, d).
     do {
       d \<leftarrow> serial_init D d;
       (c, d) \<leftarrow> gdt_init D (gdt_address b) (tss_address b) (c, d);
       (c, d) \<leftarrow> idt_init D (stub_table b) (syscall_stub b) (idt_address b) (c, d);
       p \<leftarrow> pmm_init (memmap b) (kernel_physical_base b) (kernel_size b) (hhdm_offset b) (pmm (kvm k));
       let k = with_vm (\<lambda>v. v\<lparr>pmm := p\<rparr>) k;
       (pml4, v) \<leftarrow> copy_bootloader_pml4 (hhdm_offset b) (kvm k);
       let k = with_vm (\<lambda>_. v) k;
       let k = k\<lparr>kheap := (kheap k)\<lparr>kernel_pml4 := pml4\<rparr>\<rparr>;
       let k = with_vm (vmm_switch_pml4 pml4) k;
       h \<leftarrow> heap_init (kheap k);
       let k = k\<lparr>kheap := h\<rparr>;
       d \<leftarrow> keyboard_init D d;
       d \<leftarrow> mount_filesystem D (mount_result b) d;
       k \<leftarrow> scheduler_init k;
       k \<leftarrow> graphics_init (framebuffers b) k;
       d \<leftarrow> pit_init D PIT_FREQUENCY_HZ d;
       Some (c, k, d)
     })"

text \<open>\<^verbatim>\<open>kmain\<close> never returns: it ends in \<^verbatim>\<open>hcf\<close>, and interrupts go on from the state that it leaves.\<close>

definition kmain :: "'p ports \<Rightarrow> ('f, 'd) fatfs \<Rightarrow> boot_info \<Rightarrow> cpu_tables \<times> kernel \<times> 'p \<Rightarrow> (cpu_tables \<times> kernel \<times> 'p) option" where
  "kmain D fs b m =
     (if \<not> base_revision_supported b then None
      else do {
        (c, k, d) \<leftarrow> system_init D b m;
        (_, k) \<leftarrow> create_user_process_from_file fs (literal ''/bin/idpwm.elf'') [literal ''/'', literal ''/bin/idpwm.elf''] True k;
        Some (c, k, d)
      })"

subsection \<open>The kernel's first table\<close>

lemma copy_present_Suc:
  "copy_present (Suc n) b t m = (let m' = copy_present n b t m in
     if m' (entry_addr b (word_of_nat n)) AND VMM_PRESENT \<noteq> 0
     then m'(entry_addr t (word_of_nat n) := m' (entry_addr b (word_of_nat n))) else m')"
  by (simp add: copy_present_def Let_def)

lemma copy_present_other: "(\<And>i. i < n \<Longrightarrow> a \<noteq> entry_addr t (word_of_nat i)) \<Longrightarrow> copy_present n b t m a = m a"
  by (induction n) (simp_all add: copy_present_Suc Let_def, simp add: copy_present_def)

lemma copy_present_entry:
  assumes disj: "\<And>i j. i < 512 \<Longrightarrow> j < 512 \<Longrightarrow> entry_addr b (word_of_nat i) \<noteq> entry_addr t (word_of_nat j)"
    and "n \<le> 512" and "j < 512"
  shows "copy_present n b t m (entry_addr t (word_of_nat j)) =
     (if j < n \<and> m (entry_addr b (word_of_nat j)) AND VMM_PRESENT \<noteq> 0 then m (entry_addr b (word_of_nat j)) else m (entry_addr t (word_of_nat j)))"
  using assms(2)
proof (induction n)
  case 0
  then show ?case by (simp add: copy_present_def)
next
  case (Suc n)
  have b: "copy_present n b t m (entry_addr b (word_of_nat n)) = m (entry_addr b (word_of_nat n))"
    using Suc.prems disj by (intro copy_present_other) simp
  have "entry_addr t (word_of_nat j) = entry_addr t (word_of_nat n) \<longleftrightarrow> j = n"
    using inj_onD [OF entry_inj_on [OF order_refl, of t 0], of j n] Suc.prems assms(3) by auto
  with Suc b show ?case by (auto simp: copy_present_Suc Let_def)
qed

text \<open>
  The kernel takes over the boot loader's address space: \<^verbatim>\<open>copy_bootloader_pml4\<close> returns a top-level
  table in a frame that was free, whose entries are the present ones of the boot loader's table and zero
  otherwise, and no memory outside that frame changes.
\<close>

theorem copy_bootloader_pml4_ok:
  assumes "pmm_inv (pmm s)" and "hhdm_ok s" and "used_pages (pmm s) < total_pages (pmm s)"
    and "read_cr3 s AND PAGE_ALIGN_MASK = k * PAGE_SIZE" and "k < total_pages (pmm s)" and "page_used (pmm s) k"
  shows "\<exists>f s'. copy_bootloader_pml4 (limine_hhdm (pmm s)) s = Some (frame_addr s f, s')
     \<and> \<not> page_used (pmm s) f \<and> page_used (pmm s') f \<and> pmm_inv (pmm s')
     \<and> (\<forall>i < 512. mem s' (entry_addr (frame_addr s f) (word_of_nat i)) =
          (if mem s (entry_addr (frame_addr s k) (word_of_nat i)) AND VMM_PRESENT \<noteq> 0
           then mem s (entry_addr (frame_addr s k) (word_of_nat i)) else 0))
     \<and> (\<forall>a. \<not> a - frame_addr s f < PAGE_SIZE \<longrightarrow> mem s' a = mem s a)"
proof -
  obtain f m where f: "pmm_alloc_page (pmm s) = Some (frame_addr s f, m)" "f < total_pages (pmm s)"
      "\<not> page_used (pmm s) f" "pmm_inv m" "used_set m = insert f (used_set (pmm s))"
    and m: "m = (bitmap_set f (pmm s))\<lparr>last_search_pos := f, used_pages := used_pages (pmm s) + 1\<rparr>"
    using pmm_alloc_page_correct [OF assms(1,3)] unfolding frame_addr_def by metis
  let ?t = "frame_addr s f" and ?k = "frame_addr s k"
  define m1 where "m1 = zero_page ?t (mem s)"
  define s' where "s' = s\<lparr>pmm := m, mem := copy_present 512 ?k ?t m1\<rparr>"
  have ix: "(word_of_nat i :: u64) < 512" if "i < 512" for i using that by (simp add: word_less_nat_alt unat_index)
  have ne: "k \<noteq> f" using assms(6) f by auto
  have disj: "entry_addr ?k (word_of_nat i) \<noteq> entry_addr ?t (word_of_nat j)" if "i < 512" "j < 512" for i j
    using entry_addr_inj [OF assms(2,5) f(2) ix ix] that ne by blast
  have r: "copy_bootloader_pml4 (limine_hhdm (pmm s)) s = Some (?t, s')"
    using f(1) frame_addr_nonzero [OF assms(2) f(2)]
    by (simp add: copy_bootloader_pml4_def vmm_create_pml4_def s'_def m1_def assms(4) frame_addr_def Let_def)
  have k: "m1 (entry_addr ?k (word_of_nat i)) = mem s (entry_addr ?k (word_of_nat i))" if "i < 512" for i
    using entry_addr_in_page [OF assms(2,5) f(2) ix] that ne by (auto simp: m1_def zero_page_def)
  have z: "m1 (entry_addr ?t (word_of_nat i)) = 0" if "i < 512" for i
    using entry_addr_same_page [OF ix [OF that]] by (simp add: m1_def zero_page_def)
  have "mem s' a = mem s a" if "\<not> a - ?t < PAGE_SIZE" for a
  proof -
    have "a \<noteq> entry_addr ?t (word_of_nat i)" if "i < 512" for i
      using entry_addr_same_page [OF ix [OF that], of ?t] \<open>\<not> a - ?t < PAGE_SIZE\<close> by auto
    then show ?thesis using that by (simp add: s'_def copy_present_other m1_def zero_page_def)
  qed
  moreover have "mem s' (entry_addr ?t (word_of_nat i)) = (if mem s (entry_addr ?k (word_of_nat i)) AND VMM_PRESENT \<noteq> 0
       then mem s (entry_addr ?k (word_of_nat i)) else 0)" if "i < 512" for i
    using copy_present_entry [OF disj order_refl that, of m1] that by (simp add: s'_def k z)
  moreover have "page_used (pmm s') f" using f(2,5) by (auto simp: s'_def used_set_def)
  ultimately show ?thesis using r f(3,4) by (auto simp: s'_def)
qed

theorem copy_bootloader_pml4_ok_witness:
  "\<exists>f s'. copy_bootloader_pml4 (limine_hhdm (pmm vm_example)) vm_example = Some (frame_addr vm_example f, s')
     \<and> pmm_inv (pmm s')"
proof -
  have "used_pages (pmm vm_example) < total_pages (pmm vm_example)" "0 < total_pages (pmm vm_example)"
    "read_cr3 vm_example AND PAGE_ALIGN_MASK = 0 * PAGE_SIZE"
    by (simp_all add: vm_example_def read_cr3_def PAGE_ALIGN_MASK_def)
  then show ?thesis
    using copy_bootloader_pml4_ok [OF vm_example_inv vm_example_ok _ _ _ iffD2 [OF vm_example_used, of 0]] by blast
qed

end
