(* ===== verification/Gfx.thy ===== *)
theory Gfx
  imports FileIface
begin

unbundle bit_operations_syntax

text \<open>
  The drawing library of the user programs, \<^verbatim>\<open>src/userspace/libgfx/gfx.c\<close> and \<^verbatim>\<open>gfx.h\<close>, with the image
  format of \<^verbatim>\<open>src/userspace/idpimg/idpimg.h\<close>. A surface is the list of its pixels, row after row; a font
  is its header and the bytes of its glyphs. A C \<^verbatim>\<open>int\<close> is an integer; a sum or product that does not fit
  32 bits and an access outside a buffer, both undefined in C, have the value \<open>None\<close>: that a drawing routine
  returns \<open>Some\<close> says that it computes in range and stays inside its buffers.
\<close>

subsection \<open>Loops and pixels\<close>

text \<open>\<^verbatim>\<open>for (i : xs) body\<close> over a state, where the body may have no result.\<close>

primrec foldM :: "('a \<Rightarrow> 's \<Rightarrow> 's option) \<Rightarrow> 'a list \<Rightarrow> 's \<Rightarrow> 's option" where
  "foldM f [] s = Some s"
| "foldM f (x # xs) s = f x s \<bind> foldM f xs"

definition peek :: "'a list \<Rightarrow> int \<Rightarrow> 'a option" where
  "peek xs i = (if 0 \<le> i \<and> i < int (length xs) then Some (xs ! nat i) else None)"

definition poke :: "int \<Rightarrow> 'a \<Rightarrow> 'a list \<Rightarrow> 'a list option" where
  "poke i v xs = (if 0 \<le> i \<and> i < int (length xs) then Some (xs[nat i := v]) else None)"

text \<open>\<^verbatim>\<open>memcpy\<close> of \<open>n\<close> elements, front to back.\<close>

definition copy_cells :: "'a list \<Rightarrow> int \<Rightarrow> 'a list \<Rightarrow> int \<Rightarrow> int \<Rightarrow> 'a list option" where
  "copy_cells dst di src si n =
     (if 0 \<le> n \<and> 0 \<le> di \<and> 0 \<le> si \<and> di + n \<le> int (length dst) \<and> si + n \<le> int (length src)
      then Some (take (nat di) dst @ take (nat n) (drop (nat si) src) @ drop (nat (di + n)) dst) else None)"

subsection \<open>The library\<close>

record psf2_header =
  font_magic :: u32
  font_version :: u32
  headersize :: u32
  font_flags :: u32
  font_length :: u32
  charsize :: u32
  font_height :: u32
  font_width :: u32

record gfx_context =
  fb :: "u32 list"
  width :: int
  height :: int
  pitch :: int
  font_header :: "psf2_header option"
  glyph_data :: "u8 list"

definition is_valid_psf2 :: "u8 list \<Rightarrow> bool" where
  "is_valid_psf2 b \<longleftrightarrow> take 4 b = [0x72, 0xB5, 0x4A, 0x86]"

definition psf2_field :: "u8 list \<Rightarrow> nat \<Rightarrow> u32" where
  "psf2_field b off = ucast (le_val (take 4 (drop off b)))"

definition psf2_of :: "u8 list \<Rightarrow> psf2_header" where
  "psf2_of b = \<lparr>font_magic = psf2_field b 0, font_version = psf2_field b 4, headersize = psf2_field b 8,
     font_flags = psf2_field b 12, font_length = psf2_field b 16, charsize = psf2_field b 20, font_height = psf2_field b 24, font_width = psf2_field b 28\<rparr>"

text \<open>A \<^verbatim>\<open>NULL\<close> argument is \<open>None\<close>.\<close>

definition gfx_init :: "u8 list option \<Rightarrow> u32 list option \<Rightarrow> int \<Rightarrow> int \<Rightarrow> gfx_context \<Rightarrow> int \<times> gfx_context" where
  "gfx_init font_buffer fb_addr w h ctx =
     (case (font_buffer, fb_addr) of
        (Some font, Some px) \<Rightarrow>
          if \<not> is_valid_psf2 font then (-1, ctx)
          else (0, ctx\<lparr>fb := px, width := w, height := h, pitch := w, font_header := Some (psf2_of font),
                       glyph_data := drop (unat (headersize (psf2_of font))) font\<rparr>)
      | _ \<Rightarrow> (-1, ctx))"

definition gfx_font_width :: "gfx_context \<Rightarrow> int" where
  "gfx_font_width ctx = (case font_header ctx of Some h \<Rightarrow> sint (font_width h) | None \<Rightarrow> 8)"

definition gfx_font_height :: "gfx_context \<Rightarrow> int" where
  "gfx_font_height ctx = (case font_header ctx of Some h \<Rightarrow> sint (font_height h) | None \<Rightarrow> 16)"

definition gfx_clear :: "u32 \<Rightarrow> gfx_context \<Rightarrow> gfx_context option" where
  "gfx_clear color ctx =
     do {
       sz \<leftarrow> int32 (width ctx * height ctx);
       map_option (\<lambda>p. ctx\<lparr>fb := p\<rparr>) (foldM (\<lambda>i. poke i color) [0..sz - 1] (fb ctx))
     }"

text \<open>\<^verbatim>\<open>(y + row) * ctx->pitch\<close>, the offset of a row of pixels.\<close>

definition row_start :: "int \<Rightarrow> gfx_context \<Rightarrow> int option" where
  "row_start y ctx = do { y \<leftarrow> int32 y; int32 (y * pitch ctx) }"

definition gfx_rect :: "int \<Rightarrow> int \<Rightarrow> int \<Rightarrow> int \<Rightarrow> u32 \<Rightarrow> gfx_context \<Rightarrow> gfx_context option" where
  "gfx_rect x y w h color ctx =
     do {
       (w, x) \<leftarrow> (if x < 0 then do { w \<leftarrow> int32 (w + x); Some (w, 0) } else Some (w, x));
       (h, y) \<leftarrow> (if y < 0 then do { h \<leftarrow> int32 (h + y); Some (h, 0) } else Some (h, y));
       right \<leftarrow> int32 (x + w);
       w \<leftarrow> (if right > width ctx then int32 (width ctx - x) else Some w);
       bottom \<leftarrow> int32 (y + h);
       h \<leftarrow> (if bottom > height ctx then int32 (height ctx - y) else Some h);
       if w \<le> 0 \<or> h \<le> 0 then Some ctx
       else map_option (\<lambda>p. ctx\<lparr>fb := p\<rparr>)
         (foldM (\<lambda>row p. do { a \<leftarrow> row_start (y + row) ctx; foldM (\<lambda>col. poke (a + x + col) color) [0..w - 1] p }) [0..h - 1] (fb ctx))
     }"

text \<open>
  \<^verbatim>\<open>c * charsize\<close> multiplies the sign-extended character with a 32-bit unsigned number: characters
  above 127 give an offset close to \<open>2\<^sup>3\<^sup>2\<close>. A \<^verbatim>\<open>break\<close> ends a loop at the first index that is off the screen.
\<close>

definition glyph_bit :: "psf2_header \<Rightarrow> u8 list \<Rightarrow> u8 \<Rightarrow> int \<Rightarrow> int \<Rightarrow> bool option" where
  "glyph_bit fh glyphs c row col =
     do {
       n \<leftarrow> int32 (sint (font_width fh) + 7);
       let bytes_per_row = n div 8;
       let byte_offset = col div 8;
       let bit_offset = 7 - col mod 8;
       i \<leftarrow> int32 (row * bytes_per_row + byte_offset);
       b \<leftarrow> peek glyphs (uint (scast c * charsize fh) + i);
       Some (bit b (nat bit_offset))
     }"

definition gfx_draw_char :: "int \<Rightarrow> int \<Rightarrow> u8 \<Rightarrow> u32 \<Rightarrow> u32 \<Rightarrow> gfx_context \<Rightarrow> gfx_context option" where
  "gfx_draw_char x y c fg bg ctx =
     (case font_header ctx of
        None \<Rightarrow> Some ctx
      | Some fh \<Rightarrow>
          if x \<ge> width ctx \<or> y \<ge> height ctx then Some ctx
          else map_option (\<lambda>p. ctx\<lparr>fb := p\<rparr>)
            (foldM (\<lambda>row p. do {
                 a \<leftarrow> row_start (y + row) ctx;
                 foldM (\<lambda>col p. do { b \<leftarrow> glyph_bit fh (glyph_data ctx) c row col; poke (a + x + col) (if b then fg else bg) p })
                   (takeWhile (\<lambda>col. x + col < width ctx) [0..sint (font_width fh) - 1]) p
               })
               (takeWhile (\<lambda>row. y + row < height ctx) [0..sint (font_height fh) - 1]) (fb ctx)))"

definition channel :: "u32 \<Rightarrow> u32 \<Rightarrow> u32 \<Rightarrow> u32" where
  "channel s d alpha = (s * alpha + d * (255 - alpha)) div 255"

definition blend_pixel :: "u32 \<Rightarrow> u32 \<Rightarrow> u32" where
  "blend_pixel fg bg =
     (let alpha = drop_bit 24 fg AND 0xFF
      in if alpha = 0 then bg
         else if alpha = 255 then fg
         else
           let r = channel (drop_bit 16 fg AND 0xFF) (drop_bit 16 bg AND 0xFF) alpha;
               g = channel (drop_bit 8 fg AND 0xFF) (drop_bit 8 bg AND 0xFF) alpha;
               b = channel (fg AND 0xFF) (bg AND 0xFF) alpha
           in 0xFF000000 OR push_bit 16 r OR push_bit 8 g OR b)"

definition IDPIMG_MAGIC :: u32 where "IDPIMG_MAGIC = 0x474D49"

record idpimg_header =
  img_magic :: u32
  img_width :: u32
  img_height :: u32
  img_flags :: u32

definition img_u32 :: "u8 list \<Rightarrow> int \<Rightarrow> u32 option" where
  "img_u32 img i = (if 0 \<le> i \<and> 4 * i + 4 \<le> int (length img) then Some (ucast (le_val (take 4 (drop (nat (4 * i)) img)))) else None)"

definition img_header :: "u8 list \<Rightarrow> idpimg_header option" where
  "img_header img = do { mg \<leftarrow> img_u32 img 0; w \<leftarrow> img_u32 img 1; h \<leftarrow> img_u32 img 2; fl \<leftarrow> img_u32 img 3;
     Some \<lparr>img_magic = mg, img_width = w, img_height = h, img_flags = fl\<rparr> }"

text \<open>\<^verbatim>\<open>row * header->width\<close> is a product of 32-bit unsigned numbers.\<close>

definition gfx_draw_image :: "int \<Rightarrow> int \<Rightarrow> u8 list \<Rightarrow> gfx_context \<Rightarrow> gfx_context option" where
  "gfx_draw_image x y img ctx =
     do {
       header \<leftarrow> img_header img;
       if img_magic header \<noteq> IDPIMG_MAGIC then Some ctx
       else do {
         let draw_w = sint (img_width header);
         let draw_h = sint (img_height header);
         right \<leftarrow> int32 (x + draw_w);
         draw_w \<leftarrow> (if right > width ctx then int32 (width ctx - x) else Some draw_w);
         bottom \<leftarrow> int32 (y + draw_h);
         draw_h \<leftarrow> (if bottom > height ctx then int32 (height ctx - y) else Some draw_h);
         if draw_w \<le> 0 \<or> draw_h \<le> 0 then Some ctx
         else map_option (\<lambda>p. ctx\<lparr>fb := p\<rparr>)
           (foldM (\<lambda>row p. do {
                a \<leftarrow> row_start (y + row) ctx;
                foldM (\<lambda>col p.
                   do {
                     src \<leftarrow> img_u32 img (4 + uint (word_of_int row * img_width header) + col);
                     dst \<leftarrow> peek p (a + x + col);
                     poke (a + x + col) (blend_pixel src dst) p
                   }) [0..draw_w - 1] p
              }) [0..draw_h - 1] (fb ctx))
       }
     }"

subsection \<open>Loops over pixels\<close>

lemma foldM_append: "foldM f (xs @ ys) s = foldM f xs s \<bind> foldM f ys"
  by (induction xs arbitrary: s) (simp_all, metis bind.bind_lunit bind_assoc)

lemma foldM_map: "foldM f (map g xs) = foldM (f \<circ> g) xs"
  by (induction xs) (rule ext, simp)+

lemma foldM_cong: "(\<And>x s. x \<in> set xs \<Longrightarrow> f x s = g x s) \<Longrightarrow> foldM f xs s = foldM g xs s"
  by (induction xs arbitrary: s) (auto split: Option.bind_split)

lemma foldM_inv:
  "(\<And>x s. x \<in> set xs \<Longrightarrow> P s \<Longrightarrow> \<exists>s'. f x s = Some s' \<and> P s') \<Longrightarrow> P s \<Longrightarrow> \<exists>s'. foldM f xs s = Some s' \<and> P s'"
proof (induction xs arbitrary: s)
  case (Cons x xs)
  obtain s1 where "f x s = Some s1" "P s1" using Cons.prems(1) [of x s] Cons.prems(2) by auto
  with Cons show ?case by simp
qed simp

text \<open>Two nested loops are one loop over the pairs.\<close>

lemma foldM_product: "foldM (\<lambda>r. foldM (f r) cs) rs = foldM (\<lambda>(r, c). f r c) (List.product rs cs)"
proof (induction rs)
  case (Cons r rs)
  have "foldM (\<lambda>(r, c). f r c) (map (Pair r) cs) = foldM (f r) cs" by (simp add: foldM_map comp_def)
  with Cons show ?case by (intro ext) (simp add: foldM_append)
qed (rule ext, simp)

text \<open>A loop that rewrites each cell at most once.\<close>

definition modify :: "('i \<Rightarrow> int) \<Rightarrow> ('i \<Rightarrow> 'a \<Rightarrow> 'a) \<Rightarrow> 'i \<Rightarrow> 'a list \<Rightarrow> 'a list option" where
  "modify g F i p = do { v \<leftarrow> peek p (g i); poke (g i) (F i v) p }"

lemma modify_Some:
  "0 \<le> g i \<Longrightarrow> g i < int (length p) \<Longrightarrow> modify g F i p = Some (p[nat (g i) := F i (p ! nat (g i))])"
  by (simp add: modify_def peek_def poke_def)

definition modified :: "('i \<Rightarrow> int) \<Rightarrow> ('i \<Rightarrow> 'a \<Rightarrow> 'a) \<Rightarrow> 'i set \<Rightarrow> 'a list \<Rightarrow> 'a list \<Rightarrow> bool" where
  "modified g F I p p' \<longleftrightarrow> length p' = length p \<and> (\<forall>i \<in> I. p' ! nat (g i) = F i (p ! nat (g i)))
     \<and> (\<forall>j. int j \<notin> g ` I \<longrightarrow> p' ! j = p ! j)"

lemma foldM_modify:
  assumes "distinct xs" and "inj_on g (set xs)" and "\<forall>i \<in> set xs. 0 \<le> g i \<and> g i < int (length p)"
  shows "\<exists>p'. foldM (modify g F) xs p = Some p' \<and> modified g F (set xs) p p'"
  using assms
proof (induction xs arbitrary: p)
  case Nil
  then show ?case by (simp add: modified_def)
next
  case (Cons i xs)
  define q where "q = p[nat (g i) := F i (p ! nat (g i))]"
  have m: "modify g F i p = Some q" using Cons.prems(3) by (simp add: modify_Some q_def)
  have "\<exists>p'. foldM (modify g F) xs q = Some p' \<and> modified g F (set xs) q p'"
    using Cons.prems by (intro Cons.IH) (auto simp: q_def inj_on_def)
  then obtain p' where p': "foldM (modify g F) xs q = Some p'" "modified g F (set xs) q p'" by blast
  have new: "g i \<noteq> g j" if "j \<in> set xs" for j using Cons.prems(1,2) that by (auto dest: inj_onD)
  have ge: "0 \<le> g j" if "j \<in> set (i # xs)" for j using Cons.prems(3) that by blast
  then have nn: "nat (g i) \<noteq> nat (g j)" if "j \<in> set xs" for j using new [OF that] that by (metis eq_nat_nat_iff list.set_intros)
  have i: "int (nat (g i)) \<notin> g ` set xs" using new ge [of i] by auto
  have "modified g F (set (i # xs)) p p'"
    unfolding modified_def
  proof (intro conjI ballI allI impI)
    show "length p' = length p" using p'(2) by (simp add: modified_def q_def)
    fix j
    assume "j \<in> set (i # xs)"
    then consider "j = i" | "j \<in> set xs" by auto
    then show "p' ! nat (g j) = F j (p ! nat (g j))"
    proof cases
      case 1
      have "p' ! nat (g i) = q ! nat (g i)" using p'(2) i unfolding modified_def by blast
      also have "\<dots> = F i (p ! nat (g i))" using Cons.prems(3) by (simp add: q_def nat_less_iff)
      finally show ?thesis using 1 by simp
    next
      case 2
      then show ?thesis using p'(2) nn [OF 2] by (simp add: modified_def q_def)
    qed
  next
    fix j
    assume "int j \<notin> g ` set (i # xs)"
    then have "p' ! j = q ! j" "int j \<noteq> g i" using p'(2) by (auto simp: modified_def)
    then show "p' ! j = p ! j" using ge [of i] by (auto simp: q_def nth_list_update)
  qed
  with m p'(1) show ?case by auto
qed

lemma row_col_unique:
  assumes "0 \<le> a" "a < w" "0 \<le> b" "b < w" and "r * w + a = r' * w + (b :: int)"
  shows "r = r' \<and> a = b"
proof -
  have "(a + w * r) div w = (b + w * r') div w" "(a + w * r) mod w = (b + w * r') mod w"
    using assms(5) by (simp_all add: algebra_simps)
  then show ?thesis using assms(1-4) by (simp add: div_pos_pos_trivial mod_pos_pos_trivial)
qed

lemma foldM_rect:
  assumes "\<And>row col p. row \<in> set rows \<Longrightarrow> col \<in> set cols \<Longrightarrow> length p = length p0 \<Longrightarrow> body row col p = modify (\<lambda>(row, col). (y + row) * w + x + col) F (row, col) p"
    and "distinct rows" "distinct cols" and "0 \<le> y" "0 \<le> x" and "int (length p0) = w * h"
    and "\<forall>row \<in> set rows. 0 \<le> row \<and> y + row < h" and "\<forall>col \<in> set cols. 0 \<le> col \<and> x + col < w"
  shows "\<exists>p'. foldM (\<lambda>row. foldM (body row) cols) rows p0 = Some p'
     \<and> modified (\<lambda>(row, col). (y + row) * w + x + col) F (set rows \<times> set cols) p0 p'"
proof -
  let ?g = "\<lambda>(row, col). (y + row) * w + x + col" and ?I = "List.product rows cols"
  have rng: "0 \<le> ?g i \<and> ?g i < int (length p0)" if m: "i \<in> set ?I" for i
  proof -
    obtain row col where i: "i = (row, col)" "row \<in> set rows" "col \<in> set cols" using m by auto
    then have b: "0 \<le> row" "y + row < h" "0 \<le> col" "x + col < w" using assms(7,8) by auto
    then have "(y + row) * w + x + col < (y + row + 1) * w" by (simp add: algebra_simps)
    also have "\<dots> \<le> h * w" using b assms(5) by (intro mult_right_mono) auto
    finally have "(y + row) * w + x + col < h * w" .
    moreover have "0 \<le> (y + row) * w" using b assms(4,5) by (intro mult_nonneg_nonneg) auto
    ultimately show ?thesis using b assms(5,6) by (simp add: i mult.commute)
  qed
  have inj: "inj_on ?g (set ?I)"
  proof (rule inj_onI)
    fix i j
    assume "i \<in> set ?I" "j \<in> set ?I" "?g i = ?g j"
    then obtain r c r' c' where e: "i = (r, c)" "j = (r', c')" "0 \<le> x + c" "x + c < w" "0 \<le> x + c'" "x + c' < w"
        "(y + r) * w + (x + c) = (y + r') * w + (x + c')"
      using assms(5,8) by (auto simp: add.assoc)
    from row_col_unique [OF e(3-7)] have "y + r = y + r'" "x + c = x + c'" by simp_all
    then show "i = j" using e by simp
  qed
  have "distinct ?I" using assms(2,3) by (simp add: distinct_product)
  from foldM_modify [OF this inj] rng obtain p' where
    p': "foldM (modify ?g F) ?I p0 = Some p'" "modified ?g F (set ?I) p0 p'" by blast
  have "foldM (\<lambda>(row, col). body row col) is p = foldM (modify ?g F) is p" if "set is \<subseteq> set ?I" "length p = length p0" for "is" p
    using that
  proof (induction "is" arbitrary: p)
    case (Cons i "is")
    obtain row col where i: "i = (row, col)" "row \<in> set rows" "col \<in> set cols" using Cons.prems by auto
    then have b: "body row col p = modify ?g F i p" using assms(1) Cons.prems(2) by simp
    have "length q = length p0" if "modify ?g F i p = Some q" for q
      using that Cons.prems(2) by (auto simp: modify_def bind_eq_Some_conv poke_def split: if_splits)
    then show ?case using Cons b i by (cases "modify ?g F i p") auto
  qed simp
  with p' show ?thesis unfolding foldM_product by auto
qed

lemma modified_pixel:
  assumes "modified (\<lambda>(row, col). (y + row) * w + x + col) F (R \<times> C) p p'" and "0 \<le> x" "0 \<le> px" "px < w" "0 \<le> py"
    and "\<forall>col \<in> C. 0 \<le> col \<and> x + col < w" and "\<forall>row \<in> R. 0 \<le> y + row"
  shows "p' ! nat (py * w + px) = (if py - y \<in> R \<and> px - x \<in> C then F (py - y, px - x) (p ! nat (py * w + px)) else p ! nat (py * w + px))"
proof (cases "py - y \<in> R \<and> px - x \<in> C")
  case True
  then show ?thesis using assms(1) unfolding modified_def by force
next
  case False
  have "int (nat (py * w + px)) = py * w + px" using assms(3-5) by simp
  moreover have "py * w + px \<noteq> (y + row) * w + x + col" if "row \<in> R" "col \<in> C" for row col
    using row_col_unique [of px w "x + col" py "y + row"] assms(2-6) that False by (auto simp: algebra_simps)
  ultimately have "int (nat (py * w + px)) \<notin> (\<lambda>(row, col). (y + row) * w + x + col) ` (R \<times> C)" by auto
  then show ?thesis using assms(1) False unfolding modified_def by auto
qed

subsection \<open>What is drawn\<close>

text \<open>A surface whose number of pixels fits an \<^verbatim>\<open>int\<close>.\<close>

definition screen_ok :: "gfx_context \<Rightarrow> bool" where
  "screen_ok ctx \<longleftrightarrow> int (length (fb ctx)) = width ctx * height ctx \<and> pitch ctx = width ctx
     \<and> 0 \<le> width ctx \<and> width ctx < 0x80000000 \<and> 0 \<le> height ctx \<and> height ctx < 0x80000000
     \<and> width ctx * height ctx < 0x80000000"

lemma row_start_ok:
  assumes "screen_ok ctx" and "0 \<le> y" and "y < height ctx"
  shows "row_start y ctx = Some (y * width ctx)"
proof -
  have w: "pitch ctx = width ctx" "0 \<le> width ctx" "height ctx < 0x80000000" "width ctx * height ctx < 0x80000000"
    using assms(1) by (simp_all add: screen_ok_def)
  have "y * width ctx \<le> height ctx * width ctx" using assms w by (intro mult_right_mono) auto
  then have "int32 (y * width ctx) = Some (y * width ctx)" using assms w by (intro int32_nonneg [OF _ order_refl]) (auto simp: mult.commute)
  moreover have "int32 y = Some y" using assms w by (intro int32_nonneg [OF _ order_refl]) auto
  ultimately show ?thesis by (simp add: row_start_def w)
qed

text \<open>Loops over the rows that first compute the offset of the row.\<close>

lemma foldM_rows:
  assumes "screen_ok ctx" and "\<forall>row \<in> set rows. 0 \<le> y + row \<and> y + row < height ctx"
  shows "foldM (\<lambda>row p. do { a \<leftarrow> row_start (y + row) ctx; f a row p }) rows p = foldM (\<lambda>row. f ((y + row) * width ctx) row) rows p"
  using assms by (intro foldM_cong) (simp add: row_start_ok)

definition pixel :: "gfx_context \<Rightarrow> int \<Rightarrow> int \<Rightarrow> u32" where
  "pixel ctx x y = fb ctx ! nat (y * width ctx + x)"

text \<open>\<open>painted F ctx ctx'\<close>: the same surface with pixel \<open>(x, y)\<close> replaced by \<open>F x y\<close> of it.\<close>

definition painted :: "(int \<Rightarrow> int \<Rightarrow> u32 \<Rightarrow> u32) \<Rightarrow> gfx_context \<Rightarrow> gfx_context \<Rightarrow> bool" where
  "painted F ctx ctx' \<longleftrightarrow> screen_ok ctx' \<and> ctx' = ctx\<lparr>fb := fb ctx'\<rparr>
     \<and> (\<forall>x y. 0 \<le> x \<and> x < width ctx \<and> 0 \<le> y \<and> y < height ctx \<longrightarrow> pixel ctx' x y = F x y (pixel ctx x y))"

lemma painted_cong:
  "painted F ctx ctx' \<Longrightarrow> (\<And>x y v. 0 \<le> x \<Longrightarrow> x < width ctx \<Longrightarrow> 0 \<le> y \<Longrightarrow> y < height ctx \<Longrightarrow> F x y v = G x y v) \<Longrightarrow> painted G ctx ctx'"
  by (simp add: painted_def)

lemma paint_rect:
  assumes "screen_ok ctx" and "0 \<le> x" "0 \<le> y" and "distinct rows" "distinct cols"
    and "\<forall>row \<in> set rows. 0 \<le> row \<and> y + row < height ctx" and "\<forall>col \<in> set cols. 0 \<le> col \<and> x + col < width ctx"
    and "\<And>row col p. row \<in> set rows \<Longrightarrow> col \<in> set cols \<Longrightarrow> length p = length (fb ctx) \<Longrightarrow>
       body row col p = modify (\<lambda>(row, col). (y + row) * width ctx + x + col) F (row, col) p"
  shows "\<exists>ctx'. map_option (\<lambda>p. ctx\<lparr>fb := p\<rparr>) (foldM (\<lambda>row. foldM (body row) cols) rows (fb ctx)) = Some ctx'
     \<and> painted (\<lambda>px py v. if py - y \<in> set rows \<and> px - x \<in> set cols then F (py - y, px - x) v else v) ctx ctx'"
proof -
  have len: "int (length (fb ctx)) = width ctx * height ctx" and pw: "pitch ctx = width ctx"
    using assms(1) by (simp_all add: screen_ok_def)
  from foldM_rect [OF assms(8,4,5,3,2) len assms(6,7)] obtain p' where
    p': "foldM (\<lambda>row. foldM (body row) cols) rows (fb ctx) = Some p'"
      "modified (\<lambda>(row, col). (y + row) * width ctx + x + col) F (set rows \<times> set cols) (fb ctx) p'" by blast
  have "screen_ok (ctx\<lparr>fb := p'\<rparr>)" using p'(2) assms(1) by (simp add: screen_ok_def modified_def)
  moreover have "\<forall>row \<in> set rows. 0 \<le> y + row" using assms(3,6) by auto
  ultimately show ?thesis
    using p'(1) modified_pixel [OF p'(2) assms(2) _ _ _ assms(7)] by (auto simp: painted_def pixel_def)
qed

lemma modify_const: "modify g (\<lambda>i _. v i) i p = poke (g i) (v i) p"
  by (simp add: modify_def poke_def peek_def)

text \<open>
  C32. \<^verbatim>\<open>gfx_rect\<close> fills exactly the part of the rectangle that is on the screen, negative positions and sizes
  included, and writes nowhere else, if both far edges \<open>x + w\<close> and \<open>y + h\<close> fit an \<^verbatim>\<open>int\<close>. For all other arguments
  the clipping itself overflows and nothing is promised.
\<close>

theorem gfx_rect_ok:
  assumes "screen_ok ctx" and "\<forall>a \<in> {x, y, w, h}. int32 a \<noteq> None"
  shows "if int32 (x + w) \<noteq> None \<and> int32 (y + h) \<noteq> None
     then \<exists>ctx'. gfx_rect x y w h color ctx = Some ctx'
       \<and> painted (\<lambda>px py v. if x \<le> px \<and> px < x + w \<and> y \<le> py \<and> py < y + h then color else v) ctx ctx'
     else gfx_rect x y w h color ctx = None"
proof (cases "int32 (x + w) \<noteq> None \<and> int32 (y + h) \<noteq> None")
  case False
  then show ?thesis
    by (cases "x < 0"; cases "y < 0"; cases "int32 (x + w)"; cases "int32 (y + h)")
      (auto simp: gfx_rect_def add.commute int32_eq_Some split: bind_splits)
next
  case fits: True
  have scr: "0 \<le> width ctx" "width ctx < 0x80000000" "0 \<le> height ctx" "height ctx < 0x80000000"
    using assms(1) by (simp_all add: screen_ok_def)
  define x1 w1 where "x1 = (if x < 0 then 0 else x)" and "w1 = (if x < 0 then w + x else w)"
  define y1 h1 where "y1 = (if y < 0 then 0 else y)" and "h1 = (if y < 0 then h + y else h)"
  define w2 h2 where "w2 = (if x1 + w1 > width ctx then width ctx - x1 else w1)" and "h2 = (if y1 + h1 > height ctx then height ctx - y1 else h1)"
  have sums: "int32 (x + w) = Some (x + w)" "int32 (y + h) = Some (y + h)" and near: "x < 0x80000000" "y < 0x80000000"
    using fits assms(2) by (auto simp: int32_eq_Some)
  have neg: "(if x < 0 then do { w \<leftarrow> int32 (w + x); Some (w, 0) } else Some (w, x)) = Some (w1, x1)"
    "(if y < 0 then do { h \<leftarrow> int32 (h + y); Some (h, 0) } else Some (h, y)) = Some (h1, y1)"
    "x1 + w1 = x + w" "y1 + h1 = y + h" using sums by (simp_all add: x1_def w1_def y1_def h1_def add.commute)
  have cut: "(if x + w > width ctx then int32 (width ctx - x1) else Some w1) = Some w2"
    "(if y + h > height ctx then int32 (height ctx - y1) else Some h1) = Some h2"
    using near scr unfolding w2_def h2_def neg by (auto simp: x1_def y1_def intro!: int32_Some)
  have e: "gfx_rect x y w h color ctx = (if w2 \<le> 0 \<or> h2 \<le> 0 then Some ctx else map_option (\<lambda>p. ctx\<lparr>fb := p\<rparr>)
      (foldM (\<lambda>row p. do { a \<leftarrow> row_start (y1 + row) ctx; foldM (\<lambda>col. poke (a + x1 + col) color) [0..w2 - 1] p }) [0..h2 - 1] (fb ctx)))"
    by (simp add: gfx_rect_def neg sums cut)
  have on: "x \<le> px \<and> px < x + w \<longleftrightarrow> 0 \<le> px - x1 \<and> px - x1 < w2" "y \<le> py \<and> py < y + h \<longleftrightarrow> 0 \<le> py - y1 \<and> py - y1 < h2"
    if "0 \<le> px" "px < width ctx" "0 \<le> py" "py < height ctx" for px py
    using that unfolding x1_def w1_def y1_def h1_def w2_def h2_def by auto
  have "\<exists>ctx'. gfx_rect x y w h color ctx = Some ctx'
       \<and> painted (\<lambda>px py v. if x \<le> px \<and> px < x + w \<and> y \<le> py \<and> py < y + h then color else v) ctx ctx'"
  proof (cases "w2 \<le> 0 \<or> h2 \<le> 0")
    case True
    then have "\<not> (x \<le> px \<and> px < x + w \<and> y \<le> py \<and> py < y + h)" if "0 \<le> px" "px < width ctx" "0 \<le> py" "py < height ctx" for px py
      using on [OF that] by auto
    then show ?thesis using True e assms(1) by (auto simp: painted_def)
  next
    case False
    have rows: "0 \<le> y1" "\<forall>row \<in> set [0..h2 - 1]. 0 \<le> y1 + row \<and> y1 + row < height ctx" by (auto simp: y1_def h2_def)
    have "\<exists>ctx'. map_option (\<lambda>p. ctx\<lparr>fb := p\<rparr>) (foldM (\<lambda>row. foldM (\<lambda>col. poke ((y1 + row) * width ctx + x1 + col) color) [0..w2 - 1])
          [0..h2 - 1] (fb ctx)) = Some ctx'
       \<and> painted (\<lambda>px py v. if py - y1 \<in> set [0..h2 - 1] \<and> px - x1 \<in> set [0..w2 - 1] then (\<lambda>_ _. color) (py - y1, px - x1) v else v) ctx ctx'"
      using assms(1) by (intro paint_rect) (auto simp: x1_def y1_def w2_def h2_def modify_const)
    then obtain ctx' where c: "gfx_rect x y w h color ctx = Some ctx'"
        "painted (\<lambda>px py v. if py - y1 \<in> set [0..h2 - 1] \<and> px - x1 \<in> set [0..w2 - 1] then color else v) ctx ctx'"
      using e False by (auto simp: foldM_rows [OF assms(1) rows(2)])
    have "py - y1 \<in> set [0..h2 - 1] \<and> px - x1 \<in> set [0..w2 - 1] \<longleftrightarrow> x \<le> px \<and> px < x + w \<and> y \<le> py \<and> py < y + h"
      if "0 \<le> px" "px < width ctx" "0 \<le> py" "py < height ctx" for px py
      using on [OF that] by auto
    with c show ?thesis by (auto intro!: painted_cong [OF c(2)])
  qed
  with fits show ?thesis by simp
qed

lemma gfx_clear_ok:
  assumes "screen_ok ctx"
  shows "\<exists>ctx'. gfx_clear color ctx = Some ctx' \<and> painted (\<lambda>px py v. color) ctx ctx'"
proof -
  let ?xs = "[0..width ctx * height ctx - 1]"
  have "distinct ?xs" "inj_on (\<lambda>i :: int. i) (set ?xs)" by simp_all
  moreover have "\<forall>i \<in> set ?xs. 0 \<le> i \<and> i < int (length (fb ctx))" using assms(1) by (simp add: screen_ok_def)
  ultimately obtain p' where p': "foldM (modify (\<lambda>i. i) (\<lambda>_ _. color)) ?xs (fb ctx) = Some p'"
      "modified (\<lambda>i. i) (\<lambda>_ _. color) (set ?xs) (fb ctx) p'"
    using foldM_modify [of ?xs "\<lambda>i. i" "fb ctx" "\<lambda>_ _. color"] by blast
  have "modify (\<lambda>i. i) (\<lambda>_ _. color) = (\<lambda>i. poke i color)" by (intro ext) (simp add: modify_const)
  moreover have "int32 (width ctx * height ctx) = Some (width ctx * height ctx)"
    using assms by (intro int32_nonneg [OF _ order_refl]) (auto simp: screen_ok_def)
  ultimately have e: "gfx_clear color ctx = Some (ctx\<lparr>fb := p'\<rparr>)" using p'(1) by (simp add: gfx_clear_def)
  have "p' ! nat (y * width ctx + x) = color" if "0 \<le> x" "x < width ctx" "0 \<le> y" "y < height ctx" for x y
  proof -
    have "y * width ctx + x < (y + 1) * width ctx" using that by (simp add: algebra_simps)
    also have "\<dots> \<le> height ctx * width ctx" using that by (intro mult_right_mono) auto
    finally have "y * width ctx + x \<in> set ?xs" using that by (simp add: mult.commute)
    then show ?thesis using p'(2) unfolding modified_def by blast
  qed
  moreover have "screen_ok (ctx\<lparr>fb := p'\<rparr>)" using p'(2) assms by (simp add: screen_ok_def modified_def)
  ultimately show ?thesis using e by (auto simp: painted_def pixel_def)
qed

text \<open>A font whose glyphs for the characters below 128 are all there.\<close>

definition font_ok :: "gfx_context \<Rightarrow> bool" where
  "font_ok ctx \<longleftrightarrow> (\<exists>fh. font_header ctx = Some fh \<and> 0 < sint (font_width fh) \<and> 0 < sint (font_height fh)
     \<and> sint (font_height fh) * ((sint (font_width fh) + 7) div 8) \<le> uint (charsize fh)
     \<and> 128 * uint (charsize fh) \<le> int (length (glyph_data ctx)) \<and> 128 * uint (charsize fh) < 2 ^ 32)"

definition glyph_set :: "psf2_header \<Rightarrow> u8 list \<Rightarrow> u8 \<Rightarrow> int \<Rightarrow> int \<Rightarrow> bool" where
  "glyph_set fh glyphs c row col =
     bit (glyphs ! nat (uint c * uint (charsize fh) + row * ((sint (font_width fh) + 7) div 8) + col div 8)) (nat (7 - col mod 8))"

lemma glyph_bit_ok:
  assumes "font_ok ctx" and "font_header ctx = Some fh" and "c < 128"
    and "0 \<le> row" "row < sint (font_height fh)" and "0 \<le> col" "col < sint (font_width fh)"
  shows "glyph_bit fh (glyph_data ctx) c row col = Some (glyph_set fh (glyph_data ctx) c row col)"
proof -
  let ?bpr = "(sint (font_width fh) + 7) div 8" and ?cs = "uint (charsize fh)"
  have f: "sint (font_height fh) * ?bpr \<le> ?cs" "128 * ?cs \<le> int (length (glyph_data ctx))" "128 * ?cs < 2 ^ 32"
    using assms(1,2) by (auto simp: font_ok_def)
  have c: "uint c < 128" using assms(3) by (simp add: word_less_def)
  have "sint c = uint c" using c by (simp add: sint_uint signed_take_bit_int_eq_self_iff order_trans [of _ 0])
  then have "(scast c :: u32) = ucast c" by (metis of_int_sint of_int_uint)
  moreover have le: "uint c * ?cs \<le> 127 * ?cs" using c by (intro mult_right_mono) auto
  moreover have "uint (ucast c :: u32) = uint c" using c by (simp add: unsigned_ucast_eq take_bit_int_eq_self_iff)
  moreover have "uint c * ?cs < 2 ^ 32" using order.strict_trans1 [OF le, of "2 ^ 32"] order.strict_trans1 [OF _ f(3), of "127 * ?cs"] by simp
  ultimately have cs: "uint (scast c * charsize fh) = uint c * ?cs"
    by (simp add: uint_word_ariths mod_pos_pos_trivial)
  have row: "0 \<le> row * ?bpr + col div 8" "row * ?bpr + col div 8 < ?cs"
  proof -
    have "col div 8 < ?bpr" using assms(7) by linarith
    then have "row * ?bpr + col div 8 < (row + 1) * ?bpr" by (simp add: algebra_simps)
    also have "\<dots> \<le> sint (font_height fh) * ?bpr" using assms(5,6,7) by (intro mult_right_mono) auto
    finally show "row * ?bpr + col div 8 < ?cs" using f(1) by linarith
    show "0 \<le> row * ?bpr + col div 8" using assms by simp
  qed
  have small: "?cs < 0x2000000" using f(3) by simp
  then have i: "int32 (row * ?bpr + col div 8) = Some (row * ?bpr + col div 8)" using row by (intro int32_Some) auto
  have "1 * ?bpr \<le> sint (font_height fh) * ?bpr" using assms by (intro mult_right_mono) auto
  then have "?bpr < 0x2000000" using f(1) small by linarith
  then have n: "int32 (sint (font_width fh) + 7) = Some (sint (font_width fh) + 7)"
    using assms(6,7) by (intro int32_Some) linarith+
  have "uint c * ?cs + (row * ?bpr + col div 8) < int (length (glyph_data ctx))" using le row(2) f(2) by linarith
  moreover have "0 \<le> uint c * ?cs" by simp
  ultimately show ?thesis using row(1) by (simp add: glyph_bit_def glyph_set_def peek_def cs i n add.assoc)
qed

lemma draw_char_result:
  assumes "screen_ok ctx" and "font_ok ctx" and "font_header ctx = Some fh" and "c < 128" and "0 \<le> x" and "0 \<le> y"
  shows "\<exists>ctx'. gfx_draw_char x y c fg bg ctx = Some ctx'
     \<and> painted (\<lambda>px py v. if x \<le> px \<and> px < x + sint (font_width fh) \<and> y \<le> py \<and> py < y + sint (font_height fh)
          then (if glyph_set fh (glyph_data ctx) c (py - y) (px - x) then fg else bg) else v) ctx ctx'"
proof (cases "x \<ge> width ctx \<or> y \<ge> height ctx")
  case True
  then show ?thesis using assms(1,3) by (auto simp: gfx_draw_char_def painted_def)
next
  case False
  let ?w = "sint (font_width fh)" and ?h = "sint (font_height fh)"
  have tw: "takeWhile (\<lambda>i. a + i < b) [0..n - 1] = [0..min n (b - a) - 1]" if "a < b" for a b n :: int
  proof (cases "n \<le> b - a")
    case True
    then have "takeWhile (\<lambda>i. a + i < b) [0..n - 1] = [0..n - 1]" by (intro takeWhile_eq_all_conv [THEN iffD2]) auto
    then show ?thesis using True by simp
  next
    case False
    then have "[0..n - 1] = [0..b - a - 1] @ (b - a) # [b - a + 1..n - 1]"
      using that by (metis add_diff_cancel_right' diff_ge_0_iff_ge diff_gt_0_iff_gt linorder_not_less order_less_imp_le upto_split3 zle_diff1_eq)
    moreover have "takeWhile (\<lambda>i. a + i < b) ([0..b - a - 1] @ (b - a) # ys) = [0..b - a - 1]" for ys
      by (subst takeWhile_append2) auto
    ultimately show ?thesis using False by simp
  qed
  let ?rows = "[0..min ?h (height ctx - y) - 1]" and ?cols = "[0..min ?w (width ctx - x) - 1]"
  let ?body = "\<lambda>row col p. do { b \<leftarrow> glyph_bit fh (glyph_data ctx) c row col; poke ((y + row) * width ctx + x + col) (if b then fg else bg) p }"
  have "\<forall>row \<in> set ?rows. 0 \<le> y + row \<and> y + row < height ctx" using assms(6) by auto
  then have e: "gfx_draw_char x y c fg bg ctx = map_option (\<lambda>p. ctx\<lparr>fb := p\<rparr>) (foldM (\<lambda>row. foldM (?body row) ?cols) ?rows (fb ctx))"
    using assms(3) False by (simp add: gfx_draw_char_def tw foldM_rows [OF assms(1)])
  have "\<exists>ctx'. map_option (\<lambda>p. ctx\<lparr>fb := p\<rparr>) (foldM (\<lambda>row. foldM (?body row) ?cols) ?rows (fb ctx)) = Some ctx'
     \<and> painted (\<lambda>px py v. if py - y \<in> set ?rows \<and> px - x \<in> set ?cols
          then (\<lambda>i _. if glyph_set fh (glyph_data ctx) c (fst i) (snd i) then fg else bg) (py - y, px - x) v else v) ctx ctx'"
    using assms(1,5,6) glyph_bit_ok [OF assms(2,3,4)]
    by (intro paint_rect) (auto simp: modify_const)
  then obtain ctx' where c': "gfx_draw_char x y c fg bg ctx = Some ctx'"
      "painted (\<lambda>px py v. if py - y \<in> set ?rows \<and> px - x \<in> set ?cols
          then (if glyph_set fh (glyph_data ctx) c (py - y) (px - x) then fg else bg) else v) ctx ctx'"
    unfolding e by auto
  show ?thesis
    using c'(1) by (intro exI conjI, assumption) (rule painted_cong [OF c'(2)], auto)
qed

text \<open>
  \<^verbatim>\<open>gfx_draw_char\<close> at a position on or right of and below the origin, for a character below 128 of a
  complete font: every pixel of the character's box that is on the screen gets the foreground or the
  background color by the glyph's bit, and nothing else is written or read out of bounds.
\<close>

theorem gfx_draw_char_ok:
  assumes "screen_ok ctx" and "font_ok ctx" and "font_header ctx = Some fh" and "c < 128" and "0 \<le> x" and "0 \<le> y"
  shows "\<exists>ctx'. gfx_draw_char x y c fg bg ctx = Some ctx'
     \<and> painted (\<lambda>px py v. if x \<le> px \<and> px < x + sint (font_width fh) \<and> y \<le> py \<and> py < y + sint (font_height fh)
          then (if glyph_set fh (glyph_data ctx) c (py - y) (px - x) then fg else bg) else v) ctx ctx'"
  using assms by (rule draw_char_result)

subsection \<open>Blending and images\<close>

lemma channel_bounds:
  assumes "s \<le> 255" "d \<le> 255" "alpha \<le> 255"
  shows "min s d \<le> channel s d alpha" "channel s d alpha \<le> max s d"
proof -
  let ?s = "unat s" and ?d = "unat d" and ?a = "unat alpha"
  have b: "?s \<le> 255" "?d \<le> 255" "?a \<le> 255" using assms by (simp_all add: word_le_nat_alt)
  have i: "unat (255 - alpha) = 255 - ?a" using assms(3) by (simp add: unat_sub)
  have m: "?s * ?a \<le> 255 * 255" "?d * (255 - ?a) \<le> 255 * 255" using b by (intro mult_le_mono; simp)+
  have e: "unat (channel s d alpha) = (?s * ?a + ?d * (255 - ?a)) div 255"
    using m by (simp add: channel_def unat_div unat_word_ariths i)
  have sum: "?a + (255 - ?a) = 255" using b by simp
  have "min ?s ?d * ?a + min ?s ?d * (255 - ?a) \<le> ?s * ?a + ?d * (255 - ?a)" by (intro add_mono mult_right_mono) auto
  then have "min ?s ?d * 255 \<le> ?s * ?a + ?d * (255 - ?a)" by (metis distrib_left sum)
  then show "min s d \<le> channel s d alpha" by (simp add: e word_le_nat_alt less_eq_div_iff_mult_less_eq min_def split: if_splits)
  have "?s * ?a + ?d * (255 - ?a) \<le> max ?s ?d * ?a + max ?s ?d * (255 - ?a)" by (intro add_mono mult_right_mono) auto
  then have "?s * ?a + ?d * (255 - ?a) \<le> max ?s ?d * 255" by (metis distrib_left sum)
  then have "(?s * ?a + ?d * (255 - ?a)) div 255 \<le> max ?s ?d" by (metis div_le_mono nonzero_mult_div_cancel_right zero_neq_numeral)
  then show "channel s d alpha \<le> max s d" by (simp add: e word_le_nat_alt max_def split: if_splits)
qed

lemma byte_mask: "x AND 0xFF \<le> (255 :: u32)"
  by (rule word_and_le1)

lemma packed_channels:
  fixes r g b :: u32
  assumes "r \<le> 255" "g \<le> 255" "b \<le> 255"
  defines "p \<equiv> 0xFF000000 OR push_bit 16 r OR push_bit 8 g OR b"
  shows "drop_bit 24 p = 255" "drop_bit 16 p AND 0xFF = r" "drop_bit 8 p AND 0xFF = g" "p AND 0xFF = b"
proof -
  have m: "(0xFF :: u32) = mask 8" "(0xFF000000 :: u32) = push_bit 24 (mask 8)" "(255 :: u32) = mask 8" by (simp_all add: mask_eq_exp_minus_1)
  have small: "x = x AND mask 8" if "x \<le> 255" for x :: u32
  proof -
    have "unat x < 2 ^ 8" using that by (simp add: word_le_nat_alt)
    then show ?thesis by (metis take_bit_small take_bit_eq_mask)
  qed
  have bits: "bit x n \<Longrightarrow> n < 8" if "x \<le> 255" for x :: u32 and n
    using small [OF that] by (metis bit_and_iff bit_mask_iff)
  note B = bits [OF assms(1)] bits [OF assms(2)] bits [OF assms(3)]
  show "drop_bit 24 p = 255" "drop_bit 16 p AND 0xFF = r" "drop_bit 8 p AND 0xFF = g" "p AND 0xFF = b"
    unfolding p_def m by (rule bit_word_eqI, auto simp: bit_simps dest: B)+
qed

text \<open>
  Blending stays in range: for a half-transparent source pixel each color channel of the result
  lies between the channels of source and destination, so no channel overflows into its neighbor, and the
  result is opaque.
\<close>

theorem blend_pixel_ok:
  assumes "drop_bit 24 fg AND 0xFF \<noteq> 0" and "drop_bit 24 fg AND 0xFF \<noteq> 255" and "k \<in> {0, 8, 16}"
  shows "min (drop_bit k fg AND 0xFF) (drop_bit k bg AND 0xFF) \<le> drop_bit k (blend_pixel fg bg) AND 0xFF
     \<and> drop_bit k (blend_pixel fg bg) AND 0xFF \<le> max (drop_bit k fg AND 0xFF) (drop_bit k bg AND 0xFF)
     \<and> drop_bit 24 (blend_pixel fg bg) = 255"
proof -
  let ?a = "drop_bit 24 fg AND 0xFF"
  let ?c = "\<lambda>k. channel (drop_bit k fg AND 0xFF) (drop_bit k bg AND 0xFF) ?a"
  have ch: "min (drop_bit k fg AND 0xFF) (drop_bit k bg AND 0xFF) \<le> ?c k" "?c k \<le> max (drop_bit k fg AND 0xFF) (drop_bit k bg AND 0xFF)" for k
    by (intro channel_bounds byte_mask)+
  have le: "?c k \<le> 255" for k by (rule order_trans [OF ch(2)]) (simp add: byte_mask)
  have e: "blend_pixel fg bg = 0xFF000000 OR push_bit 16 (?c 16) OR push_bit 8 (?c 8) OR ?c 0"
    using assms(1,2) by (simp add: blend_pixel_def Let_def)
  note P = packed_channels [OF le le le, of 16 8 0, folded e]
  have "drop_bit k (blend_pixel fg bg) AND 0xFF = ?c k" using assms(3) P(2,3,4) by auto
  then show ?thesis using ch P(1) by simp
qed

theorem blend_pixel_ok_witness:
  "min (drop_bit 8 0x80FF2010 AND 0xFF) (drop_bit 8 0xFF00FF00 AND 0xFF) \<le> drop_bit 8 (blend_pixel 0x80FF2010 0xFF00FF00) AND 0xFF"
  using blend_pixel_ok [of "0x80FF2010" 8 "0xFF00FF00"] by simp

text \<open>An image of at most \<open>2\<^sup>3\<^sup>0\<close> pixels a side, whose pixels are all in the file.\<close>

definition image_ok :: "u8 list \<Rightarrow> bool" where
  "image_ok img \<longleftrightarrow> (\<exists>h. img_header img = Some h \<and> (img_magic h = IDPIMG_MAGIC \<longrightarrow>
     0 \<le> sint (img_width h) \<and> sint (img_width h) \<le> 0x40000000 \<and> sint (img_height h) \<le> 0x40000000
     \<and> sint (img_width h) * sint (img_height h) < 2 ^ 32
     \<and> 4 * (4 + sint (img_width h) * sint (img_height h)) \<le> int (length img)))"

definition image_pixel :: "u8 list \<Rightarrow> idpimg_header \<Rightarrow> int \<Rightarrow> int \<Rightarrow> u32" where
  "image_pixel img h row col = the (img_u32 img (4 + row * sint (img_width h) + col))"

lemma image_pixel_ok:
  assumes "image_ok img" and "img_header img = Some h" and "img_magic h = IDPIMG_MAGIC"
    and "0 \<le> row" "row < sint (img_height h)" and "0 \<le> col" "col < sint (img_width h)"
  shows "img_u32 img (4 + uint (word_of_int row * img_width h) + col) = Some (image_pixel img h row col)"
proof -
  let ?w = "sint (img_width h)"
  have len: "4 * (4 + ?w * sint (img_height h)) \<le> int (length img)" and max: "?w * sint (img_height h) < 2 ^ 32"
    using assms(1-3) by (auto simp: image_ok_def)
  have "row * ?w + col < (row + 1) * ?w" using assms by (simp add: algebra_simps)
  also have "\<dots> \<le> sint (img_height h) * ?w" using assms by (intro mult_right_mono) auto
  finally have "row * ?w + col + 1 \<le> ?w * sint (img_height h)" by (simp add: mult.commute)
  moreover have "0 \<le> row * ?w" using assms by simp
  ultimately have "0 \<le> 4 + row * ?w + col \<and> 4 * (4 + row * ?w + col) + 4 \<le> int (length img)"
    and small: "0 \<le> row * ?w" "row * ?w < 2 ^ 32" using len max assms(6) by (simp_all add: algebra_simps)
  moreover have "word_of_int row * img_width h = word_of_int (row * ?w)" by simp
  then have "uint (word_of_int row * img_width h) = row * ?w" using small by (simp only: uint_word_of_int) simp
  ultimately show ?thesis by (simp add: image_pixel_def img_u32_def)
qed

text \<open>
  \<^verbatim>\<open>gfx_draw_image\<close> of a complete image right of and below the origin blends exactly the part of the image
  that is on the screen over it; an image with another magic number draws nothing.
\<close>

lemma draw_image_result:
  assumes "screen_ok ctx" and "image_ok img" and "img_header img = Some h" and "0 \<le> x" "x < 0x40000000" and "0 \<le> y" "y < 0x40000000"
  shows "\<exists>ctx'. gfx_draw_image x y img ctx = Some ctx'
     \<and> painted (\<lambda>px py v. if img_magic h = IDPIMG_MAGIC \<and> x \<le> px \<and> px < x + sint (img_width h) \<and> y \<le> py \<and> py < y + sint (img_height h)
          then blend_pixel (image_pixel img h (py - y) (px - x)) v else v) ctx ctx'"
proof (cases "img_magic h = IDPIMG_MAGIC")
  case False
  then show ?thesis using assms(1,3) by (simp add: gfx_draw_image_def painted_def)
next
  case True
  let ?w = "sint (img_width h)" and ?h = "sint (img_height h)"
  define dw dh where "dw = (if x + ?w > width ctx then width ctx - x else ?w)" and "dh = (if y + ?h > height ctx then height ctx - y else ?h)"
  let ?body = "\<lambda>row col p. do { src \<leftarrow> img_u32 img (4 + uint (word_of_int row * img_width h) + col); dst \<leftarrow> peek p ((y + row) * width ctx + x + col);
      poke ((y + row) * width ctx + x + col) (blend_pixel src dst) p }"
  have img: "0 \<le> ?w" "?w \<le> 0x40000000" "?h \<le> 0x40000000" using assms(2,3) True by (auto simp: image_ok_def)
  have scr: "0 \<le> width ctx" "width ctx < 0x80000000" "0 \<le> height ctx" "height ctx < 0x80000000" using assms(1) by (simp_all add: screen_ok_def)
  have "- 0x80000000 \<le> ?h" using sint_ge [of "img_height h"] by simp
  then have fits: "int32 (x + ?w) = Some (x + ?w)" "int32 (y + ?h) = Some (y + ?h)"
    "(if x + ?w > width ctx then int32 (width ctx - x) else Some ?w) = Some dw"
    "(if y + ?h > height ctx then int32 (height ctx - y) else Some ?h) = Some dh"
    using img scr assms(4-7) by (auto simp: dw_def dh_def intro!: int32_Some)
  have rows: "\<forall>row \<in> set [0..dh - 1]. 0 \<le> y + row \<and> y + row < height ctx" using assms(6) by (auto simp: dh_def split: if_splits)
  have e: "gfx_draw_image x y img ctx = (if dw \<le> 0 \<or> dh \<le> 0 then Some ctx
      else map_option (\<lambda>p. ctx\<lparr>fb := p\<rparr>) (foldM (\<lambda>row. foldM (?body row) [0..dw - 1]) [0..dh - 1] (fb ctx)))"
    using True by (simp add: gfx_draw_image_def assms(3) fits Let_def foldM_rows [OF assms(1) rows])
  show ?thesis
  proof (cases "dw \<le> 0 \<or> dh \<le> 0")
    case True
    then have "\<not> (x \<le> px \<and> px < x + ?w \<and> y \<le> py \<and> py < y + ?h)" if "px < width ctx" "py < height ctx" for px py
      using that by (auto simp: dw_def dh_def split: if_splits)
    then show ?thesis using True e assms(1) by (auto simp: painted_def)
  next
    case False
    have "\<exists>ctx'. map_option (\<lambda>p. ctx\<lparr>fb := p\<rparr>) (foldM (\<lambda>row. foldM (?body row) [0..dw - 1]) [0..dh - 1] (fb ctx)) = Some ctx'
       \<and> painted (\<lambda>px py v. if py - y \<in> set [0..dh - 1] \<and> px - x \<in> set [0..dw - 1]
            then (\<lambda>i dst. blend_pixel (image_pixel img h (fst i) (snd i)) dst) (py - y, px - x) v else v) ctx ctx'"
      using assms(1,4,6) image_pixel_ok [OF assms(2,3) True]
      by (intro paint_rect) (auto simp: modify_def dw_def dh_def split: if_splits)
    then obtain ctx' where c: "gfx_draw_image x y img ctx = Some ctx'"
        "painted (\<lambda>px py v. if py - y \<in> set [0..dh - 1] \<and> px - x \<in> set [0..dw - 1]
            then blend_pixel (image_pixel img h (py - y) (px - x)) v else v) ctx ctx'"
      using e False by (auto cong: if_cong)
    show ?thesis
      using \<open>img_magic h = IDPIMG_MAGIC\<close>
      by (intro exI [of _ ctx'] conjI c(1)) (rule painted_cong [OF c(2)], auto simp: dw_def dh_def split: if_splits)
  qed
qed

text \<open>A surface of four by three pixels with a font of one row of eight pixels per glyph.\<close>

definition gfx_example :: gfx_context where
  "gfx_example = \<lparr>fb = replicate 12 0, width = 4, height = 3, pitch = 4,
     font_header = Some \<lparr>font_magic = 0x864AB572, font_version = 0, headersize = 32, font_flags = 0, font_length = 128,
        charsize = 1, font_height = 1, font_width = 8\<rparr>, glyph_data = replicate 128 0xA0\<rparr>"

lemma gfx_example_ok: "screen_ok gfx_example" "font_ok gfx_example"
  by (simp_all add: screen_ok_def font_ok_def gfx_example_def)

theorem gfx_rect_ok_witness:
  "(\<exists>ctx'. gfx_rect (- 1) 1 3 5 0xFF gfx_example = Some ctx' \<and> pixel ctx' 1 2 = 0xFF \<and> pixel ctx' 2 2 = 0)
   \<and> gfx_rect 10 0 0x7FFFFFFF 1 0xFF gfx_example = None"
proof
  show "\<exists>ctx'. gfx_rect (- 1) 1 3 5 0xFF gfx_example = Some ctx' \<and> pixel ctx' 1 2 = 0xFF \<and> pixel ctx' 2 2 = 0"
    using gfx_rect_ok [OF gfx_example_ok(1), of "- 1" 1 3 5 "0xFF"]
    by (auto simp: painted_def int32_def) (simp_all add: pixel_def gfx_example_def)
  show "gfx_rect 10 0 0x7FFFFFFF 1 0xFF gfx_example = None"
    using gfx_rect_ok [OF gfx_example_ok(1), of 10 0 "0x7FFFFFFF" 1 "0xFF"] by (simp add: int32_def)
qed

theorem gfx_draw_char_ok_witness:
  "\<exists>ctx'. gfx_draw_char 1 2 0x41 0xFF 0x11 gfx_example = Some ctx' \<and> pixel ctx' 1 2 = 0xFF \<and> pixel ctx' 2 2 = 0x11 \<and> pixel ctx' 0 2 = 0"
proof -
  obtain fh where fh: "font_header gfx_example = Some fh" "fh = the (font_header gfx_example)" by (simp add: gfx_example_def)
  have w: "width gfx_example = 4" "height gfx_example = 3" "sint (font_width fh) = 8" "sint (font_height fh) = 1"
    "\<And>r c. glyph_set fh (glyph_data gfx_example) 0x41 r c = bit (replicate 128 (0xA0 :: u8) ! nat (65 + r + c div 8)) (nat (7 - c mod 8))"
    "pixel gfx_example 0 2 = 0"
    by (simp_all add: gfx_example_def fh(2) glyph_set_def pixel_def)
  from gfx_draw_char_ok [OF gfx_example_ok fh(1), of "0x41" 1 2 "0xFF" "0x11"] obtain ctx' where
    c: "gfx_draw_char 1 2 0x41 0xFF 0x11 gfx_example = Some ctx'" and
    P: "painted (\<lambda>px py v. if 1 \<le> px \<and> px < 1 + sint (font_width fh) \<and> 2 \<le> py \<and> py < 2 + sint (font_height fh)
          then (if glyph_set fh (glyph_data gfx_example) 0x41 (py - 2) (px - 1) then 0xFF else 0x11) else v) gfx_example ctx'"
    by auto
  have px: "\<And>x y. 0 \<le> x \<Longrightarrow> x < 4 \<Longrightarrow> 0 \<le> y \<Longrightarrow> y < 3 \<Longrightarrow> pixel ctx' x y =
      (if 1 \<le> x \<and> x < 9 \<and> 2 \<le> y \<and> y < 3 then (if glyph_set fh (glyph_data gfx_example) 0x41 (y - 2) (x - 1) then 0xFF else 0x11)
       else pixel gfx_example x y)"
    using P unfolding painted_def w by simp
  have "bit (0xA0 :: u8) 7" "\<not> bit (0xA0 :: u8) 6" by simp_all
  then show ?thesis using c px [of 1 2] px [of 2 2] px [of 0 2] by (simp add: w)
qed

end
