(* ===== verification/Term.thy ===== *)
theory Term
  imports Gfx Serial "HOL-Library.Signed_Division"
begin

text \<open>
  The text terminal of \<^verbatim>\<open>src/userspace/terminal/term.c\<close> and \<^verbatim>\<open>term.h\<close>: a grid of character cells with a
  cursor, scrolling, an interpreter for escape sequences and the drawing of cells on the window's surface.
  As in \<^verbatim>\<open>Gfx\<close>, an access outside a buffer and a number that does not fit an \<^verbatim>\<open>int\<close> have no result. The operating system calls that the terminal makes
  to load an image are the parameter \<open>os\<close>.
\<close>

subsection \<open>The terminal\<close>

record rect =
  rx :: int
  ry :: int
  rw :: int
  rh :: int
  dirty :: bool

datatype ansi_state = ANSI_STATE_NORMAL | ANSI_STATE_ESC | ANSI_STATE_CSI | ANSI_STATE_OSC

record term_cell =
  ch :: u8
  cell_fg :: u32
  cell_bg :: u32

record term_t =
  gfx :: gfx_context
  text_buffer :: "term_cell list option"
  cols :: int
  rows :: int
  cursor_x :: int
  cursor_y :: int
  show_cursor :: bool
  fg_color :: u32
  bg_color :: u32
  last_update :: rect
  ansi_state :: ansi_state
  ansi_params :: "int list"
  ansi_param_count :: int
  osc_buffer :: "u8 list"
  osc_idx :: int

definition DEFAULT_BG :: u32 where "DEFAULT_BG = 0x00181825"
definition DEFAULT_FG :: u32 where "DEFAULT_FG = 0x00bac2de"

definition ANSI_COLORS :: "u32 list" where
  "ANSI_COLORS = [0x00181825, 0x00f38ba8, 0x00a6e3a1, 0x00f9e2af, 0x0089b4fa, 0x00cba6f7, 0x006c7086, 0x00bac2de]"

text \<open>
  The sums of \<^verbatim>\<open>add_dirty_cell\<close> are positions on the surface: \<open>rect_ok\<close> below, a part of the invariant, keeps
  them in range.
\<close>

definition add_dirty_cell :: "int \<Rightarrow> int \<Rightarrow> term_t \<Rightarrow> term_t" where
  "add_dirty_cell col row t =
     (let cell_w = gfx_font_width (gfx t);
          cell_h = gfx_font_height (gfx t);
          x = col * cell_w;
          y = row * cell_h;
          r = last_update t
      in if \<not> dirty r then t\<lparr>last_update := \<lparr>rx = x, ry = y, rw = cell_w, rh = cell_h, dirty = True\<rparr>\<rparr>
         else
           let min_x = (if x < rx r then x else rx r);
               min_y = (if y < ry r then y else ry r);
               max_x = (if x + cell_w > rx r + rw r then x + cell_w else rx r + rw r);
               max_y = (if y + cell_h > ry r + rh r then y + cell_h else ry r + rh r)
           in t\<lparr>last_update := r\<lparr>rx := min_x, ry := min_y, rw := max_x - min_x, rh := max_y - min_y\<rparr>\<rparr>)"

text \<open>The index of a cell, \<^verbatim>\<open>y * term->cols + x\<close>.\<close>

definition cell_index :: "int \<Rightarrow> int \<Rightarrow> term_t \<Rightarrow> int option" where
  "cell_index x y t = int32 (y * cols t + x)"

definition draw_cell :: "int \<Rightarrow> int \<Rightarrow> term_t \<Rightarrow> term_t option" where
  "draw_cell x y t =
     (case text_buffer t of
        None \<Rightarrow> Some t
      | Some buf \<Rightarrow>
          do {
            i \<leftarrow> cell_index x y t;
            cell \<leftarrow> peek buf i;
            let c = (if ch cell = 0 then 0x20 else ch cell);
            let is_cursor = (show_cursor t \<and> x = cursor_x t \<and> y = cursor_y t);
            let fg = (if is_cursor then cell_bg cell else cell_fg cell);
            let bg = (if is_cursor then cell_fg cell else cell_bg cell);
            px \<leftarrow> int32 (x * gfx_font_width (gfx t));
            py \<leftarrow> int32 (y * gfx_font_height (gfx t));
            g \<leftarrow> gfx_draw_char px py c fg bg (gfx t);
            Some (add_dirty_cell x y (t\<lparr>gfx := g\<rparr>))
          })"

definition full_update :: "term_t \<Rightarrow> rect" where
  "full_update t = \<lparr>rx = 0, ry = 0, rw = width (gfx t), rh = height (gfx t), dirty = True\<rparr>"

definition redraw_cell :: "int \<Rightarrow> int \<Rightarrow> term_t \<Rightarrow> term_t option" where
  "redraw_cell y x t =
     do {
       buf \<leftarrow> text_buffer t;
       i \<leftarrow> cell_index x y t;
       cell \<leftarrow> peek buf i;
       t \<leftarrow> (if ch cell \<noteq> 0 \<and> ch cell \<noteq> 0x20 \<or> cell_bg cell \<noteq> DEFAULT_BG then draw_cell x y t else Some t);
       if show_cursor t \<and> x = cursor_x t \<and> y = cursor_y t then draw_cell x y t else Some t
     }"

definition term_redraw_full :: "term_t \<Rightarrow> term_t option" where
  "term_redraw_full t =
     do {
       g \<leftarrow> gfx_clear DEFAULT_BG (gfx t);
       t \<leftarrow> foldM (\<lambda>y. foldM (redraw_cell y) [0..cols t - 1]) [0..rows t - 1] (t\<lparr>gfx := g\<rparr>);
       Some (t\<lparr>last_update := full_update t\<rparr>)
     }"

definition blank :: "term_t \<Rightarrow> term_cell" where
  "blank t = \<lparr>ch = 0, cell_fg = fg_color t, cell_bg = bg_color t\<rparr>"

text \<open>A cell has 12 bytes.\<close>

definition term_scroll :: "term_t \<Rightarrow> term_t option" where
  "term_scroll t =
     (case text_buffer t of
        None \<Rightarrow> Some t
      | Some buf \<Rightarrow>
          do {
            row_size_bytes \<leftarrow> int32 (cols t * 12);
            let num_rows_to_move = rows t - 1;
            moved_bytes \<leftarrow> int32 (num_rows_to_move * row_size_bytes);
            buf \<leftarrow> copy_cells buf 0 buf (cols t) (num_rows_to_move * cols t);
            buf \<leftarrow> foldM (\<lambda>i. poke (num_rows_to_move * cols t + i) (blank t)) [0..cols t - 1] buf;
            let t = t\<lparr>text_buffer := Some buf\<rparr>;
            let t = (if cursor_y t > 0 then t\<lparr>cursor_y := cursor_y t - 1\<rparr> else t);
            term_redraw_full t
          })"

definition apply_ansi_code :: "int \<Rightarrow> term_t \<Rightarrow> term_t" where
  "apply_ansi_code code t =
     (if code = 0 then t\<lparr>fg_color := DEFAULT_FG, bg_color := DEFAULT_BG\<rparr>
      else if code \<ge> 30 \<and> code \<le> 37 then t\<lparr>fg_color := ANSI_COLORS ! nat (code - 30)\<rparr>
      else if code \<ge> 40 \<and> code \<le> 47 then t\<lparr>bg_color := ANSI_COLORS ! nat (code - 40)\<rparr>
      else t)"

definition term_process_ansi_end :: "u8 \<Rightarrow> term_t \<Rightarrow> term_t option" where
  "term_process_ansi_end terminator t =
     do {
       t \<leftarrow> (if terminator = 0x6D then
                (if ansi_param_count t = 0 then Some (apply_ansi_code 0 t)
                 else foldM (\<lambda>i t. do { code \<leftarrow> peek (ansi_params t) i; Some (apply_ansi_code code t) })
                        [0..ansi_param_count t - 1] t)
              else Some t);
       params \<leftarrow> poke 0 0 (ansi_params t);
       Some (t\<lparr>ansi_state := ANSI_STATE_NORMAL, ansi_param_count := 0, ansi_params := params\<rparr>)
     }"

text \<open>\<open>mem_ok\<close> says whether \<^verbatim>\<open>malloc\<close> succeeds; its result is used without a test.\<close>

definition term_resize :: "bool \<Rightarrow> int \<Rightarrow> int \<Rightarrow> term_t \<Rightarrow> term_t option" where
  "term_resize mem_ok w h t =
     do {
       let char_w = gfx_font_width (gfx t);
       let char_h = gfx_font_height (gfx t);
       if char_w = 0 \<or> char_h = 0 \<or> \<not> mem_ok then None
       else do {
         let new_cols = w sdiv char_w;
         let new_rows = h sdiv char_h;
         size \<leftarrow> int32 (new_cols * new_rows);
         let new_buf = replicate (nat size) \<lparr>ch = 0, cell_fg = DEFAULT_FG, cell_bg = DEFAULT_BG\<rparr>;
         new_buf \<leftarrow> (case text_buffer t of
             None \<Rightarrow> Some new_buf
           | Some buf \<Rightarrow>
               let copy_rows = (if rows t < new_rows then rows t else new_rows);
                   copy_cols = (if cols t < new_cols then cols t else new_cols)
               in foldM (\<lambda>y nb. copy_cells nb (y * new_cols) buf (y * cols t) copy_cols) [0..copy_rows - 1] new_buf);
         let t = t\<lparr>text_buffer := Some new_buf, cols := new_cols, rows := new_rows\<rparr>;
         let t = (if cursor_x t \<ge> new_cols then t\<lparr>cursor_x := new_cols - 1\<rparr> else t);
         let t = (if cursor_y t \<ge> new_rows then t\<lparr>cursor_y := new_rows - 1\<rparr> else t);
         term_redraw_full t
       }
     }"

definition term_init :: "bool \<Rightarrow> gfx_context \<Rightarrow> term_t \<Rightarrow> term_t option" where
  "term_init mem_ok g t =
     term_resize mem_ok (width g) (height g)
       (t\<lparr>gfx := g, fg_color := DEFAULT_FG, bg_color := DEFAULT_BG, cursor_x := 0, cursor_y := 0, show_cursor := True,
          text_buffer := None, ansi_state := ANSI_STATE_NORMAL, ansi_param_count := 0\<rparr>)"

definition term_destroy :: "term_t \<Rightarrow> term_t" where
  "term_destroy t = t\<lparr>text_buffer := None\<rparr>"

definition term_clear :: "term_t \<Rightarrow> term_t option" where
  "term_clear t =
     do {
       buf \<leftarrow> (case text_buffer t of
           None \<Rightarrow> Some None
         | Some buf \<Rightarrow> map_option Some (do { n \<leftarrow> int32 (cols t * rows t); foldM (\<lambda>i. poke i (blank t)) [0..n - 1] buf }));
       term_redraw_full (t\<lparr>text_buffer := buf, cursor_x := 0, cursor_y := 0\<rparr>)
     }"

definition term_set_cursor_visible :: "bool \<Rightarrow> term_t \<Rightarrow> term_t option" where
  "term_set_cursor_visible visible t =
     (if show_cursor t \<noteq> visible then
        do {
          t \<leftarrow> draw_cell (cursor_x t) (cursor_y t) t;
          let t = t\<lparr>show_cursor := visible\<rparr>;
          draw_cell (cursor_x t) (cursor_y t) t
        }
      else Some t)"

definition set_cell :: "int \<Rightarrow> int \<Rightarrow> term_cell \<Rightarrow> term_t \<Rightarrow> term_t option" where
  "set_cell x y cell t =
     do { buf \<leftarrow> text_buffer t; i \<leftarrow> cell_index x y t; buf \<leftarrow> poke i cell buf; Some (t\<lparr>text_buffer := Some buf\<rparr>) }"

definition term_put_char :: "u8 \<Rightarrow> term_t \<Rightarrow> term_t option" where
  "term_put_char c t =
     do {
       let old_x = cursor_x t;
       let old_y = cursor_y t;
       t \<leftarrow>
         (if c = 0x0A then Some (t\<lparr>cursor_x := 0, cursor_y := cursor_y t + 1\<rparr>)
          else if c = 0x08 then
            (let t = (if cursor_x t > 0 then t\<lparr>cursor_x := cursor_x t - 1\<rparr>
                      else if cursor_y t > 0 then t\<lparr>cursor_y := cursor_y t - 1, cursor_x := cols t - 1\<rparr>
                      else t)
             in set_cell (cursor_x t) (cursor_y t) (blank t) t)
          else do {
            t \<leftarrow> set_cell old_x old_y \<lparr>ch = c, cell_fg = fg_color t, cell_bg = bg_color t\<rparr> t;
            let t = t\<lparr>cursor_x := cursor_x t + 1\<rparr>;
            Some (if cursor_x t \<ge> cols t then t\<lparr>cursor_x := 0, cursor_y := cursor_y t + 1\<rparr> else t)
          });
       if cursor_y t \<ge> rows t then term_scroll t
       else do {
         t \<leftarrow> draw_cell old_x old_y t;
         draw_cell (cursor_x t) (cursor_y t) t
       }
     }"

text \<open>
  The system calls behind \<^verbatim>\<open>load_file_to_memory\<close>: the result, size and flags of \<^verbatim>\<open>sys_stat\<close>, whether \<^verbatim>\<open>malloc\<close>
  of that size succeeds, and the result and bytes of \<^verbatim>\<open>sys_file_read\<close>.
\<close>

record os_files =
  os_stat :: "u8 list \<Rightarrow> int \<times> u64 \<times> u32"
  os_malloc :: "u64 \<Rightarrow> bool"
  os_read :: "u8 list \<Rightarrow> u64 \<Rightarrow> int \<times> u8 list"

definition load_file_to_memory :: "os_files \<Rightarrow> u8 list \<Rightarrow> u8 list option" where
  "load_file_to_memory os path =
     (let (stat_err, sz, flags) = os_stat os path
      in if stat_err \<noteq> 0 \<or> flags = 1 \<or> sz = 0 then None
         else if \<not> os_malloc os sz then None
         else let (bytes_read, bytes) = os_read os path sz
              in if word_of_int bytes_read \<noteq> sz then None else Some bytes)"

definition osc_end :: "os_files \<Rightarrow> term_t \<Rightarrow> term_t option" where
  "osc_end os t =
     do {
       t \<leftarrow> (if take 3 (osc_buffer t) = literal ''69;'' then
                (case load_file_to_memory os (takeWhile (\<lambda>b. b \<noteq> 0) (drop 3 (osc_buffer t))) of
                   None \<Rightarrow> Some t
                 | Some img_data \<Rightarrow>
                     do {
                       px \<leftarrow> int32 (cursor_x t * gfx_font_width (gfx t));
                       py \<leftarrow> int32 (cursor_y t * gfx_font_height (gfx t));
                       g \<leftarrow> gfx_draw_image px py img_data (gfx t);
                       Some (t\<lparr>gfx := g, last_update := full_update (t\<lparr>gfx := g\<rparr>)\<rparr>)
                     })
              else Some t);
       Some (t\<lparr>ansi_state := ANSI_STATE_NORMAL\<rparr>)
     }"

text \<open>\<^verbatim>\<open>p * 10 + (c - '0')\<close>.\<close>

definition add_digit :: "int \<Rightarrow> u8 \<Rightarrow> int option" where
  "add_digit p c = do { p \<leftarrow> int32 (p * 10); int32 (p + (uint c - 0x30)) }"

definition csi_char :: "u8 \<Rightarrow> term_t \<Rightarrow> term_t option" where
  "csi_char c t =
     (if c \<ge> 0x30 \<and> c \<le> 0x39 then
        do {
          p \<leftarrow> peek (ansi_params t) (ansi_param_count t);
          p \<leftarrow> add_digit p c;
          ps \<leftarrow> poke (ansi_param_count t) p (ansi_params t);
          Some (t\<lparr>ansi_params := ps\<rparr>)
        }
      else if c = 0x3B then
        (if ansi_param_count t < 3 then
           do {
             ps \<leftarrow> poke (ansi_param_count t + 1) 0 (ansi_params t);
             Some (t\<lparr>ansi_param_count := ansi_param_count t + 1, ansi_params := ps\<rparr>)
           }
         else Some t)
      else
        do {
          p0 \<leftarrow> peek (ansi_params t) 0;
          term_process_ansi_end c
            (if ansi_param_count t = 0 \<and> p0 = 0 then t else t\<lparr>ansi_param_count := ansi_param_count t + 1\<rparr>)
        })"

definition write_char :: "os_files \<Rightarrow> u8 \<Rightarrow> term_t \<Rightarrow> term_t option" where
  "write_char os c t =
     (case ansi_state t of
        ANSI_STATE_ESC \<Rightarrow>
          if c = 0x5B then
            do { ps \<leftarrow> poke 0 0 (ansi_params t);
                 Some (t\<lparr>ansi_state := ANSI_STATE_CSI, ansi_param_count := 0, ansi_params := ps\<rparr>) }
          else if c = 0x5D then Some (t\<lparr>ansi_state := ANSI_STATE_OSC, osc_idx := 0, osc_buffer := replicate 128 0\<rparr>)
          else term_put_char c (t\<lparr>ansi_state := ANSI_STATE_NORMAL\<rparr>)
      | ANSI_STATE_OSC \<Rightarrow>
          if c = 0x07 then osc_end os t
          else if osc_idx t < 127 then
            do { ob \<leftarrow> poke (osc_idx t) c (osc_buffer t); Some (t\<lparr>osc_buffer := ob, osc_idx := osc_idx t + 1\<rparr>) }
          else Some t
      | ANSI_STATE_CSI \<Rightarrow> csi_char c t
      | ANSI_STATE_NORMAL \<Rightarrow>
          if c = 0x1B then Some (t\<lparr>ansi_state := ANSI_STATE_ESC\<rparr>) else term_put_char c t)"

definition term_write :: "os_files \<Rightarrow> u8 list \<Rightarrow> term_t \<Rightarrow> (rect \<times> term_t) option" where
  "term_write os str t = do { t \<leftarrow> foldM (write_char os) str t; Some (last_update t, t) }"

subsection \<open>Staying inside the buffers\<close>

definition gfx_ok :: "gfx_context \<Rightarrow> bool" where
  "gfx_ok g \<longleftrightarrow> screen_ok g \<and> font_ok g"

definition rect_ok :: "rect \<Rightarrow> bool" where
  "rect_ok r \<longleftrightarrow> (dirty r \<longrightarrow> 0 \<le> rx r \<and> 0 \<le> rw r \<and> rx r + rw r < 0x80000000 \<and> 0 \<le> ry r \<and> 0 \<le> rh r \<and> ry r + rh r < 0x80000000)"

definition surface_ok :: "term_t \<Rightarrow> bool" where
  "surface_ok t \<longleftrightarrow> gfx_ok (gfx t) \<and> rect_ok (last_update t)"

text \<open>\<open>redrawn t t'\<close>: only the pixels and the rectangle to update have changed.\<close>

definition no_pixels :: "term_t \<Rightarrow> term_t" where
  "no_pixels t = t\<lparr>gfx := (gfx t)\<lparr>fb := []\<rparr>, last_update := \<lparr>rx = 0, ry = 0, rw = 0, rh = 0, dirty = False\<rparr>\<rparr>"

definition redrawn :: "term_t \<Rightarrow> term_t \<Rightarrow> bool" where
  "redrawn t t' \<longleftrightarrow> no_pixels t' = no_pixels t \<and> surface_ok t'"

definition grid_ok :: "term_t \<Rightarrow> bool" where
  "grid_ok t \<longleftrightarrow> (\<exists>buf. text_buffer t = Some buf \<and> int (length buf) = cols t * rows t \<and> (\<forall>cell \<in> set buf. ch cell < 128))
     \<and> 0 < cols t \<and> 0 < rows t \<and> 12 * (cols t * rows t) < 0x80000000
     \<and> cols t * gfx_font_width (gfx t) < 0x40000000 \<and> rows t * gfx_font_height (gfx t) < 0x40000000 \<and> surface_ok t"

definition term_ok :: "term_t \<Rightarrow> bool" where
  "term_ok t \<longleftrightarrow> grid_ok t \<and> 0 \<le> cursor_x t \<and> cursor_x t < cols t \<and> 0 \<le> cursor_y t \<and> cursor_y t < rows t
     \<and> length (ansi_params t) = 4 \<and> 0 \<le> ansi_param_count t \<and> ansi_param_count t \<le> 3
     \<and> length (osc_buffer t) = 128 \<and> (ansi_state t = ANSI_STATE_OSC \<longrightarrow> 0 \<le> osc_idx t \<and> osc_idx t \<le> 127)"

lemma redrawn_refl: "surface_ok t \<Longrightarrow> redrawn t t"
  by (simp add: redrawn_def)

lemma redrawn_trans: "redrawn t t' \<Longrightarrow> redrawn t' t'' \<Longrightarrow> redrawn t t''"
  by (simp add: redrawn_def)

lemma redrawn_fields:
  assumes "redrawn t t'"
  shows "text_buffer t' = text_buffer t" "cols t' = cols t" "rows t' = rows t" "cursor_x t' = cursor_x t" "cursor_y t' = cursor_y t"
    "show_cursor t' = show_cursor t" "fg_color t' = fg_color t" "bg_color t' = bg_color t" "ansi_state t' = ansi_state t"
    "ansi_params t' = ansi_params t" "ansi_param_count t' = ansi_param_count t" "osc_buffer t' = osc_buffer t" "osc_idx t' = osc_idx t"
    "surface_ok t'" "gfx_font_width (gfx t') = gfx_font_width (gfx t)" "gfx_font_height (gfx t') = gfx_font_height (gfx t)"
proof -
  have e: "no_pixels t' = no_pixels t" using assms by (simp add: redrawn_def)
  show "text_buffer t' = text_buffer t" using arg_cong [OF e, of text_buffer] by (simp add: no_pixels_def)
  show "cols t' = cols t" using arg_cong [OF e, of cols] by (simp add: no_pixels_def)
  show "rows t' = rows t" using arg_cong [OF e, of rows] by (simp add: no_pixels_def)
  show "cursor_x t' = cursor_x t" using arg_cong [OF e, of cursor_x] by (simp add: no_pixels_def)
  show "cursor_y t' = cursor_y t" using arg_cong [OF e, of cursor_y] by (simp add: no_pixels_def)
  show "show_cursor t' = show_cursor t" using arg_cong [OF e, of show_cursor] by (simp add: no_pixels_def)
  show "fg_color t' = fg_color t" using arg_cong [OF e, of fg_color] by (simp add: no_pixels_def)
  show "bg_color t' = bg_color t" using arg_cong [OF e, of bg_color] by (simp add: no_pixels_def)
  show "ansi_state t' = ansi_state t" using arg_cong [OF e, of ansi_state] by (simp add: no_pixels_def)
  show "ansi_params t' = ansi_params t" using arg_cong [OF e, of ansi_params] by (simp add: no_pixels_def)
  show "ansi_param_count t' = ansi_param_count t" using arg_cong [OF e, of ansi_param_count] by (simp add: no_pixels_def)
  show "osc_buffer t' = osc_buffer t" using arg_cong [OF e, of osc_buffer] by (simp add: no_pixels_def)
  show "osc_idx t' = osc_idx t" using arg_cong [OF e, of osc_idx] by (simp add: no_pixels_def)
  show "surface_ok t'" using assms by (simp add: redrawn_def)
  have "font_header (gfx t') = font_header (gfx t)" using arg_cong [OF e, of "\<lambda>t. font_header (gfx t)"] by (simp add: no_pixels_def)
  then show "gfx_font_width (gfx t') = gfx_font_width (gfx t)" "gfx_font_height (gfx t') = gfx_font_height (gfx t)"
    by (simp_all add: gfx_font_width_def gfx_font_height_def)
qed

lemma redrawn_ok: "redrawn t t' \<Longrightarrow> grid_ok t \<Longrightarrow> grid_ok t'" "redrawn t t' \<Longrightarrow> term_ok t \<Longrightarrow> term_ok t'"
  by (auto simp: grid_ok_def term_ok_def redrawn_fields)

lemma foldM_redrawn:
  assumes "\<And>x t'. x \<in> set xs \<Longrightarrow> redrawn t t' \<Longrightarrow> \<exists>t''. f x t' = Some t'' \<and> redrawn t' t''" and "redrawn t t'"
  shows "\<exists>t''. foldM f xs t' = Some t'' \<and> redrawn t t''"
  using assms
proof (induction xs arbitrary: t')
  case (Cons x xs)
  obtain t1 where t1: "f x t' = Some t1" "redrawn t' t1" using Cons.prems(1) [OF _ Cons.prems(2), of x] by auto
  then have "redrawn t t1" using Cons.prems(2) redrawn_trans by blast
  with Cons t1(1) show ?case by auto
qed auto

lemma grid_font:
  assumes "grid_ok t" and "0 \<le> x" "x < cols t" "0 \<le> y" "y < rows t"
  defines "w \<equiv> gfx_font_width (gfx t)" and "h \<equiv> gfx_font_height (gfx t)"
  shows "0 < w" "0 < h" "0 \<le> x * w" "x * w + w < 0x40000000" "0 \<le> y * h" "y * h + h < 0x40000000"
    "int32 (x * w) = Some (x * w)" "int32 (y * h) = Some (y * h)"
proof -
  have g: "cols t * w < 0x40000000" "rows t * h < 0x40000000" "gfx_ok (gfx t)"
    using assms(1) by (auto simp: grid_ok_def surface_ok_def w_def h_def)
  then show f: "0 < w" "0 < h" by (auto simp: gfx_ok_def font_ok_def gfx_font_width_def gfx_font_height_def w_def h_def)
  show n: "0 \<le> x * w" "0 \<le> y * h" using f assms by simp_all
  have "(x + 1) * w \<le> cols t * w" "(y + 1) * h \<le> rows t * h" using f assms by (intro mult_right_mono; simp)+
  then show m: "x * w + w < 0x40000000" "y * h + h < 0x40000000" using g by (simp_all add: algebra_simps)
  then show "int32 (x * w) = Some (x * w)" "int32 (y * h) = Some (y * h)" using n f by (intro int32_Some; simp)+
qed

lemma add_dirty_cell_redrawn:
  assumes "grid_ok t" and "0 \<le> x" "x < cols t" "0 \<le> y" "y < rows t"
  shows "redrawn t (add_dirty_cell x y t)"
proof -
  have "rect_ok (last_update t)" "gfx_ok (gfx t)" using assms(1) by (auto simp: grid_ok_def surface_ok_def)
  with grid_font [OF assms] have "rect_ok (last_update (add_dirty_cell x y t))"
    by (auto simp: rect_ok_def add_dirty_cell_def Let_def)
  then show ?thesis using \<open>gfx_ok (gfx t)\<close> by (simp add: redrawn_def add_dirty_cell_def Let_def no_pixels_def surface_ok_def)
qed

lemma grid_index:
  assumes "0 \<le> x" "x < cols t" "0 \<le> y" "y < rows t"
  shows "0 \<le> y * cols t + x" "y * cols t + x < cols t * rows t"
proof -
  show "0 \<le> y * cols t + x" using assms by simp
  have "y * cols t + x < (y + 1) * cols t" using assms by (simp add: algebra_simps)
  also have "\<dots> \<le> rows t * cols t" using assms by (intro mult_right_mono) auto
  finally show "y * cols t + x < cols t * rows t" by (simp add: mult.commute)
qed

lemma grid_cell_index:
  assumes "grid_ok t" and "0 \<le> x" "x < cols t" "0 \<le> y" "y < rows t"
  shows "cell_index x y t = Some (y * cols t + x)"
proof -
  have "cols t * rows t < 0x80000000" using assms(1) by (auto simp: grid_ok_def)
  then show ?thesis using grid_index [OF assms(2-5)] by (auto simp: cell_index_def intro!: int32_Some)
qed

lemma grid_peek:
  assumes "grid_ok t" and "0 \<le> x" "x < cols t" "0 \<le> y" "y < rows t"
  obtains buf cell where "text_buffer t = Some buf" "cell_index x y t = Some (y * cols t + x)" "peek buf (y * cols t + x) = Some cell" "ch cell < 128"
proof -
  from assms(1) obtain buf where b: "text_buffer t = Some buf" "int (length buf) = cols t * rows t" "\<forall>cell \<in> set buf. ch cell < 128"
    by (auto simp: grid_ok_def)
  have "nat (y * cols t + x) < length buf" using grid_index [OF assms(2-5)] b(2) by linarith
  with b grid_index [OF assms(2-5)] grid_cell_index [OF assms] that show ?thesis by (simp add: peek_def)
qed

lemma painted_ok:
  assumes "surface_ok t" and "painted F (gfx t) g"
  shows "redrawn t (t\<lparr>gfx := g\<rparr>)"
proof -
  have e: "g = (gfx t)\<lparr>fb := fb g\<rparr>" "screen_ok g" using assms(2) by (auto simp: painted_def)
  have "font_header g = font_header (gfx t)" "glyph_data g = glyph_data (gfx t)" "width g = width (gfx t)"
    using arg_cong [OF e(1), of font_header] arg_cong [OF e(1), of glyph_data] arg_cong [OF e(1), of width] by simp_all
  then have ok: "surface_ok (t\<lparr>gfx := g\<rparr>)" using assms(1) e(2) by (simp add: surface_ok_def gfx_ok_def font_ok_def)
  have "g\<lparr>fb := []\<rparr> = (gfx t)\<lparr>fb := []\<rparr>" using arg_cong [OF e(1), of "fb_update (\<lambda>_. [])"] by simp
  then show "redrawn t (t\<lparr>gfx := g\<rparr>)" using ok by (simp add: redrawn_def no_pixels_def)
qed

lemma draw_cell_ok:
  assumes "grid_ok t" and "0 \<le> x" "x < cols t" "0 \<le> y" "y < rows t"
  shows "\<exists>t'. draw_cell x y t = Some t' \<and> redrawn t t'"
proof -
  from grid_peek [OF assms] obtain buf cell where
    b: "text_buffer t = Some buf" "cell_index x y t = Some (y * cols t + x)" "peek buf (y * cols t + x) = Some cell" "ch cell < 128" .
  have g: "screen_ok (gfx t)" "font_ok (gfx t)" "surface_ok t" using assms(1) by (auto simp: grid_ok_def surface_ok_def gfx_ok_def)
  obtain fh where fh: "font_header (gfx t) = Some fh" using g(2) by (auto simp: font_ok_def)
  note w = grid_font [OF assms]
  define c where "c = (if ch cell = 0 then 0x20 else ch cell)"
  have "c < 128" using b(4) by (simp add: c_def)
  note draw = draw_char_result [OF g(1,2) fh this w(3,5)]
  define fg bg where "fg = (if show_cursor t \<and> x = cursor_x t \<and> y = cursor_y t then cell_bg cell else cell_fg cell)"
    and "bg = (if show_cursor t \<and> x = cursor_x t \<and> y = cursor_y t then cell_fg cell else cell_bg cell)"
  obtain g1 F where g1: "gfx_draw_char (x * gfx_font_width (gfx t)) (y * gfx_font_height (gfx t)) c fg bg (gfx t) = Some g1"
      "painted F (gfx t) g1" using draw [of fg bg] by blast
  let ?t = "t\<lparr>gfx := g1\<rparr>"
  have ok: "redrawn t ?t" by (rule painted_ok [OF g(3) g1(2)])
  have "redrawn ?t (add_dirty_cell x y ?t)" using redrawn_ok(1) [OF ok assms(1)] assms(2-5) by (intro add_dirty_cell_redrawn) simp_all
  moreover have "draw_cell x y t = Some (add_dirty_cell x y ?t)"
    using g1(1) b w(7,8) by (simp add: draw_cell_def c_def fg_def bg_def Let_def)
  ultimately show ?thesis using ok redrawn_trans by blast
qed

lemma redraw_cell_ok:
  assumes "grid_ok t" and "0 \<le> x" "x < cols t" "0 \<le> y" "y < rows t"
  shows "\<exists>t'. redraw_cell y x t = Some t' \<and> redrawn t t'"
proof -
  from grid_peek [OF assms] obtain buf cell where
    b: "text_buffer t = Some buf" "cell_index x y t = Some (y * cols t + x)" "peek buf (y * cols t + x) = Some cell" .
  have r: "redrawn t t" using assms(1) by (intro redrawn_refl) (simp add: grid_ok_def)
  have "\<exists>t1. (if ch cell \<noteq> 0 \<and> ch cell \<noteq> 0x20 \<or> cell_bg cell \<noteq> DEFAULT_BG then draw_cell x y t else Some t) = Some t1 \<and> redrawn t t1"
    using draw_cell_ok [OF assms] r by auto
  then obtain t1 where t1: "(if ch cell \<noteq> 0 \<and> ch cell \<noteq> 0x20 \<or> cell_bg cell \<noteq> DEFAULT_BG then draw_cell x y t else Some t) = Some t1" "redrawn t t1"
    by blast
  have g: "grid_ok t1" "cols t1 = cols t" "rows t1 = rows t" using t1(2) redrawn_ok(1) [OF _ assms(1)] redrawn_fields by blast+
  have "\<exists>t2. (if show_cursor t1 \<and> x = cursor_x t1 \<and> y = cursor_y t1 then draw_cell x y t1 else Some t1) = Some t2 \<and> redrawn t1 t2"
    using draw_cell_ok [OF g(1), of x y] redrawn_refl [of t1] g assms by (auto simp: grid_ok_def)
  then obtain t2 where t2: "(if show_cursor t1 \<and> x = cursor_x t1 \<and> y = cursor_y t1 then draw_cell x y t1 else Some t1) = Some t2" "redrawn t1 t2"
    by blast
  have "redraw_cell y x t = Some t2" unfolding redraw_cell_def using b t1(1) t2(1) by simp
  then show ?thesis using t1(2) t2(2) redrawn_trans by blast
qed

lemma term_redraw_full_ok:
  assumes "grid_ok t"
  shows "\<exists>t'. term_redraw_full t = Some t' \<and> redrawn t t'"
proof -
  have g: "surface_ok t" "screen_ok (gfx t)" using assms by (auto simp: grid_ok_def surface_ok_def gfx_ok_def)
  from gfx_clear_ok [OF g(2), of DEFAULT_BG] obtain g1 F where
    g1: "gfx_clear DEFAULT_BG (gfx t) = Some g1" "painted F (gfx t) g1" by blast
  let ?t1 = "t\<lparr>gfx := g1\<rparr>"
  note r1 = painted_ok [OF g(1) g1(2)]
  have row: "\<exists>t''. foldM (redraw_cell y) [0..cols t - 1] t' = Some t'' \<and> redrawn t t''"
    if "y \<in> set [0..rows t - 1]" "redrawn t t'" for y t'
    using that(2)
  proof (rule foldM_redrawn [rotated])
    fix x t'
    assume "x \<in> set [0..cols t - 1]" "redrawn t t'"
    then show "\<exists>t''. redraw_cell y x t' = Some t'' \<and> redrawn t' t''"
      using that(1) redrawn_ok(1) [OF _ assms] redrawn_fields [of t t'] by (intro redraw_cell_ok) auto
  qed
  have all: "\<exists>t''. foldM (\<lambda>y. foldM (redraw_cell y) [0..cols t - 1]) ys t' = Some t'' \<and> redrawn t t''"
    if "set ys \<subseteq> set [0..rows t - 1]" "redrawn t t'" for ys t'
    using that
  proof (induction ys arbitrary: t')
    case (Cons y ys)
    from row [of y t'] Cons.prems obtain t1 where "foldM (redraw_cell y) [0..cols t - 1] t' = Some t1" "redrawn t t1" by auto
    with Cons show ?case by auto
  qed auto
  from all [OF order_refl r1] obtain t2 where
    t2: "foldM (\<lambda>y. foldM (redraw_cell y) [0..cols t - 1]) [0..rows t - 1] ?t1 = Some t2" "redrawn t t2" by blast
  have "term_redraw_full t = Some (t2\<lparr>last_update := full_update t2\<rparr>)" using g1(1) t2(1) by (simp add: term_redraw_full_def)
  moreover have "redrawn t2 (t2\<lparr>last_update := full_update t2\<rparr>)" using redrawn_fields(14) [OF t2(2)]
    by (auto simp: redrawn_def no_pixels_def surface_ok_def gfx_ok_def screen_ok_def rect_ok_def full_update_def)
  ultimately show ?thesis using t2(2) redrawn_trans by blast
qed

text \<open>Filling a run of cells, and moving the rows up.\<close>

lemma foldM_poke:
  assumes "0 \<le> a" and "a + n \<le> int (length xs)" and "0 \<le> n"
  shows "\<exists>ys. foldM (\<lambda>i. poke (a + i) v) [0..n - 1] xs = Some ys \<and> length ys = length xs \<and> set ys \<subseteq> insert v (set xs)
     \<and> (\<forall>j < length xs. ys ! j = (if a \<le> int j \<and> int j < a + n then v else xs ! j))"
proof -
  have "\<forall>i \<in> set [0..n - 1]. 0 \<le> a + i \<and> a + i < int (length xs)" using assms by auto
  from foldM_modify [OF _ _ this, of "\<lambda>_ _. v"] obtain ys where
    ys: "foldM (modify (\<lambda>i. a + i) (\<lambda>_ _. v)) [0..n - 1] xs = Some ys" "modified (\<lambda>i. a + i) (\<lambda>_ _. v) (set [0..n - 1]) xs ys" by auto
  have "modify (\<lambda>i. a + i) (\<lambda>_ _. v) = (\<lambda>i. poke (a + i) v)" by (intro ext) (simp add: modify_const)
  moreover have n: "ys ! j = (if a \<le> int j \<and> int j < a + n then v else xs ! j)" for j
  proof (cases "a \<le> int j \<and> int j < a + n")
    case True
    then have "int j - a \<in> set [0..n - 1]" by simp
    then have "ys ! nat (a + (int j - a)) = v" using ys(2) unfolding modified_def by blast
    then show ?thesis using True by simp
  next
    case False
    then have "int j \<notin> (\<lambda>i. a + i) ` set [0..n - 1]" by auto
    then show ?thesis using ys(2) False unfolding modified_def by auto
  qed
  moreover have "set ys \<subseteq> insert v (set xs)"
  proof
    fix z
    assume "z \<in> set ys"
    then obtain j where "j < length xs" "z = ys ! j" using ys(2) by (auto simp: in_set_conv_nth modified_def)
    then show "z \<in> insert v (set xs)" using n [of j] by auto
  qed
  ultimately show ?thesis using ys by (auto simp: modified_def)
qed

lemma term_scroll_ok:
  assumes "grid_ok t"
  shows "\<exists>t' buf'. term_scroll t = Some t' \<and> grid_ok t' \<and> text_buffer t' = Some buf' \<and> cols t' = cols t \<and> rows t' = rows t
     \<and> redrawn (t\<lparr>text_buffer := Some buf', cursor_y := (if cursor_y t > 0 then cursor_y t - 1 else cursor_y t)\<rparr>) t'
     \<and> (\<forall>j < nat (cols t * rows t). buf' ! j = (if int j < cols t * (rows t - 1) then the (text_buffer t) ! (j + nat (cols t)) else blank t))"
proof -
  from assms obtain buf where b: "text_buffer t = Some buf" "int (length buf) = cols t * rows t" "\<forall>cell \<in> set buf. ch cell < 128"
    and c: "0 < cols t" "0 < rows t" and small: "12 * (cols t * rows t) < 0x80000000"
    and font: "cols t * gfx_font_width (gfx t) < 0x40000000" "rows t * gfx_font_height (gfx t) < 0x40000000" and "surface_ok t"
    by (auto simp: grid_ok_def)
  let ?n = "(rows t - 1) * cols t"
  have n: "0 \<le> ?n" "?n + cols t = int (length buf)" using c b(2) by (simp_all add: algebra_simps)
  define b1 where "b1 = take (nat ?n) (drop (nat (cols t)) buf) @ drop (nat ?n) buf"
  have "cols t + ?n \<le> int (length buf)" "?n \<le> int (length buf)" using n(2) c(1) by linarith+
  then have cp: "copy_cells buf 0 buf (cols t) ?n = Some b1" using n(1) c(1) by (simp add: copy_cells_def b1_def)
  have l1: "length b1 = length buf" "set b1 \<subseteq> set buf" using n c
    by (auto simp: b1_def dest: in_set_takeD in_set_dropD)
  from foldM_poke [of ?n "cols t" b1 "blank t"] n l1 c obtain b2 where
    b2: "foldM (\<lambda>i. poke (?n + i) (blank t)) [0..cols t - 1] b1 = Some b2" "length b2 = length buf" "set b2 \<subseteq> insert (blank t) (set b1)"
      "\<forall>j < length buf. b2 ! j = (if ?n \<le> int j \<and> int j < ?n + cols t then blank t else b1 ! j)" by auto
  let ?t1 = "t\<lparr>text_buffer := Some b2, cursor_y := (if cursor_y t > 0 then cursor_y t - 1 else cursor_y t)\<rparr>"
  have "\<forall>cell \<in> insert (blank t) (set buf). ch cell < 128" using b(3) by (simp add: blank_def)
  then have "\<forall>cell \<in> set b2. ch cell < 128" using b2(3) l1(2) by blast
  then have "grid_ok ?t1" unfolding grid_ok_def using b2(2) b(2) c small font \<open>surface_ok t\<close> by (simp add: surface_ok_def)
  from term_redraw_full_ok [OF this] obtain t' where t': "term_redraw_full ?t1 = Some t'" "redrawn ?t1 t'" by blast
  have "cols t \<le> cols t * rows t" using mult_left_mono [of 1 "rows t" "cols t"] c by simp
  then have "int32 (cols t * 12) = Some (cols t * 12)" using c small by (intro int32_Some) linarith+
  moreover have "0 \<le> (rows t - 1) * (cols t * 12)" "(rows t - 1) * (cols t * 12) < 0x80000000"
    using c small by (simp, simp add: algebra_simps)
  then have "int32 ((rows t - 1) * (cols t * 12)) = Some ((rows t - 1) * (cols t * 12))" by (intro int32_Some) linarith+
  ultimately have "term_scroll t = term_redraw_full (if cursor_y t > 0 then (t\<lparr>text_buffer := Some b2\<rparr>)\<lparr>cursor_y := cursor_y t - 1\<rparr> else t\<lparr>text_buffer := Some b2\<rparr>)"
    using b(1) cp b2(1) by (simp add: term_scroll_def Let_def)
  also have "(if cursor_y t > 0 then (t\<lparr>text_buffer := Some b2\<rparr>)\<lparr>cursor_y := cursor_y t - 1\<rparr> else t\<lparr>text_buffer := Some b2\<rparr>) = ?t1" by simp
  finally have "term_scroll t = Some t'" using t'(1) by simp
  moreover have "grid_ok t'" using redrawn_ok(1) [OF t'(2)] \<open>grid_ok ?t1\<close> by blast
  moreover have "b2 ! j = (if int j < cols t * (rows t - 1) then buf ! (j + nat (cols t)) else blank t)" if "j < nat (cols t * rows t)" for j
  proof (cases "int j < ?n")
    case True
    then have "b1 ! j = buf ! (j + nat (cols t))" using n c by (simp add: b1_def nth_append add.commute)
    then show ?thesis using True b2(4) that b(2) by (simp add: mult.commute)
  next
    case False
    then show ?thesis using b2(4) that b(2) n by (simp add: mult.commute)
  qed
  ultimately show ?thesis using t'(2) redrawn_fields [OF t'(2)] b(1) by (intro exI [of _ t'] exI [of _ b2]) simp
qed

lemma set_cell_ok:
  assumes "grid_ok t" and "0 \<le> x" "x < cols t" "0 \<le> y" "y < rows t" and "ch cell < 128"
  shows "\<exists>buf. text_buffer t = Some buf \<and> set_cell x y cell t = Some (t\<lparr>text_buffer := Some (buf[nat (y * cols t + x) := cell])\<rparr>)
     \<and> grid_ok (t\<lparr>text_buffer := Some (buf[nat (y * cols t + x) := cell])\<rparr>)"
proof -
  from assms(1) obtain buf where b: "text_buffer t = Some buf" "int (length buf) = cols t * rows t" "\<forall>cell \<in> set buf. ch cell < 128"
    by (auto simp: grid_ok_def)
  have "poke (y * cols t + x) cell buf = Some (buf[nat (y * cols t + x) := cell])"
    using grid_index [OF assms(2-5)] b(2) by (simp add: poke_def)
  moreover have "\<forall>c \<in> set (buf[nat (y * cols t + x) := cell]). ch c < 128"
    using b(3) assms(6) set_update_subset_insert [of buf "nat (y * cols t + x)" cell] by auto
  ultimately show ?thesis using b assms(1) grid_cell_index [OF assms(1-5)] by (simp add: set_cell_def grid_ok_def surface_ok_def)
qed

text \<open>The terminal with its cursor moved to a cell of the grid, or one below the last row.\<close>

lemma term_put_end:
  assumes "grid_ok t" and "term_ok t0" and "cols t = cols t0" "rows t = rows t0" and "0 \<le> ox" "ox < cols t0" "0 \<le> oy" "oy < rows t0"
    and "0 \<le> cursor_x t" "cursor_x t < cols t" "0 \<le> cursor_y t" "cursor_y t \<le> rows t"
    and "ansi_params t = ansi_params t0" "ansi_param_count t = ansi_param_count t0" "osc_buffer t = osc_buffer t0"
      "osc_idx t = osc_idx t0" "ansi_state t = ansi_state t0"
  shows "\<exists>t'. (if cursor_y t \<ge> rows t then term_scroll t else do { t \<leftarrow> draw_cell ox oy t; draw_cell (cursor_x t) (cursor_y t) t }) = Some t' \<and> term_ok t'
     \<and> ansi_state t' = ansi_state t0"
proof (cases "cursor_y t \<ge> rows t")
  case True
  from term_scroll_ok [OF assms(1)] obtain t' buf' where t': "term_scroll t = Some t'" "grid_ok t'" "cols t' = cols t" "rows t' = rows t"
      "redrawn (t\<lparr>text_buffer := Some buf', cursor_y := (if cursor_y t > 0 then cursor_y t - 1 else cursor_y t)\<rparr>) t'" by blast
  have "0 < rows t" using assms(1) by (simp add: grid_ok_def)
  with t' True assms show ?thesis by (auto simp: term_ok_def redrawn_fields [OF t'(5)])
next
  case False
  from draw_cell_ok [OF assms(1), of ox oy] assms(3-8) obtain t1 where t1: "draw_cell ox oy t = Some t1" "redrawn t t1" by auto
  note f = redrawn_fields [OF t1(2)]
  have g1: "grid_ok t1" using redrawn_ok(1) [OF t1(2) assms(1)] .
  obtain t2 where t2: "draw_cell (cursor_x t1) (cursor_y t1) t1 = Some t2" "redrawn t1 t2"
    using draw_cell_ok [OF g1, of "cursor_x t1" "cursor_y t1"] f assms(9-12) False by auto
  have "term_ok t1" using g1 f assms False by (simp add: term_ok_def)
  then have "term_ok t2" using redrawn_ok(2) [OF t2(2)] by blast
  with t1 t2 False redrawn_fields(9) [OF t2(2)] f(9) assms(17) show ?thesis by simp
qed

lemma term_put_char_ok:
  assumes "term_ok t" and "c < 128"
  shows "\<exists>t'. term_put_char c t = Some t' \<and> term_ok t' \<and> ansi_state t' = ansi_state t"
proof -
  have g: "grid_ok t" "0 < cols t" "0 < rows t" and k: "0 \<le> cursor_x t" "cursor_x t < cols t" "0 \<le> cursor_y t" "cursor_y t < rows t"
    using assms(1) by (auto simp: term_ok_def grid_ok_def)
  note end' = term_put_end [OF _ assms(1) _ _ k]
  consider (nl) "c = 0x0A" | (bs) "c = 0x08" | (pr) "c \<noteq> 0x0A" "c \<noteq> 0x08" by blast
  then show ?thesis
  proof cases
    case nl
    have "grid_ok (t\<lparr>cursor_x := 0, cursor_y := cursor_y t + 1\<rparr>)" using g by (simp add: grid_ok_def surface_ok_def)
    from end' [OF this] show ?thesis using nl g k by (simp add: term_put_char_def Let_def)
  next
    case bs
    define t1 where "t1 = (if cursor_x t > 0 then t\<lparr>cursor_x := cursor_x t - 1\<rparr>
                      else if cursor_y t > 0 then t\<lparr>cursor_y := cursor_y t - 1, cursor_x := cols t - 1\<rparr> else t)"
    have g1: "grid_ok t1" "cols t1 = cols t" "rows t1 = rows t" and k1: "0 \<le> cursor_x t1" "cursor_x t1 < cols t1" "0 \<le> cursor_y t1" "cursor_y t1 < rows t1"
      and o1: "ansi_params t1 = ansi_params t" "ansi_param_count t1 = ansi_param_count t" "osc_buffer t1 = osc_buffer t" "osc_idx t1 = osc_idx t" "ansi_state t1 = ansi_state t"
      using g k by (auto simp: t1_def grid_ok_def surface_ok_def)
    from set_cell_ok [OF g1(1) k1, of "blank t1"] obtain buf where
      s1: "set_cell (cursor_x t1) (cursor_y t1) (blank t1) t1 = Some (t1\<lparr>text_buffer := Some buf\<rparr>)" "grid_ok (t1\<lparr>text_buffer := Some buf\<rparr>)"
      by (auto simp: blank_def)
    from end' [OF s1(2)] show ?thesis
      using bs s1(1) g1 k1 o1 k unfolding term_put_char_def t1_def [symmetric] by (simp add: Let_def flip: t1_def)
  next
    case pr
    from set_cell_ok [OF g(1) k, of "\<lparr>ch = c, cell_fg = fg_color t, cell_bg = bg_color t\<rparr>"] assms(2) obtain buf where
      s1: "set_cell (cursor_x t) (cursor_y t) \<lparr>ch = c, cell_fg = fg_color t, cell_bg = bg_color t\<rparr> t = Some (t\<lparr>text_buffer := Some buf\<rparr>)"
        "grid_ok (t\<lparr>text_buffer := Some buf\<rparr>)" by auto
    define t1 where "t1 = (if cursor_x t + 1 \<ge> cols t then t\<lparr>text_buffer := Some buf, cursor_x := 0, cursor_y := cursor_y t + 1\<rparr>
        else t\<lparr>text_buffer := Some buf, cursor_x := cursor_x t + 1\<rparr>)"
    have "grid_ok t1" using s1(2) by (simp add: t1_def grid_ok_def surface_ok_def)
    from end' [OF this] show ?thesis
      using pr s1(1) g k by (auto simp: term_put_char_def Let_def t1_def split: if_splits)
  qed
qed

lemma osc_end_ok:
  assumes "term_ok t" and "\<And>path img. load_file_to_memory os path = Some img \<Longrightarrow> image_ok img"
  shows "\<exists>t'. osc_end os t = Some t' \<and> term_ok t' \<and> ansi_state t' = ANSI_STATE_NORMAL"
proof -
  have g: "grid_ok t" "surface_ok t" "screen_ok (gfx t)" and k: "0 \<le> cursor_x t" "cursor_x t < cols t" "0 \<le> cursor_y t" "cursor_y t < rows t"
    using assms(1) by (auto simp: term_ok_def grid_ok_def surface_ok_def gfx_ok_def)
  note p = grid_font [OF g(1) k]
  have fin: "term_ok (t'\<lparr>ansi_state := ANSI_STATE_NORMAL\<rparr>)" if "term_ok t'" for t'
    using that by (simp add: term_ok_def grid_ok_def surface_ok_def)
  let ?path = "takeWhile (\<lambda>b. b \<noteq> 0) (drop 3 (osc_buffer t))"
  show ?thesis
  proof (cases "take 3 (osc_buffer t) = literal ''69;'' \<and> load_file_to_memory os ?path \<noteq> None")
    case False
    then have "osc_end os t = Some (t\<lparr>ansi_state := ANSI_STATE_NORMAL\<rparr>)" by (auto simp: osc_end_def)
    with fin [OF assms(1)] show ?thesis by simp
  next
    case True
    then obtain im where im: "load_file_to_memory os ?path = Some im" by blast
    then have ok: "image_ok im" by (rule assms(2))
    then obtain h where h: "img_header im = Some h" by (auto simp: image_ok_def)
    from draw_image_result [OF g(3) ok h p(3) _ p(5)] p obtain g' F where
      g': "gfx_draw_image (cursor_x t * gfx_font_width (gfx t)) (cursor_y t * gfx_font_height (gfx t)) im (gfx t) = Some g'"
        "painted F (gfx t) g'" by auto
    define t1 where "t1 = t\<lparr>gfx := g'\<rparr>"
    have t1: "redrawn t t1" unfolding t1_def by (rule painted_ok [OF g(2) g'(2)])
    let ?t2 = "t1\<lparr>last_update := full_update t1\<rparr>"
    have "redrawn t1 ?t2" using redrawn_fields(14) [OF t1]
      by (auto simp: redrawn_def no_pixels_def surface_ok_def gfx_ok_def screen_ok_def rect_ok_def full_update_def)
    then have "term_ok ?t2" using redrawn_ok(2) [OF redrawn_trans [OF t1] assms(1)] by blast
    from fin [OF this] show ?thesis using True im g'(1) p(7,8) by (simp add: osc_end_def t1_def)
  qed
qed

definition recolored :: "term_t \<Rightarrow> term_t \<Rightarrow> bool" where
  "recolored t t' \<longleftrightarrow> t'\<lparr>fg_color := 0, bg_color := 0\<rparr> = t\<lparr>fg_color := 0, bg_color := 0\<rparr>"

lemma recolored_apply: "recolored t t' \<Longrightarrow> recolored t (apply_ansi_code code t')"
  by (simp add: recolored_def apply_ansi_code_def)

lemma recolored_params: "recolored t t' \<Longrightarrow> ansi_params t' = ansi_params t"
  unfolding recolored_def by (drule arg_cong [of _ _ ansi_params]) simp

lemma recolored_ok:
  assumes "recolored t t'" and "term_ok (t\<lparr>ansi_param_count := 0\<rparr>)" and "length ps = 4"
  shows "term_ok (t'\<lparr>ansi_state := ANSI_STATE_NORMAL, ansi_param_count := 0, ansi_params := ps\<rparr>)"
proof -
  let ?f = "\<lambda>t. t\<lparr>ansi_state := ANSI_STATE_NORMAL, ansi_param_count := 0, ansi_params := ps\<rparr>"
  have color: "term_ok (t\<lparr>fg_color := f, bg_color := b\<rparr>) = term_ok t" for t f b by (simp add: term_ok_def grid_ok_def surface_ok_def)
  have "term_ok (?f t)" using assms(2,3) by (simp add: term_ok_def grid_ok_def surface_ok_def)
  then have "term_ok ((?f t)\<lparr>fg_color := 0, bg_color := 0\<rparr>)" by (simp only: color)
  moreover have comm: "(?f t)\<lparr>fg_color := 0, bg_color := 0\<rparr> = ?f (t\<lparr>fg_color := 0, bg_color := 0\<rparr>)" for t by simp
  have "(?f t)\<lparr>fg_color := 0, bg_color := 0\<rparr> = (?f t')\<lparr>fg_color := 0, bg_color := 0\<rparr>"
    unfolding comm by (simp only: assms(1) [unfolded recolored_def])
  ultimately show ?thesis by (simp only: color)
qed

lemma term_process_ansi_end_ok:
  assumes "term_ok (t\<lparr>ansi_param_count := 0\<rparr>)" and "0 \<le> ansi_param_count t" "ansi_param_count t \<le> 4"
  shows "\<exists>t'. term_process_ansi_end c t = Some t' \<and> term_ok t' \<and> ansi_state t' = ANSI_STATE_NORMAL"
proof -
  have len: "length (ansi_params t) = 4" using assms(1) by (simp add: term_ok_def)
  have refl: "recolored t t" by (simp add: recolored_def)
  have "\<exists>t''. (do { code \<leftarrow> peek (ansi_params t') i; Some (apply_ansi_code code t') }) = Some t'' \<and> recolored t t''"
    if "i \<in> set [0..ansi_param_count t - 1]" "recolored t t'" for i t'
    using that len assms(3) by (simp add: recolored_params [OF that(2)] peek_def recolored_apply)
  then have "\<exists>t1. foldM (\<lambda>i t. do { code \<leftarrow> peek (ansi_params t) i; Some (apply_ansi_code code t) }) [0..ansi_param_count t - 1] t = Some t1 \<and> recolored t t1"
    using refl by (intro foldM_inv [where P = "recolored t"])
  then obtain t1 where
    t1: "foldM (\<lambda>i t. do { code \<leftarrow> peek (ansi_params t) i; Some (apply_ansi_code code t) }) [0..ansi_param_count t - 1] t = Some t1" "recolored t t1"
    by blast
  define t2 where "t2 = (if c = 0x6D then (if ansi_param_count t = 0 then apply_ansi_code 0 t else t1) else t)"
  have t2: "recolored t t2" using refl t1(2) recolored_apply by (simp add: t2_def)
  have "poke 0 0 (ansi_params t2) = Some ((ansi_params t)[0 := 0])" using len by (simp add: recolored_params [OF t2] poke_def)
  then have "term_process_ansi_end c t = Some (t2\<lparr>ansi_state := ANSI_STATE_NORMAL, ansi_param_count := 0, ansi_params := (ansi_params t)[0 := 0]\<rparr>)"
    using t1(1) by (simp add: term_process_ansi_end_def t2_def split: if_splits)
  with recolored_ok [OF t2 assms(1), of "(ansi_params t)[0 := 0]"] len show ?thesis by auto
qed

text \<open>
  The text alone decides whether the number of a parameter leaves the range of an \<^verbatim>\<open>int\<close>: \<open>csi_fits\<close> follows the state
  of the escape sequence, the index of the current parameter and its value.
\<close>

fun csi_fits :: "ansi_state \<Rightarrow> int \<Rightarrow> int \<Rightarrow> u8 list \<Rightarrow> bool" where
  "csi_fits st k v [] = True"
| "csi_fits ANSI_STATE_NORMAL k v (c # cs) = csi_fits (if c = 0x1B then ANSI_STATE_ESC else ANSI_STATE_NORMAL) 0 0 cs"
| "csi_fits ANSI_STATE_ESC k v (c # cs) =
     csi_fits (if c = 0x5B then ANSI_STATE_CSI else if c = 0x5D then ANSI_STATE_OSC else ANSI_STATE_NORMAL) 0 0 cs"
| "csi_fits ANSI_STATE_OSC k v (c # cs) = csi_fits (if c = 0x07 then ANSI_STATE_NORMAL else ANSI_STATE_OSC) 0 0 cs"
| "csi_fits ANSI_STATE_CSI k v (c # cs) =
     (if c \<ge> 0x30 \<and> c \<le> 0x39 then (case add_digit v c of None \<Rightarrow> False | Some v \<Rightarrow> csi_fits ANSI_STATE_CSI k v cs)
      else if c = 0x3B then (if k < 3 then csi_fits ANSI_STATE_CSI (k + 1) 0 cs else csi_fits ANSI_STATE_CSI k v cs)
      else csi_fits ANSI_STATE_NORMAL 0 0 cs)"

definition numbers_fit :: "term_t \<Rightarrow> u8 list \<Rightarrow> bool" where
  "numbers_fit t = csi_fits (ansi_state t) (ansi_param_count t) (ansi_params t ! nat (ansi_param_count t))"

lemma csi_fits_start: "st \<noteq> ANSI_STATE_CSI \<Longrightarrow> csi_fits st k v cs = csi_fits st 0 0 cs"
  by (cases cs; cases st) simp_all

lemma numbers_fit_state: "ansi_state t = st \<Longrightarrow> st \<noteq> ANSI_STATE_CSI \<Longrightarrow> numbers_fit t cs = csi_fits st 0 0 cs"
  using csi_fits_start [of st "ansi_param_count t" "ansi_params t ! nat (ansi_param_count t)" cs] by (simp add: numbers_fit_def)

text \<open>One step: the terminal keeps its invariant as long as the numbers fit, and has no next state when one does not.\<close>

definition step_fits :: "term_t \<Rightarrow> u8 \<Rightarrow> term_t option \<Rightarrow> bool" where
  "step_fits t c r \<longleftrightarrow> (case r of
     None \<Rightarrow> \<forall>cs. \<not> numbers_fit t (c # cs)
   | Some t' \<Rightarrow> term_ok t' \<and> (\<forall>cs. numbers_fit t (c # cs) = numbers_fit t' cs))"

lemma step_fits_Some: "\<exists>t'. r = Some t' \<and> term_ok t' \<and> (\<forall>cs. numbers_fit t (c # cs) = numbers_fit t' cs) \<Longrightarrow> step_fits t c r"
  by (auto simp: step_fits_def)

lemma csi_char_fits:
  assumes "term_ok t" and st: "ansi_state t = ANSI_STATE_CSI"
  shows "step_fits t c (csi_char c t)"
proof -
  have p: "length (ansi_params t) = 4" "0 \<le> ansi_param_count t" "ansi_param_count t \<le> 3" using assms by (auto simp: term_ok_def)
  have set_p: "term_ok (t\<lparr>ansi_param_count := n, ansi_params := ps\<rparr>)" if "0 \<le> n" "n \<le> 3" "length ps = 4" for n ps
    using assms(1) that by (simp add: term_ok_def grid_ok_def surface_ok_def)
  consider (digit) "c \<ge> 0x30" "c \<le> 0x39" | (next_param) "c = 0x3B" | (last) "\<not> (c \<ge> 0x30 \<and> c \<le> 0x39)" "c \<noteq> 0x3B" by blast
  then show ?thesis
  proof cases
    case digit
    then show ?thesis using p st set_p [of "ansi_param_count t"]
      by (cases "add_digit (ansi_params t ! nat (ansi_param_count t)) c")
        (auto simp: step_fits_def csi_char_def peek_def poke_def numbers_fit_def nat_less_iff)
  next
    case next_param
    then have "\<not> (c \<ge> 0x30 \<and> c \<le> 0x39)" by simp
    then show ?thesis using next_param p st set_p [of "ansi_param_count t + 1"] assms(1)
      by (auto simp: step_fits_def csi_char_def poke_def numbers_fit_def nat_less_iff)
  next
    case last
    define t1 where "t1 = (if ansi_param_count t = 0 \<and> ansi_params t ! 0 = 0 then t else t\<lparr>ansi_param_count := ansi_param_count t + 1\<rparr>)"
    have "term_ok (t1\<lparr>ansi_param_count := 0\<rparr>)" "0 \<le> ansi_param_count t1" "ansi_param_count t1 \<le> 4"
      using set_p [of 0 "ansi_params t"] p by (simp_all add: t1_def)
    from term_process_ansi_end_ok [OF this, of c] obtain t' where
      t': "term_process_ansi_end c t1 = Some t'" "term_ok t'" "ansi_state t' = ANSI_STATE_NORMAL" by auto
    have "csi_char c t = Some t'" unfolding csi_char_def using last p(1) t'(1) by (auto simp: peek_def t1_def)
    moreover have "numbers_fit t (c # cs) = numbers_fit t' cs" for cs
      using last st by (simp add: numbers_fit_state [OF t'(3)]) (auto simp: numbers_fit_def)
    ultimately show ?thesis using t'(2) by (intro step_fits_Some) blast
  qed
qed

lemma write_char_fits:
  assumes "term_ok t" and "c < 128" and "\<And>path img. load_file_to_memory os path = Some img \<Longrightarrow> image_ok img"
  shows "step_fits t c (write_char os c t)"
proof -
  have set_st: "term_ok (t\<lparr>ansi_state := st\<rparr>)" if "st \<noteq> ANSI_STATE_OSC" for st
    using assms(1) that by (simp add: term_ok_def grid_ok_def surface_ok_def)
  show ?thesis
  proof (cases "ansi_state t")
    case ANSI_STATE_NORMAL
    note n = numbers_fit_state [OF ANSI_STATE_NORMAL]
    show ?thesis
    proof (cases "c = 0x1B")
      case True
      have "write_char os c t = Some (t\<lparr>ansi_state := ANSI_STATE_ESC\<rparr>)" using ANSI_STATE_NORMAL True by (simp add: write_char_def)
      moreover have "numbers_fit t (c # cs) = numbers_fit (t\<lparr>ansi_state := ANSI_STATE_ESC\<rparr>) cs" for cs
        using True n numbers_fit_state [of "t\<lparr>ansi_state := ANSI_STATE_ESC\<rparr>"] by simp
      ultimately show ?thesis using set_st [of ANSI_STATE_ESC] by (intro step_fits_Some) blast
    next
      case False
      from term_put_char_ok [OF assms(1,2)] obtain t' where
        t': "term_put_char c t = Some t'" "term_ok t'" "ansi_state t' = ANSI_STATE_NORMAL" using ANSI_STATE_NORMAL by auto
      then show ?thesis using False ANSI_STATE_NORMAL n numbers_fit_state [OF t'(3)]
        by (intro step_fits_Some) (simp add: write_char_def)
    qed
  next
    case ANSI_STATE_ESC
    note n = numbers_fit_state [OF ANSI_STATE_ESC]
    have len: "length (ansi_params t) = 4" using assms(1) by (simp add: term_ok_def)
    consider "c = 0x5B" | "c = 0x5D" | "c \<noteq> 0x5B" "c \<noteq> 0x5D" by blast
    then show ?thesis
    proof cases
      case 1
      let ?t = "t\<lparr>ansi_state := ANSI_STATE_CSI, ansi_param_count := 0, ansi_params := (ansi_params t)[0 := 0]\<rparr>"
      have "write_char os c t = Some ?t" using ANSI_STATE_ESC 1 len by (simp add: write_char_def poke_def)
      moreover have "term_ok ?t" using assms(1) by (simp add: term_ok_def grid_ok_def surface_ok_def)
      moreover have "numbers_fit t (c # cs) = numbers_fit ?t cs" for cs using 1 n len by (simp add: numbers_fit_def)
      ultimately show ?thesis by (intro step_fits_Some) blast
    next
      case 2
      let ?t = "t\<lparr>ansi_state := ANSI_STATE_OSC, osc_idx := 0, osc_buffer := replicate 128 0\<rparr>"
      have "write_char os c t = Some ?t" using ANSI_STATE_ESC 2 by (simp add: write_char_def)
      moreover have "term_ok ?t" using assms(1) by (simp add: term_ok_def grid_ok_def surface_ok_def)
      moreover have "numbers_fit t (c # cs) = numbers_fit ?t cs" for cs using 2 n numbers_fit_state [of ?t] by simp
      ultimately show ?thesis by (intro step_fits_Some) blast
    next
      case 3
      from term_put_char_ok [OF set_st [of ANSI_STATE_NORMAL] assms(2)] obtain t' where
        t': "term_put_char c (t\<lparr>ansi_state := ANSI_STATE_NORMAL\<rparr>) = Some t'" "term_ok t'" "ansi_state t' = ANSI_STATE_NORMAL" by auto
      then show ?thesis using 3 ANSI_STATE_ESC n numbers_fit_state [OF t'(3)]
        by (intro step_fits_Some) (simp add: write_char_def)
    qed
  next
    case ANSI_STATE_CSI
    then show ?thesis using csi_char_fits [OF assms(1)] by (simp add: write_char_def)
  next
    case ANSI_STATE_OSC
    note n = numbers_fit_state [OF ANSI_STATE_OSC]
    show ?thesis
    proof (cases "c = 0x07")
      case True
      from osc_end_ok [OF assms(1), of os] assms(3) obtain t' where
        t': "osc_end os t = Some t'" "term_ok t'" "ansi_state t' = ANSI_STATE_NORMAL" by blast
      then show ?thesis using True ANSI_STATE_OSC n numbers_fit_state [OF t'(3)]
        by (intro step_fits_Some) (simp add: write_char_def)
    next
      case False
      let ?t = "t\<lparr>osc_buffer := (osc_buffer t)[nat (osc_idx t) := c], osc_idx := osc_idx t + 1\<rparr>"
      have idx: "0 \<le> osc_idx t" "length (osc_buffer t) = 128" using assms(1) ANSI_STATE_OSC by (simp_all add: term_ok_def)
      have "write_char os c t = Some (if osc_idx t < 127 then ?t else t)"
        using False ANSI_STATE_OSC idx by (simp add: write_char_def poke_def)
      moreover have "term_ok (if osc_idx t < 127 then ?t else t)"
        using assms(1) by (simp add: term_ok_def grid_ok_def surface_ok_def)
      moreover have "numbers_fit t (c # cs) = numbers_fit (if osc_idx t < 127 then ?t else t) cs" for cs
        using False ANSI_STATE_OSC n numbers_fit_state [of ?t] by simp
      ultimately show ?thesis by (intro step_fits_Some) blast
    qed
  qed
qed

lemma write_chars_fit:
  assumes "term_ok t" and "\<forall>c \<in> set str. c < 128" and "\<And>path img. load_file_to_memory os path = Some img \<Longrightarrow> image_ok img"
  shows "if numbers_fit t str then \<exists>t'. foldM (write_char os) str t = Some t' \<and> term_ok t' else foldM (write_char os) str t = None"
  using assms(1,2)
proof (induction str arbitrary: t)
  case Nil
  then show ?case by (simp add: numbers_fit_def)
next
  case (Cons c str)
  have "step_fits t c (write_char os c t)" using Cons.prems assms(3) by (intro write_char_fits) auto
  then show ?case using Cons.IH Cons.prems(2) by (cases "write_char os c t") (auto simp: step_fits_def)
qed

subsection \<open>Resizing\<close>

text \<open>Copying \<open>k\<close> rows of \<open>n\<close> cells from a grid of width \<open>oc\<close> to a grid of width \<open>nc\<close>.\<close>

lemma copy_rows:
  assumes "0 < nc" "0 \<le> n" "n \<le> nc" "n \<le> oc" and "int k * nc \<le> int (length nb)" "int k * oc \<le> int (length buf)"
  shows "\<exists>nb'. foldM (\<lambda>y nb. copy_cells nb (y * nc) buf (y * oc) n) [0..int k - 1] nb = Some nb' \<and> length nb' = length nb
     \<and> (\<forall>y x. 0 \<le> y \<longrightarrow> 0 \<le> x \<longrightarrow> x < nc \<longrightarrow> y * nc + x < int (length nb) \<longrightarrow> nb' ! nat (y * nc + x) =
          (if y < int k \<and> x < n then buf ! nat (y * oc + x) else nb ! nat (y * nc + x)))"
  using assms(5,6)
proof (induction k)
  case 0
  then show ?case by simp
next
  case (Suc k)
  have oc: "0 \<le> oc" using assms by linarith
  have le: "int k * nc + nc \<le> int (length nb)" "int k * oc + oc \<le> int (length buf)" using Suc.prems by (simp_all add: algebra_simps)
  then obtain nb1 where nb1: "foldM (\<lambda>y nb. copy_cells nb (y * nc) buf (y * oc) n) [0..int k - 1] nb = Some nb1" "length nb1 = length nb"
      "\<forall>y x. 0 \<le> y \<longrightarrow> 0 \<le> x \<longrightarrow> x < nc \<longrightarrow> y * nc + x < int (length nb) \<longrightarrow> nb1 ! nat (y * nc + x) =
          (if y < int k \<and> x < n then buf ! nat (y * oc + x) else nb ! nat (y * nc + x))"
    using Suc.IH assms(1) oc by auto
  let ?d = "int k * nc" and ?s = "int k * oc"
  have z: "0 \<le> ?d" "0 \<le> ?s" using assms(1) oc by simp_all
  define nb2 where "nb2 = take (nat ?d) nb1 @ take (nat n) (drop (nat ?s) buf) @ drop (nat (?d + n)) nb1"
  have c: "copy_cells nb1 ?d buf ?s n = Some nb2" using z le assms(2-4) nb1(2) by (simp add: copy_cells_def nb2_def)
  have ds: "nat ?d \<le> length nb1" "nat ?s + nat n \<le> length buf" "nat ?d + nat n \<le> length nb1" using le assms(2-4) nb1(2) z by linarith+
  have len: "length nb2 = length nb" using ds nb1(2) assms(2) z by (simp add: nb2_def nat_add_distrib)
  have at: "nb2 ! j = (if nat ?d \<le> j \<and> j < nat ?d + nat n then buf ! (nat ?s + (j - nat ?d)) else nb1 ! j)" if "j < length nb" for j
  proof -
    define seg where "seg = take (nat n) (drop (nat ?s) buf)"
    have "length seg = nat n" "i < nat n \<Longrightarrow> seg ! i = buf ! (nat ?s + i)" for i using ds(2) by (simp_all add: seg_def)
    then show ?thesis
      using that ds(1,3) nb1(2) assms(2) z unfolding nb2_def seg_def [symmetric] by (auto simp: nth_append nat_add_distrib)
  qed
  have "nb2 ! nat (y * nc + x) = (if y < int (Suc k) \<and> x < n then buf ! nat (y * oc + x) else nb ! nat (y * nc + x))"
    if yx: "0 \<le> y" "0 \<le> x" "x < nc" "y * nc + x < int (length nb)" for y x
  proof -
    let ?j = "nat (y * nc + x)"
    have j: "0 \<le> y * nc + x" "?j < length nb" using yx assms(1) by (simp_all add: nat_less_iff)
    consider "y = int k" | "y < int k" | "y > int k" by linarith
    then show ?thesis
    proof cases
      case 1
      have "nat ?s + (?j - nat ?d) = nat (y * oc + x)" "nat ?d \<le> ?j \<and> ?j < nat ?d + nat n \<longleftrightarrow> x < n"
        using 1 yx z assms(2) by (auto simp: nat_add_distrib)
      then show ?thesis using 1 at [OF j(2)] nb1(3) yx by auto
    next
      case 2
      have "y * nc + x < (y + 1) * nc" using yx by (simp add: algebra_simps)
      also have "\<dots> \<le> ?d" using 2 assms(1) by (intro mult_right_mono) auto
      finally have "\<not> nat ?d \<le> ?j" using j by linarith
      then show ?thesis using 2 at [OF j(2)] nb1(3) yx by auto
    next
      case 3
      have "?d + nc = (int k + 1) * nc" by (simp add: algebra_simps)
      also have "\<dots> \<le> y * nc" using 3 assms(1) by (intro mult_right_mono) auto
      finally have "\<not> ?j < nat ?d + nat n" using yx z assms(2,3) by linarith
      then show ?thesis using 3 at [OF j(2)] nb1(3) yx by auto
    qed
  qed
  moreover have "[0..int (Suc k) - 1] = [0..int k - 1] @ [int k]" using upto_rec2 [of 0 "int k"] by simp
  ultimately show ?case using nb1(1) c len by (simp add: foldM_append)
qed

definition cell_at :: "term_t \<Rightarrow> int \<Rightarrow> int \<Rightarrow> term_cell" where
  "cell_at t x y = the (text_buffer t) ! nat (y * cols t + x)"

abbreviation (input) default_cell :: term_cell where "default_cell \<equiv> \<lparr>ch = 0, cell_fg = DEFAULT_FG, cell_bg = DEFAULT_BG\<rparr>"

text \<open>What is asked of a terminal before its grid is allocated, and the state that \<^verbatim>\<open>term_resize\<close> asks for.\<close>

definition resizable :: "term_t \<Rightarrow> bool" where
  "resizable t \<longleftrightarrow> surface_ok t \<and> 0 \<le> cursor_x t \<and> 0 \<le> cursor_y t \<and> (text_buffer t = None \<or> grid_ok t)
     \<and> length (ansi_params t) = 4 \<and> 0 \<le> ansi_param_count t \<and> ansi_param_count t \<le> 3
     \<and> length (osc_buffer t) = 128 \<and> (ansi_state t = ANSI_STATE_OSC \<longrightarrow> 0 \<le> osc_idx t \<and> osc_idx t \<le> 127)"

lemma term_ok_resizable: "term_ok t \<Longrightarrow> resizable t"
  by (auto simp: term_ok_def resizable_def grid_ok_def)

lemma new_buffer:
  assumes "text_buffer t = None \<or> grid_ok t" and "0 < nc" "0 < nr"
  shows "\<exists>nb. (case text_buffer t of None \<Rightarrow> Some (replicate (nat (nc * nr)) default_cell)
        | Some buf \<Rightarrow> let copy_rows = (if rows t < nr then rows t else nr); copy_cols = (if cols t < nc then cols t else nc)
            in foldM (\<lambda>y nb. copy_cells nb (y * nc) buf (y * cols t) copy_cols) [0..copy_rows - 1] (replicate (nat (nc * nr)) default_cell)) = Some nb
     \<and> int (length nb) = nc * nr
     \<and> (\<forall>y x. 0 \<le> y \<and> y < nr \<and> 0 \<le> x \<and> x < nc \<longrightarrow> nb ! nat (y * nc + x) =
          (if text_buffer t \<noteq> None \<and> y < rows t \<and> x < cols t then cell_at t x y else default_cell))"
proof -
  let ?nb = "replicate (nat (nc * nr)) default_cell"
  have pos: "0 < nc * nr" using assms by simp
  have idx: "0 \<le> y * nc + x \<and> y * nc + x < nc * nr" if "0 \<le> y" "y < nr" "0 \<le> x" "x < nc" for x y
  proof -
    have "y * nc + x < (y + 1) * nc" using that by (simp add: algebra_simps)
    also have "\<dots> \<le> nr * nc" using that by (intro mult_right_mono) auto
    finally show ?thesis using that by (simp add: mult.commute)
  qed
  have dflt: "?nb ! nat (y * nc + x) = default_cell" if "0 \<le> y" "y < nr" "0 \<le> x" "x < nc" for x y
    using idx [OF that] by simp
  show ?thesis
  proof (cases "text_buffer t")
    case None
    then show ?thesis using pos dflt by auto
  next
    case (Some buf)
    then have len: "int (length buf) = cols t * rows t" and g: "0 < cols t" "0 < rows t" using assms(1) by (auto simp: grid_ok_def)
    define r c where "r = (if rows t < nr then rows t else nr)" and "c = (if cols t < nc then cols t else nc)"
    have b: "0 \<le> r" "r \<le> nr" "r \<le> rows t" "0 \<le> c" "c \<le> nc" "c \<le> cols t" using g assms(2,3) by (simp_all add: r_def c_def)
    have "r * nc \<le> nr * nc" "r * cols t \<le> rows t * cols t" using g assms b by (intro mult_right_mono; simp)+
    then have sz: "int (nat r) * nc \<le> int (length ?nb)" "int (nat r) * cols t \<le> int (length buf)"
      using pos len b(1) by (simp_all add: mult.commute)
    from copy_rows [OF assms(2) b(4,5,6) sz] obtain nb where
      nb: "foldM (\<lambda>y nb. copy_cells nb (y * nc) buf (y * cols t) c) [0..r - 1] ?nb = Some nb" "length nb = length ?nb"
        "\<forall>y x. 0 \<le> y \<longrightarrow> 0 \<le> x \<longrightarrow> x < nc \<longrightarrow> y * nc + x < int (length ?nb) \<longrightarrow> nb ! nat (y * nc + x) =
          (if y < r \<and> x < c then buf ! nat (y * cols t + x) else ?nb ! nat (y * nc + x))"
      using b(1) by auto
    have "nb ! nat (y * nc + x) = (if y < rows t \<and> x < cols t then buf ! nat (y * cols t + x) else default_cell)"
      if "0 \<le> y" "y < nr" "0 \<le> x" "x < nc" for x y
    proof -
      have "y * nc + x < int (length ?nb)" using idx [OF that] pos by simp
      then have "nb ! nat (y * nc + x) = (if y < r \<and> x < c then buf ! nat (y * cols t + x) else ?nb ! nat (y * nc + x))"
        using nb(3) that by blast
      moreover have "y < r \<and> x < c \<longleftrightarrow> y < rows t \<and> x < cols t" using that by (auto simp: r_def c_def)
      ultimately show ?thesis using dflt [OF that] by simp
    qed
    then show ?thesis using nb(1,2) pos Some by (simp add: cell_at_def r_def c_def Let_def)
  qed
qed

lemma term_resize_result:
  assumes "resizable t" and "gfx_font_width (gfx t) \<le> w" "gfx_font_height (gfx t) \<le> h"
  defines "nc \<equiv> w div gfx_font_width (gfx t)" and "nr \<equiv> h div gfx_font_height (gfx t)"
  assumes "w < 0x40000000" "h < 0x40000000" and small_grid: "12 * (nc * nr) < 0x80000000"
  shows "\<exists>t'. term_resize True w h t = Some t' \<and> term_ok t' \<and> cols t' = nc \<and> rows t' = nr
     \<and> cursor_x t' = min (cursor_x t) (nc - 1) \<and> cursor_y t' = min (cursor_y t) (nr - 1) \<and> ansi_state t' = ansi_state t
     \<and> (\<forall>x y. 0 \<le> x \<and> x < nc \<and> 0 \<le> y \<and> y < nr \<longrightarrow> cell_at t' x y =
          (if text_buffer t \<noteq> None \<and> x < cols t \<and> y < rows t then cell_at t x y else default_cell))"
proof -
  let ?cw = "gfx_font_width (gfx t)" and ?chh = "gfx_font_height (gfx t)"
  have g: "surface_ok t" using assms(1) by (simp add: resizable_def)
  then have f: "0 < ?cw" "0 < ?chh" by (auto simp: surface_ok_def gfx_ok_def font_ok_def gfx_font_width_def gfx_font_height_def)
  have n: "0 < nc" "0 < nr" using assms(2,3) f by (simp_all add: nc_def nr_def pos_imp_zdiv_pos_iff)
  have sd: "w sdiv ?cw = nc" "h sdiv ?chh = nr" using f assms(2,3) by (simp_all add: signed_divide_int_def nc_def nr_def sgn_mult)
  have size: "int32 (nc * nr) = Some (nc * nr)" using mult_pos_pos [OF n] small_grid by (intro int32_Some) linarith+
  have "nc * ?cw \<le> w" "nr * ?chh \<le> h" using f by (simp_all add: nc_def nr_def minus_mod_eq_div_mult [symmetric])
  then have px: "nc * ?cw < 0x40000000" "nr * ?chh < 0x40000000" using assms(6,7) by linarith+
  from new_buffer [OF _ n, of t] assms(1) obtain nb where
    nb: "(case text_buffer t of None \<Rightarrow> Some (replicate (nat (nc * nr)) default_cell)
        | Some buf \<Rightarrow> let copy_rows = (if rows t < nr then rows t else nr); copy_cols = (if cols t < nc then cols t else nc)
            in foldM (\<lambda>y nb. copy_cells nb (y * nc) buf (y * cols t) copy_cols) [0..copy_rows - 1] (replicate (nat (nc * nr)) default_cell)) = Some nb"
      "int (length nb) = nc * nr"
      "\<forall>y x. 0 \<le> y \<and> y < nr \<and> 0 \<le> x \<and> x < nc \<longrightarrow> nb ! nat (y * nc + x) =
          (if text_buffer t \<noteq> None \<and> y < rows t \<and> x < cols t then cell_at t x y else default_cell)"
    by (auto simp: resizable_def)
  have small: "ch (nb ! j) < 128" if "j < length nb" for j
  proof -
    define y x where "y = int j div nc" and "x = int j mod nc"
    have j: "int j = y * nc + x" "0 \<le> x" "x < nc" "0 \<le> y" using n by (auto simp: y_def x_def pos_imp_zdiv_nonneg_iff)
    have "y < nr"
    proof (rule ccontr)
      assume "\<not> y < nr"
      then have "nr * nc \<le> y * nc" using n by (intro mult_right_mono) auto
      then show False using j(1,2) that nb(2) by (simp add: mult.commute)
    qed
    then have "nb ! nat (y * nc + x) = (if text_buffer t \<noteq> None \<and> y < rows t \<and> x < cols t then cell_at t x y else default_cell)"
      using nb(3) j by blast
    moreover have "nat (y * nc + x) = j" using j(1) by simp
    moreover have "ch (cell_at t x y) < 128" if hh: "text_buffer t \<noteq> None" "y < rows t" "x < cols t"
    proof -
      have "grid_ok t" using assms(1) hh(1) by (auto simp: resizable_def)
      then obtain buf cell where "text_buffer t = Some buf" "peek buf (y * cols t + x) = Some cell" "ch cell < 128"
        using grid_peek [of t x y] j hh by blast
      then show ?thesis by (auto simp: cell_at_def peek_def split: if_splits)
    qed
    ultimately show ?thesis by simp
  qed
  define t1 where "t1 = t\<lparr>text_buffer := Some nb, cols := nc, rows := nr, cursor_x := min (cursor_x t) (nc - 1), cursor_y := min (cursor_y t) (nr - 1)\<rparr>"
  have "\<forall>cell \<in> set nb. ch cell < 128" using small by (auto simp: in_set_conv_nth)
  moreover have "min (cursor_x t) (nc - 1) < nc" "min (cursor_y t) (nr - 1) < nr" by linarith+
  ultimately have ok: "grid_ok t1" "term_ok t1" using nb(2) n g px small_grid assms(1)
    by (simp_all add: grid_ok_def term_ok_def t1_def resizable_def surface_ok_def)
  from term_redraw_full_ok [OF ok(1)] obtain t' where t': "term_redraw_full t1 = Some t'" "redrawn t1 t'" by blast
  note F = redrawn_fields [OF t'(2)]
  have "term_resize True w h t = term_redraw_full t1"
    using f nb(1) size by (simp add: term_resize_def sd t1_def Let_def)
  moreover have "cell_at t' x y = nb ! nat (y * nc + x)" for x y using F(1,2) by (simp add: cell_at_def t1_def)
  moreover have "cols t' = nc" "rows t' = nr" "cursor_x t' = min (cursor_x t) (nc - 1)" "cursor_y t' = min (cursor_y t) (nr - 1)" "ansi_state t' = ansi_state t"
    using F by (simp_all add: t1_def)
  ultimately show ?thesis
    using t'(1) redrawn_ok(2) [OF t'(2) ok(2)] nb(3) by (intro exI [of _ t'] conjI allI impI) auto
qed

subsection \<open>Properties\<close>

text \<open>
  C9. The terminal is memory safe on every ASCII text, escape sequences included: characters at or above 128 have no
  glyph, and a file that the text asks to show must hold a complete image. \<^verbatim>\<open>term_write\<close> never leaves the cell
  grid, the parameter array, the path buffer, the glyphs or the window's surface, every sum of its positions fits an
  \<^verbatim>\<open>int\<close>, and it keeps the terminal's invariant: in particular the cursor stays on the grid. The one thing
  that can go wrong is the number of an escape sequence: \<^verbatim>\<open>p * 10 + (c - '0')\<close> has no guard. When one of the text's
  numbers leaves the range of an \<^verbatim>\<open>int\<close>, which the text alone decides, the call has no result: an overflow
  is undefined behaviour.
\<close>

theorem term_write_ok:
  assumes "term_ok t" and "\<forall>c \<in> set str. c < 128" and "\<forall>path img. load_file_to_memory os path = Some img \<longrightarrow> image_ok img"
  shows "if numbers_fit t str then \<exists>r t'. term_write os str t = Some (r, t') \<and> term_ok t' else term_write os str t = None"
  using write_chars_fit [OF assms(1,2), of os] assms(3) by (auto simp: term_write_def split: if_splits)

text \<open>
  \<^verbatim>\<open>term_resize\<close> to a size of at least one character keeps the text: the cells that both grids have keep
  their character and colors at the same column and row, new cells are blank, the cursor is moved onto the
  new grid and the invariant holds. It also establishes the invariant when there is no grid yet. The size is
  below \<open>2 ^ 30\<close> in each direction and the grid has at most \<open>2 ^ 31\<close> bytes.
\<close>

theorem term_resize_ok:
  assumes "resizable t" and "gfx_font_width (gfx t) \<le> w" and "gfx_font_height (gfx t) \<le> h"
    and "w < 0x40000000" and "h < 0x40000000" and "12 * ((w div gfx_font_width (gfx t)) * (h div gfx_font_height (gfx t))) < 0x80000000"
  shows "\<exists>t'. term_resize True w h t = Some t' \<and> term_ok t'
     \<and> cols t' = w div gfx_font_width (gfx t) \<and> rows t' = h div gfx_font_height (gfx t)
     \<and> cursor_x t' = min (cursor_x t) (cols t' - 1) \<and> cursor_y t' = min (cursor_y t) (rows t' - 1)
     \<and> (\<forall>x y. 0 \<le> x \<and> x < cols t' \<and> 0 \<le> y \<and> y < rows t' \<longrightarrow> cell_at t' x y =
          (if text_buffer t \<noteq> None \<and> x < cols t \<and> y < rows t then cell_at t x y
           else \<lparr>ch = 0, cell_fg = DEFAULT_FG, cell_bg = DEFAULT_BG\<rparr>))"
  using term_resize_result [OF assms] by auto

text \<open>A window of 16 by 2 pixels, and a terminal on it before its first resize.\<close>

definition window_example :: gfx_context where
  "window_example = gfx_example\<lparr>fb := replicate 32 0, width := 16, height := 2, pitch := 16\<rparr>"

definition fresh_term :: term_t where
  "fresh_term = \<lparr>gfx = window_example, text_buffer = None, cols = 0, rows = 0, cursor_x = 0, cursor_y = 0, show_cursor = True,
     fg_color = DEFAULT_FG, bg_color = DEFAULT_BG, last_update = \<lparr>rx = 0, ry = 0, rw = 0, rh = 0, dirty = False\<rparr>,
     ansi_state = ANSI_STATE_NORMAL, ansi_params = [0, 0, 0, 0], ansi_param_count = 0, osc_buffer = replicate 128 0, osc_idx = 0\<rparr>"

lemma fresh_term_ok:
  "resizable fresh_term" "gfx_font_width (gfx fresh_term) = 8" "gfx_font_height (gfx fresh_term) = 1"
  by (simp_all add: resizable_def fresh_term_def surface_ok_def rect_ok_def gfx_ok_def screen_ok_def font_ok_def window_example_def gfx_example_def
      gfx_font_width_def gfx_font_height_def)

lemma term_example_ok: obtains t where "term_init True window_example fresh_term = Some t" "term_ok t" "ansi_state t = ANSI_STATE_NORMAL" "cols t = 2" "rows t = 2"
proof -
  have "term_init True window_example fresh_term = term_resize True 16 2 fresh_term"
    by (simp add: term_init_def fresh_term_def) (simp add: window_example_def)
  then show ?thesis using term_resize_result [OF fresh_term_ok(1), of 16 2] that by (auto simp: fresh_term_ok) (simp add: fresh_term_def)
qed

definition no_files :: os_files where
  "no_files = \<lparr>os_stat = (\<lambda>_. (-1, 0, 0)), os_malloc = (\<lambda>_. False), os_read = (\<lambda>_ _. (-1, []))\<rparr>"

text \<open>A color and some text, and a number of eleven digits.\<close>

definition red_hello :: "u8 list" where
  "red_hello = [0x1B, 0x5B, 0x33, 0x31, 0x6D] @ literal ''hello'' @ [0x0A, 0x08]"

definition big_number :: "u8 list" where
  "big_number = [0x1B, 0x5B, 0x39, 0x39, 0x39, 0x39, 0x39, 0x39, 0x39, 0x39, 0x39, 0x39, 0x39, 0x6D]"

lemma example_numbers:
  assumes "ansi_state t = ANSI_STATE_NORMAL"
  shows "numbers_fit t red_hello" "\<not> numbers_fit t big_number"
  using assms by (simp_all add: numbers_fit_def red_hello_def big_number_def literal_def add_digit_def int32_def)

theorem term_write_ok_witness:
  "\<exists>t r t'. term_init True window_example fresh_term = Some t
     \<and> term_write no_files red_hello t = Some (r, t') \<and> cursor_x t' < cols t' \<and> cursor_y t' < rows t'
     \<and> term_write no_files big_number t = None"
proof -
  from term_example_ok obtain t where t: "term_init True window_example fresh_term = Some t" "term_ok t" "ansi_state t = ANSI_STATE_NORMAL"
    by metis
  have ascii: "\<forall>c \<in> set red_hello. c < 128" "\<forall>c \<in> set big_number. c < 128"
    by (simp_all add: literal_def red_hello_def big_number_def)
  have "\<forall>path img. load_file_to_memory no_files path = Some img \<longrightarrow> image_ok img"
    by (simp add: load_file_to_memory_def no_files_def)
  note w = term_write_ok [OF t(2) _ this]
  from w [OF ascii(1)] w [OF ascii(2)] t(1) show ?thesis
    unfolding term_ok_def by (auto simp: example_numbers [OF t(3)])
qed

theorem term_resize_ok_witness: "\<exists>t'. term_resize True 17 3 fresh_term = Some t' \<and> cols t' = 2 \<and> rows t' = 3"
  using term_resize_ok [OF fresh_term_ok(1), of 17 3] by (auto simp: fresh_term_ok)

end
