(* ===== verification/Wm.thy ===== *)
theory Wm
  imports Gfx KString "HOL-Library.Signed_Division"
begin

unbundle bit_operations_syntax

text \<open>
  The tiling window manager \<^verbatim>\<open>src/userspace/idpwm.c\<close> and \<^verbatim>\<open>idpwm.h\<close>: a pool of tree nodes linked by
  pointers, the layout and drawing of the tree, and the handling of messages and keys. A node pointer is the
  index of the node in the pool, \<open>Dead\<close> is the poison \<^verbatim>\<open>0xDEADDEAD\<close>. The system calls are recorded in
  \<open>calls\<close>; the answers of the system, and the memory that clients share, are the parameter \<open>os\<close>.
\<close>

subsection \<open>Data\<close>

datatype split_dir = SPLIT_H | SPLIT_V

datatype nptr = Null | Node nat | Dead

record dirty_state =
  min_x :: int
  min_y :: int
  max_x :: int
  max_y :: int
  is_dirty :: bool

record window =
  win_id :: nat
  win_pid :: int
  alive :: bool
  wx :: int
  wy :: int
  wwidth :: int
  wheight :: int
  buffer_wm_ptr :: u64
  buffer_client_ptr :: u64

record tree_node =
  parent :: nptr
  left :: nptr
  right :: nptr
  is_leaf :: bool
  split_dir :: split_dir
  win :: "nat option"
  nx :: int
  ny :: int
  nw :: int
  nh :: int

record fb_info =
  fb_addr :: u64
  fb_width :: u64
  fb_height :: u64
  fb_pitch :: u64

datatype wm_call =
    IpcSend int int u64 u64 u64
  | ShareMem int u64
  | Unmap u64 u64
  | Exec "string list"
  | Write string

record wm =
  windows :: "window list"
  nodes :: "tree_node list"
  node_pool_idx :: nat
  free_stack :: "nat list"
  root :: nptr
  focused_node :: nptr
  next_split_mode :: split_dir
  dirty_map :: "dirty_state list"
  framebuffer :: fb_info
  screen :: "u8 list"
  back_buffer :: "u8 list"
  back_buffer_size :: int
  screen_pitch_bytes :: int
  calls :: "wm_call list"

definition MAX_WINDOWS :: nat where "MAX_WINDOWS = 16"
definition MSG_REQUEST_WINDOW :: int where "MSG_REQUEST_WINDOW = 100"
definition MSG_WINDOW_CREATED :: int where "MSG_WINDOW_CREATED = 200"
definition MSG_WINDOW_RESIZE :: int where "MSG_WINDOW_RESIZE = 201"
definition MSG_BUFFER_UPDATE :: int where "MSG_BUFFER_UPDATE = 300"
definition MSG_KEY_EVENT :: int where "MSG_KEY_EVENT = 500"
definition MSG_QUIT_REQUEST :: int where "MSG_QUIT_REQUEST = 0xDEAD"

text \<open>
  \<open>os_share\<close> answers \<^verbatim>\<open>sys_share_mem\<close> with the local and the client's address, given the calls so far;
  \<open>os_mem\<close> is the memory at the addresses of shared buffers.
\<close>

record wm_os =
  os_share :: "wm_call list \<Rightarrow> int \<Rightarrow> u64 \<Rightarrow> u64 \<times> u64"
  os_mem :: "wm_call list \<Rightarrow> bytes"

definition call :: "wm_call \<Rightarrow> wm \<Rightarrow> wm" where
  "call c s = s\<lparr>calls := calls s @ [c]\<rparr>"

definition sys_ipc_send_wm :: "int \<Rightarrow> int \<Rightarrow> u64 \<Rightarrow> u64 \<Rightarrow> u64 \<Rightarrow> wm \<Rightarrow> wm" where
  "sys_ipc_send_wm p ty d1 d2 d3 s = call (IpcSend p ty d1 d2 d3) s"

subsection \<open>Dirty rectangles\<close>

definition clean :: dirty_state where
  "clean = \<lparr>min_x = 100000, min_y = 100000, max_x = -1, max_y = -1, is_dirty = False\<rparr>"

definition reset_dirty :: "nat \<Rightarrow> wm \<Rightarrow> wm" where
  "reset_dirty i s = s\<lparr>dirty_map := (dirty_map s)[i := clean]\<rparr>"

text \<open>The numbers come from a client: a sum that does not fit an \<^verbatim>\<open>int\<close> is undefined.\<close>

definition grow :: "int \<Rightarrow> int \<Rightarrow> int \<Rightarrow> int \<Rightarrow> dirty_state \<Rightarrow> dirty_state option" where
  "grow x y w h d =
     do {
       let d = (if x < min_x d then d\<lparr>min_x := x\<rparr> else d);
       let d = (if y < min_y d then d\<lparr>min_y := y\<rparr> else d);
       r \<leftarrow> int32 (x + w);
       let d = (if r > max_x d then d\<lparr>max_x := r\<rparr> else d);
       b \<leftarrow> int32 (y + h);
       let d = (if b > max_y d then d\<lparr>max_y := b\<rparr> else d);
       Some (d\<lparr>is_dirty := True\<rparr>)
     }"

definition mark_dirty :: "nat \<Rightarrow> int \<Rightarrow> int \<Rightarrow> int \<Rightarrow> int \<Rightarrow> wm \<Rightarrow> wm option" where
  "mark_dirty slot x y w h s =
     (if w \<le> 0 \<or> h \<le> 0 then Some s
      else map_option (\<lambda>d. s\<lparr>dirty_map := (dirty_map s)[slot := d]\<rparr>) (grow x y w h (dirty_map s ! slot)))"

subsection \<open>Drawing\<close>

text \<open>
  \<^verbatim>\<open>x + w > framebuffer.fb_width\<close> compares an \<^verbatim>\<open>int\<close> with a 64-bit unsigned number: a negative sum is
  converted to a huge one. The clipped width is the 64-bit difference, cut to an \<^verbatim>\<open>int\<close>.
\<close>

definition clip_len :: "int \<Rightarrow> int \<Rightarrow> u64 \<Rightarrow> int" where
  "clip_len x w limit = (if word_of_int (x + w) > limit then sint (ucast (limit - word_of_int x) :: u32) else w)"

definition wm_present_rect :: "int \<Rightarrow> int \<Rightarrow> int \<Rightarrow> int \<Rightarrow> wm \<Rightarrow> wm option" where
  "wm_present_rect x y w h s =
     (let (w, x) = (if x < 0 then (w + x, 0) else (w, x));
          (h, y) = (if y < 0 then (h + y, 0) else (h, y));
          w = clip_len x w (fb_width (framebuffer s));
          h = clip_len y h (fb_height (framebuffer s))
      in if w \<le> 0 \<or> h \<le> 0 then Some s
         else
           let dst = y * uint (fb_pitch (framebuffer s)) + x * 4;
               src = y * screen_pitch_bytes s + x * 4
           in map_option (\<lambda>p. s\<lparr>screen := p\<rparr>)
                (foldM (\<lambda>i p. copy_cells p (dst + i * uint (fb_pitch (framebuffer s))) (back_buffer s)
                                (src + i * screen_pitch_bytes s) (w * 4)) [0..h - 1] (screen s)))"

text \<open>A 32-bit store, little-endian.\<close>

definition poke32 :: "int \<Rightarrow> u32 \<Rightarrow> u8 list \<Rightarrow> u8 list option" where
  "poke32 a v p = do { p \<leftarrow> poke a (ucast v) p; p \<leftarrow> poke (a + 1) (ucast (drop_bit 8 v)) p;
     p \<leftarrow> poke (a + 2) (ucast (drop_bit 16 v)) p; poke (a + 3) (ucast (drop_bit 24 v)) p }"

text \<open>Every caller passes the back buffer.\<close>

definition fb_fill_rect :: "int \<Rightarrow> int \<Rightarrow> int \<Rightarrow> int \<Rightarrow> u32 \<Rightarrow> wm \<Rightarrow> wm option" where
  "fb_fill_rect x y w h color s =
     (if w \<le> 0 \<or> h \<le> 0 then Some s
      else
        let (w, x) = (if x < 0 then (w + x, 0) else (w, x));
            (h, y) = (if y < 0 then (h + y, 0) else (h, y));
            w = clip_len x w (fb_width (framebuffer s));
            h = clip_len y h (fb_height (framebuffer s));
            stride_pixels = screen_pitch_bytes s sdiv 4
        in map_option (\<lambda>p. s\<lparr>back_buffer := p\<rparr>)
             (foldM (\<lambda>yy. foldM (\<lambda>xx. poke32 (4 * ((y + yy) * stride_pixels + x + xx)) color) [0..w - 1]) [0..h - 1] (back_buffer s)))"

definition fb_draw_border :: "int \<Rightarrow> int \<Rightarrow> int \<Rightarrow> int \<Rightarrow> u32 \<Rightarrow> int \<Rightarrow> wm \<Rightarrow> wm option" where
  "fb_draw_border x y w h color thick s =
     (if w < thick * 2 \<or> h < thick * 2 then Some s
      else do {
        s \<leftarrow> fb_fill_rect x y w thick color s;
        s \<leftarrow> fb_fill_rect x (y + h - thick) w thick color s;
        s \<leftarrow> fb_fill_rect x (y + thick) thick (h - thick * 2) color s;
        fb_fill_rect (x + w - thick) (y + thick) thick (h - thick * 2) color s
      })"

subsection \<open>The tree of windows\<close>

definition node_at :: "nptr \<Rightarrow> wm \<Rightarrow> tree_node option" where
  "node_at p s = (case p of Node i \<Rightarrow> if i < length (nodes s) then Some (nodes s ! i) else None | _ \<Rightarrow> None)"

definition set_node :: "nptr \<Rightarrow> (tree_node \<Rightarrow> tree_node) \<Rightarrow> wm \<Rightarrow> wm option" where
  "set_node p f s = (case p of Node i \<Rightarrow> if i < length (nodes s) then Some (s\<lparr>nodes := (nodes s)[i := f (nodes s ! i)]\<rparr>) else None
                              | _ \<Rightarrow> None)"

definition zero_node :: tree_node where
  "zero_node = \<lparr>parent = Null, left = Null, right = Null, is_leaf = False, split_dir = SPLIT_H, win = None,
     nx = 0, ny = 0, nw = 0, nh = 0\<rparr>"

text \<open>A push on the full stack would write outside \<^verbatim>\<open>free_stack\<close>.\<close>

definition tree_free :: "nptr \<Rightarrow> wm \<Rightarrow> wm option" where
  "tree_free p s =
     (case p of
        Null \<Rightarrow> Some s
      | Dead \<Rightarrow> Some s
      | Node i \<Rightarrow>
          if i \<ge> MAX_WINDOWS * 2 then Some s
          else do {
            let s = (if length (free_stack s) \<ge> MAX_WINDOWS * 2 then call (Write ''tree_free: free_stack overflow'') s else s);
            n \<leftarrow> node_at p s;
            let s = (if parent n = Dead then call (Write ''tree_free: double free'') s else s);
            s \<leftarrow> set_node p (\<lambda>n. n\<lparr>parent := Dead\<rparr>) s;
            if length (free_stack s) \<ge> MAX_WINDOWS * 2 then None else Some (s\<lparr>free_stack := i # free_stack s\<rparr>)
          })"

definition tree_alloc :: "wm \<Rightarrow> nptr \<times> wm" where
  "tree_alloc s =
     (case free_stack s of
        i # rest \<Rightarrow> (Node i, s\<lparr>free_stack := rest, nodes := (nodes s)[i := zero_node]\<rparr>)
      | [] \<Rightarrow>
          if node_pool_idx s < MAX_WINDOWS * 2
          then (Node (node_pool_idx s), s\<lparr>node_pool_idx := node_pool_idx s + 1, nodes := (nodes s)[node_pool_idx s := zero_node]\<rparr>)
          else (Null, s))"

definition get_sibling :: "nptr \<Rightarrow> wm \<Rightarrow> nptr option" where
  "get_sibling p s =
     (if p = Null then Some Null
      else do {
        n \<leftarrow> node_at p s;
        if parent n = Null then Some Null
        else do { q \<leftarrow> node_at (parent n) s; Some (if left q = p then right q else left q) }
      })"

text \<open>\<^verbatim>\<open>while (!p->is_leaf) p = p->left\<close>\<close>

partial_function (option) leftmost :: "nptr \<Rightarrow> wm \<Rightarrow> nptr option" where
  "leftmost p s = do { n \<leftarrow> node_at p s; if is_leaf n then Some p else leftmost (left n) s }"

partial_function (option) leftmost_or_null :: "nptr \<Rightarrow> wm \<Rightarrow> nptr option" where
  "leftmost_or_null p s =
     (if p = Null then Some p else do { n \<leftarrow> node_at p s; if is_leaf n then Some p else leftmost_or_null (left n) s })"

definition replace_child :: "nptr \<Rightarrow> nptr \<Rightarrow> nptr \<Rightarrow> wm \<Rightarrow> wm option" where
  "replace_child p old new s = set_node p (\<lambda>n. if left n = old then n\<lparr>left := new\<rparr> else n\<lparr>right := new\<rparr>) s"

definition wm_insert_window_into_tree :: "nat \<Rightarrow> wm \<Rightarrow> wm option" where
  "wm_insert_window_into_tree w s =
     (let (new_leaf, s) = tree_alloc s in
      if new_leaf = Null then Some s
      else do {
        s \<leftarrow> set_node new_leaf (\<lambda>n. n\<lparr>is_leaf := True, win := Some w, parent := Null\<rparr>) s;
        if root s = Null then Some (s\<lparr>root := new_leaf, focused_node := new_leaf\<rparr>)
        else do {
          target \<leftarrow> leftmost (if focused_node s \<noteq> Null then focused_node s else root s) s;
          let (container, s) = tree_alloc s;
          if container = Null then Some s
          else do {
            t \<leftarrow> node_at target s;
            s \<leftarrow> set_node container (\<lambda>n. n\<lparr>is_leaf := False, split_dir := next_split_mode s, parent := parent t\<rparr>) s;
            s \<leftarrow> (if parent t \<noteq> Null then replace_child (parent t) target container s else Some (s\<lparr>root := container\<rparr>));
            s \<leftarrow> set_node container (\<lambda>n. n\<lparr>left := target\<rparr>) s;
            s \<leftarrow> set_node target (\<lambda>n. n\<lparr>parent := container\<rparr>) s;
            s \<leftarrow> set_node container (\<lambda>n. n\<lparr>right := new_leaf\<rparr>) s;
            s \<leftarrow> set_node new_leaf (\<lambda>n. n\<lparr>parent := container\<rparr>) s;
            Some (s\<lparr>focused_node := new_leaf\<rparr>)
          }
        }
      })"

definition set_window :: "nat \<Rightarrow> (window \<Rightarrow> window) \<Rightarrow> wm \<Rightarrow> wm" where
  "set_window i f s = s\<lparr>windows := (windows s)[i := f (windows s ! i)]\<rparr>"

definition release_buffer :: "tree_node \<Rightarrow> wm \<Rightarrow> wm" where
  "release_buffer n s =
     (case win n of
        Some i \<Rightarrow>
          if is_leaf n \<and> buffer_wm_ptr (windows s ! i) \<noteq> 0 then
            let w = windows s ! i
            in set_window i (\<lambda>w. w\<lparr>buffer_wm_ptr := 0\<rparr>)
                 (call (Unmap (buffer_wm_ptr w) (word_of_int (wwidth w * wheight w * 4))) s)
          else s
      | None \<Rightarrow> s)"

definition wm_delete_node :: "nptr \<Rightarrow> wm \<Rightarrow> wm option" where
  "wm_delete_node p s =
     (if p = Null then Some s
      else do {
        n \<leftarrow> node_at p s;
        let s = release_buffer n s;
        if parent n = Null then
          tree_free p (let s = (if p = root s then s\<lparr>root := Null\<rparr> else s) in s\<lparr>focused_node := Null\<rparr>)
        else do {
          sibling \<leftarrow> get_sibling p s;
          q \<leftarrow> node_at (parent n) s;
          let grandparent = parent q;
          s \<leftarrow> (if sibling \<noteq> Null then
                  do {
                    s \<leftarrow> set_node sibling (\<lambda>m. m\<lparr>parent := grandparent\<rparr>) s;
                    if grandparent \<noteq> Null then replace_child grandparent (parent n) sibling s
                    else Some (s\<lparr>root := sibling\<rparr>)
                  }
                else Some s);
          s \<leftarrow> (if focused_node s = p then do { f \<leftarrow> leftmost_or_null sibling s; Some (s\<lparr>focused_node := f\<rparr>) } else Some s);
          s \<leftarrow> tree_free p s;
          tree_free (parent n) s
        }
      })"

subsection \<open>Layout and rendering\<close>

text \<open>
  \<^verbatim>\<open>NULL\<close> is skipped; a leaf moves its window and tells the client when the size has changed. The recursion
  follows pointers, so that it ends is a theorem.
\<close>

definition place_window :: "nat \<Rightarrow> int \<Rightarrow> int \<Rightarrow> int \<Rightarrow> int \<Rightarrow> wm \<Rightarrow> wm" where
  "place_window i x y w h s =
     (let old = windows s ! i;
          s = set_window i (\<lambda>v. v\<lparr>wx := x, wy := y, wwidth := w, wheight := h\<rparr>) s
      in if wwidth old \<noteq> w \<or> wheight old \<noteq> h
         then sys_ipc_send_wm (win_pid old) MSG_WINDOW_RESIZE (word_of_int w) (word_of_int h) 0 s else s)"

partial_function (option) layout_recursive :: "nptr \<Rightarrow> int \<Rightarrow> int \<Rightarrow> int \<Rightarrow> int \<Rightarrow> wm \<Rightarrow> wm option" where
  "layout_recursive p x y w h s =
     (if p = Null then Some s
      else do {
        s \<leftarrow> set_node p (\<lambda>n. n\<lparr>nx := x, ny := y, nw := w, nh := h\<rparr>) s;
        n \<leftarrow> node_at p s;
        if is_leaf n then (case win n of Some i \<Rightarrow> Some (place_window i x y w h s) | None \<Rightarrow> Some s)
        else do {
          let half_w = (if split_dir n = SPLIT_V then w sdiv 2 else w);
          let half_h = (if split_dir n = SPLIT_H then h sdiv 2 else h);
          let next_x = (if split_dir n = SPLIT_V then x + half_w else x);
          let next_y = (if split_dir n = SPLIT_H then y + half_h else y);
          let rem_w = (if split_dir n = SPLIT_V then w - half_w else w);
          let rem_h = (if split_dir n = SPLIT_H then h - half_h else h);
          s \<leftarrow> layout_recursive (left n) x y half_w half_h s;
          layout_recursive (right n) next_x next_y rem_w rem_h s
        }
      })"

definition wm_update_layout :: "wm \<Rightarrow> wm option" where
  "wm_update_layout s =
     (if root s = Null then Some s
      else layout_recursive (root s) 0 0 (sint (ucast (fb_width (framebuffer s)) :: u32)) (sint (ucast (fb_height (framebuffer s)) :: u32)) s)"

text \<open>\<^verbatim>\<open>memcpy\<close> of \<open>n\<close> bytes from a client's memory into the back buffer.\<close>

definition copy_in :: "bytes \<Rightarrow> u64 \<Rightarrow> int \<Rightarrow> int \<Rightarrow> u8 list \<Rightarrow> u8 list option" where
  "copy_in mem src dst n = foldM (\<lambda>j. poke (dst + j) (mem (src + word_of_int j))) [0..n - 1]"

definition copy_rows :: "bytes \<Rightarrow> u64 \<Rightarrow> int \<Rightarrow> int \<Rightarrow> int \<Rightarrow> int \<Rightarrow> int \<Rightarrow> wm \<Rightarrow> wm option" where
  "copy_rows mem src src_stride dst row_len stride rows s =
     map_option (\<lambda>p. s\<lparr>back_buffer := p\<rparr>)
       (foldM (\<lambda>i. copy_in mem (src + word_of_int (i * src_stride)) (dst + i * stride) row_len) [0..rows - 1] (back_buffer s))"

definition render_leaf :: "wm_os \<Rightarrow> nptr \<Rightarrow> window \<Rightarrow> wm \<Rightarrow> wm option" where
  "render_leaf os p v s =
     do {
       let border_col = (if p = focused_node s then 0xff585b70 else 0xff313244);
       s \<leftarrow> fb_draw_border (wx v) (wy v) (wwidth v) (wheight v) border_col 4 s;
       let cw = wwidth v - 4 * 2;
       let ch = wheight v - 4 * 2;
       if cw > 0 \<and> ch > 0 \<and> buffer_wm_ptr v \<noteq> 0
       then copy_rows (os_mem os (calls s)) (buffer_wm_ptr v) (wwidth v * 4)
              ((wy v + 4) * screen_pitch_bytes s + (wx v + 4) * 4) (cw * 4) (screen_pitch_bytes s) ch s
       else Some s
     }"

partial_function (option) render_recursive :: "wm_os \<Rightarrow> nptr \<Rightarrow> wm \<Rightarrow> wm option" where
  "render_recursive os p s =
     (if p = Null then Some s
      else do {
        n \<leftarrow> node_at p s;
        if is_leaf n \<and> win n \<noteq> None \<and> alive (windows s ! the (win n))
        then render_leaf os p (windows s ! the (win n)) s
        else do { s \<leftarrow> render_recursive os (left n) s; render_recursive os (right n) s }
      })"

text \<open>\<^verbatim>\<open>memset\<close> of the first \<open>n\<close> cells; a negative length is a huge \<^verbatim>\<open>size_t\<close>.\<close>

definition fill_cells :: "'a \<Rightarrow> int \<Rightarrow> 'a list \<Rightarrow> 'a list option" where
  "fill_cells v n xs = (if 0 \<le> n \<and> n \<le> int (length xs) then Some (replicate (nat n) v @ drop (nat n) xs) else None)"

definition wm_draw :: "wm_os \<Rightarrow> wm \<Rightarrow> wm option" where
  "wm_draw os s =
     do { b \<leftarrow> fill_cells 0x20 (back_buffer_size s) (back_buffer s);
          render_recursive os (root s) (s\<lparr>back_buffer := b\<rparr>) }"

definition wm_present :: "wm \<Rightarrow> wm option" where
  "wm_present s = map_option (\<lambda>p. s\<lparr>screen := p\<rparr>) (copy_cells (screen s) 0 (back_buffer s) 0 (back_buffer_size s))"

subsection \<open>Clients, keys and messages\<close>

text \<open>The first window of a process, or \<^verbatim>\<open>-1\<close>.\<close>

definition find_window :: "int \<Rightarrow> wm \<Rightarrow> nat option" where
  "find_window pid s = find (\<lambda>i. win_pid (windows s ! i) = pid \<and> alive (windows s ! i)) [0..<MAX_WINDOWS]"

definition wm_refresh_window :: "wm_os \<Rightarrow> int \<Rightarrow> int \<Rightarrow> int \<Rightarrow> int \<Rightarrow> int \<Rightarrow> wm \<Rightarrow> wm option" where
  "wm_refresh_window os pid req_x req_y req_w req_h s =
     (case find_window pid s of
        None \<Rightarrow> Some s
      | Some i \<Rightarrow>
          let v = windows s ! i
          in if wwidth v \<le> 0 \<or> wheight v \<le> 0 \<or> buffer_wm_ptr v = 0 then Some s
             else
               let inner_w = wwidth v - 4 * 2;
                   inner_h = wheight v - 4 * 2;
                   rx = (if req_w \<le> 0 then 0 else req_x);
                   ry = (if req_h \<le> 0 then 0 else req_y);
                   rw = (if req_w \<le> 0 then inner_w else req_w);
                   rh = (if req_h \<le> 0 then inner_h else req_h)
               in do {
                  (rw, rx) \<leftarrow> (if rx < 0 then do { w \<leftarrow> int32 (rw + rx); Some (w, 0) } else Some (rw, rx));
                  (rh, ry) \<leftarrow> (if ry < 0 then do { h \<leftarrow> int32 (rh + ry); Some (h, 0) } else Some (rh, ry));
                  right_edge \<leftarrow> int32 (rx + rw);
                  rw \<leftarrow> (if right_edge > inner_w then int32 (inner_w - rx) else Some rw);
                  bottom_edge \<leftarrow> int32 (ry + rh);
                  rh \<leftarrow> (if bottom_edge > inner_h then int32 (inner_h - ry) else Some rh);
                  if rw \<le> 0 \<or> rh \<le> 0 then Some s
                  else do {
                    let screen_x = wx v + 4 + rx;
                    let screen_y = wy v + 4 + ry;
                    s \<leftarrow> copy_rows (os_mem os (calls s)) (buffer_wm_ptr v + word_of_int (ry * wwidth v * 4) + word_of_int (rx * 4)) (wwidth v * 4)
                          (screen_y * screen_pitch_bytes s + screen_x * 4) (rw * 4) (screen_pitch_bytes s) rh s;
                    wm_present_rect screen_x screen_y rw rh s
                  }
               })"

definition wm_handle_new_client :: "wm_os \<Rightarrow> int \<Rightarrow> wm \<Rightarrow> wm option" where
  "wm_handle_new_client os pid s =
     (case find (\<lambda>i. \<not> alive (windows s ! i)) [0..<MAX_WINDOWS] of
        None \<Rightarrow> Some s
      | Some slot \<Rightarrow>
          let buffer_size = fb_width (framebuffer s) * fb_height (framebuffer s) * 4;
              (local_ptr, client_virt_addr) = os_share os (calls s) pid buffer_size;
              s = call (ShareMem pid buffer_size) s
          in if local_ptr = 0 then Some s
             else do {
               let s = set_window slot (\<lambda>v. v\<lparr>win_id := slot, win_pid := pid, alive := True,
                           buffer_wm_ptr := local_ptr, buffer_client_ptr := client_virt_addr\<rparr>) s;
               s \<leftarrow> wm_insert_window_into_tree slot s;
               s \<leftarrow> wm_update_layout s;
               let v = windows s ! slot;
               Some (sys_ipc_send_wm pid MSG_WINDOW_CREATED (word_of_int (wwidth v)) (word_of_int (wheight v)) (buffer_client_ptr v) s)
             })"

text \<open>The caller's array holds \<^verbatim>\<open>MAX_WINDOWS\<close> pointers.\<close>

partial_function (option) collect_leaves :: "nptr \<Rightarrow> nptr list \<Rightarrow> wm \<Rightarrow> nptr list option" where
  "collect_leaves p ps s =
     (if p = Null then Some ps
      else do {
        n \<leftarrow> node_at p s;
        if is_leaf n then (if length ps < MAX_WINDOWS then Some (ps @ [p]) else None)
        else do { ps \<leftarrow> collect_leaves (left n) ps s; collect_leaves (right n) ps s }
      })"

definition index_of :: "'a \<Rightarrow> 'a list \<Rightarrow> int" where
  "index_of x xs = (case find (\<lambda>i. xs ! i = x) [0..<length xs] of Some i \<Rightarrow> int i | None \<Rightarrow> -1)"

definition wm_focus_next :: "wm \<Rightarrow> wm option" where
  "wm_focus_next s =
     (if root s = Null then Some s
      else do {
        leaves \<leftarrow> collect_leaves (root s) [] s;
        if leaves = [] then Some s
        else Some (s\<lparr>focused_node := leaves ! nat ((index_of (focused_node s) leaves + 1) mod int (length leaves))\<rparr>)
      })"

definition focused_window :: "wm \<Rightarrow> nat option option" where
  "focused_window s = (if focused_node s = Null then Some None else map_option win (node_at (focused_node s) s))"

definition wm_kill_focused :: "wm_os \<Rightarrow> wm \<Rightarrow> wm option" where
  "wm_kill_focused os s =
     do {
       f \<leftarrow> focused_window s;
       case f of
         None \<Rightarrow> Some s
       | Some i \<Rightarrow> do {
           let s = sys_ipc_send_wm (win_pid (windows s ! i)) MSG_QUIT_REQUEST 0 0 0 s;
           let s = set_window i (\<lambda>v. v\<lparr>alive := False\<rparr>) s;
           s \<leftarrow> wm_delete_node (focused_node s) s;
           s \<leftarrow> wm_update_layout s;
           s \<leftarrow> wm_draw os s;
           wm_present s
         }
     }"

definition wm_handle_input :: "wm_os \<Rightarrow> u16 \<Rightarrow> wm \<Rightarrow> wm option" where
  "wm_handle_input os key_packet s =
     (let key_char = key_packet AND 0xFF
      in if key_packet AND 0x0400 \<noteq> 0 then
           if key_char = 10 then Some (call (Exec [''/bin/idpterm.elf'', ''/'', ''/bin/idpterm.elf'']) s)
           else if key_char = 104 then Some (s\<lparr>next_split_mode := SPLIT_H\<rparr>)
           else if key_char = 118 then Some (s\<lparr>next_split_mode := SPLIT_V\<rparr>)
           else if key_char = 9 then do { s \<leftarrow> wm_focus_next s; s \<leftarrow> wm_draw os s; wm_present s }
           else if key_char = 113 then do { s \<leftarrow> wm_kill_focused os s; s \<leftarrow> wm_draw os s; wm_present s }
           else Some s
         else do {
           f \<leftarrow> focused_window s;
           Some (case f of
                   None \<Rightarrow> s
                 | Some i \<Rightarrow> if alive (windows s ! i)
                             then sys_ipc_send_wm (win_pid (windows s ! i)) MSG_KEY_EVENT (ucast key_packet) 0 0 s else s)
         })"

record wm_message =
  from_pid :: int
  msg_type :: int
  msg_data1 :: u64
  msg_data2 :: u64
  msg_data3 :: u64

definition handle_update :: "wm_message \<Rightarrow> wm \<Rightarrow> wm option" where
  "handle_update m s =
     (case find_window (from_pid m) s of
        None \<Rightarrow> Some s
      | Some slot \<Rightarrow>
          mark_dirty slot (sint (ucast (drop_bit 32 (msg_data1 m)) :: u32)) (sint (ucast (msg_data1 m AND 0xFFFFFFFF) :: u32))
            (sint (ucast (drop_bit 32 (msg_data2 m)) :: u32)) (sint (ucast (msg_data2 m AND 0xFFFFFFFF) :: u32)) s)"

definition handle_message :: "wm_os \<Rightarrow> wm_message \<Rightarrow> wm \<Rightarrow> wm option" where
  "handle_message os m s =
     (if msg_type m = MSG_REQUEST_WINDOW
      then do { s \<leftarrow> wm_handle_new_client os (from_pid m) s; s \<leftarrow> wm_draw os s; wm_present s }
      else if msg_type m = MSG_BUFFER_UPDATE then handle_update m s
      else Some s)"

definition refresh_dirty :: "wm_os \<Rightarrow> nat \<Rightarrow> wm \<Rightarrow> wm option" where
  "refresh_dirty os i s =
     (let d = dirty_map s ! i
      in if is_dirty d \<and> alive (windows s ! i)
         then do {
           rect_w \<leftarrow> int32 (max_x d - min_x d);
           rect_h \<leftarrow> int32 (max_y d - min_y d);
           s \<leftarrow> wm_refresh_window os (win_pid (windows s ! i)) (min_x d) (min_y d) rect_w rect_h s;
           Some (reset_dirty i s)
         }
         else Some s)"

text \<open>
  One pass of the loop of \<^verbatim>\<open>_start\<close>: the messages that \<^verbatim>\<open>sys_ipc_recv\<close> delivers until the queue is empty,
  the key that \<^verbatim>\<open>sys_read_key\<close> returns (\<open>0\<close> for none), the deferred redraws.
\<close>

definition wm_round :: "wm_os \<Rightarrow> wm_message list \<Rightarrow> u16 \<Rightarrow> wm \<Rightarrow> wm option" where
  "wm_round os msgs key s =
     do {
       s \<leftarrow> foldM (handle_message os) msgs s;
       s \<leftarrow> (if key > 0 then wm_handle_input os key s else Some s);
       foldM (refresh_dirty os) [0..<MAX_WINDOWS] s
     }"

text \<open>The start of \<^verbatim>\<open>_start\<close>, after the system has filled in \<open>fbi\<close>; \<open>malloced\<close> is the back buffer, \<open>None\<close> ends the program.\<close>

definition wm_start :: "fb_info \<Rightarrow> u8 list \<Rightarrow> (int \<Rightarrow> u8 list option) \<Rightarrow> wm \<Rightarrow> wm option" where
  "wm_start fbi px malloced s =
     do {
       let pitch = sint (ucast (fb_pitch fbi) :: u32);
       let bytes = sint (ucast (fb_pitch fbi * fb_height fbi) :: u32);
       b \<leftarrow> malloced bytes;
       let s = s\<lparr>framebuffer := fbi, screen := px, screen_pitch_bytes := pitch, back_buffer_size := bytes, back_buffer := b\<rparr>;
       let s = fold reset_dirty [0..<MAX_WINDOWS] s;
       let w = sint (ucast (fb_width fbi) :: u32);
       let h = sint (ucast (fb_height fbi) :: u32);
       s \<leftarrow> fb_fill_rect 0 0 w h 0xFF202020 s;
       wm_present_rect 0 0 w h s
     }"

end
