(* ===== verification/WmTree.thy ===== *)
theory WmTree
  imports Wm
begin

text \<open>
  The pointer structure of the window manager as a binary tree: \<open>rep\<close> relates the node pool to a tree whose
  leaves carry windows, \<open>pool\<close> says which nodes of the pool are in use. Insertion and deletion refine the
  splitting and the removal of a leaf, the layout refines the tiling of a rectangle.
\<close>

subsection \<open>Trees of windows\<close>

text \<open>Every node carries its index in the pool; a leaf also the window.\<close>

datatype wtree = Leaf nat nat | Fork nat split_dir wtree wtree

primrec top :: "wtree \<Rightarrow> nat" where
  "top (Leaf i w) = i"
| "top (Fork i d l r) = i"

primrec ids :: "wtree \<Rightarrow> nat list" where
  "ids (Leaf i w) = [i]"
| "ids (Fork i d l r) = i # ids l @ ids r"

primrec leaves :: "wtree \<Rightarrow> nat list" where
  "leaves (Leaf i w) = [i]"
| "leaves (Fork i d l r) = leaves l @ leaves r"

primrec wins :: "wtree \<Rightarrow> nat list" where
  "wins (Leaf i w) = [w]"
| "wins (Fork i d l r) = wins l @ wins r"

primrec rep :: "tree_node list \<Rightarrow> nptr \<Rightarrow> wtree \<Rightarrow> bool" where
  "rep ns q (Leaf i w) \<longleftrightarrow> i < length ns \<and> is_leaf (ns ! i) \<and> win (ns ! i) = Some w \<and> parent (ns ! i) = q"
| "rep ns q (Fork i d l r) \<longleftrightarrow> i < length ns \<and> \<not> is_leaf (ns ! i) \<and> split_dir (ns ! i) = d \<and> parent (ns ! i) = q \<and>
     left (ns ! i) = Node (top l) \<and> right (ns ! i) = Node (top r) \<and> rep ns (Node i) l \<and> rep ns (Node i) r"

lemma top_in_ids [simp]: "top t \<in> set (ids t)"
  by (cases t) simp_all

lemma leaves_subset: "set (leaves t) \<subseteq> set (ids t)"
  by (induction t) auto

lemma leaf_in_ids [intro]: "f \<in> set (leaves t) \<Longrightarrow> f \<in> set (ids t)"
  using leaves_subset by blast

lemma leaves_nonempty [simp]: "leaves t \<noteq> []"
  by (induction t) simp_all

lemma length_ids: "length (ids t) + 1 = 2 * length (leaves t)"
  by (induction t) simp_all

lemma length_wins: "length (wins t) = length (leaves t)"
  by (induction t) simp_all

lemma distinct_leaves: "distinct (ids t) \<Longrightarrow> distinct (leaves t)"
  by (induction t) (auto dest: leaf_in_ids)

lemma rep_bound: "rep ns q t \<Longrightarrow> i \<in> set (ids t) \<Longrightarrow> i < length ns"
  by (induction t arbitrary: q) auto

lemma rep_parent_top: "rep ns q t \<Longrightarrow> parent (ns ! top t) = q"
  by (cases t) simp_all

text \<open>Every other node's parent is in the tree.\<close>

lemma rep_parent:
  "rep ns q t \<Longrightarrow> i \<in> set (ids t) \<Longrightarrow> i \<noteq> top t \<Longrightarrow> \<exists>p \<in> set (ids t). parent (ns ! i) = Node p"
proof (induction t arbitrary: q)
  case (Fork k d l r)
  then consider "i \<in> set (ids l)" | "i \<in> set (ids r)" by auto
  then show ?case
  proof cases
    case 1
    then show ?thesis
      using Fork.IH(1) [of "Node k"] Fork.prems rep_parent_top [of ns "Node k" l] by (cases "i = top l") auto
  next
    case 2
    then show ?thesis
      using Fork.IH(2) [of "Node k"] Fork.prems rep_parent_top [of ns "Node k" r] by (cases "i = top r") auto
  qed
qed simp

lemma rep_not_dead: "rep ns q t \<Longrightarrow> q \<noteq> Dead \<Longrightarrow> i \<in> set (ids t) \<Longrightarrow> parent (ns ! i) \<noteq> Dead"
  using rep_parent [of ns q t i] rep_parent_top [of ns q t] by (cases "i = top t") auto

lemma rep_leaf: "rep ns q t \<Longrightarrow> f \<in> set (leaves t) \<Longrightarrow> is_leaf (ns ! f)"
  by (induction t arbitrary: q) auto

lemma rep_win: "rep ns q t \<Longrightarrow> map (\<lambda>f. win (ns ! f)) (leaves t) = map Some (wins t)"
  by (induction t arbitrary: q) auto

lemma rep_cong:
  assumes "\<And>i. i \<in> set (ids t) \<Longrightarrow> ns' ! i = ns ! i" and "length ns' = length ns"
  shows "rep ns' q t = rep ns q t"
  using assms by (induction t arbitrary: q) auto

text \<open>Only the parent, the children, the kind and the window of a node matter.\<close>

definition same_links :: "tree_node \<Rightarrow> tree_node \<Rightarrow> bool" where
  "same_links m n \<longleftrightarrow> parent m = parent n \<and> left m = left n \<and> right m = right n \<and> is_leaf m = is_leaf n \<and>
     split_dir m = split_dir n \<and> win m = win n"

lemma rep_links:
  assumes "\<And>i. i \<in> set (ids t) \<Longrightarrow> same_links (ns' ! i) (ns ! i)" and "length ns' = length ns"
  shows "rep ns' q t = rep ns q t"
  using assms unfolding same_links_def by (induction t arbitrary: q) auto

text \<open>Moving a tree below another node changes the parent of its top.\<close>

lemma rep_reparent:
  assumes "rep ns q t" and "distinct (ids t)" and "length ns' = length ns"
    and "\<And>i. i \<in> set (ids t) \<Longrightarrow> ns' ! i = (if i = top t then (ns ! i)\<lparr>parent := q'\<rparr> else ns ! i)"
  shows "rep ns' q' t"
proof (cases t)
  case (Leaf i w)
  with assms show ?thesis by simp
next
  case (Fork i d l r)
  have "rep ns' (Node i) l" and "rep ns' (Node i) r"
    using assms Fork by (subst rep_cong [where ns = ns]; auto)+
  with assms Fork show ?thesis by simp
qed

subsection \<open>Splitting and removing a leaf\<close>

primrec split_leaf :: "nat \<Rightarrow> nat \<Rightarrow> nat \<Rightarrow> split_dir \<Rightarrow> nat \<Rightarrow> wtree \<Rightarrow> wtree" where
  "split_leaf f c n d w (Leaf i v) = (if i = f then Fork c d (Leaf i v) (Leaf n w) else Leaf i v)"
| "split_leaf f c n d w (Fork i e l r) = Fork i e (split_leaf f c n d w l) (split_leaf f c n d w r)"

primrec remove_leaf :: "nat \<Rightarrow> wtree \<Rightarrow> wtree" where
  "remove_leaf f (Leaf i w) = Leaf i w"
| "remove_leaf f (Fork i d l r) =
     (if \<exists>w. l = Leaf f w then r else if \<exists>w. r = Leaf f w then l else Fork i d (remove_leaf f l) (remove_leaf f r))"

text \<open>The window of a leaf, the sibling subtree of a leaf, and the leftmost leaf.\<close>

primrec win_of :: "nat \<Rightarrow> wtree \<Rightarrow> nat option" where
  "win_of f (Leaf i w) = (if i = f then Some w else None)"
| "win_of f (Fork i d l r) = (case win_of f l of Some w \<Rightarrow> Some w | None \<Rightarrow> win_of f r)"

primrec sibling :: "nat \<Rightarrow> wtree \<Rightarrow> wtree option" where
  "sibling f (Leaf i w) = None"
| "sibling f (Fork i d l r) =
     (if \<exists>w. l = Leaf f w then Some r else if \<exists>w. r = Leaf f w then Some l
      else case sibling f l of Some t \<Rightarrow> Some t | None \<Rightarrow> sibling f r)"

primrec first_leaf :: "wtree \<Rightarrow> nat" where
  "first_leaf (Leaf i w) = i"
| "first_leaf (Fork i d l r) = first_leaf l"

lemma first_leaf_in [simp]: "first_leaf t \<in> set (leaves t)"
  by (induction t) simp_all

lemma split_leaf_other [simp]: "f \<notin> set (ids t) \<Longrightarrow> split_leaf f c n d w t = t"
  by (induction t) auto

lemma remove_leaf_other [simp]: "f \<notin> set (ids t) \<Longrightarrow> remove_leaf f t = t"
  by (induction t) auto

lemma leaf_cases_in:
  assumes "f \<in> set (leaves (Fork i d l r))"
  obtains "f \<in> set (leaves l)" | "f \<in> set (leaves r)"
  using assms by auto

lemma top_split_leaf: "distinct (ids t) \<Longrightarrow> f \<in> set (leaves t) \<Longrightarrow> top (split_leaf f c n d w t) = (if top t = f then c else top t)"
  by (cases t) (auto dest: leaf_in_ids)

lemma rep_parent_cases:
  assumes "rep ns q t" and "f \<in> set (ids t)"
  obtains "f = top t" and "parent (ns ! f) = q" | p where "f \<noteq> top t" and "p \<in> set (ids t)" and "parent (ns ! f) = Node p"
  using rep_parent [OF assms] rep_parent_top [OF assms(1)] by blast

lemma rep_parent_outside:
  "rep ns (Node i) t \<Longrightarrow> f \<in> set (ids t) \<Longrightarrow> j \<notin> set (ids t) \<Longrightarrow> j \<noteq> i \<Longrightarrow> parent (ns ! f) \<noteq> Node j"
  by (auto elim: rep_parent_cases)

lemma rep_parent_iff:
  "rep ns (Node i) t \<Longrightarrow> f \<in> set (ids t) \<Longrightarrow> i \<notin> set (ids t) \<Longrightarrow> (parent (ns ! f) = Node i) = (f = top t)"
  by (auto elim: rep_parent_cases)

lemma tops_differ: "distinct (ids (Fork i d l r)) \<Longrightarrow> top l \<noteq> top r"
  using top_in_ids [of l] top_in_ids [of r] by (metis disjoint_iff distinct.simps(2) distinct_append ids.simps(2))

text \<open>The changes that an insertion makes to the nodes.\<close>

definition swap_child :: "nptr \<Rightarrow> nptr \<Rightarrow> tree_node \<Rightarrow> tree_node" where
  "swap_child a b n = (if left n = a then n\<lparr>left := b\<rparr> else n\<lparr>right := b\<rparr>)"

definition split_node :: "nat \<Rightarrow> nat \<Rightarrow> nptr \<Rightarrow> nat \<Rightarrow> tree_node \<Rightarrow> tree_node" where
  "split_node f c q j m = (if j = f then m\<lparr>parent := Node c\<rparr> else if q = Node j then swap_child (Node f) (Node c) m else m)"

lemma rep_split:
  assumes "rep ns q t" and "distinct (ids t)" and "f \<in> set (leaves t)" and "c \<notin> set (ids t)" and "n \<notin> set (ids t)"
    and "q \<notin> Node ` set (ids t)"
    and new: "c < length ns'" "n < length ns'" "length ns' = length ns"
      "\<not> is_leaf (ns' ! c)" "split_dir (ns' ! c) = d" "parent (ns' ! c) = parent (ns ! f)" "left (ns' ! c) = Node f" "right (ns' ! c) = Node n"
      "is_leaf (ns' ! n)" "win (ns' ! n) = Some w" "parent (ns' ! n) = Node c"
    and old: "\<And>j. j \<in> set (ids t) \<Longrightarrow> ns' ! j = split_node f c (parent (ns ! f)) j (ns ! j)"
  shows "rep ns' q (split_leaf f c n d w t)"
  using assms(1-6) old
proof (induction t arbitrary: q)
  case (Leaf i v)
  then show ?case using new by (simp add: split_node_def)
next
  case (Fork i e l r)
  have reps: "rep ns (Node i) l" "rep ns (Node i) r"
    and fork: "i < length ns" "\<not> is_leaf (ns ! i)" "split_dir (ns ! i) = e" "parent (ns ! i) = q" "left (ns ! i) = Node (top l)"
      "right (ns ! i) = Node (top r)"
    using Fork.prems(1) by simp_all
  have ne: "top l \<noteq> top r"
    using Fork.prems(2) by (rule tops_differ)
  from Fork.prems(3) show ?case
  proof (rule leaf_cases_in)
    assume f: "f \<in> set (leaves l)"
    then have fi: "f \<noteq> i" and fr: "f \<notin> set (ids r)" and fl: "f \<in> set (ids l)"
      using Fork.prems(2) by (auto dest: leaf_in_ids)
    have "rep ns' (Node i) r"
    proof (subst rep_cong [where ns = ns])
      fix j
      assume "j \<in> set (ids r)"
      moreover have "parent (ns ! f) \<noteq> Node j" if "j \<in> set (ids r)"
        using rep_parent_outside [OF reps(1) fl] that Fork.prems(2) by auto
      ultimately show "ns' ! j = ns ! j"
        using Fork.prems(7) [of j] fr by (auto simp: split_node_def)
    qed (use new reps in simp_all)
    moreover have "rep ns' (Node i) (split_leaf f c n d w l)"
      using Fork.prems f reps by (intro Fork.IH(1)) auto
    moreover have "ns' ! i = (if f = top l then (ns ! i)\<lparr>left := Node c\<rparr> else ns ! i)"
      using rep_parent_iff [OF reps(1) fl] Fork.prems(2) Fork.prems(7) [of i] fi fork
      by (auto simp: split_node_def swap_child_def)
    ultimately show ?thesis
      using fork fr new f Fork.prems(2) by (auto simp: top_split_leaf)
  next
    assume f: "f \<in> set (leaves r)"
    then have fi: "f \<noteq> i" and fl: "f \<notin> set (ids l)" and fr: "f \<in> set (ids r)"
      using Fork.prems(2) by (auto dest: leaf_in_ids)
    have "rep ns' (Node i) l"
    proof (subst rep_cong [where ns = ns])
      fix j
      assume "j \<in> set (ids l)"
      moreover have "parent (ns ! f) \<noteq> Node j" if "j \<in> set (ids l)"
        using rep_parent_outside [OF reps(2) fr] that Fork.prems(2) by auto
      ultimately show "ns' ! j = ns ! j"
        using Fork.prems(7) [of j] fl by (auto simp: split_node_def)
    qed (use new reps in simp_all)
    moreover have "rep ns' (Node i) (split_leaf f c n d w r)"
      using Fork.prems f reps by (intro Fork.IH(2)) auto
    moreover have "ns' ! i = (if f = top r then (ns ! i)\<lparr>right := Node c\<rparr> else ns ! i)"
      using rep_parent_iff [OF reps(2) fr] Fork.prems(2) Fork.prems(7) [of i] fi fork ne
      by (auto simp: split_node_def swap_child_def)
    ultimately show ?thesis
      using fork fl new f Fork.prems(2) by (auto simp: top_split_leaf)
  qed
qed

text \<open>The changes that a deletion makes to the nodes: \<open>g\<close> is the grandparent, \<open>p\<close> the parent and \<open>b\<close> the sibling.\<close>

definition join_node :: "nptr \<Rightarrow> nat \<Rightarrow> nat \<Rightarrow> nat \<Rightarrow> tree_node \<Rightarrow> tree_node" where
  "join_node g p b j m =
     (if j = b then m\<lparr>parent := g\<rparr> else if g = Node j then swap_child (Node p) (Node b) m else m)"

text \<open>The parent node of a leaf.\<close>

primrec parent_of :: "nat \<Rightarrow> wtree \<Rightarrow> nat option" where
  "parent_of f (Leaf i w) = None"
| "parent_of f (Fork i d l r) =
     (if \<exists>w. l = Leaf f w \<or> r = Leaf f w then Some i
      else case parent_of f l of Some p \<Rightarrow> Some p | None \<Rightarrow> parent_of f r)"

lemma leaf_top: "f \<in> set (leaves t) \<Longrightarrow> distinct (ids t) \<Longrightarrow> top t = f \<Longrightarrow> \<exists>w. t = Leaf f w"
  by (cases t) (auto dest: leaf_in_ids)

lemma win_of_other [simp]: "f \<notin> set (ids t) \<Longrightarrow> win_of f t = None"
  by (induction t) auto

lemma sibling_other [simp]: "f \<notin> set (ids t) \<Longrightarrow> sibling f t = None" and
  parent_of_other [simp]: "f \<notin> set (ids t) \<Longrightarrow> parent_of f t = None"
  by (induction t) auto

definition other_child :: "nptr \<Rightarrow> tree_node \<Rightarrow> nptr" where
  "other_child a n = (if left n = a then right n else left n)"

text \<open>A leaf of a fork has a parent and a sibling, and they are the nodes that the pointers name.\<close>

lemma sibling_rep:
  assumes "rep ns q t" and "distinct (ids t)" and "f \<in> set (leaves t)" and "top t \<noteq> f"
  shows "\<exists>p b. parent_of f t = Some p \<and> sibling f t = Some b \<and> p \<in> set (ids t) \<and> top b \<in> set (ids t) \<and> f \<noteq> p \<and> f \<noteq> top b \<and> p \<noteq> top b \<and>
     parent (ns ! f) = Node p \<and> f \<notin> set (ids b) \<and> p \<notin> set (ids b) \<and> set (ids b) \<subseteq> set (ids t) \<and> distinct (ids b) \<and> rep ns (Node p) b \<and>
     other_child (Node f) (ns ! p) = Node (top b) \<and> (q \<notin> Node ` set (ids t) \<longrightarrow> parent (ns ! p) \<notin> Node ` set (ids b))"
  using assms
proof (induction t arbitrary: q)
  case (Fork i d l r)
  have reps: "rep ns (Node i) l" "rep ns (Node i) r" "left (ns ! i) = Node (top l)" "right (ns ! i) = Node (top r)" "parent (ns ! i) = q"
    using Fork.prems(1) by simp_all
  have ne: "top l \<noteq> top r" using Fork.prems(2) by (rule tops_differ)
  have disj: "i \<notin> set (ids l)" "i \<notin> set (ids r)" "set (ids l) \<inter> set (ids r) = {}" "distinct (ids l)" "distinct (ids r)"
    using Fork.prems(2) by auto
  from Fork.prems(3) show ?case
  proof (rule leaf_cases_in)
    assume f: "f \<in> set (leaves l)"
    then have fl: "f \<in> set (ids l)" "f \<notin> set (ids r)" "f \<noteq> i" using disj by (auto dest: leaf_in_ids)
    show ?thesis
    proof (cases "top l = f")
      case True
      then obtain w where l: "l = Leaf f w" using leaf_top [OF f] disj by blast
      have "top r \<noteq> i" "top r \<noteq> f" using disj fl by (metis top_in_ids)+
      then show ?thesis using reps l disj fl by (auto simp: other_child_def)
    next
      case False
      then have "\<nexists>w. l = Leaf f w \<or> r = Leaf f w" using fl by (auto simp: )
      then show ?thesis using Fork.IH(1) [OF reps(1) disj(4) f False] disj by auto
    qed
  next
    assume f: "f \<in> set (leaves r)"
    then have fr: "f \<in> set (ids r)" "f \<notin> set (ids l)" "f \<noteq> i" using disj by (auto dest: leaf_in_ids)
    show ?thesis
    proof (cases "top r = f")
      case True
      then obtain w where r: "r = Leaf f w" using leaf_top [OF f] disj by blast
      have "top l \<noteq> i" "top l \<noteq> f" using disj fr by (metis top_in_ids)+
      moreover have "\<nexists>w. l = Leaf f w" using fr by auto
      ultimately show ?thesis using reps r disj fr ne by (auto simp: other_child_def)
    next
      case False
      then have "\<nexists>w. l = Leaf f w \<or> r = Leaf f w" using fr by auto
      then show ?thesis using Fork.IH(2) [OF reps(2) disj(5) f False] disj fr by auto
    qed
  qed
qed simp

lemma parent_of_in: "parent_of f t = Some p \<Longrightarrow> p \<in> set (ids t)"
  by (induction t) (auto split: if_splits option.splits)

lemma top_remove:
  assumes "distinct (ids t)" and "f \<in> set (leaves t)" and "top t \<noteq> f" and "parent_of f t = Some p" and "sibling f t = Some b"
  shows "top (remove_leaf f t) = (if p = top t then top b else top t)"
proof (cases t)
  case (Fork i d l r)
  show ?thesis
  proof (cases "\<exists>w. l = Leaf f w \<or> r = Leaf f w")
    case True
    with assms Fork show ?thesis by auto
  next
    case False
    then have "parent_of f l = Some p \<or> parent_of f r = Some p" and "remove_leaf f t = Fork i d (remove_leaf f l) (remove_leaf f r)"
      using assms Fork by (auto split: option.splits)
    moreover from this(1) have "p \<noteq> i" using assms(1) Fork by (auto dest: parent_of_in)
    ultimately show ?thesis using Fork by simp
  qed
qed (use assms in simp)

text \<open>The sibling of the removed leaf moves up; the side without the leaf stays as it is.\<close>

lemma join_sibling:
  assumes "rep ns (Node i) t" and "distinct (ids t)" and "length ns' = length ns" and "parent (ns ! i) = q"
    and "f \<notin> set (ids t)" and "i \<notin> set (ids t)" and "q \<notin> Node ` set (ids t)"
    and old: "\<And>j. j \<in> set (ids t) \<Longrightarrow> j \<noteq> f \<Longrightarrow> j \<noteq> i \<Longrightarrow> ns' ! j = join_node (parent (ns ! i)) i (top t) j (ns ! j)"
  shows "rep ns' q t"
  using assms(1-3)
proof (rule rep_reparent)
  fix j assume j: "j \<in> set (ids t)"
  then have "j \<noteq> f" "j \<noteq> i" "q \<noteq> Node j" using assms(5-7) by auto
  moreover from this have "ns' ! j = join_node (parent (ns ! i)) i (top t) j (ns ! j)" using j by (intro old)
  ultimately show "ns' ! j = (if j = top t then (ns ! j)\<lparr>parent := q\<rparr> else ns ! j)"
    using assms(4) by (simp add: join_node_def)
qed

lemma join_other_side:
  assumes "rep ns (Node i) t" and "rep ns (Node i) u" and "length ns' = length ns" and "set (ids t) \<inter> set (ids u) = {}" and "i \<notin> set (ids u)"
    and t: "f \<in> set (ids t)" "p \<in> set (ids t)" "c \<in> set (ids t)"
    and old: "\<And>j. j \<in> set (ids u) \<Longrightarrow> j \<noteq> f \<Longrightarrow> j \<noteq> p \<Longrightarrow> ns' ! j = join_node (parent (ns ! p)) p c j (ns ! j)"
  shows "rep ns' (Node i) u"
proof (subst rep_cong [where ns = ns])
  fix j assume j: "j \<in> set (ids u)"
  then have "parent (ns ! p) \<noteq> Node j" using rep_parent_outside [OF assms(1) t(2)] assms(4,5) by auto
  moreover have "j \<noteq> f" "j \<noteq> p" "j \<noteq> c" using j t assms(4) by blast+
  ultimately show "ns' ! j = ns ! j" using old [OF j] by (simp add: join_node_def)
qed (use assms(2,3) in simp_all)

lemma rep_remove:
  assumes "rep ns q t" and "distinct (ids t)" and "f \<in> set (leaves t)" and "top t \<noteq> f"
    and "parent_of f t = Some p" and "sibling f t = Some b" and "q \<notin> Node ` set (ids t)"
    and old: "\<And>j. j \<in> set (ids t) \<Longrightarrow> j \<noteq> f \<Longrightarrow> j \<noteq> p \<Longrightarrow> ns' ! j = join_node (parent (ns ! p)) p (top b) j (ns ! j)"
    and len: "length ns' = length ns"
  shows "rep ns' q (remove_leaf f t)"
  using assms(1-8)
proof (induction t arbitrary: q)
  case (Fork i d l r)
  have reps: "rep ns (Node i) l" "rep ns (Node i) r"
    and fork: "i < length ns" "\<not> is_leaf (ns ! i)" "split_dir (ns ! i) = d" "parent (ns ! i) = q" "left (ns ! i) = Node (top l)"
      "right (ns ! i) = Node (top r)"
    using Fork.prems(1) by simp_all
  have ne: "top l \<noteq> top r" using Fork.prems(2) by (rule tops_differ)
  have disj: "i \<notin> set (ids l)" "i \<notin> set (ids r)" "set (ids l) \<inter> set (ids r) = {}" "distinct (ids l)" "distinct (ids r)"
    using Fork.prems(2) by auto
  from Fork.prems(3) show ?case
  proof (rule leaf_cases_in)
    assume f: "f \<in> set (leaves l)"
    then have ff: "f \<in> set (ids l)" "f \<notin> set (ids r)" "f \<noteq> i" using disj by (auto dest: leaf_in_ids)
    show ?thesis
    proof (cases "top l = f")
      case True
      then obtain w where l: "l = Leaf f w" using leaf_top [OF f] disj by blast
      have "\<nexists>w. r = Leaf f w" using ff by auto
      then have pb: "p = i" "b = r" "remove_leaf f (Fork i d l r) = r" using Fork.prems(5,6) l by auto
      have "rep ns' q r"
        by (rule join_sibling [OF reps(2) disj(5) len fork(4) ff(2) disj(2)]) (use Fork.prems(7,8) pb in auto)
      then show ?thesis using pb by simp
    next
      case False
      have notleaf: "\<nexists>w. l = Leaf f w \<or> r = Leaf f w" using ff False by auto
      then have pb: "parent_of f l = Some p" "sibling f l = Some b" using Fork.prems(5,6) ff by (auto split: option.splits)
      have inl: "p \<in> set (ids l)" "top b \<in> set (ids l)" "p \<noteq> top b"
        using sibling_rep [OF reps(1) disj(4) f False] pb by auto
      have "rep ns' (Node i) (remove_leaf f l)"
        using Fork.IH(1) [OF reps(1) disj(4) f False pb] Fork.prems(8) disj by auto
      moreover have "rep ns' (Node i) r"
        by (rule join_other_side [OF reps(1,2) len disj(3,2) ff(1) inl(1,2)]) (use Fork.prems(8) in auto)
      moreover have "i \<noteq> p" "i \<noteq> top b" using inl disj(1) by blast+
      then have "ns' ! i = (if p = top l then (ns ! i)\<lparr>left := Node (top b)\<rparr> else ns ! i)"
        using rep_parent_iff [OF reps(1) inl(1) disj(1)] Fork.prems(8) [of i] ff(3) fork(5,6) ne by (simp add: join_node_def swap_child_def)
      moreover have "remove_leaf f (Fork i d l r) = Fork i d (remove_leaf f l) (r)"
        using notleaf ff by auto
      ultimately show ?thesis
        using fork len top_remove [OF disj(4) f False pb] by simp
    qed
  next
    assume f: "f \<in> set (leaves r)"
    then have ff: "f \<in> set (ids r)" "f \<notin> set (ids l)" "f \<noteq> i" using disj by (auto dest: leaf_in_ids)
    show ?thesis
    proof (cases "top r = f")
      case True
      then obtain w where r: "r = Leaf f w" using leaf_top [OF f] disj by blast
      have "\<nexists>w. l = Leaf f w" using ff by auto
      then have pb: "p = i" "b = l" "remove_leaf f (Fork i d l r) = l" using Fork.prems(5,6) r by auto
      have "rep ns' q l"
        by (rule join_sibling [OF reps(1) disj(4) len fork(4) ff(2) disj(1)]) (use Fork.prems(7,8) pb in auto)
      then show ?thesis using pb by simp
    next
      case False
      have notleaf: "\<nexists>w. l = Leaf f w \<or> r = Leaf f w" using ff False by auto
      then have pb: "parent_of f r = Some p" "sibling f r = Some b" using Fork.prems(5,6) ff by (auto split: option.splits)
      have inl: "p \<in> set (ids r)" "top b \<in> set (ids r)" "p \<noteq> top b"
        using sibling_rep [OF reps(2) disj(5) f False] pb by auto
      have "rep ns' (Node i) (remove_leaf f r)"
        using Fork.IH(2) [OF reps(2) disj(5) f False pb] Fork.prems(8) disj by auto
      moreover have "rep ns' (Node i) l"
        by (rule join_other_side [OF reps(2,1) len _ disj(1) ff(1) inl(1,2)]) (use Fork.prems(8) disj(3) in auto)
      moreover have "i \<noteq> p" "i \<noteq> top b" using inl disj(2) by blast+
      then have "ns' ! i = (if p = top r then (ns ! i)\<lparr>right := Node (top b)\<rparr> else ns ! i)"
        using rep_parent_iff [OF reps(2) inl(1) disj(2)] Fork.prems(8) [of i] ff(3) fork(5,6) ne by (simp add: join_node_def swap_child_def)
      moreover have "remove_leaf f (Fork i d l r) = Fork i d (l) (remove_leaf f r)"
        using notleaf ff by auto
      ultimately show ?thesis
        using fork len top_remove [OF disj(5) f False pb] by simp
    qed
  qed
qed simp

subsection \<open>The pool of nodes\<close>

text \<open>The nodes in \<open>T\<close> and those on the free stack are the ones that were ever taken from the pool.\<close>

definition pool :: "nat set \<Rightarrow> wm \<Rightarrow> bool" where
  "pool T s \<longleftrightarrow> length (nodes s) = 2 * MAX_WINDOWS \<and> node_pool_idx s \<le> 2 * MAX_WINDOWS \<and> distinct (free_stack s) \<and>
     T \<inter> set (free_stack s) = {} \<and> T \<union> set (free_stack s) = {..<node_pool_idx s}"

definition tree_ok :: "wtree option \<Rightarrow> wm \<Rightarrow> bool" where
  "tree_ok T s =
     (case T of
        None \<Rightarrow> root s = Null \<and> focused_node s = Null \<and> pool {} s
      | Some t \<Rightarrow> root s = Node (top t) \<and> rep (nodes s) Null t \<and> distinct (ids t) \<and> distinct (wins t) \<and>
          focused_node s \<in> Node ` set (leaves t) \<and> pool (set (ids t)) s)"

text \<open>Everything but the tree.\<close>

definition no_tree :: "wm \<Rightarrow> wm" where
  "no_tree s = s\<lparr>nodes := [], node_pool_idx := 0, free_stack := [], root := Null, focused_node := Null\<rparr>"

lemma pool_finite: "pool T s \<Longrightarrow> finite T"
  unfolding pool_def by (metis finite_Un finite_lessThan)

lemma pool_bound: "pool T s \<Longrightarrow> i \<in> T \<Longrightarrow> i < length (nodes s)"
  unfolding pool_def by (metis UnI1 lessThan_iff order_less_le_trans)

lemma pool_cong:
  "length (nodes s') = length (nodes s) \<Longrightarrow> node_pool_idx s' = node_pool_idx s \<Longrightarrow> free_stack s' = free_stack s \<Longrightarrow> pool T s' = pool T s"
  by (simp add: pool_def)

lemma tree_alloc_ok:
  assumes "pool T s" and "card T < 2 * MAX_WINDOWS"
  obtains i fs k where
    "tree_alloc s = (Node i, s\<lparr>free_stack := fs, node_pool_idx := k, nodes := (nodes s)[i := zero_node]\<rparr>)"
    and "i < length (nodes s)" and "i \<notin> T"
    and "pool (insert i T) (s\<lparr>free_stack := fs, node_pool_idx := k, nodes := (nodes s)[i := zero_node]\<rparr>)"
proof (cases "free_stack s")
  case (Cons i rest)
  then have "i < node_pool_idx s" using assms(1) unfolding pool_def by (metis UnI2 lessThan_iff list.set_intros(1))
  then show ?thesis
    using that [where i = i and fs = rest and k = "node_pool_idx s"] assms(1) Cons by (auto simp: tree_alloc_def pool_def)
next
  case Nil
  then have T: "T = {..<node_pool_idx s}" using assms(1) by (simp add: pool_def)
  then have "node_pool_idx s < 2 * MAX_WINDOWS" using assms(2) by simp
  then show ?thesis
    using that [where i = "node_pool_idx s" and fs = "[]" and k = "Suc (node_pool_idx s)"] assms(1) Nil T
    by (auto simp: tree_alloc_def pool_def lessThan_Suc)
qed

text \<open>A live node is freed without a complaint.\<close>

lemma tree_free_ok:
  assumes "pool T s" and "i \<in> T" and "parent (nodes s ! i) \<noteq> Dead"
  shows "tree_free (Node i) s = Some (s\<lparr>nodes := (nodes s)[i := (nodes s ! i)\<lparr>parent := Dead\<rparr>], free_stack := i # free_stack s\<rparr>)"
    and "pool (T - {i}) (s\<lparr>nodes := (nodes s)[i := (nodes s ! i)\<lparr>parent := Dead\<rparr>], free_stack := i # free_stack s\<rparr>)"
proof -
  have i: "i < 2 * MAX_WINDOWS" "i < length (nodes s)" "i \<notin> set (free_stack s)" and len: "length (nodes s) = 2 * MAX_WINDOWS"
    using pool_bound [OF assms(1,2)] assms(1,2) by (auto simp: pool_def)
  have sub: "insert i (set (free_stack s)) \<subseteq> {..<node_pool_idx s}"
    using assms(1,2) by (auto simp: pool_def)
  have "card (insert i (set (free_stack s))) = Suc (length (free_stack s))"
    using i(3) assms(1) by (simp add: pool_def distinct_card)
  moreover have "card (insert i (set (free_stack s))) \<le> node_pool_idx s"
    using card_mono [OF finite_lessThan sub] by simp
  moreover have "node_pool_idx s \<le> 2 * MAX_WINDOWS"
    using assms(1) by (simp add: pool_def)
  ultimately have "length (free_stack s) < 2 * MAX_WINDOWS" by linarith
  then show "tree_free (Node i) s = Some (s\<lparr>nodes := (nodes s)[i := (nodes s ! i)\<lparr>parent := Dead\<rparr>], free_stack := i # free_stack s\<rparr>)"
    using i assms(3) by (simp add: tree_free_def node_at_def set_node_def mult.commute)
  show "pool (T - {i}) (s\<lparr>nodes := (nodes s)[i := (nodes s ! i)\<lparr>parent := Dead\<rparr>], free_stack := i # free_stack s\<rparr>)"
    using i assms(1,2) by (auto simp: pool_def)
qed

subsection \<open>Insertion\<close>

lemma node_at_Node: "i < length (nodes s) \<Longrightarrow> node_at (Node i) s = Some (nodes s ! i)"
  by (simp add: node_at_def)

lemma set_node_Node: "i < length (nodes s) \<Longrightarrow> set_node (Node i) f s = Some (s\<lparr>nodes := (nodes s)[i := f (nodes s ! i)]\<rparr>)"
  by (simp add: set_node_def)

lemma replace_child_swap: "replace_child p a b s = set_node p (swap_child a b) s"
  unfolding replace_child_def swap_child_def [abs_def] ..

lemmas node_steps = node_at_Node set_node_Node replace_child_swap

lemma leftmost_leaf: "is_leaf (nodes s ! f) \<Longrightarrow> f < length (nodes s) \<Longrightarrow> leftmost (Node f) s = Some (Node f)"
  by (subst leftmost.simps) (simp add: node_at_Node)

lemma leftmost_rep: "rep (nodes s) q t \<Longrightarrow> leftmost_or_null (Node (top t)) s = Some (Node (first_leaf t))"
proof (induction t arbitrary: q)
  case (Leaf i w)
  then show ?case by (subst leftmost_or_null.simps) (simp add: node_at_Node)
next
  case (Fork i d l r)
  have "leftmost_or_null (Node (top l)) s = Some (Node (first_leaf l))"
    using Fork.prems by (intro Fork.IH(1) [of "Node i"]) simp
  with Fork.prems show ?case by (subst leftmost_or_null.simps) (simp add: node_at_Node)
qed

text \<open>The nodes after an insertion next to the leaf \<open>f\<close>: \<open>c\<close> is the new fork and \<open>n\<close> the new leaf.\<close>

definition inserted :: "nat set \<Rightarrow> nat \<Rightarrow> nat \<Rightarrow> nat \<Rightarrow> split_dir \<Rightarrow> nat \<Rightarrow> tree_node list \<Rightarrow> tree_node list \<Rightarrow> bool" where
  "inserted T f c n d w ns ns' \<longleftrightarrow>
     length ns' = length ns \<and> \<not> is_leaf (ns' ! c) \<and> split_dir (ns' ! c) = d \<and> parent (ns' ! c) = parent (ns ! f) \<and>
     left (ns' ! c) = Node f \<and> right (ns' ! c) = Node n \<and> is_leaf (ns' ! n) \<and> win (ns' ! n) = Some w \<and> parent (ns' ! n) = Node c \<and>
     (\<forall>j\<in>T. ns' ! j = split_node f c (parent (ns ! f)) j (ns ! j))"

text \<open>The steps of an insertion after both nodes are allocated.\<close>

definition link_fork :: "nat \<Rightarrow> nat \<Rightarrow> nat \<Rightarrow> wm \<Rightarrow> wm option" where
  "link_fork c f n s =
    do {
      t \<leftarrow> node_at (Node f) s;
      s \<leftarrow> set_node (Node c) (\<lambda>n. n\<lparr>is_leaf := False, split_dir := next_split_mode s, parent := parent t\<rparr>) s;
      s \<leftarrow> (if parent t \<noteq> Null then replace_child (parent t) (Node f) (Node c) s else Some (s\<lparr>root := Node c\<rparr>));
      s \<leftarrow> set_node (Node c) (\<lambda>n. n\<lparr>left := Node f\<rparr>) s;
      s \<leftarrow> set_node (Node f) (\<lambda>n. n\<lparr>parent := Node c\<rparr>) s;
      s \<leftarrow> set_node (Node c) (\<lambda>m. m\<lparr>right := Node n\<rparr>) s;
      s \<leftarrow> set_node (Node n) (\<lambda>n. n\<lparr>parent := Node c\<rparr>) s;
      Some (s\<lparr>focused_node := Node n\<rparr>)
    }"

lemma link_fork_ok:
  assumes T: "n \<notin> T" "c \<notin> T" "f \<in> T" "\<And>j. j \<in> T \<Longrightarrow> j < length (nodes s)" and new: "n \<noteq> c" "n < length (nodes s)" "c < length (nodes s)"
    and n: "nodes s ! n = zero_node\<lparr>is_leaf := True, win := Some w, parent := Null\<rparr>" and c: "nodes s ! c = zero_node"
    and q: "parent (nodes s ! f) = Null \<or> (\<exists>p \<in> T. p \<noteq> f \<and> parent (nodes s ! f) = Node p)"
  shows "\<exists>s'. link_fork c f n s = Some s' \<and> inserted T f c n (next_split_mode s) w (nodes s) (nodes s') \<and>
     node_pool_idx s' = node_pool_idx s \<and> free_stack s' = free_stack s \<and> focused_node s' = Node n \<and>
     root s' = (if parent (nodes s ! f) = Null then Node c else root s) \<and> no_tree s' = no_tree s"
proof -
  have fresh: "(c = j) = False" "(n = j) = False" if "j \<in> T" for j
    using that T(1,2) by blast+
  have ne: "f \<noteq> n" "f \<noteq> c" "f < length (nodes s)" using T by auto
  show ?thesis
  proof (cases "parent (nodes s ! f) = Null")
    case True
    then have "split_node f c (parent (nodes s ! f)) j m = (if j = f then m\<lparr>parent := Node c\<rparr> else m)" for j m
      by (simp add: split_node_def)
    then show ?thesis
      unfolding link_fork_def inserted_def using True ne new n c
      by (simp add: node_steps fresh no_tree_def nth_list_update zero_node_def cong: ball_cong)
  next
    case False
    then obtain p where p: "p \<in> T" "p \<noteq> f" "parent (nodes s ! f) = Node p" using q by blast
    then have "p \<noteq> n" "p \<noteq> c" "p < length (nodes s)" using T by auto
    moreover from p have "split_node f c (parent (nodes s ! f)) j m =
        (if j = f then m\<lparr>parent := Node c\<rparr> else if j = p then swap_child (Node f) (Node c) m else m)" for j m
      by (auto simp: split_node_def)
    ultimately show ?thesis
      unfolding link_fork_def inserted_def using p ne new n c
      by (simp add: node_steps fresh no_tree_def nth_list_update zero_node_def cong: ball_cong)
  qed
qed

lemma inserted_old:
  assumes "inserted T f c n d w ns ns'" and "f \<in> T" and "length ns = length ms" and "\<And>j. j \<in> T \<Longrightarrow> ns ! j = ms ! j"
  shows "inserted T f c n d w ms ns'"
  using assms by (simp add: inserted_def)

lemma insert_nodes:
  assumes pool: "pool T s" and card: "card T + 2 \<le> 2 * MAX_WINDOWS" and root: "root s \<noteq> Null" and focus: "focused_node s = Node f"
    and f: "f \<in> T" "is_leaf (nodes s ! f)" and q: "parent (nodes s ! f) = Null \<or> (\<exists>p \<in> T. p \<noteq> f \<and> parent (nodes s ! f) = Node p)"
  shows "\<exists>n c s'. wm_insert_window_into_tree w s = Some s' \<and> n \<notin> T \<and> c \<notin> T \<and> n \<noteq> c \<and> n < length (nodes s) \<and> c < length (nodes s) \<and>
     inserted T f c n (next_split_mode s) w (nodes s) (nodes s') \<and> pool (insert c (insert n T)) s' \<and>
     focused_node s' = Node n \<and> root s' = (if parent (nodes s ! f) = Null then Node c else root s) \<and> no_tree s' = no_tree s"
proof -
  have "card T < 2 * MAX_WINDOWS" using card by simp
  from tree_alloc_ok [OF pool this] obtain n fs k
    where alloc: "tree_alloc s = (Node n, s\<lparr>free_stack := fs, node_pool_idx := k, nodes := (nodes s)[n := zero_node]\<rparr>)"
      and n: "n < length (nodes s)" "n \<notin> T"
      and pool_n: "pool (insert n T) (s\<lparr>free_stack := fs, node_pool_idx := k, nodes := (nodes s)[n := zero_node]\<rparr>)" .
  define s2 where "s2 = s\<lparr>free_stack := fs, node_pool_idx := k,
    nodes := (nodes s)[n := zero_node\<lparr>is_leaf := True, win := Some w, parent := Null\<rparr>]\<rparr>"
  have "pool (insert n T) s2" using pool_n by (simp add: s2_def pool_def)
  moreover have "card (insert n T) < 2 * MAX_WINDOWS" using card n pool_finite [OF pool] by simp
  ultimately obtain c fs' k'
    where alloc': "tree_alloc s2 = (Node c, s2\<lparr>free_stack := fs', node_pool_idx := k', nodes := (nodes s2)[c := zero_node]\<rparr>)"
      and c: "c < length (nodes s2)" "c \<notin> insert n T"
      and pool_c: "pool (insert c (insert n T)) (s2\<lparr>free_stack := fs', node_pool_idx := k', nodes := (nodes s2)[c := zero_node]\<rparr>)"
    by (rule tree_alloc_ok)
  have ne: "f \<noteq> n" "f \<noteq> c" "n \<noteq> c" "c \<notin> T" "f < length (nodes s)" "c < length (nodes s)"
    using f(1) n(2) c pool_bound [OF pool f(1)] by (auto simp: s2_def)
  have s2: "nodes s2 ! f = nodes s ! f" "focused_node s2 = Node f" "root s2 = root s" "length (nodes s2) = length (nodes s)"
      "next_split_mode s2 = next_split_mode s"
    using ne focus by (simp_all add: s2_def)
  have lm: "leftmost (Node f) s2 = Some (Node f)" using leftmost_leaf [of s2 f] s2 f(2) ne by simp
  define s3 where "s3 = s2\<lparr>free_stack := fs', node_pool_idx := k', nodes := (nodes s2)[c := zero_node]\<rparr>"
  have run: "wm_insert_window_into_tree w s = link_fork c f n s3"
    using n root focus lm alloc'
    by (simp add: wm_insert_window_into_tree_def link_fork_def alloc set_node_Node s2_def [symmetric] s3_def [symmetric] s2 cong: if_cong)
  have s3: "next_split_mode s3 = next_split_mode s" "root s3 = root s" "no_tree s3 = no_tree s"
    "length (nodes s3) = length (nodes s)" "nodes s3 ! f = nodes s ! f"
    using ne by (simp_all add: s3_def s2_def no_tree_def)
  have nodes: "nodes s3 ! j = nodes s ! j" if "j \<in> T" for j
  proof -
    have "j \<noteq> n" and "j \<noteq> c" using that n(2) ne by blast+
    then show ?thesis by (simp add: s3_def s2_def)
  qed
  have n3: "nodes s3 ! n = zero_node\<lparr>is_leaf := True, win := Some w, parent := Null\<rparr>" and c3: "nodes s3 ! c = zero_node"
    using ne n by (simp_all add: s3_def s2_def)
  have bound: "j < length (nodes s3)" if "j \<in> T" for j using pool_bound [OF pool that] s3(4) by simp
  from link_fork_ok [of n T c f s3 w, OF n(2) ne(4) f(1) bound ne(3) _ _ n3 c3] obtain s'
    where s': "wm_insert_window_into_tree w s = Some s'" "inserted T f c n (next_split_mode s) w (nodes s3) (nodes s')"
      "node_pool_idx s' = node_pool_idx s3" "free_stack s' = free_stack s3" "focused_node s' = Node n"
      "root s' = (if parent (nodes s ! f) = Null then Node c else root s)" "no_tree s' = no_tree s"
    using q n(1) ne(6) s3 run by auto
  have "pool (insert c (insert n T)) s'"
    using pool_c pool_cong [of s' s3] s' by (simp add: s3_def inserted_def)
  moreover have "inserted T f c n (next_split_mode s) w (nodes s) (nodes s')"
    by (rule inserted_old [OF s'(2) f(1) s3(4) nodes])
  ultimately show ?thesis using s' n ne by blast
qed

text \<open>What splitting and removing a leaf does to the nodes, the leaves and the windows.\<close>

lemma split_leaf_fork:
  assumes "distinct (ids (Fork i e l r))"
  shows "f \<in> set (leaves l) \<Longrightarrow> split_leaf f c n d w (Fork i e l r) = Fork i e (split_leaf f c n d w l) r"
    and "f \<in> set (leaves r) \<Longrightarrow> split_leaf f c n d w (Fork i e l r) = Fork i e l (split_leaf f c n d w r)"
proof -
  have "f \<notin> set (ids r)" if "f \<in> set (leaves l)" using leaf_in_ids [OF that] assms by auto
  then show "f \<in> set (leaves l) \<Longrightarrow> split_leaf f c n d w (Fork i e l r) = Fork i e (split_leaf f c n d w l) r" by simp
  have "f \<notin> set (ids l)" if "f \<in> set (leaves r)" using leaf_in_ids [OF that] assms by auto
  then show "f \<in> set (leaves r) \<Longrightarrow> split_leaf f c n d w (Fork i e l r) = Fork i e l (split_leaf f c n d w r)" by simp
qed

lemma split_leaf_sets:
  assumes "f \<in> set (leaves t)" and "distinct (ids t)" and "c \<notin> set (ids t)" and "n \<notin> set (ids t)" and "c \<noteq> n"
  shows "set (ids (split_leaf f c n d w t)) = insert c (insert n (set (ids t))) \<and> distinct (ids (split_leaf f c n d w t)) \<and>
     set (leaves (split_leaf f c n d w t)) = insert n (set (leaves t)) \<and>
     (\<exists>us vs. wins t = us @ vs \<and> wins (split_leaf f c n d w t) = us @ w # vs)"
  using assms
proof (induction t)
  case (Leaf i v)
  have "\<exists>us vs. [v] = us @ vs \<and> [v, w] = us @ w # vs" by (intro exI [of _ "[v]"] exI [of _ "[]"]) simp
  with Leaf show ?case by auto
next
  case (Fork i e l r)
  have disj: "i \<notin> set (ids l)" "i \<notin> set (ids r)" "set (ids l) \<inter> set (ids r) = {}" "distinct (ids l)" "distinct (ids r)"
    "c \<notin> set (ids l)" "c \<notin> set (ids r)" "n \<notin> set (ids l)" "n \<notin> set (ids r)" "c \<noteq> i" "n \<noteq> i"
    using Fork.prems by auto
  from Fork.prems(1) show ?case
  proof (rule leaf_cases_in)
    assume f: "f \<in> set (leaves l)"
    from Fork.IH(1) [OF f] disj Fork.prems(5) obtain us vs
      where "set (ids (split_leaf f c n d w l)) = insert c (insert n (set (ids l)))" "distinct (ids (split_leaf f c n d w l))"
        "set (leaves (split_leaf f c n d w l)) = insert n (set (leaves l))" "wins l = us @ vs" "wins (split_leaf f c n d w l) = us @ w # vs" by blast
    moreover from this(4,5) have "\<exists>us vs. wins (Fork i e l r) = us @ vs \<and> wins (Fork i e (split_leaf f c n d w l) r) = us @ w # vs"
      by (intro exI [of _ us] exI [of _ "vs @ wins r"]) simp
    ultimately show ?thesis
      unfolding split_leaf_fork(1) [OF Fork.prems(2) f] using disj by auto
  next
    assume f: "f \<in> set (leaves r)"
    from Fork.IH(2) [OF f] disj Fork.prems(5) obtain us vs
      where "set (ids (split_leaf f c n d w r)) = insert c (insert n (set (ids r)))" "distinct (ids (split_leaf f c n d w r))"
        "set (leaves (split_leaf f c n d w r)) = insert n (set (leaves r))" "wins r = us @ vs" "wins (split_leaf f c n d w r) = us @ w # vs" by blast
    moreover from this(4,5) have "\<exists>us vs. wins (Fork i e l r) = us @ vs \<and> wins (Fork i e l (split_leaf f c n d w r)) = us @ w # vs"
      by (intro exI [of _ "wins l @ us"] exI [of _ vs]) simp
    ultimately show ?thesis
      unfolding split_leaf_fork(2) [OF Fork.prems(2) f] using disj by auto
  qed
qed

text \<open>The effect of an insertion on the tree: the window becomes the second half of the leaf \<open>f\<close>.\<close>

definition insert_tree :: "nat \<Rightarrow> nat \<Rightarrow> nat \<Rightarrow> split_dir \<Rightarrow> nat \<Rightarrow> wtree option \<Rightarrow> wtree" where
  "insert_tree f c n d w T = (case T of None \<Rightarrow> Leaf n w | Some t \<Rightarrow> split_leaf f c n d w t)"

definition tree_wins :: "wtree option \<Rightarrow> nat list" where
  "tree_wins T = (case T of None \<Rightarrow> [] | Some t \<Rightarrow> wins t)"

lemma insert_first:
  assumes "tree_ok None s"
  shows "\<exists>n s'. wm_insert_window_into_tree w s = Some s' \<and> tree_ok (Some (Leaf n w)) s' \<and> focused_node s' = Node n \<and> no_tree s' = no_tree s"
proof -
  from assms have pool: "pool {} s" and none: "root s = Null" by (simp_all add: tree_ok_def)
  have "card ({} :: nat set) < 2 * MAX_WINDOWS" by (simp add: MAX_WINDOWS_def)
  from tree_alloc_ok [OF pool this] obtain n fs k
    where alloc: "tree_alloc s = (Node n, s\<lparr>free_stack := fs, node_pool_idx := k, nodes := (nodes s)[n := zero_node]\<rparr>)"
      and n: "n < length (nodes s)"
      and pool_n: "pool {n} (s\<lparr>free_stack := fs, node_pool_idx := k, nodes := (nodes s)[n := zero_node]\<rparr>)" .
  show ?thesis
    using none n pool_n
    by (intro exI [of _ n]) (simp add: wm_insert_window_into_tree_def alloc set_node_Node tree_ok_def pool_def no_tree_def)
qed

lemma insert_next:
  assumes ok: "tree_ok (Some t) s" and room: "length (wins t) < MAX_WINDOWS" and w: "w \<notin> set (wins t)" and focus: "focused_node s = Node f"
  shows "\<exists>c n s'. wm_insert_window_into_tree w s = Some s' \<and> tree_ok (Some (split_leaf f c n (next_split_mode s) w t)) s' \<and>
     focused_node s' = Node n \<and> no_tree s' = no_tree s \<and> c \<notin> set (ids t) \<and> n \<notin> set (ids t) \<and> c \<noteq> n"
proof -
  have rep: "rep (nodes s) Null t" and dist: "distinct (ids t)" "distinct (wins t)" and root: "root s = Node (top t)"
    and f: "f \<in> set (leaves t)" and pool: "pool (set (ids t)) s"
    using ok focus by (auto simp: tree_ok_def)
  have "card (set (ids t)) + 2 \<le> 2 * MAX_WINDOWS"
    using length_ids [of t] room dist(1) by (simp add: distinct_card length_wins)
  moreover have "parent (nodes s ! f) = Null \<or> (\<exists>p \<in> set (ids t). p \<noteq> f \<and> parent (nodes s ! f) = Node p)"
  proof (cases "f = top t")
    case False
    with sibling_rep [OF rep dist(1) f] show ?thesis by auto
  qed (use rep_parent_top [OF rep] in simp)
  ultimately obtain n c s' where run: "wm_insert_window_into_tree w s = Some s'" and fresh: "n \<notin> set (ids t)" "c \<notin> set (ids t)" "n \<noteq> c"
      "n < length (nodes s)" "c < length (nodes s)"
    and ins: "inserted (set (ids t)) f c n (next_split_mode s) w (nodes s) (nodes s')" and pool': "pool (insert c (insert n (set (ids t)))) s'"
    and s': "focused_node s' = Node n" "root s' = (if parent (nodes s ! f) = Null then Node c else root s)" "no_tree s' = no_tree s"
    using insert_nodes [OF pool _ _ focus leaf_in_ids [OF f] rep_leaf [OF rep f], of w] root by auto
  let ?t = "split_leaf f c n (next_split_mode s) w t"
  from split_leaf_sets [OF f dist(1) fresh(2,1) fresh(3) [symmetric], of "next_split_mode s" w]
  obtain us vs where sets: "set (ids ?t) = insert c (insert n (set (ids t)))" "distinct (ids ?t)" "set (leaves ?t) = insert n (set (leaves t))"
    and wins: "wins t = us @ vs" "wins ?t = us @ w # vs" by blast
  have "rep (nodes s') Null ?t"
    using rep dist(1) f fresh(2,1) ins fresh(4,5) by (intro rep_split [where ns = "nodes s"]) (auto simp: inserted_def)
  moreover have "(parent (nodes s ! f) = Null) = (f = top t)"
    using rep_parent_top [OF rep] rep_parent [OF rep leaf_in_ids [OF f]] by force
  then have "root s' = Node (top ?t)"
    using s'(2) root by (simp add: top_split_leaf [OF dist(1) f])
  moreover have "distinct (wins ?t)" using dist(2) w unfolding wins by auto
  ultimately have "tree_ok (Some ?t) s'"
    using s'(1) sets pool' by (simp add: tree_ok_def)
  with run s' fresh show ?thesis by blast
qed

subsection \<open>Deletion\<close>

lemma remove_leaf_fork:
  assumes "distinct (ids (Fork i e l r))"
  shows "f \<in> set (leaves l) \<Longrightarrow> top l \<noteq> f \<Longrightarrow> remove_leaf f (Fork i e l r) = Fork i e (remove_leaf f l) r \<and>
      parent_of f (Fork i e l r) = parent_of f l \<and> sibling f (Fork i e l r) = sibling f l"
    and "f \<in> set (leaves r) \<Longrightarrow> top r \<noteq> f \<Longrightarrow> remove_leaf f (Fork i e l r) = Fork i e l (remove_leaf f r) \<and>
      parent_of f (Fork i e l r) = parent_of f r \<and> sibling f (Fork i e l r) = sibling f r"
proof -
  have "f \<notin> set (ids r)" if "f \<in> set (leaves l)" using leaf_in_ids [OF that] assms by auto
  then show "f \<in> set (leaves l) \<Longrightarrow> top l \<noteq> f \<Longrightarrow> remove_leaf f (Fork i e l r) = Fork i e (remove_leaf f l) r \<and>
      parent_of f (Fork i e l r) = parent_of f l \<and> sibling f (Fork i e l r) = sibling f l"
    by (auto split: option.splits)
  have "f \<notin> set (ids l)" if "f \<in> set (leaves r)" using leaf_in_ids [OF that] assms by auto
  then show "f \<in> set (leaves r) \<Longrightarrow> top r \<noteq> f \<Longrightarrow> remove_leaf f (Fork i e l r) = Fork i e l (remove_leaf f r) \<and>
      parent_of f (Fork i e l r) = parent_of f r \<and> sibling f (Fork i e l r) = sibling f r"
    by (auto split: option.splits)
qed

lemma remove_leaf_sets:
  assumes "f \<in> set (leaves t)" and "distinct (ids t)" and "top t \<noteq> f" and "parent_of f t = Some p" and "sibling f t = Some b"
  shows "set (ids (remove_leaf f t)) = set (ids t) - {f, p} \<and> distinct (ids (remove_leaf f t)) \<and>
     set (leaves (remove_leaf f t)) = set (leaves t) - {f} \<and> set (leaves b) \<subseteq> set (leaves t) - {f} \<and>
     (\<exists>us vs w. win_of f t = Some w \<and> wins t = us @ w # vs \<and> wins (remove_leaf f t) = us @ vs)"
  using assms
proof (induction t)
  case (Fork i e l r)
  have disj: "i \<notin> set (ids l)" "i \<notin> set (ids r)" "set (ids l) \<inter> set (ids r) = {}" "distinct (ids l)" "distinct (ids r)"
    using Fork.prems by auto
  from Fork.prems(1) show ?case
  proof (rule leaf_cases_in)
    assume f: "f \<in> set (leaves l)"
    then have ff: "f \<in> set (ids l)" "f \<notin> set (ids r)" "f \<noteq> i" using disj by (auto dest: leaf_in_ids)
    show ?thesis
    proof (cases "top l = f")
      case True
      then obtain w where l: "l = Leaf f w" using leaf_top [OF f] disj by blast
      have "\<exists>us vs. w # wins r = us @ w # vs \<and> wins r = us @ vs" by (intro exI [of _ "[]"] exI [of _ "wins r"]) simp
      moreover have "set (leaves r) \<subseteq> set (ids r)" by (rule leaves_subset)
      moreover have "\<nexists>w. r = Leaf f w" using ff by auto
      then have "p = i" "b = r" "remove_leaf f (Fork i e l r) = r" using Fork.prems(4,5) l by auto
      ultimately show ?thesis using l ff disj by auto
    next
      case False
      note fork = remove_leaf_fork(1) [OF Fork.prems(2) f False]
      have pb: "parent_of f l = Some p" "sibling f l = Some b" using fork Fork.prems(4,5) by auto
      from Fork.IH(1) [OF f disj(4) False this] obtain us vs w where ih: "set (ids (remove_leaf f l)) = set (ids l) - {f, p}"
          "distinct (ids (remove_leaf f l))" "set (leaves (remove_leaf f l)) = set (leaves l) - {f}" "set (leaves b) \<subseteq> set (leaves l) - {f}"
        and w: "win_of f l = Some w" "wins l = us @ w # vs" "wins (remove_leaf f l) = us @ vs" by blast
      have "\<exists>us vs. wins (Fork i e l r) = us @ w # vs \<and> wins (remove_leaf f (Fork i e l r)) = us @ vs"
        using w fork by (intro exI [of _ us] exI [of _ "vs @ wins r"]) simp
      moreover have "p \<noteq> i" "p \<notin> set (ids r)" using parent_of_in [OF pb(1)] disj by auto
      moreover have "f \<notin> set (leaves r)" using ff by (auto dest: leaf_in_ids)
      ultimately show ?thesis using ih ff disj w(1) fork by auto
    qed
  next
    assume f: "f \<in> set (leaves r)"
    then have ff: "f \<in> set (ids r)" "f \<notin> set (ids l)" "f \<noteq> i" using disj by (auto dest: leaf_in_ids)
    then have nw: "win_of f l = None" by simp
    show ?thesis
    proof (cases "top r = f")
      case True
      then obtain w where r: "r = Leaf f w" using leaf_top [OF f] disj by blast
      have "\<exists>us vs. wins l @ [w] = us @ w # vs \<and> wins l = us @ vs" by (intro exI [of _ "wins l"] exI [of _ "[]"]) simp
      moreover have "set (leaves l) \<subseteq> set (ids l)" by (rule leaves_subset)
      moreover have "\<nexists>w. l = Leaf f w" using ff by auto
      then have "p = i" "b = l" "remove_leaf f (Fork i e l r) = l" using Fork.prems(4,5) r by auto
      ultimately show ?thesis using r ff disj nw by auto
    next
      case False
      note fork = remove_leaf_fork(2) [OF Fork.prems(2) f False]
      have pb: "parent_of f r = Some p" "sibling f r = Some b" using fork Fork.prems(4,5) by auto
      from Fork.IH(2) [OF f disj(5) False this] obtain us vs w where ih: "set (ids (remove_leaf f r)) = set (ids r) - {f, p}"
          "distinct (ids (remove_leaf f r))" "set (leaves (remove_leaf f r)) = set (leaves r) - {f}" "set (leaves b) \<subseteq> set (leaves r) - {f}"
        and w: "win_of f r = Some w" "wins r = us @ w # vs" "wins (remove_leaf f r) = us @ vs" by blast
      have "\<exists>us vs. wins (Fork i e l r) = us @ w # vs \<and> wins (remove_leaf f (Fork i e l r)) = us @ vs"
        using w fork by (intro exI [of _ "wins l @ us"] exI [of _ vs]) simp
      moreover have "p \<noteq> i" "p \<notin> set (ids l)" using parent_of_in [OF pb(1)] disj by auto
      moreover have "f \<notin> set (leaves l)" using ff by (auto dest: leaf_in_ids)
      ultimately show ?thesis using ih ff disj w(1) fork nw by auto
    qed
  qed
qed simp

lemma release_buffer_tree [simp]:
  "nodes (release_buffer m s) = nodes s" "root (release_buffer m s) = root s" "focused_node (release_buffer m s) = focused_node s"
  "free_stack (release_buffer m s) = free_stack s" "node_pool_idx (release_buffer m s) = node_pool_idx s"
  by (simp_all add: release_buffer_def set_window_def call_def Let_def split: option.split)

lemma swap_child_parent [simp]: "parent (swap_child a b m) = parent m"
  by (simp add: swap_child_def)

lemma rep_parent_irrefl:
  "rep ns q t \<Longrightarrow> distinct (ids t) \<Longrightarrow> q \<notin> Node ` set (ids t) \<Longrightarrow> i \<in> set (ids t) \<Longrightarrow> parent (ns ! i) \<noteq> Node i"
proof (induction t arbitrary: q)
  case (Fork k d l r)
  then show ?case using Fork.IH(1) [of "Node k"] Fork.IH(2) [of "Node k"] by auto
qed auto

text \<open>Deleting the last window.\<close>

lemma delete_last:
  assumes ok: "tree_ok (Some t) s" and f: "f \<in> set (leaves t)" and top: "top t = f"
  shows "\<exists>s'. wm_delete_node (Node f) s = Some s' \<and> tree_ok None s' \<and> no_tree s' = no_tree (release_buffer (nodes s ! f) s)"
proof -
  have rep: "rep (nodes s) Null t" and dist: "distinct (ids t)" and pool: "pool (set (ids t)) s" and root: "root s = Node f"
    using ok top by (auto simp: tree_ok_def)
  obtain w where t: "t = Leaf f w" using leaf_top [OF f dist top] by blast
  have p: "parent (nodes s ! f) = Null" and len: "f < length (nodes s)" using rep t by auto
  let ?s = "release_buffer (nodes s ! f) s\<lparr>root := Null, focused_node := Null\<rparr>"
  have "pool {f} ?s" using pool t pool_cong [of ?s s "{f}"] by simp
  from tree_free_ok [OF this, of f] p show ?thesis
    using len root by (simp add: wm_delete_node_def node_at_Node tree_ok_def no_tree_def pool_def Let_def)
qed

text \<open>The steps of a deletion: the sibling \<open>b\<close> moves up to the grandparent \<open>g\<close>, then both nodes are freed.\<close>

definition joined :: "nptr \<Rightarrow> nat \<Rightarrow> nat \<Rightarrow> wm \<Rightarrow> wm" where
  "joined g p b s =
    (case g of
       Node j \<Rightarrow> s\<lparr>nodes := (nodes s)[b := (nodes s ! b)\<lparr>parent := g\<rparr>, j := swap_child (Node p) (Node b) (nodes s ! j)]\<rparr>
     | _ \<Rightarrow> s\<lparr>nodes := (nodes s)[b := (nodes s ! b)\<lparr>parent := g\<rparr>], root := Node b\<rparr>)"

lemma joined_simps [simp]:
  "length (nodes (joined g p b s)) = length (nodes s)" "node_pool_idx (joined g p b s) = node_pool_idx s"
  "free_stack (joined g p b s) = free_stack s" "focused_node (joined g p b s) = focused_node s"
  "no_tree (joined g p b s) = no_tree s"
  by (simp_all add: joined_def no_tree_def split: nptr.split)

lemma joined_nodes:
  assumes "g = Null \<or> (\<exists>j. g = Node j \<and> j \<noteq> b \<and> j < length (nodes s))" and "b < length (nodes s)" and "j < length (nodes s)"
  shows "nodes (joined g p b s) ! j = join_node g p b j (nodes s ! j)"
  using assms by (auto simp: joined_def join_node_def nth_list_update)

lemma delete_run:
  assumes par: "parent (nodes s ! f) = Node p" and other: "other_child (Node f) (nodes s ! p) = Node b" and g: "parent (nodes s ! p) = g"
    and bounds: "f < length (nodes s)" "p < length (nodes s)" "b < length (nodes s)" and ne: "p \<noteq> b"
    and top: "g = Null \<or> (\<exists>j. g = Node j \<and> j \<noteq> b \<and> j < length (nodes s))"
  shows "wm_delete_node (Node f) s =
    do {
      let s = joined g p b (release_buffer (nodes s ! f) s);
      s \<leftarrow> (if focused_node s = Node f then do { f \<leftarrow> leftmost_or_null (Node b) s; Some (s\<lparr>focused_node := f\<rparr>) } else Some s);
      s \<leftarrow> tree_free (Node f) s;
      tree_free (Node p) s
    }"
  using assms
  by (auto simp: wm_delete_node_def get_sibling_def other_child_def [symmetric] node_steps joined_def nth_list_update Let_def cong: if_cong)

lemma free_two:
  assumes "pool T s" and "i \<in> T" and "j \<in> T" and "i \<noteq> j" and "parent (nodes s ! i) \<noteq> Dead" and "parent (nodes s ! j) \<noteq> Dead"
  obtains s' where "do { s \<leftarrow> tree_free (Node i) s; tree_free (Node j) s } = Some s'" and "pool (T - {i, j}) s'"
    and "length (nodes s') = length (nodes s)" and "\<And>k. k \<noteq> i \<Longrightarrow> k \<noteq> j \<Longrightarrow> nodes s' ! k = nodes s ! k"
    and "root s' = root s" and "focused_node s' = focused_node s" and "no_tree s' = no_tree s"
proof -
  define s1 where "s1 = s\<lparr>nodes := (nodes s)[i := (nodes s ! i)\<lparr>parent := Dead\<rparr>], free_stack := i # free_stack s\<rparr>"
  have first: "tree_free (Node i) s = Some s1" and pool1: "pool (T - {i}) s1"
    using tree_free_ok [OF assms(1,2,5)] by (simp_all add: s1_def)
  define s2 where "s2 = s1\<lparr>nodes := (nodes s1)[j := (nodes s1 ! j)\<lparr>parent := Dead\<rparr>], free_stack := j # free_stack s1\<rparr>"
  have "tree_free (Node j) s1 = Some s2" and "pool (T - {i} - {j}) s2"
    using tree_free_ok [OF pool1, of j] assms by (simp_all add: s1_def s2_def)
  moreover have "T - {i} - {j} = T - {i, j}" by blast
  ultimately show ?thesis using first that [of s2] by (simp add: s2_def s1_def no_tree_def)
qed

lemma delete_inner:
  assumes ok: "tree_ok (Some t) s" and f: "f \<in> set (leaves t)" and inner: "top t \<noteq> f"
  shows "\<exists>s' b. wm_delete_node (Node f) s = Some s' \<and> tree_ok (Some (remove_leaf f t)) s' \<and> sibling f t = Some b \<and>
     focused_node s' = (if focused_node s = Node f then Node (first_leaf b) else focused_node s) \<and>
     no_tree s' = no_tree (release_buffer (nodes s ! f) s)"
proof -
  have rep: "rep (nodes s) Null t" and dist: "distinct (ids t)" "distinct (wins t)" and pool: "pool (set (ids t)) s"
    and root: "root s = Node (top t)" and focus: "focused_node s \<in> Node ` set (leaves t)"
    using ok by (auto simp: tree_ok_def)
  from sibling_rep [OF rep dist(1) f inner] obtain p b where pb: "parent_of f t = Some p" "sibling f t = Some b"
    and inT: "p \<in> set (ids t)" "top b \<in> set (ids t)" "set (ids b) \<subseteq> set (ids t)" and ne: "f \<noteq> p" "f \<noteq> top b" "p \<noteq> top b" "f \<notin> set (ids b)" "p \<notin> set (ids b)"
    and par: "parent (nodes s ! f) = Node p" and b: "distinct (ids b)" "rep (nodes s) (Node p) b"
    and other: "other_child (Node f) (nodes s ! p) = Node (top b)" and up: "parent (nodes s ! p) \<notin> Node ` set (ids b)"
    by auto
  have bounds: "f < length (nodes s)" "p < length (nodes s)" "top b < length (nodes s)"
    using pool_bound [OF pool] inT leaf_in_ids [OF f] by auto
  have irr: "parent (nodes s ! p) \<noteq> Node p" by (rule rep_parent_irrefl [OF rep dist(1) _ inT(1)]) auto
  define g where "g = parent (nodes s ! p)"
  have g: "g = Null \<and> p = top t \<or> (\<exists>j \<in> set (ids t). p \<noteq> top t \<and> g = Node j \<and> j \<noteq> top b \<and> j \<noteq> p \<and> j < length (nodes s))"
    using rep_parent [OF rep inT(1)] rep_parent_top [OF rep] up irr pool_bound [OF pool]
    unfolding g_def by (cases "p = top t") auto
  let ?s1 = "release_buffer (nodes s ! f) s"
  have top_g: "g = Null \<or> (\<exists>j. g = Node j \<and> j \<noteq> top b \<and> j < length (nodes s))" using g by blast
  define s2 where "s2 = joined g p (top b) ?s1"
  have s2: "length (nodes s2) = length (nodes s)" "node_pool_idx s2 = node_pool_idx s" "free_stack s2 = free_stack s"
    "focused_node s2 = focused_node s" "no_tree s2 = no_tree ?s1" "root s2 = (if g = Null then Node (top b) else root s)"
    using g by (auto simp: s2_def joined_def no_tree_def)
  have nodes2: "nodes s2 ! j = join_node g p (top b) j (nodes s ! j)" if "j \<in> set (ids t)" for j
    using joined_nodes [of g "top b" ?s1 j p] top_g bounds pool_bound [OF pool that] by (simp add: s2_def)
  have rep_b: "rep (nodes s2) g b"
    using b(2,1) s2(1)
  proof (rule rep_reparent)
    fix j
    assume j: "j \<in> set (ids b)"
    then have "g \<noteq> Node j" using up by (auto simp: g_def)
    then show "nodes s2 ! j = (if j = top b then (nodes s ! j)\<lparr>parent := g\<rparr> else nodes s ! j)"
      using nodes2 [of j] j inT(3) by (auto simp: join_node_def)
  qed
  define s3 where "s3 = (if focused_node s = Node f then s2\<lparr>focused_node := Node (first_leaf b)\<rparr> else s2)"
  have s3: "nodes s3 = nodes s2" "no_tree s3 = no_tree s2" "root s3 = root s2" "free_stack s3 = free_stack s2" "node_pool_idx s3 = node_pool_idx s2"
    "focused_node s3 = (if focused_node s = Node f then Node (first_leaf b) else focused_node s)"
    by (simp_all add: s3_def no_tree_def s2)
  have pool3: "pool (set (ids t)) s3" using pool pool_cong [of s3 s] s2 s3 by simp
  have alive: "parent (nodes s3 ! f) \<noteq> Dead" "parent (nodes s3 ! p) \<noteq> Dead"
    using nodes2 [OF leaf_in_ids [OF f]] nodes2 [OF inT(1)] ne par g by (auto simp: join_node_def g_def s3(1))
  from free_two [OF pool3 leaf_in_ids [OF f] inT(1) ne(1) alive] obtain s5
    where freed: "do { s \<leftarrow> tree_free (Node f) s3; tree_free (Node p) s } = Some s5" "pool (set (ids t) - {f, p}) s5"
      "length (nodes s5) = length (nodes s3)" "\<And>k. k \<noteq> f \<Longrightarrow> k \<noteq> p \<Longrightarrow> nodes s5 ! k = nodes s3 ! k"
      and same: "root s5 = root s3" "focused_node s5 = focused_node s3" "no_tree s5 = no_tree s3" by blast
  have "wm_delete_node (Node f) s = Some s5"
    using delete_run [OF par other g_def [symmetric] bounds ne(3) top_g] leftmost_rep [OF rep_b] freed(1)
    by (simp add: s2_def [symmetric] s2(4) s3_def Let_def split: if_splits)
  moreover have "rep (nodes s5) Null (remove_leaf f t)"
    using rep dist(1) f inner pb nodes2 freed(3,4) s2(1) s3(1)
    by (intro rep_remove [where ns = "nodes s"]) (auto simp: g_def)
  moreover have "root s5 = Node (top (remove_leaf f t))"
    using g s2(6) s3(3) same(1) root top_remove [OF dist(1) f inner pb] by auto
  moreover from remove_leaf_sets [OF f dist(1) inner pb] obtain us vs w
    where sets: "set (ids (remove_leaf f t)) = set (ids t) - {f, p}" "distinct (ids (remove_leaf f t))"
        "set (leaves (remove_leaf f t)) = set (leaves t) - {f}" "set (leaves b) \<subseteq> set (leaves t) - {f}"
      and wins: "wins t = us @ w # vs" "wins (remove_leaf f t) = us @ vs" by blast
  moreover have "focused_node s5 \<in> Node ` set (leaves (remove_leaf f t))"
  proof -
    have "first_leaf b \<in> set (leaves t) - {f}" using sets(4) first_leaf_in [of b] by blast
    then show ?thesis unfolding same(2) s3(6) sets(3) using focus by auto
  qed
  moreover have "distinct (wins (remove_leaf f t))" using dist(2) wins by simp
  ultimately show ?thesis using freed(2) pb(2) same(2,3) s3(2,6) s2(5) by (simp add: tree_ok_def)
qed

subsection \<open>The two operations\<close>

definition delete_tree :: "nat \<Rightarrow> wtree \<Rightarrow> wtree option" where
  "delete_tree f t = (if top t = f then None else Some (remove_leaf f t))"

lemma insert_result:
  assumes "tree_ok T s" and "length (tree_wins T) < MAX_WINDOWS" and "w \<notin> set (tree_wins T)"
  shows "\<exists>f c n s'. wm_insert_window_into_tree w s = Some s' \<and> (T \<noteq> None \<longrightarrow> focused_node s = Node f) \<and>
     tree_ok (Some (insert_tree f c n (next_split_mode s) w T)) s' \<and> focused_node s' = Node n \<and> no_tree s' = no_tree s \<and>
     (\<exists>us vs. tree_wins T = us @ vs \<and> wins (insert_tree f c n (next_split_mode s) w T) = us @ w # vs)"
proof (cases T)
  case None
  with assms insert_first [of s w] show ?thesis by (auto simp: insert_tree_def tree_wins_def)
next
  case (Some t)
  from assms(1) Some obtain f where focus: "focused_node s = Node f" and f: "f \<in> set (leaves t)" "distinct (ids t)"
    by (auto simp: tree_ok_def)
  from insert_next [of t s w f] assms Some focus obtain c n s'
    where s': "wm_insert_window_into_tree w s = Some s'" "tree_ok (Some (split_leaf f c n (next_split_mode s) w t)) s'"
      "focused_node s' = Node n" "no_tree s' = no_tree s" and fresh: "c \<notin> set (ids t)" "n \<notin> set (ids t)" "c \<noteq> n"
    by (auto simp: tree_wins_def)
  from split_leaf_sets [OF f fresh, of "next_split_mode s" w]
  have "\<exists>us vs. wins t = us @ vs \<and> wins (split_leaf f c n (next_split_mode s) w t) = us @ w # vs" by blast
  with s' focus Some show ?thesis
    by (intro exI [of _ f] exI [of _ c] exI [of _ n] exI [of _ s']) (simp add: insert_tree_def tree_wins_def)
qed

lemma delete_result:
  assumes ok: "tree_ok (Some t) s" and f: "f \<in> set (leaves t)"
  shows "\<exists>s'. wm_delete_node (Node f) s = Some s' \<and> tree_ok (delete_tree f t) s' \<and>
     focused_node s' = (if focused_node s = Node f then (case sibling f t of Some b \<Rightarrow> Node (first_leaf b) | None \<Rightarrow> Null) else focused_node s) \<and>
     no_tree s' = no_tree (release_buffer (nodes s ! f) s) \<and>
     (\<exists>us vs w. win_of f t = Some w \<and> wins t = us @ w # vs \<and> tree_wins (delete_tree f t) = us @ vs)"
proof (cases "top t = f")
  case True
  have dist: "distinct (ids t)" using ok by (simp add: tree_ok_def)
  obtain w where t: "t = Leaf f w" using leaf_top [OF f dist True] by blast
  then have "focused_node s = Node f" using ok by (auto simp: tree_ok_def)
  moreover from delete_last [OF ok f True] obtain s' where s': "wm_delete_node (Node f) s = Some s'" "tree_ok None s'"
      "no_tree s' = no_tree (release_buffer (nodes s ! f) s)" by blast
  moreover from s'(2) have "focused_node s' = Null" by (simp add: tree_ok_def)
  ultimately show ?thesis using t by (intro exI [of _ s']) (simp add: delete_tree_def tree_wins_def)
next
  case False
  have dist: "distinct (ids t)" and rep: "rep (nodes s) Null t" using ok by (simp_all add: tree_ok_def)
  from delete_inner [OF ok f False] obtain s' b where s': "wm_delete_node (Node f) s = Some s'" "tree_ok (Some (remove_leaf f t)) s'" "sibling f t = Some b"
     "focused_node s' = (if focused_node s = Node f then Node (first_leaf b) else focused_node s)" "no_tree s' = no_tree (release_buffer (nodes s ! f) s)"
    by blast
  moreover from sibling_rep [OF rep dist f False] obtain p where "parent_of f t = Some p" by blast
  from remove_leaf_sets [OF f dist False this s'(3)]
  have "\<exists>us vs w. win_of f t = Some w \<and> wins t = us @ w # vs \<and> wins (remove_leaf f t) = us @ vs" by blast
  ultimately show ?thesis using False by (intro exI [of _ s']) (simp add: delete_tree_def tree_wins_def)
qed

text \<open>
  C19. Opening a window splits the focused leaf: with fewer than 16 windows open the two nodes that it takes are there, the
  new leaf gets the focus and the tree is again a tree, with the new window next to the one that had the focus.
\<close>

theorem wm_insert_ok:
  assumes "tree_ok T s" and "length (tree_wins T) < MAX_WINDOWS" and "w \<notin> set (tree_wins T)"
  shows "\<exists>f c n s'. wm_insert_window_into_tree w s = Some s' \<and> (T \<noteq> None \<longrightarrow> focused_node s = Node f) \<and>
     tree_ok (Some (insert_tree f c n (next_split_mode s) w T)) s' \<and> focused_node s' = Node n \<and> no_tree s' = no_tree s \<and>
     (\<exists>us vs. tree_wins T = us @ vs \<and> wins (insert_tree f c n (next_split_mode s) w T) = us @ w # vs)"
  using assms by (rule insert_result)

definition wm_blank :: wm where
  "wm_blank = \<lparr>windows = replicate 16 \<lparr>win_id = 0, win_pid = 0, alive = False, wx = 0, wy = 0, wwidth = 0, wheight = 0,
       buffer_wm_ptr = 0, buffer_client_ptr = 0\<rparr>,
     nodes = replicate 32 zero_node, node_pool_idx = 0, free_stack = [], root = Null, focused_node = Null, next_split_mode = SPLIT_V,
     dirty_map = replicate 16 clean, framebuffer = \<lparr>fb_addr = 0, fb_width = 0, fb_height = 0, fb_pitch = 0\<rparr>, screen = [], back_buffer = [],
     back_buffer_size = 0, screen_pitch_bytes = 0, calls = []\<rparr>"

lemma wm_blank_tree: "tree_ok None wm_blank"
  by (simp add: wm_blank_def tree_ok_def pool_def MAX_WINDOWS_def)

theorem wm_insert_ok_witness:
  "\<exists>n s'. wm_insert_window_into_tree 0 wm_blank = Some s' \<and> tree_ok (Some (Leaf n 0)) s' \<and> focused_node s' = Node n"
  using wm_insert_ok [OF wm_blank_tree, of 0] by (auto simp: tree_wins_def insert_tree_def MAX_WINDOWS_def)

text \<open>A state with two windows, side by side, the first with the focus.\<close>

definition wm_two :: wm where
  "wm_two = wm_blank\<lparr>node_pool_idx := 3, root := Node 2, focused_node := Node 0,
     nodes := (replicate 32 zero_node)[0 := zero_node\<lparr>is_leaf := True, win := Some 0, parent := Node 2\<rparr>,
       1 := zero_node\<lparr>is_leaf := True, win := Some 1, parent := Node 2\<rparr>, 2 := zero_node\<lparr>left := Node 0, right := Node 1, split_dir := SPLIT_V\<rparr>]\<rparr>"

definition two_tree :: wtree where
  "two_tree = Fork 2 SPLIT_V (Leaf 0 0) (Leaf 1 1)"

lemma wm_two_tree: "tree_ok (Some two_tree) wm_two"
proof -
  have "{2, 0, 1} = {..<3 :: nat}" by auto
  then show ?thesis
    by (simp add: wm_two_def two_tree_def wm_blank_def tree_ok_def pool_def MAX_WINDOWS_def zero_node_def)
qed

text \<open>
  C20. Closing a window removes its leaf and puts the sibling into the place of their parent: the other windows keep their
  order, both nodes return to the pool, and the focus moves to the first leaf of the sibling when it was on the closed window.
\<close>

theorem wm_delete_ok:
  assumes "tree_ok (Some t) s" and "f \<in> set (leaves t)"
  shows "\<exists>s'. wm_delete_node (Node f) s = Some s' \<and> tree_ok (delete_tree f t) s' \<and>
     focused_node s' = (if focused_node s = Node f then (case sibling f t of Some b \<Rightarrow> Node (first_leaf b) | None \<Rightarrow> Null) else focused_node s) \<and>
     no_tree s' = no_tree (release_buffer (nodes s ! f) s) \<and>
     (\<exists>us vs w. win_of f t = Some w \<and> wins t = us @ w # vs \<and> tree_wins (delete_tree f t) = us @ vs)"
  using assms by (rule delete_result)

theorem wm_delete_ok_witness:
  "\<exists>s'. wm_delete_node (Node 0) wm_two = Some s' \<and> tree_ok (Some (Leaf 1 1)) s' \<and> focused_node s' = Node 1"
  using wm_delete_ok [OF wm_two_tree, of 0] by (auto simp: two_tree_def delete_tree_def wm_two_def)

end
