(* ===== verification/WmLayout.thy ===== *)
theory WmLayout
  imports WmTree
begin

text \<open>
  The layout of the window manager and the change of focus, over the abstract trees of \<^verbatim>\<open>WmTree\<close>: the
  recursion along the pointers ends, gives every window the rectangle that \<open>tile\<close> computes, and the
  rectangles cut the screen into disjoint pieces.
\<close>

subsection \<open>Tilings\<close>

type_synonym area = "int \<times> int \<times> int \<times> int"

primrec tile :: "wtree \<Rightarrow> int \<Rightarrow> int \<Rightarrow> int \<Rightarrow> int \<Rightarrow> (nat \<times> area) list" where
  "tile (Leaf i v) x y w h = [(v, x, y, w, h)]"
| "tile (Fork i d l r) x y w h =
     (if d = SPLIT_V then tile l x y (w sdiv 2) h @ tile r (x + w sdiv 2) y (w - w sdiv 2) h
      else tile l x y w (h sdiv 2) @ tile r x (y + h sdiv 2) w (h - h sdiv 2))"

definition inside :: "int \<times> int \<Rightarrow> area \<Rightarrow> bool" where
  "inside p a = (case (p, a) of ((px, py), (x, y, w, h)) \<Rightarrow> x \<le> px \<and> px < x + w \<and> y \<le> py \<and> py < y + h)"

lemma tile_wins: "map fst (tile t x y w h) = wins t"
  by (induction t arbitrary: x y w h) simp_all

lemma half: "0 \<le> (w :: int) \<Longrightarrow> w sdiv 2 = w div 2"
  by (simp add: signed_divide_int_def sgn_if)

text \<open>A point of the rectangle lies in exactly one piece, a point outside in none.\<close>

lemma tile_once:
  "0 \<le> w \<Longrightarrow> 0 \<le> h \<Longrightarrow> length (filter (\<lambda>z. inside p (snd z)) (tile t x y w h)) = (if inside p (x, y, w, h) then 1 else 0)"
proof (induction t arbitrary: x y w h)
  case (Fork i d l r)
  obtain px py where p: "p = (px, py)" by (cases p)
  show ?case
  proof (cases d)
    case SPLIT_H
    have "inside p (x, y, w, h) = (inside p (x, y, w, h div 2) \<or> inside p (x, y + h div 2, w, h - h div 2))"
      "\<not> (inside p (x, y, w, h div 2) \<and> inside p (x, y + h div 2, w, h - h div 2))"
      using Fork.prems by (auto simp: inside_def p)
    with SPLIT_H Fork show ?thesis by (auto simp: half)
  next
    case SPLIT_V
    have "inside p (x, y, w, h) = (inside p (x, y, w div 2, h) \<or> inside p (x + w div 2, y, w - w div 2, h))"
      "\<not> (inside p (x, y, w div 2, h) \<and> inside p (x + w div 2, y, w - w div 2, h))"
      using Fork.prems by (auto simp: inside_def p)
    with SPLIT_V Fork show ?thesis by (auto simp: half)
  qed
qed (simp add: inside_def)

definition within :: "area \<Rightarrow> area \<Rightarrow> bool" where
  "within a b = (case (a, b) of ((x, y, w, h), (x', y', w', h')) \<Rightarrow>
     x' \<le> x \<and> y' \<le> y \<and> 0 \<le> w \<and> 0 \<le> h \<and> x + w \<le> x' + w' \<and> y + h \<le> y' + h')"

lemma tile_within:
  "0 \<le> w \<Longrightarrow> 0 \<le> h \<Longrightarrow> (v, a) \<in> set (tile t x y w h) \<Longrightarrow> within a (x, y, w, h)"
proof (induction t arbitrary: x y w h)
  case (Fork i d l r)
  then show ?case
  proof (cases d)
    case SPLIT_H
    with Fork.prems consider "(v, a) \<in> set (tile l x y w (h div 2))" | "(v, a) \<in> set (tile r x (y + h div 2) w (h - h div 2))"
      by (auto simp: half)
    then show ?thesis
      using Fork.IH(1) [of w "h div 2"] Fork.IH(2) [of w "h - h div 2"] Fork.prems(1,2) by cases (fastforce simp: within_def)+
  next
    case SPLIT_V
    with Fork.prems consider "(v, a) \<in> set (tile l x y (w div 2) h)" | "(v, a) \<in> set (tile r (x + w div 2) y (w - w div 2) h)"
      by (auto simp: half)
    then show ?thesis
      using Fork.IH(1) [of "w div 2" h] Fork.IH(2) [of "w - w div 2" h] Fork.prems(1,2) by cases (fastforce simp: within_def)+
  qed
qed (simp add: within_def)

subsection \<open>The layout\<close>

definition place :: "nat \<times> area \<Rightarrow> window list \<Rightarrow> window list" where
  "place p ws = (case p of (v, x, y, w, h) \<Rightarrow> ws[v := (ws ! v)\<lparr>wx := x, wy := y, wwidth := w, wheight := h\<rparr>])"

definition resized :: "window list \<Rightarrow> nat \<times> area \<Rightarrow> wm_call list" where
  "resized ws p = (case p of (v, x, y, w, h) \<Rightarrow>
     if wwidth (ws ! v) \<noteq> w \<or> wheight (ws ! v) \<noteq> h
     then [IpcSend (win_pid (ws ! v)) MSG_WINDOW_RESIZE (word_of_int w) (word_of_int h) 0] else [])"

text \<open>Everything but the nodes, the windows and the calls.\<close>

definition no_layout :: "wm \<Rightarrow> wm" where
  "no_layout s = s\<lparr>nodes := [], windows := [], calls := []\<rparr>"

lemma place_eq [simp]: "place (v, x, y, w, h) ws = ws[v := (ws ! v)\<lparr>wx := x, wy := y, wwidth := w, wheight := h\<rparr>]"
  by (simp add: place_def)

lemma length_fold_place [simp]: "length (fold place xs ws) = length ws"
  by (induction xs arbitrary: ws) (auto simp: place_def)

lemma fold_place_other: "v \<notin> fst ` set xs \<Longrightarrow> fold place xs ws ! v = ws ! v"
  by (induction xs arbitrary: ws) (auto simp: place_def)

lemma fold_place_at:
  "distinct (map fst xs) \<Longrightarrow> (v, x, y, w, h) \<in> set xs \<Longrightarrow> v < length ws \<Longrightarrow>
   fold place xs ws ! v = (ws ! v)\<lparr>wx := x, wy := y, wwidth := w, wheight := h\<rparr>"
proof (induction xs arbitrary: ws)
  case (Cons p xs)
  show ?case
  proof (cases "p = (v, x, y, w, h)")
    case True
    then have "v \<notin> fst ` set xs" using Cons.prems(1) by auto
    with True Cons.prems(3) show ?thesis by (simp add: fold_place_other)
  next
    case False
    then have "(v, x, y, w, h) \<in> set xs" "fst p \<noteq> v" using Cons.prems(1,2) by (auto simp: image_iff dest: bspec)
    then show ?thesis using Cons by (cases p) auto
  qed
qed simp

lemma same_links_refl [simp]: "same_links m m"
  by (simp add: same_links_def)

lemma same_links_trans: "same_links a b \<Longrightarrow> same_links b c \<Longrightarrow> same_links a c"
  by (simp add: same_links_def)

lemma place_window_eq:
  "place_window v x y w h s =
     s\<lparr>windows := place (v, x, y, w, h) (windows s), calls := calls s @ resized (windows s) (v, x, y, w, h)\<rparr>"
  by (simp add: place_window_def set_window_def sys_ipc_send_wm_def call_def resized_def Let_def)

definition laid_out :: "wtree \<Rightarrow> area \<Rightarrow> wm \<Rightarrow> wm \<Rightarrow> bool" where
  "laid_out t a s s' \<longleftrightarrow> (case a of (x, y, w, h) \<Rightarrow>
     length (nodes s') = length (nodes s) \<and> (\<forall>j. same_links (nodes s' ! j) (nodes s ! j)) \<and>
     windows s' = fold place (tile t x y w h) (windows s) \<and>
     calls s' = calls s @ concat (map (resized (windows s)) (tile t x y w h)) \<and> no_layout s' = no_layout s)"

lemma resized_later:
  assumes "v \<notin> fst ` set xs"
  shows "resized (fold place xs ws) (v, a) = resized ws (v, a)"
  using fold_place_other [OF assms] by (cases a) (simp add: resized_def)

lemma layout_laid_out:
  assumes "rep (nodes s) q t" and "distinct (ids t)" and "distinct (wins t)"
  shows "\<exists>s'. layout_recursive (Node (top t)) x y w h s = Some s' \<and> laid_out t (x, y, w, h) s s'"
  using assms
proof (induction t arbitrary: q x y w h s)
  case (Leaf i v)
  then have i: "i < length (nodes s)" "is_leaf (nodes s ! i)" "win (nodes s ! i) = Some v" by simp_all
  have "same_links ((nodes s)[i := (nodes s ! i)\<lparr>nx := x, ny := y, nw := w, nh := h\<rparr>] ! j) (nodes s ! j)" for j
    by (cases "j = i") (use i in \<open>simp_all add: same_links_def\<close>)
  then show ?case
    using i by (subst layout_recursive.simps) (simp add: node_steps place_window_eq laid_out_def no_layout_def)
next
  case (Fork i d l r)
  define s1 where "s1 = s\<lparr>nodes := (nodes s)[i := (nodes s ! i)\<lparr>nx := x, ny := y, nw := w, nh := h\<rparr>]\<rparr>"
  have i: "i < length (nodes s)" "\<not> is_leaf (nodes s ! i)" "split_dir (nodes s ! i) = d" "left (nodes s ! i) = Node (top l)"
      "right (nodes s ! i) = Node (top r)" and reps: "rep (nodes s) (Node i) l" "rep (nodes s) (Node i) r"
    using Fork.prems(1) by simp_all
  have links1: "same_links (nodes s1 ! j) (nodes s ! j)" for j
    by (cases "j = i") (use i in \<open>simp_all add: s1_def same_links_def\<close>)
  have s1: "length (nodes s1) = length (nodes s)" "windows s1 = windows s" "calls s1 = calls s" "no_layout s1 = no_layout s"
    by (simp_all add: s1_def no_layout_def)
  define wl hl xr yr wr hr where area: "wl = (if d = SPLIT_V then w sdiv 2 else w)" "hl = (if d = SPLIT_H then h sdiv 2 else h)"
    "xr = (if d = SPLIT_V then x + w sdiv 2 else x)" "yr = (if d = SPLIT_H then y + h sdiv 2 else y)"
    "wr = (if d = SPLIT_V then w - w sdiv 2 else w)" "hr = (if d = SPLIT_H then h - h sdiv 2 else h)"
  have tiles: "tile (Fork i d l r) x y w h = tile l x y wl hl @ tile r xr yr wr hr"
    by (cases d) (simp_all add: area)
  have "rep (nodes s1) (Node i) l" using reps(1) rep_links [of l "nodes s1" "nodes s"] links1 s1(1) by simp
  from Fork.IH(1) [OF this] Fork.prems(2,3) obtain s2
    where s2: "layout_recursive (Node (top l)) x y wl hl s1 = Some s2" "laid_out l (x, y, wl, hl) s1 s2" by force
  have links2: "length (nodes s2) = length (nodes s)" "same_links (nodes s2 ! j) (nodes s ! j)" for j
    using s2(2) s1(1) links1 [of j] by (auto simp: laid_out_def intro: same_links_trans)
  have "rep (nodes s2) (Node i) r" using reps(2) rep_links [of r "nodes s2" "nodes s"] links2 by simp
  from Fork.IH(2) [OF this] Fork.prems(2,3) obtain s3
    where s3: "layout_recursive (Node (top r)) xr yr wr hr s2 = Some s3" "laid_out r (xr, yr, wr, hr) s2 s3" by force
  have at: "node_at (Node i) s1 = Some ((nodes s ! i)\<lparr>nx := x, ny := y, nw := w, nh := h\<rparr>)"
    using i(1) by (simp add: s1_def node_at_Node)
  have run: "layout_recursive (Node i) x y w h s = Some s3"
    using i s2(1) s3(1) unfolding area
    by (cases d; subst layout_recursive.simps; simp add: set_node_Node at s1_def [symmetric] Let_def)
  have "resized (windows s2) p = resized (windows s) p" if p: "p \<in> set (tile r xr yr wr hr)" for p
  proof -
    obtain v a where va: "p = (v, a)" by (cases p)
    have "v \<in> set (wins r)" using p va tile_wins [of r xr yr wr hr, symmetric] by force
    then have "v \<notin> set (wins l)" using Fork.prems(3) by auto
    then have "v \<notin> fst ` set (tile l x y wl hl)" using tile_wins [of l x y wl hl] by (metis list.set_map)
    then show ?thesis using s2(2) s1(2) va by (simp add: laid_out_def resized_later)
  qed
  then have late: "map (resized (windows s2)) (tile r xr yr wr hr) = map (resized (windows s)) (tile r xr yr wr hr)" by simp
  have "calls s3 = calls s @ concat (map (resized (windows s)) (tile l x y wl hl @ tile r xr yr wr hr))"
    using s2(2) s3(2) s1(2,3) unfolding laid_out_def by (simp add: late [symmetric])
  moreover have "windows s3 = fold place (tile l x y wl hl @ tile r xr yr wr hr) (windows s)"
    using s2(2) s3(2) s1(2) unfolding laid_out_def by simp
  moreover have "same_links (nodes s3 ! j) (nodes s ! j)" for j
    using s3(2) links2(2) [of j] by (auto simp: laid_out_def intro: same_links_trans)
  moreover have "length (nodes s3) = length (nodes s)" "no_layout s3 = no_layout s"
    using s2(2) s3(2) s1(4) links2(1) by (simp_all add: laid_out_def)
  ultimately have "laid_out (Fork i d l r) (x, y, w, h) s s3"
    unfolding laid_out_def by (simp del: tile.simps add: tiles)
  with run show ?case by auto
qed

text \<open>The rectangle of a window.\<close>

definition area_of :: "window \<Rightarrow> area" where
  "area_of v = (wx v, wy v, wwidth v, wheight v)"

definition screen_w :: "wm \<Rightarrow> int" where
  "screen_w s = uint (fb_width (framebuffer s))"

definition screen_h :: "wm \<Rightarrow> int" where
  "screen_h s = uint (fb_height (framebuffer s))"

lemma as_int_small: "uint (n :: u64) < 0x80000000 \<Longrightarrow> sint (ucast n :: u32) = uint n"
  by (simp add: signed_ucast_eq signed_take_bit_int_eq_self_iff order_trans [of _ 0])

lemma rep_laid_out:
  assumes "laid_out t' a s s'" and "rep (nodes s) q t"
  shows "rep (nodes s') q t"
  using assms by (cases a) (subst rep_links [where ns = "nodes s"]; simp add: laid_out_def)

lemma no_layout_fields:
  assumes "no_layout s' = no_layout s"
  shows "root s' = root s" "focused_node s' = focused_node s" "free_stack s' = free_stack s" "node_pool_idx s' = node_pool_idx s"
    "framebuffer s' = framebuffer s" "screen s' = screen s" "back_buffer s' = back_buffer s" "back_buffer_size s' = back_buffer_size s"
    "screen_pitch_bytes s' = screen_pitch_bytes s" "dirty_map s' = dirty_map s" "next_split_mode s' = next_split_mode s"
  using assms by (cases s; cases s'; simp add: no_layout_def)+

lemma tree_ok_laid_out:
  assumes "laid_out t a s s'" and "tree_ok (Some t) s"
  shows "tree_ok (Some t) s'"
proof -
  from assms(1) have same: "no_layout s' = no_layout s" "length (nodes s') = length (nodes s)" by (cases a; simp add: laid_out_def)+
  note f = no_layout_fields [OF same(1)]
  show ?thesis
    using assms(2) rep_laid_out [OF assms(1), of Null t] pool_cong [OF same(2) f(4) f(3)] f by (simp add: tree_ok_def)
qed

lemma update_layout_result:
  assumes ok: "tree_ok (Some t) s" and small: "screen_w s < 0x80000000" "screen_h s < 0x80000000"
  shows "\<exists>s'. wm_update_layout s = Some s' \<and> laid_out t (0, 0, screen_w s, screen_h s) s s' \<and> tree_ok (Some t) s'"
proof -
  have t: "rep (nodes s) Null t" "distinct (ids t)" "distinct (wins t)" "root s = Node (top t)"
    using ok by (auto simp: tree_ok_def)
  from layout_laid_out [OF t(1-3), of 0 0 "screen_w s" "screen_h s"] obtain s'
    where s': "layout_recursive (Node (top t)) 0 0 (screen_w s) (screen_h s) s = Some s'" "laid_out t (0, 0, screen_w s, screen_h s) s s'" by blast
  then have "wm_update_layout s = Some s'"
    using small t(4) by (simp add: wm_update_layout_def as_int_small screen_w_def screen_h_def)
  with s'(2) tree_ok_laid_out [OF s'(2) ok] show ?thesis by blast
qed

text \<open>After the layout every window of the tree has its piece of the tiling.\<close>

lemma laid_out_area:
  assumes "laid_out t a s s'" and "distinct (wins t)" and "set (wins t) \<subseteq> {..<length (windows s)}" and "v \<in> set (wins t)"
  shows "(v, area_of (windows s' ! v)) \<in> set (case a of (x, y, w, h) \<Rightarrow> tile t x y w h)"
proof -
  obtain x y w h where a: "a = (x, y, w, h)" by (cases a)
  from assms(4) obtain b where b: "(v, b) \<in> set (tile t x y w h)"
    using tile_wins [of t x y w h] by (metis (no_types, opaque_lifting) imageE list.set_map prod.collapse)
  obtain x' y' w' h' where b': "b = (x', y', w', h')" by (cases b)
  have "windows s' ! v = (windows s ! v)\<lparr>wx := x', wy := y', wwidth := w', wheight := h'\<rparr>"
    using assms(1-4) b by (auto simp: laid_out_def a b' tile_wins intro!: fold_place_at)
  then show ?thesis using b by (simp add: a b' area_of_def)
qed

lemma exactly_one:
  assumes "length (filter P xs) = 1"
  obtains z where "z \<in> set xs" and "P z" and "\<And>y. y \<in> set xs \<Longrightarrow> P y \<Longrightarrow> y = z"
proof -
  obtain y where y: "filter P xs = [y]" using assms by (metis One_nat_def length_0_conv length_Suc_conv)
  have "{x \<in> set xs. P x} = {y}" using y set_filter [of P xs] by simp
  then show ?thesis using that [of y] by blast
qed

text \<open>
  C5. After the layout the windows tile the screen: every pixel lies in exactly one of them, none of them
  reaches beyond the screen, and exactly the clients whose size has changed are told, in the order of the leaves.
\<close>

theorem wm_update_layout_ok:
  assumes "tree_ok (Some t) s" and "set (wins t) \<subseteq> {..<length (windows s)}"
    and "screen_w s < 0x80000000" and "screen_h s < 0x80000000"
  shows "\<exists>s'. wm_update_layout s = Some s' \<and> tree_ok (Some t) s' \<and>
     (\<forall>v \<in> set (wins t). within (area_of (windows s' ! v)) (0, 0, screen_w s, screen_h s)) \<and>
     (\<forall>px py. 0 \<le> px \<and> px < screen_w s \<and> 0 \<le> py \<and> py < screen_h s \<longrightarrow>
        (\<exists>!v. v \<in> set (wins t) \<and> inside (px, py) (area_of (windows s' ! v)))) \<and>
     calls s' = calls s @ concat (map (resized (windows s)) (tile t 0 0 (screen_w s) (screen_h s)))"
proof -
  have dist: "distinct (wins t)" using assms(1) by (simp add: tree_ok_def)
  have pos: "0 \<le> screen_w s" "0 \<le> screen_h s" by (simp_all add: screen_w_def screen_h_def)
  from update_layout_result [OF assms(1,3,4)] obtain s'
    where s': "wm_update_layout s = Some s'" "laid_out t (0, 0, screen_w s, screen_h s) s s'" "tree_ok (Some t) s'" by blast
  let ?T = "tile t 0 0 (screen_w s) (screen_h s)"
  have piece: "(v, area_of (windows s' ! v)) \<in> set ?T" if "v \<in> set (wins t)" for v
    using laid_out_area [OF s'(2) dist assms(2) that] by simp
  have "\<exists>!v. v \<in> set (wins t) \<and> inside (px, py) (area_of (windows s' ! v))"
    if "0 \<le> px" "px < screen_w s" "0 \<le> py" "py < screen_h s" for px py
  proof -
    have "length (filter (\<lambda>z. inside (px, py) (snd z)) ?T) = 1"
    proof -
      have "inside (px, py) (0, 0, screen_w s, screen_h s)" using that by (simp add: inside_def)
      then show ?thesis by (simp add: tile_once [OF pos])
    qed
    from exactly_one [OF this] obtain z where z: "z \<in> set ?T" "inside (px, py) (snd z)"
      and one: "\<And>y. y \<in> set ?T \<Longrightarrow> inside (px, py) (snd y) \<Longrightarrow> y = z" by metis
    obtain v a where va: "z = (v, a)" by (cases z)
    then have v: "(v, a) \<in> set ?T" "inside (px, py) a" using z by simp_all
    have only: "u = v \<and> b = a" if "(u, b) \<in> set ?T" "inside (px, py) b" for u b using one [of "(u, b)"] that va by simp
    have "v \<in> set (wins t)" using imageI [OF v(1), of fst] tile_wins [of t 0 0 "screen_w s" "screen_h s"] by (metis fst_conv list.set_map)
    moreover have "area_of (windows s' ! v) = a"
      using piece [OF calculation] v(1) dist tile_wins [of t 0 0 "screen_w s" "screen_h s"] by (metis eq_key_imp_eq_value)
    moreover have "u = v" if "u \<in> set (wins t)" "inside (px, py) (area_of (windows s' ! u))" for u
      using only [OF piece [OF that(1)] that(2)] by simp
    ultimately show ?thesis using v(2) by blast
  qed
  moreover have "within (area_of (windows s' ! v)) (0, 0, screen_w s, screen_h s)" if "v \<in> set (wins t)" for v
    using tile_within [OF pos piece [OF that]] .
  moreover have "calls s' = calls s @ concat (map (resized (windows s)) ?T)" using s'(2) by (simp add: laid_out_def)
  ultimately show ?thesis using s'(1,3) by blast
qed

definition wm_sized :: wm where
  "wm_sized = wm_two\<lparr>framebuffer := \<lparr>fb_addr = 0, fb_width = 100, fb_height = 50, fb_pitch = 400\<rparr>\<rparr>"

lemma wm_sized_tree: "tree_ok (Some two_tree) wm_sized"
  using wm_two_tree by (simp add: wm_sized_def tree_ok_def pool_def)

theorem wm_update_layout_ok_witness:
  "\<exists>s'. wm_update_layout wm_sized = Some s' \<and> (\<exists>!v. v \<in> {0, 1} \<and> inside (99, 49) (area_of (windows s' ! v)))"
  using wm_update_layout_ok [OF wm_sized_tree]
  by (auto simp: wm_sized_def wm_two_def wm_blank_def two_tree_def screen_w_def screen_h_def)

subsection \<open>Focus\<close>

lemma collect_leaves_rep:
  "rep (nodes s) q t \<Longrightarrow> length ps + length (leaves t) \<le> MAX_WINDOWS \<Longrightarrow>
   collect_leaves (Node (top t)) ps s = Some (ps @ map Node (leaves t))"
proof (induction t arbitrary: q ps)
  case (Leaf i w)
  then show ?case by (subst collect_leaves.simps) (simp add: node_at_Node)
next
  case (Fork i d l r)
  have "collect_leaves (Node (top l)) ps s = Some (ps @ map Node (leaves l))"
    using Fork.prems by (intro Fork.IH(1) [of "Node i"]) simp_all
  moreover have "collect_leaves (Node (top r)) (ps @ map Node (leaves l)) s = Some ((ps @ map Node (leaves l)) @ map Node (leaves r))"
    using Fork.prems by (intro Fork.IH(2) [of "Node i"]) simp_all
  ultimately show ?case using Fork.prems by (subst collect_leaves.simps) (simp add: node_at_Node)
qed

lemma index_of_nth: "distinct xs \<Longrightarrow> k < length xs \<Longrightarrow> index_of (xs ! k) xs = int k"
proof -
  assume xs: "distinct xs" "k < length xs"
  then have "xs ! j \<noteq> xs ! k" if "j < k" for j using that by (simp add: nth_eq_iff_index_eq)
  with xs have "find (\<lambda>i. xs ! i = xs ! k) [0..<length xs] = Some k"
    unfolding find_Some_iff by (intro exI [of _ k]) simp
  then show ?thesis by (simp add: index_of_def)
qed

lemma focus_next_step:
  assumes ok: "tree_ok (Some t) s" and len: "length (wins t) \<le> MAX_WINDOWS" and k: "k < length (leaves t)"
    and focus: "focused_node s = Node (leaves t ! k)"
  shows "wm_focus_next s = Some (s\<lparr>focused_node := Node (leaves t ! (Suc k mod length (leaves t)))\<rparr>)"
proof -
  have t: "rep (nodes s) Null t" "distinct (ids t)" "root s = Node (top t)" using ok by (auto simp: tree_ok_def)
  let ?ps = "map Node (leaves t)"
  have "collect_leaves (root s) [] s = Some ?ps"
    using collect_leaves_rep [OF t(1), of "[]"] t(3) len by (simp add: length_wins)
  moreover have "index_of (focused_node s) ?ps = int k"
    using index_of_nth [of ?ps k] k focus distinct_leaves [OF t(2)] by (simp add: distinct_map inj_on_def)
  moreover have "nat ((int k + 1) mod int (length ?ps)) = Suc k mod length (leaves t)"
  proof -
    have "(int k + 1) mod int (length ?ps) = int (Suc k mod length (leaves t))" by (simp add: zmod_int add.commute)
    then show ?thesis by simp
  qed
  ultimately show ?thesis
    using t(3) k by (simp add: wm_focus_next_def)
qed

text \<open>
  C30. Every press of Alt-Tab moves the focus to the next leaf in the order of the screen, and after
  \<open>n\<close> presses it is \<open>n\<close> leaves further, around the end: every window gets its turn.
\<close>

theorem wm_focus_next_cycles:
  assumes "tree_ok (Some t) s" and "length (wins t) \<le> MAX_WINDOWS" and "k < length (leaves t)" and "focused_node s = Node (leaves t ! k)"
  shows "foldM (\<lambda>_. wm_focus_next) [0..<n] s = Some (s\<lparr>focused_node := Node (leaves t ! ((k + n) mod length (leaves t)))\<rparr>)"
proof (induction n)
  case 0
  then show ?case using assms(3,4) by simp
next
  case (Suc n)
  let ?k = "(k + n) mod length (leaves t)"
  let ?s = "s\<lparr>focused_node := Node (leaves t ! ?k)\<rparr>"
  have k: "?k < length (leaves t)" by simp
  have "tree_ok (Some t) ?s" using assms(1) k pool_cong [of ?s s] by (simp add: tree_ok_def)
  from focus_next_step [OF this assms(2) k] have "wm_focus_next ?s = Some (?s\<lparr>focused_node := Node (leaves t ! (Suc ?k mod length (leaves t)))\<rparr>)" by simp
  then show ?case using Suc by (simp add: foldM_append mod_Suc_eq)
qed

theorem wm_focus_next_cycles_witness:
  "\<exists>s'. foldM (\<lambda>_. wm_focus_next) [0..<3] wm_two = Some s' \<and> focused_node s' = Node 1"
proof -
  have leaves: "leaves two_tree = [0, 1]" "length (wins two_tree) \<le> MAX_WINDOWS" by (simp_all add: two_tree_def MAX_WINDOWS_def)
  have "length (leaves two_tree) = 2" by (simp add: two_tree_def)
  then have "(0 + 3) mod length (leaves two_tree) = 1" "0 < length (leaves two_tree)" by simp_all
  moreover have "focused_node wm_two = Node (leaves two_tree ! 0)" by (simp add: two_tree_def wm_two_def)
  ultimately show ?thesis using wm_focus_next_cycles [OF wm_two_tree leaves(2), of 0 3] by (simp add: leaves(1))
qed

end
