(* ===== verification/WmSafe.thy ===== *)
theory WmSafe
  imports WmLayout
begin

text \<open>
  The window manager never leaves its buffers: an invariant of the state that the start establishes and every
  round of the main loop keeps, whatever the clients draw, whichever keys are pressed and however the system
  answers, as long as the rectangles in the messages are of a sane size.
\<close>

subsection \<open>The invariant\<close>

text \<open>The screen and the back buffer have the same geometry and room for it.\<close>

definition fb_ok :: "wm \<Rightarrow> bool" where
  "fb_ok s \<longleftrightarrow> uint (fb_pitch (framebuffer s)) = screen_pitch_bytes s \<and> 4 * screen_w s \<le> screen_pitch_bytes s \<and>
     screen_pitch_bytes s < 0x80000000 \<and> screen_h s < 0x80000000 \<and> back_buffer_size s = screen_pitch_bytes s * screen_h s \<and>
     int (length (back_buffer s)) = back_buffer_size s \<and> int (length (screen s)) = back_buffer_size s"

definition screen_area :: "wm \<Rightarrow> area" where
  "screen_area s = (0, 0, screen_w s, screen_h s)"

definition dirty_ok :: "dirty_state \<Rightarrow> bool" where
  "dirty_ok d \<longleftrightarrow> - 0x20000000 \<le> min_x d \<and> min_x d \<le> 100000 \<and> - 0x20000000 \<le> min_y d \<and> min_y d \<le> 100000 \<and>
     - 0x40000000 \<le> max_x d \<and> max_x d \<le> 0x40000000 \<and> - 0x40000000 \<le> max_y d \<and> max_y d \<le> 0x40000000"

text \<open>The live windows are those of the tree, and each of them lies on the screen.\<close>

definition wm_ok :: "wtree option \<Rightarrow> wm \<Rightarrow> bool" where
  "wm_ok T s \<longleftrightarrow> tree_ok T s \<and> fb_ok s \<and> length (windows s) = MAX_WINDOWS \<and> length (dirty_map s) = MAX_WINDOWS \<and>
     set (tree_wins T) = {v. v < MAX_WINDOWS \<and> alive (windows s ! v)} \<and>
     (\<forall>v \<in> set (tree_wins T). within (area_of (windows s ! v)) (screen_area s)) \<and>
     (\<forall>d \<in> set (dirty_map s). dirty_ok d)"

text \<open>Only the pixels change.\<close>

definition no_pixels :: "wm \<Rightarrow> wm" where
  "no_pixels s = s\<lparr>screen := [], back_buffer := []\<rparr>"

definition drawn :: "wm \<Rightarrow> wm \<Rightarrow> bool" where
  "drawn s s' \<longleftrightarrow> no_pixels s' = no_pixels s \<and> length (screen s') = length (screen s) \<and> length (back_buffer s') = length (back_buffer s)"

lemma drawn_refl [simp]: "drawn s s"
  by (simp add: drawn_def)

lemma drawn_trans: "drawn a b \<Longrightarrow> drawn b c \<Longrightarrow> drawn a c"
  by (simp add: drawn_def)

lemma drawn_fields:
  assumes "drawn s s'"
  shows "windows s' = windows s" "nodes s' = nodes s" "node_pool_idx s' = node_pool_idx s" "free_stack s' = free_stack s" "root s' = root s"
    "focused_node s' = focused_node s" "next_split_mode s' = next_split_mode s" "dirty_map s' = dirty_map s" "framebuffer s' = framebuffer s"
    "back_buffer_size s' = back_buffer_size s" "screen_pitch_bytes s' = screen_pitch_bytes s" "calls s' = calls s"
    "screen_w s' = screen_w s" "screen_h s' = screen_h s"
  using assms by (cases s; cases s'; simp add: drawn_def no_pixels_def screen_w_def screen_h_def)+

lemma drawn_back: "length p = length (back_buffer s) \<Longrightarrow> drawn s (s\<lparr>back_buffer := p\<rparr>)"
  by (simp add: drawn_def no_pixels_def)

lemma drawn_screen: "length p = length (screen s) \<Longrightarrow> drawn s (s\<lparr>screen := p\<rparr>)"
  by (simp add: drawn_def no_pixels_def)

lemma drawn_fb_ok: "drawn s s' \<Longrightarrow> fb_ok s \<Longrightarrow> fb_ok s'"
  using drawn_fields [of s s'] by (simp add: fb_ok_def drawn_def)

lemma drawn_tree_ok: "drawn s s' \<Longrightarrow> tree_ok T s' = tree_ok T s"
  using drawn_fields [of s s'] by (cases T) (simp_all add: tree_ok_def pool_def)

lemma drawn_wm_ok: "drawn s s' \<Longrightarrow> wm_ok T s \<Longrightarrow> wm_ok T s'"
  using drawn_fields [of s s'] drawn_fb_ok [of s s'] drawn_tree_ok [of s s' T] by (simp add: wm_ok_def screen_area_def)

subsection \<open>Drawing stays inside the buffers\<close>

lemma rows_in_buffer:
  assumes "0 \<le> x" and "x + w \<le> sw" and "4 * sw \<le> sp" and "0 \<le> y" and "y < (sh :: int)" and "0 \<le> w"
  shows "0 \<le> y * sp + x * 4" and "y * sp + x * 4 + w * 4 \<le> sp * sh"
proof -
  have "0 \<le> y * sp" using assms by simp
  then show "0 \<le> y * sp + x * 4" using assms(1) by simp
  have "(y + 1) * sp \<le> sh * sp" using assms by (intro mult_right_mono) simp_all
  then show "y * sp + x * 4 + w * 4 \<le> sp * sh" using assms by (simp add: algebra_simps)
qed

lemma foldM_same_length:
  assumes "\<And>i p. i \<in> set is \<Longrightarrow> length p = n \<Longrightarrow> \<exists>p'. f i p = Some p' \<and> length p' = n" and "length p = n"
  shows "\<exists>p'. foldM f is p = Some p' \<and> length p' = n"
  using foldM_inv [of "is" "\<lambda>p. length p = n" f p] assms by blast

lemma poke_ok: "0 \<le> i \<Longrightarrow> i < int (length p) \<Longrightarrow> \<exists>p'. poke i v p = Some p' \<and> length p' = length p"
  by (simp add: poke_def)

lemma poke32_ok:
  assumes "0 \<le> a" and "a + 4 \<le> int (length p)"
  shows "\<exists>p'. poke32 a v p = Some p' \<and> length p' = length p"
  using assms by (simp add: poke32_def poke_def)

lemma copy_in_ok:
  assumes "0 \<le> dst" and "dst + n \<le> int (length p)"
  shows "\<exists>p'. copy_in mem src dst n p = Some p' \<and> length p' = length p"
  unfolding copy_in_def
proof (rule foldM_same_length)
  fix j q
  assume "j \<in> set [0..n - 1]" and "length (q :: u8 list) = length p"
  then show "\<exists>q'. poke (dst + j) (mem (src + word_of_int j)) q = Some q' \<and> length q' = length p"
    using assms poke_ok [of "dst + j" q] by simp
qed simp

lemma copy_cells_ok:
  assumes "0 \<le> n" "0 \<le> di" "0 \<le> si" "di + n \<le> int (length dst)" "si + n \<le> int (length src)"
  shows "\<exists>p'. copy_cells dst di src si n = Some p' \<and> length p' = length dst"
proof -
  have "nat (di + n) = nat di + nat n" "nat di + nat n \<le> length dst" using assms by linarith+
  moreover have "nat n \<le> length src - nat si" using assms by linarith
  moreover have "nat di \<le> length dst" using assms by linarith
  ultimately show ?thesis using assms by (simp add: copy_cells_def)
qed

lemma uint_of_int_small: "0 \<le> z \<Longrightarrow> z < 2 ^ 64 \<Longrightarrow> uint (word_of_int z :: u64) = z"
  by (simp add: unsigned_of_int take_bit_int_eq_self)

lemma clip_len_inside: "0 \<le> x + w \<Longrightarrow> x + w \<le> uint limit \<Longrightarrow> clip_len x w limit = w"
proof -
  assume b: "0 \<le> x + w" "x + w \<le> uint limit"
  then have "uint (word_of_int (x + w) :: u64) = x + w"
    using uint_lt2p [of limit] by (intro uint_of_int_small) simp_all
  then have "\<not> word_of_int (x + w) > limit" using b by (simp add: word_less_def)
  then show ?thesis by (simp add: clip_len_def)
qed

lemma fb_fill_rect_ok:
  assumes fb: "fb_ok s" and "0 \<le> x" and "0 \<le> y" and "x + w \<le> screen_w s" and "y + h \<le> screen_h s"
  shows "\<exists>s'. fb_fill_rect x y w h c s = Some s' \<and> drawn s s'"
proof (cases "w \<le> 0 \<or> h \<le> 0")
  case False
  let ?P = "screen_pitch_bytes s" and ?n = "length (back_buffer s)"
  have P: "4 * screen_w s \<le> ?P" and n: "int ?n = ?P * screen_h s" using fb by (simp_all add: fb_ok_def)
  have pos: "0 \<le> ?P" using P by (simp add: screen_w_def order_trans [of 0 "4 * uint (fb_width (framebuffer s))"])
  define q where "q = ?P sdiv 4"
  have q: "0 \<le> q" "4 * q \<le> ?P" "screen_w s \<le> q"
    using P pos by (simp_all add: q_def signed_divide_int_def sgn_if) presburger+
  have "clip_len x w (fb_width (framebuffer s)) = w" "clip_len y h (fb_height (framebuffer s)) = h"
    using assms False by (auto intro!: clip_len_inside simp: screen_w_def screen_h_def)
  moreover have "\<exists>p'. foldM (\<lambda>yy. foldM (\<lambda>xx. poke32 (4 * ((y + yy) * q + x + xx)) c) [0..w - 1]) [0..h - 1] (back_buffer s) = Some p' \<and> length p' = ?n"
  proof (intro foldM_same_length poke32_ok)
    fix yy p xx p'
    assume "yy \<in> set [0..h - 1]" "length p = ?n" "xx \<in> set [0..w - 1]" "length (p' :: u8 list) = ?n"
    then have b: "0 \<le> yy" "y + yy < screen_h s" "0 \<le> xx" "x + xx + 1 \<le> screen_w s" using assms by auto
    show "\<exists>p''. poke32 (4 * ((y + yy) * q + x + xx)) c p' = Some p'' \<and> length p'' = ?n"
    proof -
      have "0 \<le> (y + yy) * q" using b(1) assms(3) q(1) by simp
      moreover have "(y + yy + 1) * (4 * q) \<le> screen_h s * ?P" using b q pos assms(3) by (intro mult_mono) auto
      then have "4 * ((y + yy) * q + x + xx) + 4 \<le> int ?n" using b q(3) n by (simp add: algebra_simps)
      ultimately show ?thesis using poke32_ok [of "4 * ((y + yy) * q + x + xx)" p' c] b assms(2) \<open>length p' = ?n\<close> by simp
    qed
  qed simp_all
  ultimately show ?thesis
    using False assms(2,3) by (auto simp: fb_fill_rect_def q_def Let_def intro: drawn_back)
qed (simp add: fb_fill_rect_def)

lemma fb_draw_border_ok:
  assumes fb: "fb_ok s" and a: "within (x, y, w, h) (screen_area s)" and "0 \<le> thick"
  shows "\<exists>s'. fb_draw_border x y w h c thick s = Some s' \<and> drawn s s'"
proof (cases "w < thick * 2 \<or> h < thick * 2")
  case False
  have b: "0 \<le> x" "0 \<le> y" "x + w \<le> screen_w s" "y + h \<le> screen_h s" "thick * 2 \<le> w" "thick * 2 \<le> h"
    using a False by (simp_all add: within_def screen_area_def)
  obtain s1 where s1: "fb_fill_rect x y w thick c s = Some s1" "drawn s s1"
    using fb_fill_rect_ok [OF fb, of x y w thick c] b assms(3) by auto
  obtain s2 where s2: "fb_fill_rect x (y + h - thick) w thick c s1 = Some s2" "drawn s1 s2"
    using fb_fill_rect_ok [OF drawn_fb_ok [OF s1(2) fb], of x "y + h - thick" w thick c] drawn_fields [OF s1(2)] b assms(3) by auto
  obtain s3 where s3: "fb_fill_rect x (y + thick) thick (h - thick * 2) c s2 = Some s3" "drawn s2 s3"
    using fb_fill_rect_ok [OF drawn_fb_ok [OF s2(2) drawn_fb_ok [OF s1(2) fb]], of x "y + thick" thick "h - thick * 2" c]
      drawn_fields [OF drawn_trans [OF s1(2) s2(2)]] b assms(3) by auto
  have d3: "drawn s s3" using s1(2) s2(2) s3(2) by (blast intro: drawn_trans)
  obtain s4 where "fb_fill_rect (x + w - thick) (y + thick) thick (h - thick * 2) c s3 = Some s4" "drawn s3 s4"
    using fb_fill_rect_ok [OF drawn_fb_ok [OF d3 fb], of "x + w - thick" "y + thick" thick "h - thick * 2" c]
      drawn_fields [OF d3] b assms(3) by auto
  with s1(1) s2(1) s3(1) False d3 show ?thesis by (auto simp: fb_draw_border_def intro: drawn_trans)
qed (simp add: fb_draw_border_def)

lemma copy_rows_ok:
  assumes fb: "fb_ok s" and "0 \<le> x" and "0 \<le> y" and "0 \<le> w" and "x + w \<le> screen_w s" and "y + h \<le> screen_h s"
  shows "\<exists>s'. copy_rows mem src stride (y * screen_pitch_bytes s + x * 4) (w * 4) (screen_pitch_bytes s) h s = Some s' \<and> drawn s s'"
proof -
  let ?P = "screen_pitch_bytes s" and ?n = "length (back_buffer s)"
  have "\<exists>p'. foldM (\<lambda>i. copy_in mem (src + word_of_int (i * stride)) (y * ?P + x * 4 + i * ?P) (w * 4)) [0..h - 1] (back_buffer s) = Some p' \<and> length p' = ?n"
  proof (rule foldM_same_length)
    fix i p
    assume "i \<in> set [0..h - 1]" and p: "length (p :: u8 list) = ?n"
    then have "0 \<le> y + i" "y + i < screen_h s" using assms by auto
    from rows_in_buffer [OF assms(2,5) _ this assms(4), of ?P] fb
    have "0 \<le> (y + i) * ?P + x * 4" "(y + i) * ?P + x * 4 + w * 4 \<le> int ?n" by (auto simp: fb_ok_def)
    then show "\<exists>p'. copy_in mem (src + word_of_int (i * stride)) (y * ?P + x * 4 + i * ?P) (w * 4) p = Some p' \<and> length p' = ?n"
      using copy_in_ok [of "y * ?P + x * 4 + i * ?P" "w * 4" p] p by (simp add: algebra_simps)
  qed simp
  then show ?thesis by (auto simp: copy_rows_def intro: drawn_back)
qed

lemma render_leaf_ok:
  assumes fb: "fb_ok s" and a: "within (area_of v) (screen_area s)"
  shows "\<exists>s'. render_leaf os p v s = Some s' \<and> drawn s s'"
proof -
  define c :: u32 where "c = (if p = focused_node s then 0xff585b70 else 0xff313244)"
  obtain s1 where s1: "fb_draw_border (wx v) (wy v) (wwidth v) (wheight v) c 4 s = Some s1" "drawn s s1"
    using fb_draw_border_ok [OF fb, of "wx v" "wy v" "wwidth v" "wheight v" 4 c] a by (auto simp: area_of_def)
  show ?thesis
  proof (cases "wwidth v - 8 > 0 \<and> wheight v - 8 > 0 \<and> buffer_wm_ptr v \<noteq> 0")
    case True
    have "\<exists>s2. copy_rows (os_mem os (calls s1)) (buffer_wm_ptr v) (wwidth v * 4)
         ((wy v + 4) * screen_pitch_bytes s1 + (wx v + 4) * 4) ((wwidth v - 8) * 4) (screen_pitch_bytes s1) (wheight v - 8) s1 = Some s2 \<and> drawn s1 s2"
      using a True drawn_fields [OF s1(2)]
      by (intro copy_rows_ok [OF drawn_fb_ok [OF s1(2) fb]]) (auto simp: area_of_def within_def screen_area_def)
    with s1 True show ?thesis by (auto simp: render_leaf_def c_def [symmetric] Let_def intro: drawn_trans)
  next
    case False
    with s1 show ?thesis by (auto simp: render_leaf_def c_def [symmetric] Let_def)
  qed
qed

lemma render_recursive_ok:
  assumes "rep (nodes s) q t" and "fb_ok s" and "\<forall>v \<in> set (wins t). alive (windows s ! v) \<and> within (area_of (windows s ! v)) (screen_area s)"
  shows "\<exists>s'. render_recursive os (Node (top t)) s = Some s' \<and> drawn s s'"
  using assms
proof (induction t arbitrary: q s)
  case (Leaf i v)
  then show ?case
    using render_leaf_ok [of s "windows s ! v" os "Node i"] by (subst render_recursive.simps) (simp add: node_at_Node)
next
  case (Fork i d l r)
  obtain s1 where s1: "render_recursive os (Node (top l)) s = Some s1" "drawn s s1"
    using Fork.IH(1) [of s "Node i"] Fork.prems by auto
  have "\<exists>s2. render_recursive os (Node (top r)) s1 = Some s2 \<and> drawn s1 s2"
    using Fork.prems drawn_fields [OF s1(2)] drawn_fb_ok [OF s1(2)] by (intro Fork.IH(2) [of s1 "Node i"]) (auto simp: screen_area_def)
  with s1 Fork.prems(1) show ?case
    by (subst render_recursive.simps) (auto simp: node_at_Node intro: drawn_trans)
qed

lemma wm_draw_ok:
  assumes "wm_ok T s"
  shows "\<exists>s'. wm_draw os s = Some s' \<and> drawn s s'"
proof -
  have fb: "fb_ok s" using assms by (simp add: wm_ok_def)
  have size: "0 \<le> back_buffer_size s" using fb unfolding fb_ok_def by (metis of_nat_0_le_iff)
  define b where "b = replicate (nat (back_buffer_size s)) (0x20 :: u8) @ drop (nat (back_buffer_size s)) (back_buffer s)"
  have fill: "fill_cells 0x20 (back_buffer_size s) (back_buffer s) = Some b"
    using fb size by (simp add: fill_cells_def fb_ok_def b_def)
  have "nat (back_buffer_size s) = length (back_buffer s)" using fb unfolding fb_ok_def by linarith
  then have "length b = length (back_buffer s)" by (simp add: b_def)
  then have d: "drawn s (s\<lparr>back_buffer := b\<rparr>)" by (rule drawn_back)
  show ?thesis
  proof (cases T)
    case None
    then have "root s = Null" using assms by (simp add: wm_ok_def tree_ok_def)
    then have "render_recursive os (root s) (s\<lparr>back_buffer := b\<rparr>) = Some (s\<lparr>back_buffer := b\<rparr>)"
      by (subst render_recursive.simps) simp
    with fill d show ?thesis by (simp add: wm_draw_def)
  next
    case (Some t)
    then have "root s = Node (top t)" "rep (nodes s) Null t"
      "\<forall>v \<in> set (wins t). alive (windows s ! v) \<and> within (area_of (windows s ! v)) (screen_area s)"
      using assms by (auto simp: wm_ok_def tree_ok_def tree_wins_def)
    then obtain s' where "render_recursive os (root s) (s\<lparr>back_buffer := b\<rparr>) = Some s'" "drawn (s\<lparr>back_buffer := b\<rparr>) s'"
      using render_recursive_ok [of "s\<lparr>back_buffer := b\<rparr>" Null t os] drawn_fb_ok [OF d fb] by (auto simp: screen_area_def screen_w_def screen_h_def)
    with fill d show ?thesis by (auto simp: wm_draw_def intro: drawn_trans)
  qed
qed

lemma wm_present_ok:
  assumes "fb_ok s"
  shows "\<exists>s'. wm_present s = Some s' \<and> drawn s s'"
proof -
  have "0 \<le> back_buffer_size s" using assms unfolding fb_ok_def by (metis of_nat_0_le_iff)
  then show ?thesis
    using assms copy_cells_ok [of "back_buffer_size s" 0 0 "screen s" "back_buffer s"] by (auto simp: wm_present_def fb_ok_def intro: drawn_screen)
qed

lemma wm_present_rect_ok:
  assumes fb: "fb_ok s" and b: "0 \<le> x" "0 \<le> y" "x + w \<le> screen_w s" "y + h \<le> screen_h s" "0 \<le> w" "0 \<le> h"
  shows "\<exists>s'. wm_present_rect x y w h s = Some s' \<and> drawn s s'"
proof -
  have clip: "clip_len x w (fb_width (framebuffer s)) = w" "clip_len y h (fb_height (framebuffer s)) = h"
    using b by (auto intro!: clip_len_inside simp: screen_w_def screen_h_def)
  show ?thesis
proof (cases "w \<le> 0 \<or> h \<le> 0")
  case False
  let ?P = "screen_pitch_bytes s" and ?n = "length (screen s)"
  have "\<exists>p'. foldM (\<lambda>i p. copy_cells p (y * ?P + x * 4 + i * ?P) (back_buffer s) (y * ?P + x * 4 + i * ?P) (w * 4)) [0..h - 1] (screen s) = Some p' \<and> length p' = ?n"
  proof (rule foldM_same_length)
    fix i p
    assume "i \<in> set [0..h - 1]" and p: "length (p :: u8 list) = ?n"
    then have "0 \<le> y + i" "y + i < screen_h s" using b by auto
    from rows_in_buffer [OF b(1,3) _ this, of ?P] fb False
    have "0 \<le> (y + i) * ?P + x * 4" "(y + i) * ?P + x * 4 + w * 4 \<le> int ?n" by (auto simp: fb_ok_def)
    moreover have "int (length (back_buffer s)) = int ?n" using fb by (simp add: fb_ok_def)
    ultimately show "\<exists>p'. copy_cells p (y * ?P + x * 4 + i * ?P) (back_buffer s) (y * ?P + x * 4 + i * ?P) (w * 4) = Some p' \<and> length p' = ?n"
      using copy_cells_ok [of "w * 4" "y * ?P + x * 4 + i * ?P" "y * ?P + x * 4 + i * ?P" p "back_buffer s"] p False by (simp add: algebra_simps)
  qed simp
  moreover have "uint (fb_pitch (framebuffer s)) = ?P" using fb by (simp add: fb_ok_def)
  ultimately show ?thesis
    using False b(1,2) clip by (auto simp: wm_present_rect_def intro: drawn_screen)
qed (use b clip in \<open>auto simp: wm_present_rect_def\<close>)
qed

text \<open>A client's rectangle is cut to the inside of its window before it is copied.\<close>

definition request_ok :: "int \<Rightarrow> int \<Rightarrow> int \<Rightarrow> int \<Rightarrow> bool" where
  "request_ok x y w h \<longleftrightarrow> - 0x20000000 \<le> x \<and> x \<le> 100000 \<and> - 0x20000000 \<le> y \<and> y \<le> 100000 \<and>
     w \<le> 0x60000000 \<and> h \<le> 0x60000000"

lemma wm_refresh_window_ok:
  assumes fb: "fb_ok s" and req: "request_ok rx ry rw rh"
    and v: "\<And>i. find_window pid s = Some i \<Longrightarrow> within (area_of (windows s ! i)) (screen_area s)"
  shows "\<exists>s'. wm_refresh_window os pid rx ry rw rh s = Some s' \<and> drawn s s'"
proof (cases "find_window pid s")
  case (Some i)
  let ?v = "windows s ! i" and ?P = "screen_pitch_bytes s"
  have a: "0 \<le> wx ?v" "0 \<le> wy ?v" "wx ?v + wwidth ?v \<le> screen_w s" "wy ?v + wheight ?v \<le> screen_h s"
    using v [OF Some] by (simp_all add: area_of_def within_def screen_area_def)
  have lim: "screen_w s < 0x20000000" "screen_h s < 0x80000000" using fb by (auto simp: fb_ok_def)
  show ?thesis
  proof (cases "wwidth ?v \<le> 0 \<or> wheight ?v \<le> 0 \<or> buffer_wm_ptr ?v = 0")
    case False
    define iw ih where in_def: "iw = wwidth ?v - 4 * 2" "ih = wheight ?v - 4 * 2"
    define x w0 where x: "x = (if rw \<le> 0 then 0 else max 0 rx)" "w0 = (if rw \<le> 0 then iw else if rx < 0 then rw + rx else rw)"
    define y h0 where y: "y = (if rh \<le> 0 then 0 else max 0 ry)" "h0 = (if rh \<le> 0 then ih else if ry < 0 then rh + ry else rh)"
    define w h where wh: "w = (if x + w0 > iw then iw - x else w0)" "h = (if y + h0 > ih then ih - y else h0)"
    have fits: "int32 (x + w0) = Some (x + w0)" "int32 (y + h0) = Some (y + h0)"
      "(if x + w0 > iw then int32 (iw - x) else Some w0) = Some w" "(if y + h0 > ih then int32 (ih - y) else Some h0) = Some h"
      using False a lim req by (auto simp: x y wh in_def request_ok_def intro!: int32_Some)
    have run: "wm_refresh_window os pid rx ry rw rh s =
      (if w \<le> 0 \<or> h \<le> 0 then Some s
       else do {
         s \<leftarrow> copy_rows (os_mem os (calls s)) (buffer_wm_ptr ?v + word_of_int (y * wwidth ?v * 4) + word_of_int (x * 4)) (wwidth ?v * 4)
           ((wy ?v + 4 + y) * ?P + (wx ?v + 4 + x) * 4) (w * 4) ?P h s;
         wm_present_rect (wx ?v + 4 + x) (wy ?v + 4 + y) w h s
       })"
    proof -
      have sum: "int32 (rw + rx) = Some (rw + rx)" if "0 < rw" "rx < 0" using that req by (intro int32_Some) (auto simp: request_ok_def)
      have sum': "int32 (rh + ry) = Some (rh + ry)" if "0 < rh" "ry < 0" using that req by (intro int32_Some) (auto simp: request_ok_def)
      have norm: "(if (if rw \<le> 0 then 0 else rx) < 0
             then do { w \<leftarrow> int32 ((if rw \<le> 0 then iw else rw) + (if rw \<le> 0 then 0 else rx)); Some (w, 0) }
             else Some (if rw \<le> 0 then iw else rw, if rw \<le> 0 then 0 else rx)) = Some (w0, x)"
        "(if (if rh \<le> 0 then 0 else ry) < 0
             then do { h \<leftarrow> int32 ((if rh \<le> 0 then ih else rh) + (if rh \<le> 0 then 0 else ry)); Some (h, 0) }
             else Some (if rh \<le> 0 then ih else rh, if rh \<le> 0 then 0 else ry)) = Some (h0, y)"
        using sum sum' by (simp_all add: x y in_def)
      show ?thesis
        unfolding wm_refresh_window_def Some option.case Let_def in_def [symmetric] norm prod.case bind.bind_lunit fits
        using False by simp
    qed
    show ?thesis
    proof (cases "w \<le> 0 \<or> h \<le> 0")
      case True
      then show ?thesis unfolding run by auto
    next
      case pos: False
      have b: "0 \<le> x" "0 \<le> y" "x + w \<le> iw" "y + h \<le> ih" by (auto simp: x y wh)
      then have b': "0 \<le> wx ?v + 4 + x" "0 \<le> wy ?v + 4 + y" "wx ?v + 4 + x + w \<le> screen_w s" "wy ?v + 4 + y + h \<le> screen_h s"
        using a by (auto simp: in_def)
      have "0 \<le> w" using pos by simp
      from copy_rows_ok [OF fb b'(1,2) this b'(3,4)] obtain s1
        where s1: "copy_rows (os_mem os (calls s)) (buffer_wm_ptr ?v + word_of_int (y * wwidth ?v * 4) + word_of_int (x * 4)) (wwidth ?v * 4)
           ((wy ?v + 4 + y) * ?P + (wx ?v + 4 + x) * 4) (w * 4) ?P h s = Some s1" "drawn s s1" by blast
      moreover obtain s2 where "wm_present_rect (wx ?v + 4 + x) (wy ?v + 4 + y) w h s1 = Some s2" "drawn s1 s2"
        using wm_present_rect_ok [OF drawn_fb_ok [OF s1(2) fb], of "wx ?v + 4 + x" "wy ?v + 4 + y" w h] b' pos drawn_fields [OF s1(2)] by auto
      ultimately show ?thesis using pos unfolding run by (auto intro: drawn_trans)
    qed
  qed (use Some in \<open>simp add: wm_refresh_window_def\<close>)
qed (simp add: wm_refresh_window_def)

subsection \<open>The handlers keep the invariant\<close>

lemma tree_ok_cong:
  assumes "nodes s' = nodes s" "root s' = root s" "focused_node s' = focused_node s" "free_stack s' = free_stack s" "node_pool_idx s' = node_pool_idx s"
  shows "tree_ok T s' = tree_ok T s"
  using assms by (cases T) (simp_all add: tree_ok_def pool_def)

lemma wm_ok_call [simp]: "wm_ok T (call c s) = wm_ok T s"
proof -
  have "tree_ok T (call c s) = tree_ok T s" by (rule tree_ok_cong) (simp_all add: call_def)
  then show ?thesis by (simp add: wm_ok_def call_def fb_ok_def screen_area_def screen_w_def screen_h_def)
qed

lemma wm_ok_send [simp]: "wm_ok T (sys_ipc_send_wm p ty a b c s) = wm_ok T s"
  by (simp add: sys_ipc_send_wm_def)

lemma alive_update: "alive x = alive (ws ! u) \<Longrightarrow> alive (ws[u := x] ! v) = alive (ws ! v)"
  by (cases "u < length ws"; cases "u = v") (auto simp: list_update_beyond)

lemma alive_fold_place [simp]: "alive (fold place xs ws ! v) = alive (ws ! v)"
proof (induction xs arbitrary: ws)
  case (Cons p xs)
  then show ?case by (cases p) (simp add: alive_update)
qed simp

lemma relayout_ok:
  assumes tree: "tree_ok T s" and fb: "fb_ok s" and len: "length (windows s) = MAX_WINDOWS" "length (dirty_map s) = MAX_WINDOWS"
    and alive: "set (tree_wins T) = {v. v < MAX_WINDOWS \<and> alive (windows s ! v)}" and dirty: "\<forall>d \<in> set (dirty_map s). dirty_ok d"
  shows "\<exists>s'. wm_update_layout s = Some s' \<and> wm_ok T s'"
proof (cases T)
  case None
  then have "wm_update_layout s = Some s" using tree by (simp add: wm_update_layout_def tree_ok_def)
  with assms None show ?thesis by (simp add: wm_ok_def tree_wins_def)
next
  case (Some t)
  have pos: "0 \<le> screen_w s" "0 \<le> screen_h s" by (simp_all add: screen_w_def screen_h_def)
  have small: "screen_w s < 0x80000000" "screen_h s < 0x80000000" using fb pos by (auto simp: fb_ok_def)
  have dist: "distinct (wins t)" using tree Some by (simp add: tree_ok_def)
  from update_layout_result [OF tree [unfolded Some] small] obtain s'
    where s': "wm_update_layout s = Some s'" "laid_out t (0, 0, screen_w s, screen_h s) s s'" "tree_ok (Some t) s'" by blast
  have same: "no_layout s' = no_layout s" and ws: "windows s' = fold place (tile t 0 0 (screen_w s) (screen_h s)) (windows s)"
    using s'(2) by (simp_all add: laid_out_def)
  note f = no_layout_fields [OF same]
  have sub: "set (wins t) \<subseteq> {..<length (windows s)}" using alive len Some by (auto simp: tree_wins_def)
  have "within (area_of (windows s' ! v)) (screen_area s')" if "v \<in> set (wins t)" for v
    using tile_within [OF pos, of v _ t 0 0] laid_out_area [OF s'(2) dist sub that] f(5)
    by (simp add: screen_area_def screen_w_def screen_h_def)
  moreover have "fb_ok s'" using fb f by (simp add: fb_ok_def screen_w_def screen_h_def)
  ultimately have "wm_ok T s'"
    using s'(3) Some len alive dirty f(10) by (simp add: wm_ok_def ws tree_wins_def)
  with s'(1) show ?thesis by blast
qed

lemma no_tree_fields:
  assumes "no_tree s' = no_tree s"
  shows "windows s' = windows s" "framebuffer s' = framebuffer s" "screen s' = screen s" "back_buffer s' = back_buffer s"
    "back_buffer_size s' = back_buffer_size s" "screen_pitch_bytes s' = screen_pitch_bytes s" "dirty_map s' = dirty_map s"
  using assms by (cases s; cases s'; simp add: no_tree_def)+

lemma find_some: "find P [0..<n] = Some i \<Longrightarrow> i < n \<and> P i"
  by (auto simp: find_Some_iff)

lemma wm_handle_new_client_ok:
  assumes ok: "wm_ok T s"
  shows "\<exists>s' T'. wm_handle_new_client os pid s = Some s' \<and> wm_ok T' s'"
proof (cases "find (\<lambda>i. \<not> alive (windows s ! i)) [0..<MAX_WINDOWS]")
  case (Some slot)
  from find_some [OF Some] have slot: "slot < MAX_WINDOWS" "\<not> alive (windows s ! slot)" by auto
  define bs where "bs = fb_width (framebuffer s) * fb_height (framebuffer s) * 4"
  obtain lp cp where share: "os_share os (calls s) pid bs = (lp, cp)" by (cases "os_share os (calls s) pid bs")
  define s1 where "s1 = call (ShareMem pid bs) s"
  have ok1: "wm_ok T s1" using ok by (simp add: s1_def)
  show ?thesis
  proof (cases "lp = 0")
    case True
    with Some share ok1 show ?thesis by (auto simp: wm_handle_new_client_def bs_def [symmetric] s1_def [symmetric])
  next
    case False
    define s2 where "s2 = set_window slot (\<lambda>v. v\<lparr>win_id := slot, win_pid := pid, alive := True, buffer_wm_ptr := lp, buffer_client_ptr := cp\<rparr>) s1"
    have tree2: "tree_ok T s2" using ok1 by (cases T) (simp_all add: wm_ok_def s2_def set_window_def tree_ok_def pool_def)
    have wins: "set (tree_wins T) = {v. v < MAX_WINDOWS \<and> alive (windows s ! v)}" and dist: "distinct (tree_wins T)"
      using ok by (cases T; simp add: wm_ok_def tree_ok_def tree_wins_def)+
    have "set (tree_wins T) \<subseteq> {..<MAX_WINDOWS} - {slot}" using wins slot(2) by auto
    then have "card (set (tree_wins T)) \<le> card ({..<MAX_WINDOWS} - {slot})" by (intro card_mono) simp_all
    then have room: "length (tree_wins T) < MAX_WINDOWS" using dist slot(1) by (simp add: distinct_card)
    have new: "slot \<notin> set (tree_wins T)" using wins slot by simp
    from insert_result [OF tree2 room new] obtain t s3 us vs where s3: "wm_insert_window_into_tree slot s2 = Some s3" "tree_ok (Some t) s3"
        "no_tree s3 = no_tree s2" and t: "tree_wins T = us @ vs" "wins t = us @ slot # vs" by blast
    note f = no_tree_fields [OF s3(3)]
    have "\<exists>s4. wm_update_layout s3 = Some s4 \<and> wm_ok (Some t) s4"
    proof (rule relayout_ok [OF s3(2)])
      show "fb_ok s3" using ok f by (simp add: wm_ok_def fb_ok_def s2_def s1_def set_window_def call_def screen_w_def screen_h_def)
      have "set (wins t) = insert slot (set (tree_wins T))" using t by auto
      then show "set (tree_wins (Some t)) = {v. v < MAX_WINDOWS \<and> alive (windows s3 ! v)}"
        using wins slot(1) ok f(1) by (auto simp: tree_wins_def s2_def s1_def set_window_def call_def nth_list_update wm_ok_def)
    qed (use ok f in \<open>simp_all add: wm_ok_def s2_def s1_def set_window_def call_def\<close>)
    then obtain s4 where s4: "wm_update_layout s3 = Some s4" "wm_ok (Some t) s4" by blast
    with s3(1) Some share False show ?thesis
      by (auto simp: wm_handle_new_client_def bs_def [symmetric] s1_def [symmetric] s2_def [symmetric] Let_def)
  qed
qed (use ok in \<open>auto simp: wm_handle_new_client_def\<close>)

lemma win_of_in: "win_of f t = Some w \<Longrightarrow> w \<in> set (wins t)"
  by (induction t) (auto split: if_splits option.splits)

lemma win_of_leaf: "f \<in> set (leaves t) \<Longrightarrow> \<exists>w \<in> set (wins t). win_of f t = Some w"
  by (induction t) (auto split: option.split dest: win_of_in)

lemma rep_win_of: "rep ns q t \<Longrightarrow> distinct (ids t) \<Longrightarrow> f \<in> set (leaves t) \<Longrightarrow> win (ns ! f) = win_of f t"
proof (induction t arbitrary: q)
  case (Fork i d l r)
  have reps: "rep ns (Node i) l" "rep ns (Node i) r" "distinct (ids l)" "distinct (ids r)" using Fork.prems by simp_all
  show ?case
  proof (cases "f \<in> set (leaves l)")
    case True
    with Fork.IH(1) [OF reps(1,3) True] win_of_leaf [OF True] show ?thesis by auto
  next
    case False
    then have f: "f \<in> set (leaves r)" using Fork.prems(3) by simp
    then have "f \<notin> set (ids l)" using Fork.prems(2) leaf_in_ids [OF f] by auto
    with Fork.IH(2) [OF reps(2,4) f] show ?thesis by simp
  qed
qed auto

text \<open>The focus is on a live window, or there is none.\<close>

lemma focused_window_ok:
  assumes "wm_ok T s"
  shows "T = None \<and> focused_window s = Some None \<or>
     (\<exists>t f w. T = Some t \<and> focused_node s = Node f \<and> f \<in> set (leaves t) \<and> win_of f t = Some w \<and> w \<in> set (wins t) \<and> focused_window s = Some (Some w))"
proof (cases T)
  case (Some t)
  then obtain f where f: "focused_node s = Node f" "f \<in> set (leaves t)" and rep: "rep (nodes s) Null t" and dist: "distinct (ids t)"
    using assms by (auto simp: wm_ok_def tree_ok_def)
  obtain w where "win_of f t = Some w" "w \<in> set (wins t)" using win_of_leaf [OF f(2)] by blast
  with rep_win_of [OF rep dist f(2)] f Some rep_bound [OF rep leaf_in_ids [OF f(2)]] show ?thesis
    by (simp add: focused_window_def node_at_Node)
qed (use assms in \<open>simp add: wm_ok_def tree_ok_def focused_window_def\<close>)

lemma release_buffer_other:
  "framebuffer (release_buffer m s) = framebuffer s" "screen (release_buffer m s) = screen s" "back_buffer (release_buffer m s) = back_buffer s"
  "back_buffer_size (release_buffer m s) = back_buffer_size s" "screen_pitch_bytes (release_buffer m s) = screen_pitch_bytes s"
  "dirty_map (release_buffer m s) = dirty_map s" "length (windows (release_buffer m s)) = length (windows s)"
  "alive (windows (release_buffer m s) ! v) = alive (windows s ! v)"
  by (simp_all add: release_buffer_def set_window_def call_def Let_def alive_update split: option.split)

lemma wm_kill_focused_ok:
  assumes ok: "wm_ok T s"
  shows "\<exists>s' T'. wm_kill_focused os s = Some s' \<and> wm_ok T' s'"
  using focused_window_ok [OF ok]
proof
  assume "T = None \<and> focused_window s = Some None"
  with ok show ?thesis by (auto simp: wm_kill_focused_def)
next
  assume "\<exists>t f w. T = Some t \<and> focused_node s = Node f \<and> f \<in> set (leaves t) \<and> win_of f t = Some w \<and> w \<in> set (wins t) \<and> focused_window s = Some (Some w)"
  then obtain t f w where T: "T = Some t" and focus: "focused_node s = Node f" and f: "f \<in> set (leaves t)" and w: "win_of f t = Some w" "w \<in> set (wins t)"
    and fw: "focused_window s = Some (Some w)" by blast
  define s1 where "s1 = sys_ipc_send_wm (win_pid (windows s ! w)) MSG_QUIT_REQUEST 0 0 0 s"
  define s2 where "s2 = set_window w (\<lambda>v. v\<lparr>alive := False\<rparr>) s1"
  have same: "nodes s2 = nodes s" "root s2 = root s" "focused_node s2 = focused_node s" "free_stack s2 = free_stack s" "node_pool_idx s2 = node_pool_idx s"
    by (simp_all add: s2_def s1_def set_window_def sys_ipc_send_wm_def call_def)
  have "tree_ok (Some t) s2" using ok T tree_ok_cong [OF same] by (simp add: wm_ok_def)
  from delete_result [OF this f] obtain s3 us vs where s3: "wm_delete_node (Node f) s2 = Some s3" "tree_ok (delete_tree f t) s3"
      "no_tree s3 = no_tree (release_buffer (nodes s2 ! f) s2)" and us: "wins t = us @ w # vs" "tree_wins (delete_tree f t) = us @ vs"
    using w(1) by auto
  note g = no_tree_fields [OF s3(3)]
  have dist: "distinct (wins t)" and alive: "set (wins t) = {v. v < MAX_WINDOWS \<and> alive (windows s ! v)}" and len: "length (windows s) = MAX_WINDOWS"
    using ok T by (auto simp: wm_ok_def tree_ok_def tree_wins_def)
  have "\<exists>s4. wm_update_layout s3 = Some s4 \<and> wm_ok (delete_tree f t) s4"
  proof (rule relayout_ok [OF s3(2)])
    show "fb_ok s3" using ok g by (simp add: wm_ok_def fb_ok_def release_buffer_other s2_def s1_def set_window_def sys_ipc_send_wm_def call_def screen_w_def screen_h_def)
    have "set (us @ vs) = set (wins t) - {w}" using us dist by auto
    moreover have "alive (windows s3 ! v) = (v \<noteq> w \<and> alive (windows s ! v))" if "v < MAX_WINDOWS" for v
      using that w(2) alive len g(1) by (auto simp: release_buffer_other s2_def s1_def set_window_def sys_ipc_send_wm_def call_def nth_list_update)
    ultimately show "set (tree_wins (delete_tree f t)) = {v. v < MAX_WINDOWS \<and> alive (windows s3 ! v)}"
      using alive us(2) by auto
  qed (use ok g in \<open>simp_all add: wm_ok_def release_buffer_other s2_def s1_def set_window_def sys_ipc_send_wm_def call_def\<close>)
  then obtain s4 where s4: "wm_update_layout s3 = Some s4" "wm_ok (delete_tree f t) s4" by blast
  obtain s5 where s5: "wm_draw os s4 = Some s5" "drawn s4 s5" using wm_draw_ok [OF s4(2)] by blast
  have ok5: "wm_ok (delete_tree f t) s5" using drawn_wm_ok [OF s5(2) s4(2)] .
  then obtain s6 where s6: "wm_present s5 = Some s6" "drawn s5 s6" using wm_present_ok [of s5] unfolding wm_ok_def by blast
  have "wm_kill_focused os s = Some s6"
    using fw s3(1) s4(1) s5(1) s6(1) focus same(3) by (simp add: wm_kill_focused_def s1_def [symmetric] s2_def [symmetric] Let_def)
  with drawn_wm_ok [OF s6(2) ok5] show ?thesis by blast
qed

lemma redraw_ok:
  assumes "wm_ok T s"
  shows "\<exists>s'. wm_draw os s \<bind> wm_present = Some s' \<and> wm_ok T s'"
proof -
  obtain s1 where s1: "wm_draw os s = Some s1" "drawn s s1" using wm_draw_ok [OF assms] by blast
  have ok1: "wm_ok T s1" using drawn_wm_ok [OF s1(2) assms] .
  then obtain s2 where "wm_present s1 = Some s2" "drawn s1 s2" using wm_present_ok [of s1] unfolding wm_ok_def by blast
  with s1 drawn_wm_ok [OF _ ok1] show ?thesis by auto
qed

lemma wm_focus_next_ok:
  assumes ok: "wm_ok T s"
  shows "\<exists>s'. wm_focus_next s = Some s' \<and> wm_ok T s'"
proof (cases T)
  case None
  with ok show ?thesis by (simp add: wm_focus_next_def wm_ok_def tree_ok_def)
next
  case (Some t)
  have tree: "tree_ok (Some t) s" using ok Some by (simp add: wm_ok_def)
  then obtain f where "focused_node s = Node f" "f \<in> set (leaves t)" by (auto simp: tree_ok_def)
  then obtain k where k: "k < length (leaves t)" "focused_node s = Node (leaves t ! k)" by (auto simp: in_set_conv_nth)
  have "distinct (wins t)" "set (wins t) \<subseteq> {..<MAX_WINDOWS}" using ok Some by (auto simp: wm_ok_def tree_ok_def tree_wins_def)
  then have "length (wins t) \<le> MAX_WINDOWS" using card_mono [of "{..<MAX_WINDOWS}" "set (wins t)"] by (simp add: distinct_card)
  from focus_next_step [OF tree this k] have run: "wm_focus_next s = Some (s\<lparr>focused_node := Node (leaves t ! (Suc k mod length (leaves t)))\<rparr>)" .
  have "Suc k mod length (leaves t) < length (leaves t)" using k(1) by simp
  then have "tree_ok (Some t) (s\<lparr>focused_node := Node (leaves t ! (Suc k mod length (leaves t)))\<rparr>)"
    using tree by (simp add: tree_ok_def pool_def)
  with run ok Some show ?thesis by (simp add: wm_ok_def fb_ok_def screen_area_def screen_w_def screen_h_def)
qed

lemma wm_handle_input_ok:
  assumes ok: "wm_ok T s"
  shows "\<exists>s' T'. wm_handle_input os key s = Some s' \<and> wm_ok T' s'"
proof (cases "key AND 0x0400 = 0")
  case True
  from focused_window_ok [OF ok] obtain f where "focused_window s = Some f" by blast
  with True ok show ?thesis by (auto simp: wm_handle_input_def split: option.split)
next
  case False
  have split: "wm_ok T (s\<lparr>next_split_mode := d\<rparr>)" for d
    using ok tree_ok_cong [of "s\<lparr>next_split_mode := d\<rparr>" s T] by (simp add: wm_ok_def fb_ok_def screen_area_def screen_w_def screen_h_def)
  obtain s1 s2 where f: "wm_focus_next s = Some s1" "wm_draw os s1 \<bind> wm_present = Some s2" "wm_ok T s2"
    using wm_focus_next_ok [OF ok] redraw_ok by blast
  obtain s3 s4 T' where k: "wm_kill_focused os s = Some s3" "wm_draw os s3 \<bind> wm_present = Some s4" "wm_ok T' s4"
    using wm_kill_focused_ok [OF ok] redraw_ok by blast
  show ?thesis
    using False ok split f k by (auto simp: wm_handle_input_def Let_def)
qed

subsection \<open>Rounds of the main loop\<close>

text \<open>The rectangle of a message, and a sane one.\<close>

definition rect_int :: "u64 \<Rightarrow> int" where
  "rect_int d = sint (ucast d :: u32)"

definition message_ok :: "wm_message \<Rightarrow> bool" where
  "message_ok m \<longleftrightarrow> (\<forall>i \<in> {rect_int (drop_bit 32 (msg_data1 m)), rect_int (msg_data1 m AND 0xFFFFFFFF),
     rect_int (drop_bit 32 (msg_data2 m)), rect_int (msg_data2 m AND 0xFFFFFFFF)}. - 0x20000000 \<le> i \<and> i \<le> 0x20000000)"

lemma dirty_ok_clean [simp]: "dirty_ok clean"
  by (simp add: dirty_ok_def clean_def)

lemma grow_ok:
  assumes "dirty_ok d" and "\<forall>i \<in> {x, y, w, h}. - 0x20000000 \<le> i \<and> i \<le> 0x20000000"
  shows "\<exists>d'. grow x y w h d = Some d' \<and> dirty_ok d'"
proof -
  have "int32 (x + w) = Some (x + w)" "int32 (y + h) = Some (y + h)" using assms(2) by (auto intro!: int32_Some)
  then show ?thesis using assms by (simp add: grow_def dirty_ok_def Let_def)
qed

lemma wm_ok_dirty:
  assumes "wm_ok T s" and "length ds = MAX_WINDOWS" and "\<forall>d \<in> set ds. dirty_ok d"
  shows "wm_ok T (s\<lparr>dirty_map := ds\<rparr>)"
  using assms tree_ok_cong [of "s\<lparr>dirty_map := ds\<rparr>" s T] by (simp add: wm_ok_def fb_ok_def screen_area_def screen_w_def screen_h_def)

lemma set_update_dirty: "\<forall>d \<in> set ds. dirty_ok d \<Longrightarrow> dirty_ok e \<Longrightarrow> \<forall>d \<in> set (ds[i := e]). dirty_ok d"
  using set_update_subset_insert [of ds i e] by blast

lemma handle_update_ok:
  assumes ok: "wm_ok T s" and m: "message_ok m"
  shows "\<exists>s'. handle_update m s = Some s' \<and> wm_ok T s'"
proof (cases "find_window (from_pid m) s")
  case (Some i)
  then have i: "i < MAX_WINDOWS" using find_some by (auto simp: find_window_def)
  have len: "length (dirty_map s) = MAX_WINDOWS" and all: "\<forall>d \<in> set (dirty_map s). dirty_ok d" using ok by (auto simp: wm_ok_def)
  then have "dirty_ok (dirty_map s ! i)" using i by simp
  from grow_ok [OF this m [unfolded message_ok_def]] obtain d where
    d: "grow (rect_int (drop_bit 32 (msg_data1 m))) (rect_int (msg_data1 m AND 0xFFFFFFFF)) (rect_int (drop_bit 32 (msg_data2 m)))
       (rect_int (msg_data2 m AND 0xFFFFFFFF)) (dirty_map s ! i) = Some d" "dirty_ok d" by blast
  have "wm_ok T (s\<lparr>dirty_map := (dirty_map s)[i := d]\<rparr>)" by (rule wm_ok_dirty [OF ok _ set_update_dirty [OF all d(2)]]) (simp add: len)
  with Some ok d(1) show ?thesis by (simp add: handle_update_def mark_dirty_def rect_int_def)
qed (use ok in \<open>simp add: handle_update_def\<close>)

lemma handle_message_ok:
  assumes ok: "wm_ok T s" and m: "message_ok m"
  shows "\<exists>s' T'. handle_message os m s = Some s' \<and> wm_ok T' s'"
proof -
  obtain s1 s2 T' where "wm_handle_new_client os (from_pid m) s = Some s1" "wm_draw os s1 \<bind> wm_present = Some s2" "wm_ok T' s2"
    using wm_handle_new_client_ok [OF ok] redraw_ok by blast
  moreover obtain s3 where "handle_update m s = Some s3" "wm_ok T s3" using handle_update_ok [OF ok m] by blast
  ultimately show ?thesis using ok by (auto simp: handle_message_def)
qed

lemma refresh_dirty_ok:
  assumes ok: "wm_ok T s" and i: "i < MAX_WINDOWS"
  shows "\<exists>s'. refresh_dirty os i s = Some s' \<and> wm_ok T s'"
proof (cases "is_dirty (dirty_map s ! i) \<and> alive (windows s ! i)")
  case True
  let ?d = "dirty_map s ! i"
  have len: "length (dirty_map s) = MAX_WINDOWS" and all: "\<forall>d \<in> set (dirty_map s). dirty_ok d" and fb: "fb_ok s" using ok by (auto simp: wm_ok_def)
  then have d: "dirty_ok ?d" using i by simp
  then have fits: "int32 (max_x ?d - min_x ?d) = Some (max_x ?d - min_x ?d)" "int32 (max_y ?d - min_y ?d) = Some (max_y ?d - min_y ?d)"
    and req: "request_ok (min_x ?d) (min_y ?d) (max_x ?d - min_x ?d) (max_y ?d - min_y ?d)"
    by (auto simp: dirty_ok_def request_ok_def intro!: int32_Some)
  have "within (area_of (windows s ! j)) (screen_area s)" if "find_window (win_pid (windows s ! i)) s = Some j" for j
    using ok find_some [OF that [unfolded find_window_def]] by (auto simp: wm_ok_def)
  from wm_refresh_window_ok [OF fb req this] obtain s1
    where s1: "wm_refresh_window os (win_pid (windows s ! i)) (min_x ?d) (min_y ?d) (max_x ?d - min_x ?d) (max_y ?d - min_y ?d) s = Some s1" "drawn s s1"
    by blast
  have "wm_ok T (reset_dirty i s1)"
    unfolding reset_dirty_def using drawn_fields(8) [OF s1(2)] len all
    by (intro wm_ok_dirty [OF drawn_wm_ok [OF s1(2) ok]] set_update_dirty) simp_all
  with True fits s1 show ?thesis by (simp add: refresh_dirty_def)
qed (use ok in \<open>auto simp: refresh_dirty_def\<close>)

lemma wm_round_result:
  assumes ok: "wm_ok T s" and msgs: "\<forall>m \<in> set msgs. message_ok m"
  shows "\<exists>s' T'. wm_round os msgs key s = Some s' \<and> wm_ok T' s'"
proof -
  have "\<exists>s1. foldM (handle_message os) msgs s = Some s1 \<and> (\<exists>T. wm_ok T s1)"
    using ok msgs handle_message_ok by (intro foldM_inv [where P = "\<lambda>s. \<exists>T. wm_ok T s"]) blast+
  then obtain s1 T1 where s1: "foldM (handle_message os) msgs s = Some s1" "wm_ok T1 s1" by blast
  obtain s2 T2 where s2: "(if key > 0 then wm_handle_input os key s1 else Some s1) = Some s2" "wm_ok T2 s2"
    using wm_handle_input_ok [OF s1(2), of os key] s1(2) by (cases "key > 0") (simp, blast, auto)
  have "\<exists>s3. foldM (refresh_dirty os) [0..<MAX_WINDOWS] s2 = Some s3 \<and> wm_ok T2 s3"
    using s2(2) refresh_dirty_ok by (intro foldM_inv [where P = "wm_ok T2"]) auto
  with s1(1) s2(1) show ?thesis by (auto simp: wm_round_def)
qed

text \<open>The state that the loader hands to the program, and the rounds that follow its start.\<close>

definition wm_loaded :: "wm \<Rightarrow> bool" where
  "wm_loaded s \<longleftrightarrow> tree_ok None s \<and> length (windows s) = MAX_WINDOWS \<and> length (dirty_map s) = MAX_WINDOWS \<and> (\<forall>v \<in> set (windows s). \<not> alive v)"

definition screen_ok :: "fb_info \<Rightarrow> u8 list \<Rightarrow> bool" where
  "screen_ok f px \<longleftrightarrow> 4 * uint (fb_width f) \<le> uint (fb_pitch f) \<and> uint (fb_height f) < 0x80000000 \<and> uint (fb_pitch f) < 0x80000000 \<and>
     uint (fb_pitch f) * uint (fb_height f) < 0x80000000 \<and> int (length px) = uint (fb_pitch f) * uint (fb_height f)"

inductive wm_reachable :: "wm \<Rightarrow> bool" where
  start: "wm_loaded s \<Longrightarrow> screen_ok f px \<Longrightarrow> int (length b) = uint (fb_pitch f) * uint (fb_height f) \<Longrightarrow>
     wm_start f px (\<lambda>_. Some b) s = Some s' \<Longrightarrow> wm_reachable s'"
| round: "wm_reachable s \<Longrightarrow> \<forall>m \<in> set msgs. message_ok m \<Longrightarrow> wm_round os msgs key s = Some s' \<Longrightarrow> wm_reachable s'"

lemma reset_dirty_fold:
  "n \<le> length (dirty_map s) \<Longrightarrow> fold reset_dirty [0..<n] s = s\<lparr>dirty_map := replicate n clean @ drop n (dirty_map s)\<rparr>"
proof (induction n)
  case (Suc n)
  then have "(replicate n clean @ drop n (dirty_map s))[n := clean] = replicate (Suc n) clean @ drop (Suc n) (dirty_map s)"
    by (simp add: list_update_append Cons_nth_drop_Suc [symmetric] replicate_append_same [symmetric])
  with Suc show ?case by (simp add: reset_dirty_def)
qed simp

lemma wm_start_result:
  assumes s: "wm_loaded s" and f: "screen_ok f px" and b: "int (length b) = uint (fb_pitch f) * uint (fb_height f)"
  shows "\<exists>s'. wm_start f px (\<lambda>_. Some b) s = Some s' \<and> wm_ok None s'"
proof -
  let ?P = "uint (fb_pitch f)" and ?W = "uint (fb_width f)" and ?H = "uint (fb_height f)"
  have lim: "4 * ?W \<le> ?P" "?H < 0x80000000" "?P < 0x80000000" "?P * ?H < 0x80000000" "int (length px) = ?P * ?H" using f by (auto simp: screen_ok_def)
  have "?P * ?H < 2 ^ LENGTH(64)" using lim(4) by simp
  then have prod: "uint (fb_pitch f * fb_height f) = ?P * ?H" by (rule uint_mult_lem [THEN iffD1])
  have W: "?W < 0x80000000" using lim(1,3) uint_ge_0 [of "fb_width f"] by linarith
  have ints: "sint (ucast (fb_pitch f) :: u32) = ?P" "sint (ucast (fb_pitch f * fb_height f) :: u32) = ?P * ?H"
    "sint (ucast (fb_width f) :: u32) = ?W" "sint (ucast (fb_height f) :: u32) = ?H"
    using lim prod W by (simp_all add: as_int_small)
  define s1 where "s1 = s\<lparr>framebuffer := f, screen := px, screen_pitch_bytes := ?P, back_buffer_size := ?P * ?H, back_buffer := b,
    dirty_map := replicate MAX_WINDOWS clean\<rparr>"
  have reset: "fold reset_dirty [0..<MAX_WINDOWS] (s\<lparr>framebuffer := f, screen := px, screen_pitch_bytes := ?P, back_buffer_size := ?P * ?H,
    back_buffer := b\<rparr>) = s1"
    using s by (subst reset_dirty_fold) (simp_all add: wm_loaded_def s1_def)
  have "tree_ok None s1" using s tree_ok_cong [of s1 s None] by (simp add: wm_loaded_def s1_def)
  then have ok1: "wm_ok None s1"
    using s lim b by (auto simp: wm_ok_def wm_loaded_def s1_def fb_ok_def screen_w_def screen_h_def tree_wins_def)
  then have fb: "fb_ok s1" by (simp add: wm_ok_def)
  obtain s2 where s2: "fb_fill_rect 0 0 ?W ?H 0xFF202020 s1 = Some s2" "drawn s1 s2"
    using fb_fill_rect_ok [OF fb, of 0 0 ?W ?H] by (auto simp: s1_def screen_w_def screen_h_def)
  obtain s3 where s3: "wm_present_rect 0 0 ?W ?H s2 = Some s3" "drawn s2 s3"
    using wm_present_rect_ok [OF drawn_fb_ok [OF s2(2) fb], of 0 0 ?W ?H] drawn_fields(13,14) [OF s2(2)] by (auto simp: s1_def screen_w_def screen_h_def)
  have "wm_start f px (\<lambda>_. Some b) s = Some s3"
    using s2(1) s3(1) by (simp add: wm_start_def ints reset)
  with drawn_wm_ok [OF drawn_trans [OF s2(2) s3(2)] ok1] show ?thesis by blast
qed

lemma wm_reachable_inv: "wm_reachable s \<Longrightarrow> \<exists>T. wm_ok T s"
proof (induction rule: wm_reachable.induct)
  case (start s f px b s')
  with wm_start_result show ?case by fastforce
next
  case (round s msgs os key s')
  then obtain T where "wm_ok T s" by blast
  from wm_round_result [OF this round.hyps(2), of os key] round.hyps(3) show ?case by auto
qed

text \<open>
  C4. From the start on the window manager never leaves its buffers, its node pool or its arrays and never follows a
  null or a stale pointer: in every reachable state every round returns, for all keys, all answers of the system, all contents of the
  clients' buffers, and all messages whose rectangles have coordinates and sizes of at most \<open>2\<^sup>2\<^sup>9\<close> in magnitude. In every reachable state the tree of
  windows is intact, its leaves are exactly the live windows and each of them lies on the screen.
\<close>

theorem wm_rounds_safe:
  assumes "wm_reachable s" and "\<forall>m \<in> set msgs. message_ok m"
  shows "(\<exists>T. wm_ok T s) \<and> (\<exists>s'. wm_round os msgs key s = Some s' \<and> wm_reachable s')"
proof -
  obtain T where T: "wm_ok T s" using wm_reachable_inv [OF assms(1)] by blast
  with wm_round_result [OF T assms(2)] wm_reachable.round [OF assms] show ?thesis by blast
qed

definition tiny_screen :: fb_info where
  "tiny_screen = \<lparr>fb_addr = 0, fb_width = 2, fb_height = 1, fb_pitch = 8\<rparr>"

lemma wm_blank_starts: "\<exists>s. wm_start tiny_screen (replicate 8 0) (\<lambda>_. Some (replicate 8 0)) wm_blank = Some s \<and> wm_reachable s"
proof -
  have "wm_loaded wm_blank" using wm_blank_tree by (simp add: wm_loaded_def wm_blank_def MAX_WINDOWS_def)
  moreover have "screen_ok tiny_screen (replicate 8 0)" by (simp add: screen_ok_def tiny_screen_def)
  moreover have "int (length (replicate 8 (0 :: u8))) = uint (fb_pitch tiny_screen) * uint (fb_height tiny_screen)" by (simp add: tiny_screen_def)
  ultimately show ?thesis using wm_start_result wm_reachable.start by blast
qed

theorem wm_rounds_safe_witness:
  "\<exists>s s'. wm_reachable s \<and> wm_round \<lparr>os_share = \<lambda>_ _ _. (0x1000, 0x2000), os_mem = \<lambda>_ _. 0\<rparr>
     [\<lparr>from_pid = 7, msg_type = 100, msg_data1 = 0, msg_data2 = 0, msg_data3 = 0\<rparr>] 0x0409 s = Some s' \<and> wm_reachable s'"
proof -
  obtain s where "wm_reachable s" using wm_blank_starts by blast
  moreover have "\<forall>m \<in> set [\<lparr>from_pid = 7, msg_type = 100, msg_data1 = 0, msg_data2 = 0, msg_data3 = 0\<rparr>]. message_ok m"
    by (simp add: message_ok_def rect_int_def)
  ultimately show ?thesis using wm_rounds_safe by blast
qed

text \<open>
  C39. The bound on the messages is needed: a client that reports a rectangle at the largest coordinate makes the window
  manager add beyond the range of an \<^verbatim>\<open>int\<close>, whatever the state of its window.
\<close>

theorem wm_update_overflow:
  assumes "find_window (from_pid m) s = Some i" and "rect_int (drop_bit 32 (msg_data1 m)) = 0x7FFFFFFF"
    and "0 < rect_int (drop_bit 32 (msg_data2 m))" and "0 < rect_int (msg_data2 m AND 0xFFFFFFFF)"
  shows "handle_update m s = None"
proof -
  have "int32 (rect_int (drop_bit 32 (msg_data1 m)) + rect_int (drop_bit 32 (msg_data2 m))) = None"
    using assms(2,3) by (simp add: int32_def)
  then show ?thesis using assms by (simp add: handle_update_def mark_dirty_def grow_def rect_int_def Let_def)
qed

theorem wm_update_overflow_witness:
  "handle_update \<lparr>from_pid = 0, msg_type = 300, msg_data1 = 0x7FFFFFFF00000000, msg_data2 = 0x100000001, msg_data3 = 0\<rparr>
     (wm_blank\<lparr>windows := (windows wm_blank)[0 := (windows wm_blank ! 0)\<lparr>alive := True\<rparr>]\<rparr>) = None"
proof (rule wm_update_overflow)
  show "find_window (from_pid \<lparr>from_pid = 0, msg_type = 300, msg_data1 = 0x7FFFFFFF00000000, msg_data2 = 0x100000001, msg_data3 = 0\<rparr>)
     (wm_blank\<lparr>windows := (windows wm_blank)[0 := (windows wm_blank ! 0)\<lparr>alive := True\<rparr>]\<rparr>) = Some 0"
    by (simp add: find_window_def wm_blank_def MAX_WINDOWS_def upt_conv_Cons)
qed (simp_all add: rect_int_def)

end
