(* ===== verification/UserCalls.thy ===== *)
theory UserCalls
  imports Syscall
begin

unbundle bit_operations_syntax

text \<open>
  The system call stubs of the user programs, \<^verbatim>\<open>src/userspace/openidp.h\<close>. A stub loads the registers that
  its inline assembly names and traps into the dispatcher; a C \<^verbatim>\<open>int\<close> argument is widened with its sign, a
  result of type \<^verbatim>\<open>int\<close> is the low half of \<^verbatim>\<open>RAX\<close>. The registers that a stub does not name hold what the
  compiler left in them: \<open>mregs\<close>.
\<close>

subsection \<open>The trap\<close>

record ('f, 'd, 'p) machine =
  mfs :: "('f, 'd) fatfs"
  mports :: "'p ports"
  mpad :: "u8 list"
  mregs :: registers

type_synonym 'p system = "kernel \<times> 'p"

definition int80 :: "('f, 'd, 'p) machine \<Rightarrow> registers \<Rightarrow> 'p system \<Rightarrow> (outcome \<times> 'p system) option" where
  "int80 M regs s = syscall_dispatcher (mfs M) (mports M) (mpad M) regs s"

text \<open>A call that comes back to its caller, with the value of \<^verbatim>\<open>RAX\<close>; as an \<^verbatim>\<open>int\<close>.\<close>

definition call :: "('f, 'd, 'p) machine \<Rightarrow> registers \<Rightarrow> 'p system \<Rightarrow> (u64 \<times> 'p system) option" where
  "call M regs s = (case int80 M regs s of Some (Return r, s) \<Rightarrow> Some (r, s) | _ \<Rightarrow> None)"

definition int_call :: "('f, 'd, 'p) machine \<Rightarrow> registers \<Rightarrow> 'p system \<Rightarrow> (int \<times> 'p system) option" where
  "int_call M regs s = map_option (\<lambda>(r, s). (sint (ucast r :: u32), s)) (call M regs s)"

subsection \<open>The stubs\<close>

definition sys_write_u :: "('f, 'd, 'p) machine \<Rightarrow> u32 \<Rightarrow> u64 \<Rightarrow> 'p system \<Rightarrow> (int \<times> 'p system) option" where
  "sys_write_u M fd buf = int_call M ((mregs M)\<lparr>reg_rax := 0, reg_rdi := scast fd, reg_rsi := buf\<rparr>)"

definition sys_exit_u :: "('f, 'd, 'p) machine \<Rightarrow> u32 \<Rightarrow> 'p system \<Rightarrow> (outcome \<times> 'p system) option" where
  "sys_exit_u M code = int80 M ((mregs M)\<lparr>reg_rax := 1, reg_rdi := scast code\<rparr>)"

definition sys_read_key_u :: "('f, 'd, 'p) machine \<Rightarrow> 'p system \<Rightarrow> (u16 \<times> 'p system) option" where
  "sys_read_key_u M s = map_option (\<lambda>(r, s). (ucast r, s)) (call M ((mregs M)\<lparr>reg_rax := 2\<rparr>) s)"

definition sys_exec_u :: "('f, 'd, 'p) machine \<Rightarrow> u64 \<Rightarrow> u32 \<Rightarrow> u64 \<Rightarrow> 'p system \<Rightarrow> (int \<times> 'p system) option" where
  "sys_exec_u M path argc argv =
     int_call M ((mregs M)\<lparr>reg_rax := 7, reg_rdi := path, reg_rsi := scast argc, reg_rdx := argv\<rparr>)"

definition sys_get_framebuffer_info_u :: "('f, 'd, 'p) machine \<Rightarrow> u64 \<Rightarrow> 'p system \<Rightarrow> (int \<times> 'p system) option" where
  "sys_get_framebuffer_info_u M out = int_call M ((mregs M)\<lparr>reg_rax := 8, reg_rdi := out\<rparr>)"

definition sbrk_u :: "('f, 'd, 'p) machine \<Rightarrow> u64 \<Rightarrow> 'p system \<Rightarrow> (u64 \<times> 'p system) option" where
  "sbrk_u M increment = call M ((mregs M)\<lparr>reg_rax := 9, reg_rdi := increment\<rparr>)"

definition sys_ipc_send_u :: "('f, 'd, 'p) machine \<Rightarrow> u32 \<Rightarrow> u32 \<Rightarrow> u64 \<Rightarrow> u64 \<Rightarrow> u64 \<Rightarrow> 'p system \<Rightarrow> (int \<times> 'p system) option" where
  "sys_ipc_send_u M dest_pid ty d1 d2 d3 =
     int_call M ((mregs M)\<lparr>reg_rax := 10, reg_rdi := scast dest_pid, reg_rsi := scast ty, reg_rdx := d1, reg_rcx := d2, reg_r8 := d3\<rparr>)"

definition sys_ipc_recv_u :: "('f, 'd, 'p) machine \<Rightarrow> u64 \<Rightarrow> 'p system \<Rightarrow> (int \<times> 'p system) option" where
  "sys_ipc_recv_u M msg_out = int_call M ((mregs M)\<lparr>reg_rax := 11, reg_rdi := msg_out\<rparr>)"

definition sys_share_mem_u :: "('f, 'd, 'p) machine \<Rightarrow> u32 \<Rightarrow> u64 \<Rightarrow> u64 \<Rightarrow> 'p system \<Rightarrow> (u64 \<times> 'p system) option" where
  "sys_share_mem_u M target_pid sz target_vaddr_out =
     call M ((mregs M)\<lparr>reg_rax := 12, reg_rdi := scast target_pid, reg_rsi := sz, reg_rdx := target_vaddr_out\<rparr>)"

definition sys_file_read_u :: "('f, 'd, 'p) machine \<Rightarrow> u64 \<Rightarrow> u64 \<Rightarrow> u64 \<Rightarrow> 'p system \<Rightarrow> (int \<times> 'p system) option" where
  "sys_file_read_u M path buf max_len =
     int_call M ((mregs M)\<lparr>reg_rax := 13, reg_rdi := path, reg_rsi := buf, reg_rdx := max_len\<rparr>)"

definition sys_unmap_u :: "('f, 'd, 'p) machine \<Rightarrow> u64 \<Rightarrow> u64 \<Rightarrow> 'p system \<Rightarrow> (int \<times> 'p system) option" where
  "sys_unmap_u M addr sz = int_call M ((mregs M)\<lparr>reg_rax := 14, reg_rdi := addr, reg_rsi := sz\<rparr>)"

text \<open>\<^verbatim>\<open>sys_stat\<close> has no \<^verbatim>\<open>return\<close> statement: its value is undefined and only the effect is modelled.\<close>

definition sys_stat_u :: "('f, 'd, 'p) machine \<Rightarrow> u64 \<Rightarrow> u64 \<Rightarrow> 'p system \<Rightarrow> 'p system option" where
  "sys_stat_u M path out s = map_option snd (call M ((mregs M)\<lparr>reg_rax := 15, reg_rdi := path, reg_rsi := out\<rparr>) s)"

definition sys_dir_read_u :: "('f, 'd, 'p) machine \<Rightarrow> u64 \<Rightarrow> u64 \<Rightarrow> u64 \<Rightarrow> 'p system \<Rightarrow> (int \<times> 'p system) option" where
  "sys_dir_read_u M path index out =
     int_call M ((mregs M)\<lparr>reg_rax := 16, reg_rdi := path, reg_rsi := index, reg_rdx := out\<rparr>)"

subsection \<open>The stubs reach the kernel's operations\<close>

lemma ucast_scast_32 [simp]: "(ucast (scast (w :: u32) :: u64) :: u32) = w"
  by (rule bit_word_eqI) (auto simp: bit_simps)

lemma ucast_int_32 [simp]: "(ucast (word_of_int r :: u64) :: u32) = word_of_int r"
  by (rule bit_word_eqI) (auto simp: bit_simps)

lemma sbrk_u_kernel: "sbrk_u M inc (k, d) = map_option (\<lambda>(p, k). (p, k, d)) (sys_sbrk inc k)"
  by (cases "sys_sbrk inc k") (auto simp: sbrk_u_def call_def int80_def syscall_dispatcher_def Let_def)

lemma sys_ipc_send_u_kernel:
  "sys_ipc_send_u M dest ty d1 d2 d3 (k, d) =
     map_option (\<lambda>(r, k). (sint (word_of_int r :: u32), k, d)) (sys_ipc_send dest ty d1 d2 d3 k)"
  by (cases "sys_ipc_send dest ty d1 d2 d3 k")
     (auto simp: sys_ipc_send_u_def int_call_def call_def int80_def syscall_dispatcher_def Let_def)

lemma sys_ipc_recv_u_kernel:
  "sys_ipc_recv_u M out (k, d) =
     (case sys_ipc_recv k of
        (r, None, k) \<Rightarrow> Some (sint (word_of_int r :: u32), k, d)
      | (r, Some m, k) \<Rightarrow> map_option (\<lambda>k. (sint (word_of_int r :: u32), k, d)) (user_store out (message_bytes m) k))"
  by (auto simp: sys_ipc_recv_u_def int_call_def call_def int80_def syscall_dispatcher_def Let_def
      split: option.split prod.split Option.bind_split)

text \<open>
  The stub of \<^verbatim>\<open>SYS_WRITE\<close> does not load \<^verbatim>\<open>RDX\<close>, which the dispatcher returns as the number of bytes written: the
  result is whatever the register held.
\<close>

lemma sys_write_u_result:
  assumes "sys_write_u M fd buf s = Some (r, s')"
  shows "r = sint (ucast (reg_rdx (mregs M)) :: u32)"
  using assms
  by (cases s) (auto simp: sys_write_u_def int_call_def call_def int80_def syscall_dispatcher_def split: Option.bind_splits)

subsection \<open>Messages between programs\<close>

text \<open>The fields of a \<^verbatim>\<open>message_t\<close> as the program reads them.\<close>

definition message_of :: "u8 list \<Rightarrow> message" where
  "message_of bs = \<lparr>sender_pid = ucast (le_val (take 4 bs)), mtype = ucast (le_val (take 4 (drop 4 bs))),
     data1 = le_val (take 8 (drop 8 bs)), data2 = le_val (take 8 (drop 16 bs)), data3 = le_val (take 8 (drop 24 bs))\<rparr>"

lemma ucast_take_32: "ucast (take_bit 32 (ucast (w :: u32) :: u64)) = w"
  by (rule bit_word_eqI) (auto simp: bit_simps)

lemma message_of_bytes: "message_of (message_bytes m) = m"
  by (simp add: message_of_def message_bytes_def le_val_bytes ucast_take_32 take_bit_word_eq_self)

lemma length_message_bytes [simp]: "length (message_bytes m) = 32"
  by (simp add: message_bytes_def)

lemma user_load_page:
  assumes "mmu_page (user_root k) a (kvm k) = Some p" and "unat a mod 4096 + n \<le> 4096"
  shows "user_load n a k = Some (load_bytes (dram k) (p + (a AND 0xFFF) + limine_hhdm (pmm (kvm k))) n)"
  using assms
proof (induction n arbitrary: a)
  case (Suc n)
  let ?d = "p + (a AND 0xFFF) + limine_hhdm (pmm (kvm k))"
  have b: "user_byte (user_root k) a k = Some (dram k ?d)" using Suc.prems(1) by (simp add: user_byte_def)
  have cons: "load_bytes (dram k) ?d (Suc n) = dram k ?d # load_bytes (dram k) (?d + 1) n"
    by (rule nth_equalityI) (auto simp: nth_Cons' add.commute split: nat.split)
  show ?case
  proof (cases n)
    case 0
    with b show ?thesis by (simp add: load_bytes_def)
  next
    case (Suc m)
    with Suc.prems(2) have off: "unat a mod 4096 < 4095" "unat a mod 4096 + 1 + n \<le> 4096" by simp_all
    note nx = next_in_page [OF Suc.prems(1) off(1)]
    from Suc.IH [OF nx(1)] nx(2) off(2)
    have "user_load n (a + 1) k = Some (load_bytes (dram k) (p + ((a + 1) AND 0xFFF) + limine_hhdm (pmm (kvm k))) n)" by simp
    then show ?thesis using b cons nx(3) by (simp add: algebra_simps)
  qed
qed (simp add: load_bytes_def)

text \<open>
  C25. A message between two programs arrives as it was sent, through both stubs: when the receiver's queue is empty,
  \<^verbatim>\<open>sys_ipc_send\<close> returns \<open>0\<close>, and when the receiver runs later and asks, \<^verbatim>\<open>sys_ipc_recv\<close> returns \<open>0\<close> and the
  structure at its address has the sender's number, the type and the three values.
\<close>

theorem message_delivered:
  assumes ring: "task_ring k ts" and wf: "\<forall>t \<in> set ts. ipc_wf (tasks k t)"
    and to: "find (\<lambda>t. pid (tasks k t) = scast dest) ts = Some t" and empty: "ipc_items (tasks k t) = []"
  shows "\<exists>k'. sys_ipc_send_u M dest ty d1 d2 d3 (k, d) = Some (0, (k', d))
     \<and> (\<forall>k2 p e out. tasks k2 = tasks k' \<longrightarrow> current_task k2 = t \<longrightarrow> mmu_page (user_root k2) out (kvm k2) = Some p
          \<longrightarrow> unat out mod 4096 + 32 \<le> 4096
          \<longrightarrow> (\<exists>k3 bs. sys_ipc_recv_u M' out (k2, e) = Some (0, (k3, e)) \<and> user_load 32 out k3 = Some bs
                \<and> message_of bs = \<lparr>sender_pid = ucast (pid (tasks k (current_task k))), mtype = ty,
                     data1 = d1, data2 = d2, data3 = d3\<rparr> \<and> ipc_items (tasks k3 t) = []))"
proof -
  let ?m = "\<lparr>sender_pid = ucast (pid (tasks k (current_task k))), mtype = ty, data1 = d1, data2 = d2, data3 = d3\<rparr>"
  let ?k = "upd_task t (queue_put ?m) k"
  have t: "t \<in> set ts" using to by (auto simp: find_Some_iff)
  have w: "ipc_wf (tasks k t)" using wf t by blast
  then have c: "msg_count (tasks k t) = 0" 
    using empty length_ring_items [of "msgs (tasks k t)" "nat (msg_head (tasks k t))" "nat (msg_count (tasks k t))"]
    by (simp add: ipc_items_def ipc_wf_def)
  note put = queue_put_items [OF w, of ?m, unfolded c empty, simplified]
  have sent: "sys_ipc_send_u M dest ty d1 d2 d3 (k, d) = Some (0, (?k, d))"
    using to c by (simp add: sys_ipc_send_u_kernel ipc_send_cases [OF ring])
  have recv: "\<exists>k3 bs. sys_ipc_recv_u M' out (k2, e) = Some (0, (k3, e)) \<and> user_load 32 out k3 = Some bs
      \<and> message_of bs = ?m \<and> ipc_items (tasks k3 t) = []"
    if k2: "tasks k2 = tasks ?k" "current_task k2 = t" and p: "mmu_page (user_root k2) out (kvm k2) = Some p"
      and fit: "unat out mod 4096 + 32 \<le> 4096" for k2 p e out
  proof -
    have q: "tasks k2 t = queue_put ?m (tasks k t)" by (simp add: k2(1) upd_task_def)
    have ne: "msg_count (tasks k2 t) \<noteq> 0" using c by (simp add: q queue_put_def)
    have it: "ipc_wf (tasks k2 t)" "ipc_items (tasks k2 t) = [?m]" using put by (simp_all add: q)
    note dr = queue_drop_items [OF it(1) ne]
    let ?k2 = "upd_task t queue_drop k2"
    have r: "sys_ipc_recv k2 = (0, Some ?m, ?k2)"
      using ne dr it(2) by (simp add: sys_ipc_recv_def k2(2) Let_def)
    have root: "user_root ?k2 = user_root k2" "kvm ?k2 = kvm k2" by (simp_all add: user_root_def upd_task_def kvm_def)
    let ?a = "p + (out AND 0xFFF) + limine_hhdm (pmm (kvm k2))"
    have st: "user_store out (message_bytes ?m) ?k2 = Some (?k2\<lparr>dram := paste ?a (message_bytes ?m) (dram ?k2)\<rparr>)"
      using user_store_page [of ?k2 out p "message_bytes ?m"] p fit root by simp
    let ?k3 = "?k2\<lparr>dram := paste ?a (message_bytes ?m) (dram ?k2)\<rparr>"
    have "user_load 32 out ?k3 = Some (load_bytes (dram ?k3) ?a 32)"
      using user_load_page [of ?k3 out p 32] p fit root by simp
    also have "load_bytes (dram ?k3) ?a 32 = message_bytes ?m" using load_paste [of "message_bytes ?m" ?a] by simp
    finally have "user_load 32 out ?k3 = Some (message_bytes ?m)" .
    moreover have "ipc_items (tasks ?k3 t) = []" using dr it(2) by (simp add: upd_task_def)
    ultimately show ?thesis using r st by (simp add: sys_ipc_recv_u_kernel message_of_bytes)
  qed
  show ?thesis using sent recv by blast
qed

definition machine_example :: "(nat, nat, u8 list \<times> bool) machine" where
  "machine_example = \<lparr>mfs = one_file [65] [], mports = uart_example, mpad = [], mregs = regs_example\<rparr>"

theorem message_delivered_witness:
  "\<exists>k'. sys_ipc_send_u machine_example 1 3 4 5 6 (mapped_kernel, ([], False)) = Some (0, (k', ([], False)))
     \<and> (\<exists>k3 bs. sys_ipc_recv_u machine_example 0 (mapped_kernel\<lparr>tasks := tasks k', current_task := 0x200\<rparr>, ([], False))
            = Some (0, (k3, ([], False)))
          \<and> user_load 32 0 k3 = Some bs
          \<and> message_of bs = \<lparr>sender_pid = 0, mtype = 3, data1 = 4, data2 = 5, data3 = 6\<rparr>)"
proof -
  have ts: "tasks mapped_kernel = tasks kernel_example" "task_head mapped_kernel = task_head kernel_example"
    "current_task mapped_kernel = current_task kernel_example" by (simp_all add: mapped_kernel_def)
  have ring: "task_ring mapped_kernel [0x100, 0x200]" using kernel_example_ring by (simp add: task_ring_def ts)
  have wf: "\<forall>t \<in> set [0x100, 0x200]. ipc_wf (tasks mapped_kernel t)"
    unfolding ts by (simp add: kernel_example_def task_example_def ipc_wf_def)
  have to: "find (\<lambda>t. pid (tasks mapped_kernel t) = scast (1 :: u32)) [0x100, 0x200] = Some 0x200"
    "ipc_items (tasks mapped_kernel 0x200) = []" "pid (tasks mapped_kernel (current_task mapped_kernel)) = 0"
    unfolding ts by (simp_all add: kernel_example_def task_example_def ipc_items_def)
  let ?k2 = "\<lambda>k'. mapped_kernel\<lparr>tasks := tasks k', current_task := 0x200\<rparr>"
  have pg: "mmu_page (user_root (?k2 k')) 0 (kvm (?k2 k')) = Some 0" for k'
    using mapped_kernel_page by (simp add: user_root_def kvm_def)
  from message_delivered [OF ring wf to(1,2), of machine_example 3 4 5 6 "([], False)" machine_example, unfolded to(3)]
  obtain k' where sent: "sys_ipc_send_u machine_example 1 3 4 5 6 (mapped_kernel, ([], False)) = Some (0, (k', ([], False)))"
    and recv: "\<forall>k2 p e out. tasks k2 = tasks k' \<longrightarrow> current_task k2 = 0x200 \<longrightarrow> mmu_page (user_root k2) out (kvm k2) = Some p
          \<longrightarrow> unat out mod 4096 + 32 \<le> 4096
          \<longrightarrow> (\<exists>k3 bs. sys_ipc_recv_u machine_example out (k2, e) = Some (0, (k3, e)) \<and> user_load 32 out k3 = Some bs
                \<and> message_of bs = \<lparr>sender_pid = ucast (0 :: u64), mtype = 3, data1 = 4, data2 = 5, data3 = 6\<rparr> \<and> ipc_items (tasks k3 0x200) = [])"
    by blast
  have "\<exists>k3 bs. sys_ipc_recv_u machine_example 0 (?k2 k', ([], False)) = Some (0, (k3, ([], False)))
      \<and> user_load 32 0 k3 = Some bs \<and> message_of bs = \<lparr>sender_pid = ucast (0 :: u64), mtype = 3, data1 = 4, data2 = 5, data3 = 6\<rparr>"
    using recv [rule_format, of "?k2 k'", OF _ _ pg] by simp blast
  with sent show ?thesis by auto
qed

end
