(* ===== verification/Uheap.thy ===== *)
theory Uheap
  imports UserCalls
begin

unbundle bit_operations_syntax

text \<open>
  The heap of the user programs, \<^verbatim>\<open>src/userspace/libc/heap.c\<close>: a first-fit allocator over the program
  break. The block list and its operations are those of \<^verbatim>\<open>HeapBlocks\<close>. What the allocator relies on is
  the interface \<open>user_break\<close>; the system call \<^verbatim>\<open>sbrk\<close> provides it, from the stub down to the page tables.
\<close>

subsection \<open>The allocator\<close>

definition USER_HEAP_MAGIC :: u64 where "USER_HEAP_MAGIC = 0xCAFEBABE"

text \<open>\<open>sys\<close> is the state of the system that \<^verbatim>\<open>sbrk\<close> works on.\<close>

record 'k uheap =
  uhead :: u64
  ublocks :: blocks
  sys :: 'k

type_synonym 'k sbrk = "u64 \<Rightarrow> 'k \<Rightarrow> (u64 \<times> 'k) option"

text \<open>
  The search of \<^verbatim>\<open>malloc\<close> returns the block that fits, or \<^verbatim>\<open>NULL\<close>, and the last block that it saw. It asks for the break
  before every block and stops at the break or at a block without the magic number.
\<close>

partial_function (option) malloc_search :: "'k sbrk \<Rightarrow> u64 \<Rightarrow> u64 \<Rightarrow> u64 \<Rightarrow> 'k uheap \<Rightarrow> (u64 \<times> u64 \<times> 'k uheap) option" where
  "malloc_search sbrk cur last_seen sz s =
     (if cur = 0 then Some (0, last_seen, s)
      else do {
        (brk, k) \<leftarrow> sbrk 0 (sys s);
        let s = s\<lparr>sys := k\<rparr>;
        if \<not> cur < brk then Some (0, last_seen, s)
        else if magic (ublocks s cur) \<noteq> USER_HEAP_MAGIC then Some (0, last_seen, s)
        else if bfree (ublocks s cur) \<and> bsize (ublocks s cur) \<ge> sz then Some (cur, last_seen, s)
        else malloc_search sbrk (bnext (ublocks s cur)) cur sz s
      })"

text \<open>The end of \<^verbatim>\<open>malloc\<close>: a new block at the break, linked behind the last one.\<close>

definition malloc_extend :: "'k sbrk \<Rightarrow> u64 \<Rightarrow> u64 \<Rightarrow> 'k uheap \<Rightarrow> (u64 \<times> 'k uheap) option" where
  "malloc_extend sbrk last_seen sz s =
     do {
       (block, k) \<leftarrow> sbrk (sz + 40) (sys s);
       let s = s\<lparr>sys := k\<rparr>;
       if block = - 1 then Some (0, s)
       else do {
         let s = s\<lparr>ublocks := (ublocks s)(block := \<lparr>magic = USER_HEAP_MAGIC, bsize = sz, bfree = False, bnext = 0, bprev = last_seen\<rparr>)\<rparr>;
         let s = (if last_seen \<noteq> 0 then s\<lparr>ublocks := (ublocks s)(last_seen := (ublocks s last_seen)\<lparr>bnext := block\<rparr>)\<rparr>
                  else s\<lparr>uhead := block\<rparr>);
         Some (block + 40, s)
       }
     }"

definition malloc :: "'k sbrk \<Rightarrow> u64 \<Rightarrow> 'k uheap \<Rightarrow> (u64 \<times> 'k uheap) option" where
  "malloc sbrk sz s =
     (if sz = 0 then Some (0, s)
      else do {
        let sz = (sz + 15) AND NOT 15;
        s \<leftarrow> (if uhead s = 0 then do { (b, k) \<leftarrow> sbrk 0 (sys s); Some (s\<lparr>uhead := b, sys := k\<rparr>) } else Some s);
        (cur, last_seen, s) \<leftarrow> malloc_search sbrk (uhead s) 0 sz s;
        if cur \<noteq> 0
        then Some (cur + 40, s\<lparr>ublocks := take_block USER_HEAP_MAGIC cur sz (ublocks s)\<rparr>)
        else malloc_extend sbrk last_seen sz s
      })"

definition free_u :: "u64 \<Rightarrow> 'k uheap \<Rightarrow> 'k uheap option" where
  "free_u ptr s =
     (if ptr = 0 then Some s
      else let block = ptr - 40 in
        if magic (ublocks s block) \<noteq> USER_HEAP_MAGIC then Some s
        else map_option (\<lambda>h. s\<lparr>ublocks := h\<rparr>) (release_block block (ublocks s)))"

subsection \<open>The interface of the program break\<close>

text \<open>
  \<open>brk_of\<close> is the break, \<open>ready n\<close> promises that it can grow by \<open>n\<close> bytes, inside the lower half of the address
  space.
\<close>

locale user_break =
  fixes sbrk :: "u64 \<Rightarrow> 'k \<Rightarrow> (u64 \<times> 'k) option"
    and brk_of :: "'k \<Rightarrow> u64"
    and ready :: "u64 \<Rightarrow> 'k \<Rightarrow> bool"
  assumes ask: "sbrk 0 k = Some (brk_of k, k)"
    and extend: "ready n k \<Longrightarrow> \<exists>k'. sbrk n k = Some (brk_of k, k') \<and> brk_of k' = brk_of k + n"
    and bound: "ready n k \<Longrightarrow> 0 < unat (brk_of k) \<and> unat (brk_of k) + unat n < 2 ^ 47"
begin

text \<open>The heap fills memory up to the break.\<close>

definition uheap_ok :: "u64 list \<Rightarrow> 'k uheap \<Rightarrow> bool" where
  "uheap_ok as s \<longleftrightarrow> chain USER_HEAP_MAGIC (ublocks s) 0 as 0 (unat (brk_of (sys s))) \<and> no_adjacent_free (ublocks s) as \<and>
     (uhead s = next_of as 0 \<or> as = [] \<and> uhead s = brk_of (sys s))"

lemma search_chain:
  assumes "chain USER_HEAP_MAGIC (ublocks s) p as 0 (unat (brk_of (sys s)))"
  shows "malloc_search sbrk (next_of as 0) p sz s =
    Some (next_of (filter (\<lambda>a. bfree (ublocks s a) \<and> sz \<le> bsize (ublocks s a)) as) 0,
      last_of p (takeWhile (\<lambda>a. \<not> (bfree (ublocks s a) \<and> sz \<le> bsize (ublocks s a))) as), s)"
  using assms
proof (induction as arbitrary: p)
  case Nil
  then show ?case by (subst malloc_search.simps) simp
next
  case (Cons a as)
  have "unat a < unat (brk_of (sys s))" using chain_bounds [OF Cons.prems, of a] by simp
  then have "a < brk_of (sys s)" by (simp add: word_less_nat_alt)
  with Cons show ?case by (subst malloc_search.simps) (simp add: ask)
qed

lemma uheap_okD:
  assumes "uheap_ok as s"
  shows "chain USER_HEAP_MAGIC (ublocks s) 0 as 0 (unat (brk_of (sys s)))" and "no_adjacent_free (ublocks s) as"
    and "as \<noteq> [] \<Longrightarrow> uhead s = next_of as 0 \<and> uhead s \<noteq> 0"
    and "heap_ok USER_HEAP_MAGIC (ublocks s) as (next_of as 0) (unat (brk_of (sys s)))"
proof -
  have "unat (brk_of (sys s)) < 2 ^ LENGTH(64)" by (rule unsigned_less)
  then have b: "unat (brk_of (sys s)) \<le> 2 ^ 64" by simp
  with assms show "chain USER_HEAP_MAGIC (ublocks s) 0 as 0 (unat (brk_of (sys s)))" "no_adjacent_free (ublocks s) as"
    "heap_ok USER_HEAP_MAGIC (ublocks s) as (next_of as 0) (unat (brk_of (sys s)))"
    by (auto simp: uheap_ok_def heap_ok_def)
  assume ne: "as \<noteq> []"
  with assms show "uhead s = next_of as 0 \<and> uhead s \<noteq> 0" by (cases as) (auto simp: uheap_ok_def)
qed

text \<open>The search from any of the two values that the head can have.\<close>

lemma search_head:
  assumes ok: "uheap_ok as s" and hd: "hd' = (if uhead s = 0 then brk_of (sys s) else uhead s)"
  shows "malloc_search sbrk hd' 0 sz (s\<lparr>uhead := hd'\<rparr>) =
    Some (next_of (filter (\<lambda>a. bfree (ublocks s a) \<and> sz \<le> bsize (ublocks s a)) as) 0,
      last_of 0 (takeWhile (\<lambda>a. \<not> (bfree (ublocks s a) \<and> sz \<le> bsize (ublocks s a))) as), s\<lparr>uhead := hd'\<rparr>)"
proof (cases "as = []")
  case True
  then have "hd' = brk_of (sys s)" using ok hd by (auto simp: uheap_ok_def split: if_splits)
  with True show ?thesis by (subst malloc_search.simps) (simp add: ask)
next
  case False
  from uheap_okD(3) [OF ok this] hd have "hd' = next_of as 0" by auto
  then show ?thesis using search_chain [of "s\<lparr>uhead := hd'\<rparr>" 0 as sz] uheap_okD(1) [OF ok] by simp
qed

lemma extend_contract:
  assumes ok: "uheap_ok as s" and room: "ready (sz + 40) (sys s)" and fits: "unat sz + 40 < 2 ^ 64"
    and hd: "as \<noteq> [] \<Longrightarrow> hd' = next_of as 0"
  shows "\<exists>s'. malloc_extend sbrk (last_of 0 as) sz (s\<lparr>uhead := hd'\<rparr>) = Some (brk_of (sys s) + 40, s') \<and>
     uheap_ok (as @ [brk_of (sys s)]) s' \<and> brk_of (sys s) \<notin> set as \<and>
     live (ublocks s') (as @ [brk_of (sys s)]) = insert (brk_of (sys s), sz) (live (ublocks s) as) \<and>
     brk_of (sys s') = brk_of (sys s) + (sz + 40)"
    (is "\<exists>s'. ?run = Some (?b + 40, s') \<and> _")
proof -
  obtain k' where k: "sbrk (sz + 40) (sys s) = Some (?b, k')" "brk_of k' = ?b + (sz + 40)"
    using extend [OF room] by auto
  have b0: "?b \<noteq> 0" and n: "unat (sz + 40) = unat sz + 40" using bound [OF room] fits
    by (auto simp: unat_word_ariths unat_eq_0)
  have b1: "?b \<noteq> - 1" using bound [OF room] by (auto simp: unsigned_minus_1_eq_mask mask_eq_exp_minus_1)
  have e: "unat (brk_of k') = unat ?b + 40 + unat sz"
    using bound [OF room] n k(2) by (simp add: unat_word_ariths)
  let ?nb = "\<lparr>magic = USER_HEAP_MAGIC, bsize = sz, bfree = False, bnext = 0, bprev = last_of 0 as\<rparr>"
  let ?h = "if as = [] then (ublocks s)(?b := ?nb)
     else ((ublocks s)(?b := ?nb))(last as := (ublocks s (last as))\<lparr>bnext := ?b\<rparr>)"
  note c = uheap_okD(1) [OF ok]
  note app = append_block_chain [OF c refl b0, of ?nb sz False, OF refl]
  have last: "as \<noteq> [] \<Longrightarrow> last as \<noteq> 0 \<and> last as \<in> set as \<and> last as \<noteq> ?b"
    using chain_nonzero [OF c, of "last as"] app(1) last_in_set [of as] by metis
  have run: "?run = Some (?b + 40, \<lparr>uhead = (if as = [] then ?b else hd'), ublocks = ?h, sys = k'\<rparr>)"
    using last b1 by (auto simp: malloc_extend_def Let_def k last_of_def)
  define h where "h = ?h"
  have same: "bfree (h a) = bfree (ublocks s a)" "bsize (h a) = bsize (ublocks s a)" if "a \<in> set as" for a
  proof -
    have "a \<noteq> ?b" using that app(1) by auto
    then show "bfree (h a) = bfree (ublocks s a)" "bsize (h a) = bsize (ublocks s a)" by (simp_all add: h_def)
  qed
  have "as \<noteq> [] \<Longrightarrow> ?b \<noteq> last as" using last by metis
  then have new: "\<not> bfree (h ?b)" "bsize (h ?b) = sz" by (simp_all add: h_def)
  have "no_adjacent_free h as" using no_adjacent_free_cong [of as h "ublocks s"] same uheap_okD(2) [OF ok] by blast
  then have "no_adjacent_free h (as @ [?b])" using new(1) by (simp add: no_adjacent_free_simps)
  moreover have "live h as = live (ublocks s) as" by (rule live_cong) (simp_all only: same)
  then have "live h (as @ [?b]) = insert (?b, sz) (live (ublocks s) as)" using new by simp
  moreover have "chain USER_HEAP_MAGIC h 0 (as @ [?b]) 0 (unat (brk_of k'))" using app(2) e unfolding h_def by simp
  moreover have "(if as = [] then ?b else hd') = next_of (as @ [?b]) 0" using hd by (cases as) simp_all
  ultimately show ?thesis using run app(1) k(2) unfolding h_def [symmetric]
    by (simp add: uheap_ok_def del: chain_append next_of_append live_append)
qed

text \<open>
  A request either takes a free block that is large enough or extends the heap; the result is a new block that
  no live block overlaps.
\<close>

lemma malloc_contract:
  assumes ok: "uheap_ok as s" and sz: "0 < unat sz" "unat sz < 2 ^ 46" and room: "ready (ALIGN_UP sz 16 + 40) (sys s)"
  shows "\<exists>p s' as' n. malloc sbrk sz s = Some (p + 40, s') \<and> uheap_ok as' s' \<and> sz \<le> n \<and> p \<notin> fst ` live (ublocks s) as \<and>
     live (ublocks s') as' = insert (p, n) (live (ublocks s) as) \<and>
     (sys s' = sys s \<or> brk_of (sys s') = brk_of (sys s) + (ALIGN_UP sz 16 + 40) \<and> p = brk_of (sys s))"
proof -
  let ?sz = "ALIGN_UP sz 16" and ?b = "brk_of (sys s)"
  let ?hd = "if uhead s = 0 then ?b else uhead s" and ?fit = "\<lambda>a. bfree (ublocks s a) \<and> ?sz \<le> bsize (ublocks s a)"
  have al: "sz + 15 AND - 16 = ?sz" by (simp add: ALIGN_UP_def)
  have u: "unat ?sz = (unat sz + 15) div 16 * 16" using sz by (intro unat_ALIGN_UP_16) simp
  then have small: "unat ?sz + 72 < 2 ^ 64" and le: "sz \<le> ?sz" using sz by (simp_all add: word_le_nat_alt)
  have nz: "sz \<noteq> 0" using sz by auto
  have run: "malloc sbrk sz s = (let (cur, l, s1) = (next_of (filter ?fit as) 0,
        last_of 0 (takeWhile (\<lambda>a. \<not> ?fit a) as), s\<lparr>uhead := ?hd\<rparr>) in
      if cur \<noteq> 0 then Some (cur + 40, s1\<lparr>ublocks := take_block USER_HEAP_MAGIC cur ?sz (ublocks s1)\<rparr>)
      else malloc_extend sbrk l ?sz s1)"
    using search_head [OF ok refl, of ?sz] nz by (cases "uhead s = 0") (simp_all add: malloc_def Let_def al ask)
  have hd: "as \<noteq> [] \<Longrightarrow> ?hd = next_of as 0" using uheap_okD(3) [OF ok] by auto
  show ?thesis
  proof (cases "filter ?fit as")
    case Nil
    then have nofit: "\<forall>a \<in> set as. \<not> ?fit a" by (simp add: filter_empty_conv)
    then have tw: "takeWhile (\<lambda>a. \<not> ?fit a) as = as" by simp
    have r: "malloc sbrk sz s = malloc_extend sbrk (last_of 0 as) ?sz (s\<lparr>uhead := ?hd\<rparr>)"
      using run by (simp only: Nil tw next_of.simps Let_def prod.case) simp
    obtain s' where "malloc sbrk sz s = Some (?b + 40, s')" "uheap_ok (as @ [?b]) s'" "?b \<notin> set as"
        "live (ublocks s') (as @ [?b]) = insert (?b, ?sz) (live (ublocks s) as)" "brk_of (sys s') = ?b + (?sz + 40)"
      using extend_contract [OF ok room, of ?hd] hd small unfolding r by auto
    moreover from this(3) have "?b \<notin> fst ` live (ublocks s) as" using live_addr by fastforce
    ultimately show ?thesis using le by blast
  next
    case (Cons c cs)
    then have "c \<in> set (filter ?fit as)" by simp
    then have c: "c \<in> set as" "bfree (ublocks s c)" "?sz \<le> bsize (ublocks s c)" by simp_all
    obtain as' where
      t: "heap_ok USER_HEAP_MAGIC (take_block USER_HEAP_MAGIC c ?sz (ublocks s)) as' (next_of as 0) (unat ?b)" "set as \<subseteq> set as'"
        "?sz \<le> bsize (take_block USER_HEAP_MAGIC c ?sz (ublocks s) c)"
        "live (take_block USER_HEAP_MAGIC c ?sz (ublocks s)) as' =
           insert (c, bsize (take_block USER_HEAP_MAGIC c ?sz (ublocks s) c)) (live (ublocks s) as)"
      by (rule take_block_ok [OF uheap_okD(4) [OF ok] c small])
    have ne: "as \<noteq> []" using c(1) by auto
    have c0: "c \<noteq> 0" using chain_nonzero [OF uheap_okD(1) [OF ok] c(1)] by simp
    let ?s' = "s\<lparr>uhead := ?hd, ublocks := take_block USER_HEAP_MAGIC c ?sz (ublocks s)\<rparr>"
    have r: "malloc sbrk sz s = Some (c + 40, ?s')" using run Cons c0 by simp
    have "uheap_ok as' ?s'" using t(1) hd [OF ne] by (simp add: uheap_ok_def heap_ok_def)
    moreover have "c \<notin> fst ` live (ublocks s) as" using c(2) by (auto dest: live_addr)
    ultimately show ?thesis using r t(3,4) le by (intro exI [of _ c] exI [of _ ?s'] exI [of _ as']
        exI [of _ "bsize (take_block USER_HEAP_MAGIC c ?sz (ublocks s) c)"]) auto
  qed
qed

lemma free_contract:
  assumes ok: "uheap_ok as s" and p: "(p, n) \<in> live (ublocks s) as" and low: "unat (brk_of (sys s)) < 2 ^ 47"
  shows "\<exists>s' as'. free_u (p + 40) s = Some s' \<and> uheap_ok as' s' \<and> live (ublocks s') as' = live (ublocks s) as - {(p, n)} \<and>
     sys s' = sys s"
proof -
  note c = uheap_okD(1) [OF ok]
  have a: "p \<in> set as" using live_addr [OF p] by simp
  then have "unat p + 40 < 2 ^ 64" using chain_bounds [OF c a] low by simp
  then have "p + 40 \<noteq> 0" by (auto simp: unat_eq_0 unat_word_ariths dest: arg_cong [of _ _ unat])
  moreover have "magic (ublocks s p) = USER_HEAP_MAGIC" using chain_nonzero [OF c a] by simp
  ultimately have run: "free_u (p + 40) s = map_option (\<lambda>h. s\<lparr>ublocks := h\<rparr>) (release_block p (ublocks s))"
    by (simp add: free_u_def)
  from release_block_ok [OF uheap_okD(4) [OF ok] p] obtain h as' where
    h: "release_block p (ublocks s) = Some h" "heap_ok USER_HEAP_MAGIC h as' (next_of as 0) (unat (brk_of (sys s)))"
      "live h as' = live (ublocks s) as - {(p, n)}" by auto
  have "uhead s = next_of as 0" using uheap_okD(3) [OF ok] a by force
  then have "uheap_ok as' (s\<lparr>ublocks := h\<rparr>)" using h(2) by (simp add: uheap_ok_def heap_ok_def)
  then show ?thesis using run h by auto
qed

end

subsection \<open>The system call as provider\<close>

definition sys_break :: "'p system \<Rightarrow> u64" where
  "sys_break s = program_break (tasks (fst s) (current_task (fst s)))"

text \<open>There are frames for the pages and the page tables, and the heap stays in the lower half.\<close>

definition sys_ready :: "u64 \<Rightarrow> 'p system \<Rightarrow> bool" where
  "sys_ready n s \<longleftrightarrow> user_process (fst s) \<and> 0 < unat (sys_break s) \<and> unat (sys_break s) + unat n + 4095 < 2 ^ 47
     \<and> 4 * ((break_top (sys_break s + n) - break_top (sys_break s)) div 4096) \<le> frames_left (fst s)"

lemma sbrk_u_extend:
  assumes "sys_ready n s"
  shows "\<exists>s'. sbrk_u M n s = Some (sys_break s, s') \<and> sys_break s' = sys_break s + n \<and> user_process (fst s')"
proof -
  obtain k d where s: "s = (k, d)" by (cases s)
  have "unat (sys_break s + n) = unat (sys_break s) + unat n"
    using assms by (simp add: sys_ready_def unat_word_ariths)
  with assms sys_sbrk_result [of k n] obtain k' where
    "sys_sbrk n k = Some (sys_break s, k')" "sys_break (k', d) = sys_break s + n" "user_process k'"
    unfolding sys_ready_def sys_break_def s by auto
  then show ?thesis by (simp add: s sbrk_u_kernel)
qed

interpretation ub: user_break "sbrk_u M" sys_break sys_ready for M :: "('f, 'd, 'p) machine"
proof unfold_locales
  show "sbrk_u M 0 k = Some (sys_break k, k)" for k :: "'p system"
    by (cases k) (simp add: sbrk_u_kernel sys_sbrk_def sys_break_def Let_def)
  show "\<exists>k'. sbrk_u M n k = Some (sys_break k, k') \<and> sys_break k' = sys_break k + n" if "sys_ready n k" for n k
    using sbrk_u_extend [OF that] by blast
  show "0 < unat (sys_break k) \<and> unat (sys_break k) + unat n < 2 ^ 47" if "sys_ready n k" for n and k :: "'p system"
    using that by (simp add: sys_ready_def)
qed

text \<open>The heap of a process on the system.\<close>

definition user_heap :: "u64 list \<Rightarrow> 'p system uheap \<Rightarrow> bool" where
  "user_heap as s \<longleftrightarrow> chain USER_HEAP_MAGIC (ublocks s) 0 as 0 (unat (sys_break (sys s))) \<and> no_adjacent_free (ublocks s) as \<and>
     (uhead s = next_of as 0 \<or> as = [] \<and> uhead s = sys_break (sys s))"

lemma user_heap_eq: "user_heap = ub.uheap_ok"
  by (simp add: fun_eq_iff user_heap_def ub.uheap_ok_def)

subsection \<open>Properties\<close>

text \<open>
  C22. \<^verbatim>\<open>malloc\<close> over the kernel's program break: a request returns the data of a block that no live block overlaps
  and that is large enough; the heap keeps its form, and it either reuses a free block and leaves the system as it
  was or takes exactly the rounded size and a header from the kernel.
\<close>

theorem malloc_ok:
  assumes "user_heap as s" and "0 < unat sz" and "unat sz < 2 ^ 46" and "sys_ready (ALIGN_UP sz 16 + 40) (sys s)"
  shows "\<exists>p n s' as'. malloc (sbrk_u M) sz s = Some (p + 40, s') \<and> user_heap as' s' \<and> sz \<le> n
     \<and> p \<notin> fst ` live (ublocks s) as \<and> live (ublocks s') as' = insert (p, n) (live (ublocks s) as)
     \<and> (\<forall>(a, m) \<in> live (ublocks s') as'. \<forall>(b, l) \<in> live (ublocks s') as'. a \<noteq> b \<longrightarrow>
          unat a + 40 + unat m \<le> unat b \<or> unat b + 40 + unat l \<le> unat a)
     \<and> (sys s' = sys s
          \<or> sys_break (sys s') = sys_break (sys s) + (ALIGN_UP sz 16 + 40) \<and> p = sys_break (sys s))"
proof -
  from ub.malloc_contract [OF assms(1) [unfolded user_heap_eq] assms(2-4)]
  obtain p n s' as' where m: "malloc (sbrk_u M) sz s = Some (p + 40, s')" "user_heap as' s'" "sz \<le> n"
    "p \<notin> fst ` live (ublocks s) as" "live (ublocks s') as' = insert (p, n) (live (ublocks s) as)"
    "sys s' = sys s \<or> sys_break (sys s') = sys_break (sys s) + (ALIGN_UP sz 16 + 40) \<and> p = sys_break (sys s)"
    unfolding user_heap_eq by blast
  have "chain USER_HEAP_MAGIC (ublocks s') 0 as' 0 (unat (sys_break (sys s')))" using m(2) by (simp add: user_heap_def)
  from live_disjoint [OF this] m show ?thesis by blast
qed

text \<open>
  \<^verbatim>\<open>free\<close> of a live block removes exactly that block, keeps the form of the heap, so that no two free blocks are
  neighbours, and does not call the kernel; the break never moves back.
\<close>

theorem free_ok:
  assumes "user_heap as s" and "(p, n) \<in> live (ublocks s) as" and "unat (sys_break (sys s)) < 2 ^ 47"
  shows "\<exists>s' as'. free_u (p + 40) s = Some s' \<and> user_heap as' s'
     \<and> live (ublocks s') as' = live (ublocks s) as - {(p, n)} \<and> sys s' = sys s"
  using ub.free_contract [OF assms(1) [unfolded user_heap_eq] assms(2,3)] unfolding user_heap_eq .

subsection \<open>An example\<close>

definition uheap_example :: "(kernel \<times> u8 list \<times> bool) uheap" where
  "uheap_example = \<lparr>uhead = 0x3FFF00, ublocks = (\<lambda>_. \<lparr>magic = USER_HEAP_MAGIC, bsize = 216, bfree = False, bnext = 0, bprev = 0\<rparr>),
     sys = (kernel_example, ([], False))\<rparr>"

lemma uheap_example_break: "sys_break (sys uheap_example) = 0x400000"
  by (simp add: uheap_example_def sys_break_def kernel_example_break)

lemma uheap_example_ok: "user_heap [0x3FFF00] uheap_example"
  unfolding user_heap_def uheap_example_break by (simp add: uheap_example_def no_adjacent_free_def)

theorem malloc_ok_witness:
  "\<exists>p n s' as'. malloc (sbrk_u machine_example) 100 uheap_example = Some (p + 40, s') \<and> user_heap as' s'
     \<and> live (ublocks s') as' = {(p, n), (0x3FFF00, 216)} \<and> 100 \<le> n"
proof -
  have "ALIGN_UP (100 :: u64) 16 = 112" by (simp add: ALIGN_UP_def)
  then have "sys_ready (ALIGN_UP 100 16 + 40) (sys uheap_example)"
    unfolding sys_ready_def uheap_example_break
    using kernel_example_process(1) kernel_example_frames by (simp add: uheap_example_def break_top_def)
  from malloc_ok [OF uheap_example_ok _ _ this, of machine_example] show ?thesis
    by (auto simp: uheap_example_def)
qed

theorem free_ok_witness:
  "\<exists>s' as'. free_u 0x3FFF28 uheap_example = Some s' \<and> user_heap as' s' \<and> live (ublocks s') as' = {}"
proof -
  have "(0x3FFF00, 216) \<in> live (ublocks uheap_example) [0x3FFF00]" by (simp add: uheap_example_def)
  from free_ok [OF uheap_example_ok this] show ?thesis by (simp add: uheap_example_break) (simp add: uheap_example_def, blast)
qed

subsection \<open>A shared buffer between two blocks\<close>







end
