(* ===== verification/UString.thy ===== *)
theory UString
  imports KString
begin

unbundle bit_operations_syntax

text \<open>
  The string library of the user programs, \<^verbatim>\<open>src/userspace/libc/string.h\<close>, over the byte memory of \<^verbatim>\<open>KString\<close>. It
  copies and fills by words of eight bytes, takes its lengths as \<^verbatim>\<open>int\<close> and adds \<^verbatim>\<open>strcat\<close> and \<^verbatim>\<open>strtok\<close>. \<open>None\<close>
  is a loop that does not end or a length that overflows. The refinements are the snapshot copy for \<^verbatim>\<open>memmove\<close>
  and the list of words for \<^verbatim>\<open>strtok\<close>.
\<close>

subsection \<open>Memory\<close>

text \<open>\<^verbatim>\<open>rep movsq\<close>: each step reads eight bytes and then writes them.\<close>

definition store_word :: "u64 \<Rightarrow> u8 list \<Rightarrow> bytes \<Rightarrow> bytes" where
  "store_word d bs m = fold (\<lambda>i m. m(d + word_of_nat i := bs ! i)) [0..<length bs] m"

fun movsq :: "nat \<Rightarrow> u64 \<Rightarrow> u64 \<Rightarrow> bytes \<Rightarrow> bytes" where
  "movsq 0 d s m = m"
| "movsq (Suc q) d s m = movsq q (d + 8) (s + 8) (store_word d (load_bytes m s 8) m)"

fun movsb :: "nat \<Rightarrow> u64 \<Rightarrow> u64 \<Rightarrow> bytes \<Rightarrow> bytes" where
  "movsb 0 d s m = m"
| "movsb (Suc n) d s m = movsb n (d + 1) (s + 1) (m(d := m s))"

text \<open>A negative length reaches the string instruction as a count of about four billion.\<close>

definition memcpy_u :: "u64 \<Rightarrow> u64 \<Rightarrow> int \<Rightarrow> bytes \<Rightarrow> (u64 \<times> bytes) option" where
  "memcpy_u dest src n m =
     (if n < 0 then None
      else let q = nat (n div 8); r = nat (n mod 8);
               m = movsq q dest src m
           in Some (dest, movsb r (dest + 8 * word_of_nat q) (src + 8 * word_of_nat q) m))"

fun stosq :: "nat \<Rightarrow> u64 \<Rightarrow> u64 \<Rightarrow> bytes \<Rightarrow> bytes" where
  "stosq 0 d v m = m"
| "stosq (Suc q) d v m =
     stosq q (d + 8) v (store_word d (map (\<lambda>i. ucast (drop_bit (8 * i) v)) [0..<8]) m)"

definition byte_pattern :: "u32 \<Rightarrow> u64" where
  "byte_pattern c =
     (let v = ucast (ucast c :: u8) :: u64;
          v = v OR push_bit 8 v;
          v = v OR push_bit 16 v
      in v OR push_bit 32 v)"

fun fill_bytes :: "nat \<Rightarrow> u64 \<Rightarrow> u8 \<Rightarrow> bytes \<Rightarrow> bytes" where
  "fill_bytes 0 d c m = m"
| "fill_bytes (Suc n) d c m = fill_bytes n (d + 1) c (m(d := c))"

definition memset_u :: "u64 \<Rightarrow> u32 \<Rightarrow> int \<Rightarrow> bytes \<Rightarrow> (u64 \<times> bytes) option" where
  "memset_u s c n m =
     (if n < 0 then None
      else let q = nat (n div 8); m = stosq q s (byte_pattern c) m
           in Some (s, fill_bytes (nat (n mod 8)) (s + 8 * word_of_nat q) (ucast c) m))"

fun copy_back :: "nat \<Rightarrow> u64 \<Rightarrow> u64 \<Rightarrow> bytes \<Rightarrow> bytes" where
  "copy_back 0 d s m = m"
| "copy_back (Suc n) d s m = (let d = d - 1; s = s - 1 in copy_back n d s (m(d := m s)))"

definition memmove_u :: "u64 \<Rightarrow> u64 \<Rightarrow> int \<Rightarrow> bytes \<Rightarrow> (u64 \<times> bytes) option" where
  "memmove_u dest src n m =
     (if dest < src then memcpy_u dest src n m
      else if src < dest then
        (if n < 0 then None
         else Some (dest, copy_back (nat n) (dest + word_of_int n) (src + word_of_int n) m))
      else Some (dest, m))"

text \<open>\<^verbatim>\<open>while (n--)\<close>; below the smallest \<^verbatim>\<open>int\<close> the decrement overflows.\<close>

partial_function (option) memcmp_u :: "u64 \<Rightarrow> u64 \<Rightarrow> int \<Rightarrow> bytes \<Rightarrow> int option" where
  "memcmp_u p1 p2 n m =
     (if n = 0 then Some 0
      else if n \<le> - (2 ^ 31) then None
      else if m p1 \<noteq> m p2 then Some (uint (m p1) - uint (m p2))
      else memcmp_u (p1 + 1) (p2 + 1) (n - 1) m)"

subsection \<open>Strings\<close>

partial_function (option) strlen_loop :: "u64 \<Rightarrow> int \<Rightarrow> bytes \<Rightarrow> int option" where
  "strlen_loop s len m =
     (if m (s + word_of_int len) = 0 then Some len
      else if len = 2 ^ 31 - 1 then None
      else strlen_loop s (len + 1) m)"

definition strlen_u :: "u64 \<Rightarrow> bytes \<Rightarrow> int option" where
  "strlen_u s m = strlen_loop s 0 m"

definition strcpy_u :: "u64 \<Rightarrow> u64 \<Rightarrow> bytes \<Rightarrow> (u64 \<times> bytes) option" where
  "strcpy_u dest src m = do { m \<leftarrow> strcpy_loop dest src m; Some (dest, m) }"

definition strncpy_u :: "u64 \<Rightarrow> u64 \<Rightarrow> int \<Rightarrow> bytes \<Rightarrow> u64 \<times> bytes" where
  "strncpy_u dest src n m = (dest, strncpy_loop (nat n) dest src 0 m)"

partial_function (option) strcmp_u :: "u64 \<Rightarrow> u64 \<Rightarrow> bytes \<Rightarrow> int option" where
  "strcmp_u s1 s2 m =
     (if m s1 \<noteq> 0 \<and> m s1 = m s2 then strcmp_u (s1 + 1) (s2 + 1) m
      else Some (uint (m s1) - uint (m s2)))"

partial_function (option) strncmp_u :: "u64 \<Rightarrow> u64 \<Rightarrow> int \<Rightarrow> bytes \<Rightarrow> int option" where
  "strncmp_u s1 s2 n m =
     (if n = 0 then Some 0
      else if n \<le> - (2 ^ 31) then None
      else if m s1 \<noteq> m s2 then Some (uint (m s1) - uint (m s2))
      else if m s1 = 0 then Some 0
      else strncmp_u (s1 + 1) (s2 + 1) (n - 1) m)"

partial_function (option) strchr_u :: "u64 \<Rightarrow> u32 \<Rightarrow> bytes \<Rightarrow> u64 option" where
  "strchr_u s c m =
     (if m s \<noteq> 0 then (if m s = ucast c then Some s else strchr_u (s + 1) c m)
      else if c = 0 then Some s else Some 0)"

definition strcat_u :: "u64 \<Rightarrow> u64 \<Rightarrow> bytes \<Rightarrow> (u64 \<times> bytes) option" where
  "strcat_u dest src m = do { d \<leftarrow> strlen_end dest m; m \<leftarrow> strcpy_loop d src m; Some (dest, m) }"

text \<open>\<^verbatim>\<open>strtok\<close> with its static variable \<open>nxt\<close> as an argument and a result.\<close>

partial_function (option) strtok_skip :: "u64 \<Rightarrow> u64 \<Rightarrow> bytes \<Rightarrow> u64 option" where
  "strtok_skip delim start m =
     (if m start = 0 then Some start
      else do {
        p \<leftarrow> strchr_u delim (scast (m start)) m;
        if p \<noteq> 0 then strtok_skip delim (start + 1) m else Some start
      })"

partial_function (option) strtok_end :: "u64 \<Rightarrow> u64 \<Rightarrow> bytes \<Rightarrow> u64 option" where
  "strtok_end delim e m =
     (if m e = 0 then Some e
      else do {
        p \<leftarrow> strchr_u delim (scast (m e)) m;
        if p = 0 then strtok_end delim (e + 1) m else Some e
      })"

definition strtok :: "u64 \<Rightarrow> u64 \<Rightarrow> u64 \<times> bytes \<Rightarrow> (u64 \<times> u64 \<times> bytes) option" where
  "strtok str delim = (\<lambda>(nxt, m).
     let nxt = (if str \<noteq> 0 then str else nxt)
     in if nxt = 0 then Some (0, nxt, m)
        else do {
          start \<leftarrow> strtok_skip delim nxt m;
          if m start = 0 then Some (0, 0, m)
          else do {
            e \<leftarrow> strtok_end delim start m;
            if m e \<noteq> 0 then Some (start, e + 1, m(e := 0)) else Some (start, 0, m)
          }
        })"

definition tolower :: "int \<Rightarrow> int" where
  "tolower c = (if c \<ge> 0x41 \<and> c \<le> 0x5A then c + 0x20 else c)"

partial_function (option) str_tolower :: "u64 \<Rightarrow> bytes \<Rightarrow> bytes option" where
  "str_tolower s m =
     (if m s = 0 then Some m
      else str_tolower (s + 1) (if 0x41 \<le> m s \<and> m s \<le> 0x5A then m(s := m s + 0x20) else m))"

subsection \<open>Copies\<close>

lemma store_word_paste: "length bs \<le> 2 ^ 64 \<Longrightarrow> store_word d bs m = paste d bs m"
proof -
  have "n \<le> length bs \<Longrightarrow> length bs \<le> 2 ^ 64 \<Longrightarrow> fold (\<lambda>i m. m(d + word_of_nat i := bs ! i)) [0..<n] m = paste d (take n bs) m" for n
  proof (induction n)
    case (Suc n)
    then show ?case using paste_snoc [of "take n bs" d m "bs ! n"] by (simp add: take_Suc_conv_app_nth del: fun_upd_apply)
  qed simp
  from this [of "length bs"] show "length bs \<le> 2 ^ 64 \<Longrightarrow> store_word d bs m = paste d bs m" by (simp add: store_word_def)
qed

lemma paste_split:
  "length xs + length ys \<le> 2 ^ 64 \<Longrightarrow> paste (d + word_of_nat (length xs)) ys (paste d xs m) = paste d (xs @ ys) m"
proof (induction xs arbitrary: d m)
  case (Cons x xs)
  from Cons.prems have "paste d (x # xs) m = paste (d + 1) xs (m(d := x))" by (intro paste_Cons) simp
  moreover have "paste d (x # xs @ ys) m = paste (d + 1) (xs @ ys) (m(d := x))" using Cons.prems by (intro paste_Cons) simp
  ultimately show ?case using Cons.IH [of "d + 1" "m(d := x)"] Cons.prems by (simp add: add.assoc del: fun_upd_apply)
qed simp

lemma load_bytes_append: "load_bytes m a (k + n) = load_bytes m a k @ load_bytes m (a + word_of_nat k) n"
  by (induction n) (simp_all add: load_bytes_snoc load_bytes_def add.assoc)

text \<open>A copy upwards reads no byte that it has already written.\<close>

definition ahead :: "nat \<Rightarrow> u64 \<Rightarrow> u64 \<Rightarrow> bool" where
  "ahead n d s \<longleftrightarrow> n \<le> 2 ^ 64 \<and> (\<forall>i j. i < j \<and> j < n \<longrightarrow> s + word_of_nat j \<noteq> d + word_of_nat i)"

lemma ahead_shift: "ahead (k + n) d s \<Longrightarrow> ahead n (d + word_of_nat k) (s + word_of_nat k)"
  unfolding ahead_def
proof (intro conjI allI impI, simp)
  fix i j assume a: "k + n \<le> 2 ^ 64 \<and> (\<forall>i j. i < j \<and> j < k + n \<longrightarrow> s + word_of_nat j \<noteq> d + word_of_nat i)"
    and ij: "i < j \<and> j < n"
  then have "s + word_of_nat (k + j) \<noteq> d + word_of_nat (k + i)" by simp
  then show "s + word_of_nat k + word_of_nat j \<noteq> d + word_of_nat k + word_of_nat i" by (simp add: add.assoc)
qed

lemma ahead_le: "ahead n d s \<Longrightarrow> k \<le> n \<Longrightarrow> ahead k d s"
  unfolding ahead_def by auto

lemma ahead_load:
  assumes "ahead (k + n) d s" and "length bs = k"
  shows "load_bytes (paste d bs m) (s + word_of_nat k) n = load_bytes m (s + word_of_nat k) n"
proof (rule load_bytes_cong, rule paste_other)
  fix i j assume ij: "i < n" "j < length bs"
  with assms(2) have "j < k + i" "k + i < k + n" by simp_all
  then have "s + word_of_nat (k + i) \<noteq> d + word_of_nat j" using assms(1) unfolding ahead_def by blast
  then show "s + word_of_nat k + word_of_nat i \<noteq> d + word_of_nat j" by (simp add: add.assoc)
qed

lemma copy_in_parts:
  assumes a: "ahead (k + n) d s"
    and rest: "paste (d + word_of_nat k) (load_bytes (paste d (load_bytes m s k) m) (s + word_of_nat k) n) (paste d (load_bytes m s k) m) = m'"
  shows "m' = paste d (load_bytes m s (k + n)) m"
  using rest paste_split [of "load_bytes m s k" "load_bytes m (s + word_of_nat k) n" d m] a
  by (simp add: ahead_load [OF a] load_bytes_append ahead_def)

lemma movsq_paste: "ahead (8 * q) d s \<Longrightarrow> movsq q d s m = paste d (load_bytes m s (8 * q)) m"
proof (induction q arbitrary: d s m)
  case (Suc q)
  have a: "ahead (8 + 8 * q) d s" using Suc.prems by simp
  have "ahead (8 * q) (d + word_of_nat 8) (s + word_of_nat 8)" by (rule ahead_shift [OF a])
  then have "ahead (8 * q) (d + 8) (s + 8)" by simp
  from Suc.IH [OF this] copy_in_parts [OF a refl] show ?case by (simp add: store_word_paste)
qed (simp add: load_bytes_def)

lemma movsb_paste: "ahead n d s \<Longrightarrow> movsb n d s m = paste d (load_bytes m s n) m"
proof (induction n arbitrary: d s m)
  case (Suc n)
  have a: "ahead (1 + n) d s" using Suc.prems by simp
  have p: "paste d (load_bytes m s (Suc 0)) m = m(d := m s)" using paste_Cons [of "[]" d "m s" m] by (simp add: load_bytes_def)
  from ahead_shift [OF a] have "ahead n (d + 1) (s + 1)" by simp
  from Suc.IH [OF this] copy_in_parts [OF a refl, of m] show ?case by (simp add: p del: fun_upd_apply)
qed (simp add: load_bytes_def)

lemma nat_div_mod_8: "0 \<le> n \<Longrightarrow> nat n = 8 * nat (n div 8) + nat (n mod 8)"
  by (simp add: nat_eq_iff pos_imp_zdiv_nonneg_iff)

lemma memcpy_u_result:
  assumes "0 \<le> n" and "ahead (nat n) d s"
  shows "memcpy_u d s n m = Some (d, paste d (load_bytes m s (nat n)) m)"
proof -
  let ?q = "nat (n div 8)" and ?r = "nat (n mod 8)"
  have n: "nat n = 8 * ?q + ?r" using assms(1) by (rule nat_div_mod_8)
  have a: "ahead (8 * ?q + ?r) d s" using assms(2) n by simp
  have m: "movsq ?q d s m = paste d (load_bytes m s (8 * ?q)) m" by (rule movsq_paste) (rule ahead_le [OF a], simp)
  from movsb_paste [OF ahead_shift [OF a]] copy_in_parts [OF a refl] show ?thesis
    using assms(1) by (simp add: memcpy_u_def Let_def m n)
qed

lemma copy_back_bwd: "copy_back n (d + word_of_nat n) (s + word_of_nat n) m = copy_bwd n d s m"
  by (induction n arbitrary: m) (simp_all add: copy_bwd_Suc Let_def, simp add: copy_bwd_def)

lemma memmove_u_result:
  assumes n: "0 \<le> n" and s: "unat src + nat n \<le> 2 ^ 64" and d: "unat dest + nat n \<le> 2 ^ 64"
  shows "memmove_u dest src n m = Some (dest, paste dest (load_bytes m src (nat n)) m)"
proof -
  have eq: "src + word_of_nat i = dest + word_of_nat j \<longleftrightarrow> unat src + i = unat dest + j" if "i < nat n" "j < nat n" for i j
    using range_addr_eq that s d .
  consider "dest < src" | "src < dest" | "src = dest" by fastforce
  then show ?thesis
  proof cases
    case 1
    then have "ahead (nat n) dest src" using eq s by (auto simp: ahead_def word_less_nat_alt)
    with 1 n show ?thesis by (simp add: memmove_u_def memcpy_u_result)
  next
    case 2
    then have "copy_bwd (nat n) dest src m = paste dest (load_bytes m src (nat n)) m"
      using eq s by (intro copy_bwd_paste) (auto simp: word_less_nat_alt)
    moreover have "\<not> dest < src" using 2 by simp
    moreover have "word_of_int n = (word_of_nat (nat n) :: u64)" using n by simp
    ultimately show ?thesis using 2 n copy_back_bwd [of "nat n" dest src m] by (simp add: memmove_u_def)
  next
    case 3
    then show ?thesis by (auto simp: memmove_u_def paste_def fun_eq_iff)
  qed
qed

text \<open>The pattern of \<^verbatim>\<open>memset\<close> repeats the byte.\<close>

definition repeats :: "u8 \<Rightarrow> nat \<Rightarrow> u64 \<Rightarrow> bool" where
  "repeats b w v \<longleftrightarrow> (\<forall>k. bit v k \<longleftrightarrow> k < w \<and> bit b (k mod 8))"

lemma repeats_double:
  assumes "repeats b w v" and "8 dvd w" and "2 * w \<le> 64"
  shows "repeats b (2 * w) (v OR push_bit w v)"
  unfolding repeats_def
proof
  fix k
  obtain c where w: "w = 8 * c" using assms(2) by (rule dvdE)
  have v: "bit v j \<longleftrightarrow> j < w \<and> bit b (j mod 8)" for j using assms(1) by (simp add: repeats_def)
  have o: "bit (v OR push_bit w v) k \<longleftrightarrow> bit v k \<or> w \<le> k \<and> k < 64 \<and> bit v (k - w)"
    by (simp add: bit_or_iff bit_push_bit_iff)
  show "bit (v OR push_bit w v) k \<longleftrightarrow> k < 2 * w \<and> bit b (k mod 8)"
  proof (cases "w \<le> k")
    case True
    then have "(k - w) mod 8 = k mod 8" using mod_mult_self1 [of "k - w" c 8] by (simp add: w mult.commute)
    moreover have "k - w < w \<and> k < 64 \<longleftrightarrow> k < 2 * w" using True assms(3) by linarith
    ultimately show ?thesis unfolding o v using True by auto
  next
    case False
    then show ?thesis unfolding o v by simp
  qed
qed

lemma byte_pattern_repeats: "repeats (ucast c) 64 (byte_pattern c)"
proof -
  have "repeats (ucast c) 8 (ucast (ucast c :: u8))"
    unfolding repeats_def using bit_imp_le_length [of "ucast c :: u8"] by (force simp: bit_simps)
  from repeats_double [OF repeats_double [OF repeats_double [OF this]]] show ?thesis
    by (simp add: byte_pattern_def Let_def)
qed

lemma byte_pattern_byte: "i < 8 \<Longrightarrow> (ucast (drop_bit (8 * i) (byte_pattern c)) :: u8) = ucast c"
  using byte_pattern_repeats [of c] by (intro bit_word_eqI) (auto simp: repeats_def bit_simps)

lemma stosq_paste: "8 * q \<le> 2 ^ 64 \<Longrightarrow> stosq q d (byte_pattern c) m = paste d (replicate (8 * q) (ucast c)) m"
proof (induction q arbitrary: d m)
  case (Suc q)
  have w: "map (\<lambda>i. ucast (drop_bit (8 * i) (byte_pattern c))) [0..<8] = replicate 8 (ucast c :: u8)"
    by (rule nth_equalityI) (simp_all add: byte_pattern_byte)
  show ?case
    using Suc paste_split [of "replicate 8 (ucast c)" "replicate (8 * q) (ucast c)" d m]
    by (simp add: w store_word_paste replicate_add [symmetric] del: replicate.simps)
qed simp

lemma fill_bytes_paste: "n < 2 ^ 64 \<Longrightarrow> fill_bytes n d c m = paste d (replicate n c) m"
  by (induction n arbitrary: d m) (simp_all add: paste_Cons)

lemma memset_u_result:
  assumes "0 \<le> n" and "n < 2 ^ 31"
  shows "memset_u s c n m = Some (s, paste s (replicate (nat n) (ucast c)) m)"
proof -
  let ?q = "nat (n div 8)" and ?r = "nat (n mod 8)"
  have n: "nat n = 8 * ?q + ?r" using assms(1) by (rule nat_div_mod_8)
  have b: "8 * ?q \<le> 2 ^ 64" "?r < 2 ^ 64" "8 * ?q + ?r \<le> 2 ^ 64" using n assms by simp_all
  then show ?thesis
    using assms paste_split [of "replicate (8 * ?q) (ucast c)" "replicate ?r (ucast c)" s m] n b
    by (simp add: memset_u_def Let_def stosq_paste fill_bytes_paste replicate_add)
qed

subsection \<open>Words\<close>

text \<open>The reference for \<^verbatim>\<open>strtok\<close>: the maximal runs of bytes that are no delimiter.\<close>

function words :: "u8 set \<Rightarrow> u8 list \<Rightarrow> u8 list list" where
  "words D bs = (case dropWhile (\<lambda>b. b \<in> D) bs of [] \<Rightarrow> []
     | b # r \<Rightarrow> (b # takeWhile (\<lambda>b. b \<notin> D) r) # words D (dropWhile (\<lambda>b. b \<notin> D) r))"
  by pat_completeness auto
termination
proof (relation "measure (\<lambda>(D, bs). length bs)", goal_cases)
  case (2 D bs b r)
  have "length (dropWhile (\<lambda>b. b \<notin> D) r) \<le> length r" by (rule length_dropWhile_le)
  moreover have "length (b # r) \<le> length bs" using 2 length_dropWhile_le [of "\<lambda>b. b \<in> D" bs] by simp
  ultimately show ?case by simp
qed simp

declare words.simps [simp del]

lemma dropWhile_hd: "dropWhile P xs = b # r \<Longrightarrow> \<not> P b"
  by (metis hd_dropWhile list.distinct(1) list.sel(1))

lemma words_end: "dropWhile (\<lambda>b. b \<in> D) bs = [] \<Longrightarrow> words D bs = []"
  by (subst words.simps) (simp only: list.case)

lemma words_next:
  "dropWhile (\<lambda>b. b \<in> D) bs = b # r \<Longrightarrow>
   words D bs = (b # takeWhile (\<lambda>b. b \<notin> D) r) # words D (dropWhile (\<lambda>b. b \<notin> D) r)"
  by (subst words.simps) (simp only: list.case)

lemma words_Nil [simp]: "words D [] = []"
  by (subst words.simps) simp

lemma words_skip: "b \<in> D \<Longrightarrow> words D (b # bs) = words D bs"
  by (subst (1 2) words.simps) simp

lemma words_word: "b \<notin> D \<Longrightarrow> words D (b # r) = (b # takeWhile (\<lambda>b. b \<notin> D) r) # words D (dropWhile (\<lambda>b. b \<notin> D) r)"
  by (subst words.simps) simp

lemma words_dropWhile: "words D (dropWhile (\<lambda>b. b \<in> D) bs) = words D bs"
  by (induction bs) (simp_all add: words_skip)

lemma word_of_words: "w \<in> set (words D bs) \<Longrightarrow> w \<noteq> [] \<and> set w \<inter> D = {} \<and> set w \<subseteq> set bs"
proof (induction D bs rule: words.induct)
  case (1 D bs)
  show ?case
  proof (cases "dropWhile (\<lambda>b. b \<in> D) bs")
    case Nil
    then have "words D bs = []" by (rule words_end)
    with "1.prems" show ?thesis by simp
  next
    case (Cons b r)
    have sub: "set (b # r) \<subseteq> set bs" unfolding Cons [symmetric] by (auto dest: set_dropWhileD)
    have b: "b \<notin> D" by (rule dropWhile_hd [OF Cons])
    have "w \<in> set ((b # takeWhile (\<lambda>b. b \<notin> D) r) # words D (dropWhile (\<lambda>b. b \<notin> D) r))"
      using "1.prems" unfolding words_next [OF Cons] .
    then have "w = b # takeWhile (\<lambda>b. b \<notin> D) r \<or> w \<in> set (words D (dropWhile (\<lambda>b. b \<notin> D) r))"
      by (rule set_ConsD)
    then show ?thesis
    proof
      assume "w = b # takeWhile (\<lambda>b. b \<notin> D) r"
      with b sub show ?thesis by (auto dest: set_takeWhileD)
    next
      assume "w \<in> set (words D (dropWhile (\<lambda>b. b \<notin> D) r))"
      from "1.IH" [OF Cons this] sub show ?thesis by (auto dest: set_dropWhileD)
    qed
  qed
qed

text \<open>A string that does not reach the end of the address space.\<close>

definition str_at :: "bytes \<Rightarrow> u64 \<Rightarrow> u8 list \<Rightarrow> bool" where
  "str_at m a bs \<longleftrightarrow> cstr m a bs \<and> 0 < unat a \<and> unat a + length bs < 2 ^ 64"

lemma unat_plus_of_nat: "unat (a :: u64) + n < 2 ^ 64 \<Longrightarrow> unat (a + word_of_nat n) = unat a + n"
  by (simp add: unat_word_ariths unat_of_nat_small)

lemma cstr_append: "cstr m a (xs @ ys) \<Longrightarrow> cstr m (a + word_of_nat (length xs)) ys"
  by (induction xs arbitrary: a) (auto simp: add.assoc [symmetric])

lemma str_at_append: "str_at m a (xs @ ys) \<Longrightarrow> str_at m (a + word_of_nat (length xs)) ys"
  using cstr_append [of m a xs ys] unat_plus_of_nat [of a "length xs"] by (simp add: str_at_def)

text \<open>A write outside a string.\<close>

lemma str_at_cong:
  assumes "str_at m a bs" and "\<And>x. unat a \<le> unat x \<Longrightarrow> unat x \<le> unat a + length bs \<Longrightarrow> m' x = m x"
  shows "str_at m' a bs"
proof -
  have "cstr m' a bs = cstr m a bs"
  proof (rule cstr_cong)
    fix i assume "i \<le> length bs"
    moreover from this have "unat (a + word_of_nat i) = unat a + i"
      using assms(1) by (intro unat_plus_of_nat) (simp add: str_at_def)
    ultimately show "m' (a + word_of_nat i) = m (a + word_of_nat i)" using assms(2) by simp
  qed
  with assms(1) show ?thesis by (simp add: str_at_def)
qed

text \<open>Cutting a string with a zero byte.\<close>

lemma cstr_cut: "cstr m a (xs @ ys) \<Longrightarrow> unat a + length xs < 2 ^ 64 \<Longrightarrow> cstr (m(a + word_of_nat (length xs) := 0)) a xs"
proof (induction xs arbitrary: a)
  case (Cons x xs)
  have "unat (a + 1) = unat a + 1" using Cons.prems(2) unat_plus_of_nat [of a 1] by simp
  moreover have "a + word_of_nat (length (x # xs)) \<noteq> a"
    using unat_plus_of_nat [of a "length (x # xs)"] Cons.prems(2) by (metis add_cancel_right_right length_0_conv list.distinct(1))
  ultimately show ?case using Cons.IH [of "a + 1"] Cons.prems by (simp add: add.assoc)
qed simp

lemma ucast_scast_8 [simp]: "(ucast (scast (w :: u8) :: u32) :: u8) = w"
  by (rule bit_word_eqI) (auto simp: bit_simps)

lemma scast_8_eq_0 [simp]: "(scast (w :: u8) :: u32) = 0 \<longleftrightarrow> w = 0"
  by (metis scast_0 ucast_scast_8 unsigned_0)

lemma strchr_u_mem:
  assumes "cstr m s ds" and "0 < unat s" and "unat s + length ds < 2 ^ 64" and "b \<noteq> 0"
  shows "\<exists>p. strchr_u s (scast b) m = Some p \<and> (p \<noteq> 0 \<longleftrightarrow> b \<in> set ds)"
  using assms(1-3)
proof (induction ds arbitrary: s)
  case Nil
  then show ?case using assms(4) by (subst strchr_u.simps) simp
next
  case (Cons d ds)
  have "unat (s + 1) = unat s + 1" using Cons.prems(3) unat_plus_of_nat [of s 1] by simp
  then have "\<exists>p. strchr_u (s + 1) (scast b) m = Some p \<and> (p \<noteq> 0 \<longleftrightarrow> b \<in> set ds)"
    using Cons.prems by (intro Cons.IH) auto
  then show ?case using Cons.prems assms(4) by (subst strchr_u.simps) auto
qed

lemma strtok_skip_result:
  assumes "str_at m delim ds"
  shows "cstr m a bs \<Longrightarrow> strtok_skip delim a m = Some (a + word_of_nat (length (takeWhile (\<lambda>b. b \<in> set ds) bs)))"
proof (induction bs arbitrary: a)
  case Nil
  then show ?case by (subst strtok_skip.simps) simp
next
  case (Cons b bs)
  then obtain p where "strchr_u delim (scast b) m = Some p" "p \<noteq> 0 \<longleftrightarrow> b \<in> set ds"
    using strchr_u_mem [of m delim ds b] assms by (auto simp: str_at_def)
  then show ?case using Cons by (subst strtok_skip.simps) (auto simp: add.assoc)
qed

lemma strtok_end_result:
  assumes "str_at m delim ds"
  shows "cstr m a bs \<Longrightarrow> strtok_end delim a m = Some (a + word_of_nat (length (takeWhile (\<lambda>b. b \<notin> set ds) bs)))"
proof (induction bs arbitrary: a)
  case Nil
  then show ?case by (subst strtok_end.simps) simp
next
  case (Cons b bs)
  then obtain p where "strchr_u delim (scast b) m = Some p" "p \<noteq> 0 \<longleftrightarrow> b \<in> set ds"
    using strchr_u_mem [of m delim ds b] assms by (auto simp: str_at_def)
  then show ?case using Cons by (subst strtok_end.simps) (auto simp: add.assoc)
qed

text \<open>
  What is left to cut: \<open>nxt\<close> is \<^verbatim>\<open>NULL\<close> and there are no more words, or the rest of the text, which ends at
  \<open>hi\<close>, starts there and has the words \<open>ws\<close>.
\<close>

definition to_cut :: "u8 set \<Rightarrow> u64 \<Rightarrow> bytes \<Rightarrow> nat \<Rightarrow> nat \<Rightarrow> u8 list list \<Rightarrow> bool" where
  "to_cut D nxt m lo hi ws \<longleftrightarrow> nxt = 0 \<and> ws = []
     \<or> (\<exists>bs. str_at m nxt bs \<and> words D bs = ws \<and> lo \<le> unat nxt \<and> unat nxt + length bs = hi)"

lemma str_atD:
  assumes "str_at m a bs"
  shows "cstr m a bs" "a \<noteq> 0" "unat a + length bs < 2 ^ 64"
    and "i \<le> length bs \<Longrightarrow> unat (a + word_of_nat i) = unat a + i"
    and "i \<le> length bs \<Longrightarrow> m (a + word_of_nat i) = (bs @ [0]) ! i"
  using assms cstr_nth [of m a bs i] unat_plus_of_nat [of a i] by (auto simp: str_at_def)

lemma strtok_word:
  assumes s: "str_at m a bs" and dl: "str_at m delim ds" and a: "a = (if str \<noteq> 0 then str else nxt)"
    and ws: "words (set ds) bs = w # ws"
  shows "\<exists>p nxt' m'. strtok str delim (nxt, m) = Some (p, nxt', m') \<and> str_at m' p w
     \<and> unat a \<le> unat p \<and> unat p + length w \<le> unat a + length bs
     \<and> (\<forall>x. unat x < unat p + length w \<or> unat a + length bs < unat x \<longrightarrow> m' x = m x)
     \<and> to_cut (set ds) nxt' m' (unat p + length w + 1) (unat a + length bs) ws"
proof -
  let ?D = "set ds" and ?pre = "takeWhile (\<lambda>b. b \<in> set ds) bs" and ?rest = "dropWhile (\<lambda>b. b \<in> set ds) bs"
  define p where "p = a + word_of_nat (length ?pre)"
  have split: "bs = ?pre @ ?rest" by simp
  have rest: "str_at m p ?rest" unfolding p_def by (rule str_at_append) (use s in simp)
  have up: "unat p = unat a + length ?pre" unfolding p_def by (rule str_atD(4) [OF s]) (rule length_takeWhile_le)
  have len: "length ?pre + length ?rest = length bs" by (subst length_append [symmetric]) simp
  obtain b r where br: "?rest = b # r" using ws words_end [of ?D bs] by (cases ?rest) auto
  have b: "b \<notin> ?D" by (rule dropWhile_hd [OF br])
  have w: "w = takeWhile (\<lambda>b. b \<notin> ?D) ?rest" and ws': "ws = words ?D (dropWhile (\<lambda>b. b \<notin> ?D) ?rest)"
    using ws b words_next [OF br] by (simp_all add: br)
  define tl where "tl = dropWhile (\<lambda>b. b \<notin> ?D) ?rest"
  have wt: "?rest = w @ tl" unfolding w tl_def by simp
  have start: "strtok_skip delim a m = Some p" unfolding p_def by (rule strtok_skip_result [OF dl str_atD(1) [OF s]])
  have mp: "m p \<noteq> 0" using str_atD(1) [OF rest] by (simp add: br)
  define e where "e = p + word_of_nat (length w)"
  have fin: "strtok_end delim p m = Some e" unfolding e_def w by (rule strtok_end_result [OF dl str_atD(1) [OF rest]])
  have tlat: "str_at m e tl" unfolding e_def by (rule str_at_append) (use rest wt in simp)
  have ws2: "ws = words ?D tl" unfolding tl_def by (rule ws')
  have lw: "length w + length tl = length ?rest" using arg_cong [OF wt, of length] by simp
  have ue: "unat e = unat p + length w" unfolding e_def by (rule str_atD(4) [OF rest]) (use lw in simp)
  have a0: "a \<noteq> 0" by (rule str_atD(2) [OF s])
  have run: "strtok str delim (nxt, m) = (if m e \<noteq> 0 then Some (p, e + 1, m(e := 0)) else Some (p, 0, m))"
    using a0 start mp fin a by (simp add: strtok_def Let_def)
  show ?thesis
  proof (cases tl)
    case Nil
    then have "m e = 0" "?rest = w" using str_atD(1) [OF tlat] wt by simp_all
    then show ?thesis using run rest up len ws2 Nil by (intro exI [of _ p] exI [of _ 0] exI [of _ m]) (simp add: to_cut_def)
  next
    case (Cons c bs')
    have c: "c \<in> ?D" using dropWhile_hd [OF Cons [unfolded tl_def]] by simp
    have mc: "m e = c" "c \<noteq> 0" using str_atD(1) [OF tlat] by (simp_all add: Cons)
    let ?m = "m(e := 0)"
    have next1: "unat (e + 1) = unat e + 1" using str_atD(4) [OF tlat, of 1] by (simp add: Cons)
    have "str_at m (e + 1) bs'" using str_at_append [of m e "[c]" bs'] tlat by (simp add: Cons)
    then have nx: "str_at ?m (e + 1) bs'" by (rule str_at_cong) (use next1 in auto)
    have "cstr m p (w @ tl)" using str_atD(1) [OF rest] unfolding wt .
    then have "cstr ?m p w" unfolding e_def by (rule cstr_cut) (use str_atD(3) [OF rest] lw in linarith)
    then have pw: "str_at ?m p w" using rest lw by (simp add: str_at_def)
    have "words ?D bs' = ws" using c by (simp add: ws2 Cons words_skip)
    moreover have "unat (e + 1) + length bs' = unat a + length bs" using next1 ue up len lw Cons by simp
    ultimately have "to_cut ?D (e + 1) ?m (unat p + length w + 1) (unat a + length bs) ws"
      using nx next1 ue unfolding to_cut_def by auto
    moreover have "?m x = m x" if "unat x < unat p + length w \<or> unat a + length bs < unat x" for x
      using that ue up len lw by auto
    ultimately show ?thesis using run mc pw up len lw
      by (intro exI [of _ p] exI [of _ "e + 1"] exI [of _ ?m]) (simp del: fun_upd_apply)
  qed
qed

lemma strtok_end_of_text:
  assumes s: "str_at m a bs" and dl: "str_at m delim ds" and a: "a = (if str \<noteq> 0 then str else nxt)"
    and ws: "words (set ds) bs = []"
  shows "strtok str delim (nxt, m) = Some (0, 0, m)"
proof -
  let ?pre = "takeWhile (\<lambda>b. b \<in> set ds) bs"
  have "dropWhile (\<lambda>b. b \<in> set ds) bs = []"
    using ws words_next [of "set ds" bs] by (cases "dropWhile (\<lambda>b. b \<in> set ds) bs") auto
  then have pre: "?pre = bs" using takeWhile_dropWhile_id [of "\<lambda>b. b \<in> set ds" bs] by simp
  have "strtok_skip delim a m = Some (a + word_of_nat (length bs))"
    using strtok_skip_result [OF dl str_atD(1) [OF s]] by (simp only: pre)
  moreover have "m (a + word_of_nat (length bs)) = 0" using str_atD(5) [OF s, of "length bs"] by simp
  ultimately show ?thesis using a str_atD(2) [OF s] by (simp add: strtok_def Let_def)
qed

text \<open>The loop that every caller of \<^verbatim>\<open>strtok\<close> runs: one call with the text, then calls with \<^verbatim>\<open>NULL\<close>.\<close>

partial_function (option) strtok_rest :: "u64 \<Rightarrow> u64 \<Rightarrow> u64 \<times> bytes \<Rightarrow> (u64 list \<times> bytes) option" where
  "strtok_rest delim p s =
     (if p = 0 then Some ([], snd s)
      else do { (q, s) \<leftarrow> strtok 0 delim s; (ps, m) \<leftarrow> strtok_rest delim q s; Some (p # ps, m) })"

definition strtok_all :: "u64 \<Rightarrow> u64 \<Rightarrow> u64 \<times> bytes \<Rightarrow> (u64 list \<times> bytes) option" where
  "strtok_all str delim s = do { (p, s) \<leftarrow> strtok str delim s; strtok_rest delim p s }"

lemma strtok_next:
  assumes c: "to_cut (set ds) nxt m lo hi ws" and dl: "str_at m delim ds"
    and apart: "unat delim + length ds < lo \<or> hi < unat delim"
  shows "case ws of [] \<Rightarrow> strtok 0 delim (nxt, m) = Some (0, 0, m)
     | w # ws \<Rightarrow> \<exists>p nxt' m'. strtok 0 delim (nxt, m) = Some (p, nxt', m') \<and> str_at m' p w \<and> lo \<le> unat p
          \<and> unat p + length w \<le> hi \<and> (\<forall>x. unat x < unat p + length w \<or> hi < unat x \<longrightarrow> m' x = m x)
          \<and> to_cut (set ds) nxt' m' (unat p + length w + 1) hi ws \<and> str_at m' delim ds"
proof (cases ws)
  case Nil
  then consider "nxt = 0" | bs where "str_at m nxt bs" "words (set ds) bs = []" using c by (auto simp: to_cut_def)
  then show ?thesis
  proof cases
    case 1
    with Nil show ?thesis by (simp add: strtok_def)
  next
    case 2
    then have "strtok 0 delim (nxt, m) = Some (0, 0, m)" using dl by (intro strtok_end_of_text) simp_all
    with Nil show ?thesis by simp
  qed
next
  case (Cons w ws')
  then obtain bs where bs: "str_at m nxt bs" "words (set ds) bs = w # ws'" "lo \<le> unat nxt" "unat nxt + length bs = hi"
    using c by (auto simp: to_cut_def)
  from strtok_word [OF bs(1) dl _ bs(2), of 0 nxt] obtain p nxt' m' where
    r: "strtok 0 delim (nxt, m) = Some (p, nxt', m')" "str_at m' p w" "unat nxt \<le> unat p" "unat p + length w \<le> hi"
      "\<forall>x. unat x < unat p + length w \<or> hi < unat x \<longrightarrow> m' x = m x"
      "to_cut (set ds) nxt' m' (unat p + length w + 1) hi ws'"
    unfolding bs(4) by auto
  have "str_at m' delim ds" using dl by (rule str_at_cong) (use r(3,5) apart bs(3) in auto)
  with r bs(3) Cons show ?thesis by fastforce
qed

lemma strtok_rest_words:
  assumes "to_cut (set ds) nxt m lo hi ws" and "str_at m delim ds"
    and "unat delim + length ds < lo \<or> hi < unat delim" and "p \<noteq> 0"
  shows "\<exists>ps m'. strtok_rest delim p (nxt, m) = Some (p # ps, m') \<and> list_all2 (str_at m') ps ws
     \<and> (\<forall>x. unat x < lo \<or> hi < unat x \<longrightarrow> m' x = m x)"
  using assms
proof (induction ws arbitrary: p nxt m lo)
  case Nil
  from strtok_next [OF Nil(1-3)] Nil(4) show ?case
    by (subst strtok_rest.simps) (simp, subst strtok_rest.simps, simp)
next
  case (Cons w ws)
  from strtok_next [OF Cons.prems(1-3)] obtain q nxt' m' where
    r: "strtok 0 delim (nxt, m) = Some (q, nxt', m')" "str_at m' q w" "lo \<le> unat q"
      "unat q + length w \<le> hi" "\<forall>x. unat x < unat q + length w \<or> hi < unat x \<longrightarrow> m' x = m x"
      "to_cut (set ds) nxt' m' (unat q + length w + 1) hi ws" "str_at m' delim ds" by auto
  have ap: "unat delim + length ds < unat q + length w + 1 \<or> hi < unat delim" using Cons.prems(3) r(3) by auto
  from Cons.IH [OF r(6,7) ap str_atD(2) [OF r(2)]] obtain ps m2 where
    i: "strtok_rest delim q (nxt', m') = Some (q # ps, m2)" "list_all2 (str_at m2) ps ws"
      "\<forall>x. unat x < unat q + length w + 1 \<or> hi < unat x \<longrightarrow> m2 x = m' x" by blast
  have "str_at m2 q w" using r(2) by (rule str_at_cong) (use i(3) in auto)
  with i r(1,3,5) Cons.prems(4) show ?case by (subst strtok_rest.simps) (auto intro!: exI [of _ "q # ps"] exI [of _ m2])
qed

subsection \<open>Properties\<close>

text \<open>
  \<^verbatim>\<open>memmove\<close>, which copies upwards by words of eight bytes and downwards by bytes, moves any range to any range,
  overlapping or not, as if through a copy of the source, and writes nothing else.
\<close>

theorem memmove_u_ok:
  assumes "0 \<le> n" and "unat src + nat n \<le> 2 ^ 64" and "unat dest + nat n \<le> 2 ^ 64"
  shows "\<exists>m'. memmove_u dest src n m = Some (dest, m')
     \<and> load_bytes m' dest (nat n) = load_bytes m src (nat n)
     \<and> (\<forall>a. unat a < unat dest \<or> unat dest + nat n \<le> unat a \<longrightarrow> m' a = m a)"
proof -
  let ?m = "paste dest (load_bytes m src (nat n)) m"
  have "load_bytes ?m dest (nat n) = load_bytes m src (nat n)"
    using load_paste [of "load_bytes m src (nat n)" dest m] assms(2) by simp
  moreover have "?m a = m a" if "unat a < unat dest \<or> unat dest + nat n \<le> unat a" for a
  proof (rule paste_other)
    fix i assume "i < length (load_bytes m src (nat n))"
    then have "unat (dest + word_of_nat i) = unat dest + i" "i < nat n"
      using assms(3) by (simp_all add: unat_word_ariths unat_of_nat_small)
    with that show "a \<noteq> dest + word_of_nat i" by auto
  qed
  ultimately show ?thesis using memmove_u_result [OF assms] by blast
qed

theorem memmove_u_ok_witness:
  "\<exists>m'. memmove_u 0x1001 0x1000 3 (\<lambda>a. ucast a) = Some (0x1001, m') \<and> load_bytes m' 0x1001 3 = [0, 1, 2]"
proof -
  have r: "load_bytes (\<lambda>a. ucast a) 0x1000 3 = ([0, 1, 2] :: u8 list)"
    by (simp add: load_bytes_def numeral_3_eq_3)
  with memmove_u_ok [of 3 "0x1000" "0x1001" "\<lambda>a. ucast a"] show ?thesis by auto
qed

text \<open>
  C28. \<^verbatim>\<open>strtok\<close> refines the splitting of a text into words: the calls return, in order, the addresses of the maximal
  runs of bytes that are no delimiter, each of them now a string of its own, and then \<^verbatim>\<open>NULL\<close>; nothing outside
  the text is written.
\<close>

theorem strtok_ok:
  assumes s: "str_at m a bs" and dl: "str_at m delim ds"
    and apart: "unat delim + length ds < unat a \<or> unat a + length bs < unat delim"
  shows "\<exists>ps m'. strtok_all a delim (nxt, m) = Some (ps, m') \<and> list_all2 (str_at m') ps (words (set ds) bs)
     \<and> (\<forall>x. unat x < unat a \<or> unat a + length bs < unat x \<longrightarrow> m' x = m x)"
proof (cases "words (set ds) bs")
  case Nil
  have "strtok a delim (nxt, m) = Some (0, 0, m)" by (rule strtok_end_of_text [OF s dl _ Nil]) (use str_atD(2) [OF s] in simp)
  then show ?thesis unfolding Nil strtok_all_def by (simp add: strtok_rest.simps)
next
  case (Cons w ws)
  from strtok_word [OF s dl _ Cons, of a nxt] obtain p nxt' m1 where
    r: "strtok a delim (nxt, m) = Some (p, nxt', m1)" "str_at m1 p w" "unat a \<le> unat p" "unat p + length w \<le> unat a + length bs"
      "\<forall>x. unat x < unat p + length w \<or> unat a + length bs < unat x \<longrightarrow> m1 x = m x"
      "to_cut (set ds) nxt' m1 (unat p + length w + 1) (unat a + length bs) ws"
    using str_atD(2) [OF s] by auto
  have d1: "str_at m1 delim ds" using dl by (rule str_at_cong) (use r(3,5) apart in auto)
  have ap: "unat delim + length ds < unat p + length w + 1 \<or> unat a + length bs < unat delim" using apart r(3) by auto
  from strtok_rest_words [OF r(6) d1 ap str_atD(2) [OF r(2)]] obtain ps m' where
    q: "strtok_rest delim p (nxt', m1) = Some (p # ps, m')" "list_all2 (str_at m') ps ws"
      "\<forall>x. unat x < unat p + length w + 1 \<or> unat a + length bs < unat x \<longrightarrow> m' x = m1 x" by blast
  have "str_at m' p w" using r(2) by (rule str_at_cong) (use q(3) in auto)
  with q r(1,3,5) show ?thesis unfolding Cons strtok_all_def by (intro exI [of _ "p # ps"] exI [of _ m']) auto
qed

text \<open>The text \<^verbatim>\<open>" a b"\<close> and the delimiter \<^verbatim>\<open>" "\<close>.\<close>

definition words_example :: bytes where
  "words_example = (\<lambda>_. 0)(0x100 := 0x20, 0x101 := 0x61, 0x102 := 0x20, 0x103 := 0x62, 0x200 := 0x20)"

theorem strtok_ok_witness:
  "\<exists>p q m'. strtok_all 0x100 0x200 (0, words_example) = Some ([p, q], m') \<and> cstr m' p [0x61] \<and> cstr m' q [0x62]"
proof -
  have s: "str_at words_example 0x100 [0x20, 0x61, 0x20, 0x62]" and d: "str_at words_example 0x200 [0x20]"
    by (simp_all add: str_at_def words_example_def)
  have w: "words {0x20} [0x20, 0x61, 0x20, 0x62] = [[0x61], [0x62 :: u8]]"
    by (simp add: words_skip words_word)
  show ?thesis using strtok_ok [OF s d, of 0] by (auto simp: w list_all2_Cons2 str_at_def)
qed

end
