(* ===== verification/Stdio.thy ===== *)
theory Stdio
  imports Term Task
begin

text \<open>
  The output and input of the user programs, \<^verbatim>\<open>src/userspace/libc/stdio.c\<close>: characters are collected in a buffer
  of 24 bytes, which travels to the terminal in the three values of one message. The answers of the system to
  \<^verbatim>\<open>sys_ipc_recv\<close> and \<^verbatim>\<open>sys_ipc_send\<close> are lists in the state; a call that finds its list empty is still waiting
  and has the result \<open>None\<close>, as has an access outside the buffer.
\<close>

subsection \<open>The state and the system calls\<close>

record stdio =
  terminal_pid :: int
  out_buf :: "u8 list"
  buf_idx :: int
  recvs :: "message option list"
  acks :: "int list"
  sends :: "(int \<times> int \<times> u64 \<times> u64 \<times> u64 \<times> int) list"

definition BATCH_SIZE :: int where "BATCH_SIZE = 24"
definition EOF :: u8 where "EOF = - 1"
definition MSG_HANDSHAKE :: u32 where "MSG_HANDSHAKE = 0x111"
definition MSG_STDOUT :: int where "MSG_STDOUT = 600"
definition MSG_STDOUT_BATCH :: int where "MSG_STDOUT_BATCH = 601"
definition MSG_STDOUT_CLEAR :: int where "MSG_STDOUT_CLEAR = 602"
definition KEY_EVENT :: u32 where "KEY_EVENT = 500"
definition QUIT_REQUEST :: u32 where "QUIT_REQUEST = 0xDEAD"

text \<open>Every call of \<^verbatim>\<open>sys_ipc_send\<close> is recorded with its answer.\<close>

definition send :: "int \<Rightarrow> int \<Rightarrow> u64 \<Rightarrow> u64 \<Rightarrow> u64 \<Rightarrow> 'a stdio_scheme \<Rightarrow> (int \<times> 'a stdio_scheme) option" where
  "send dest ty d1 d2 d3 s =
     (case acks s of [] \<Rightarrow> None
      | r # rs \<Rightarrow> Some (r, s\<lparr>acks := rs, sends := sends s @ [(dest, ty, d1, d2, d3, r)]\<rparr>))"

text \<open>The structure at \<^verbatim>\<open>&msg\<close> changes only when there is a message.\<close>

definition recv :: "message \<Rightarrow> 'a stdio_scheme \<Rightarrow> (int \<times> message \<times> 'a stdio_scheme) option" where
  "recv msg s =
     (case recvs s of [] \<Rightarrow> None
      | None # ms \<Rightarrow> Some (-1, msg, s\<lparr>recvs := ms\<rparr>)
      | Some m # ms \<Rightarrow> Some (0, m, s\<lparr>recvs := ms\<rparr>))"

subsection \<open>The functions\<close>

partial_function (option) stdio_init :: "message \<Rightarrow> 'a stdio_scheme \<Rightarrow> 'a stdio_scheme option" where
  "stdio_init msg s =
     do {
       (res, msg, s) \<leftarrow> recv msg s;
       if res = 0 \<and> mtype msg = MSG_HANDSHAKE \<and> data1 msg = 0 then Some (s\<lparr>terminal_pid := sint (sender_pid msg)\<rparr>)
       else if res = 0 \<and> mtype msg = MSG_HANDSHAKE \<and> data1 msg \<noteq> 0
       then Some (s\<lparr>terminal_pid := sint (ucast (data1 msg) :: u32)\<rparr>)
       else stdio_init msg s
     }"

partial_function (option) send_retry :: "int \<Rightarrow> int \<Rightarrow> u64 \<Rightarrow> u64 \<Rightarrow> u64 \<Rightarrow> 'a stdio_scheme \<Rightarrow> 'a stdio_scheme option" where
  "send_retry dest ty d1 d2 d3 s =
     do {
       (ret, s) \<leftarrow> send dest ty d1 d2 d3 s;
       if ret \<noteq> 0 then send_retry dest ty d1 d2 d3 s else Some s
     }"

definition pack :: "u8 list \<Rightarrow> nat \<Rightarrow> u64" where
  "pack buf i = le_val (take 8 (drop (8 * i) buf))"

definition fflush_internal :: "'a stdio_scheme \<Rightarrow> 'a stdio_scheme option" where
  "fflush_internal s =
     (if buf_idx s = 0 then Some s
      else if terminal_pid s = -1 then Some s
      else do {
        buf \<leftarrow> foldM (\<lambda>i. poke i 0) [buf_idx s..BATCH_SIZE - 1] (out_buf s);
        let s = s\<lparr>out_buf := buf\<rparr>;
        s \<leftarrow> send_retry (terminal_pid s) MSG_STDOUT_BATCH (pack buf 0) (pack buf 1) (pack buf 2) s;
        buf \<leftarrow> foldM (\<lambda>i. poke i 0) [0..BATCH_SIZE - 1] (out_buf s);
        Some (s\<lparr>buf_idx := 0, out_buf := buf\<rparr>)
      })"

definition putchar :: "u8 \<Rightarrow> 'a stdio_scheme \<Rightarrow> 'a stdio_scheme option" where
  "putchar c s =
     do {
       buf \<leftarrow> poke (buf_idx s) c (out_buf s);
       let s = s\<lparr>out_buf := buf, buf_idx := buf_idx s + 1\<rparr>;
       if buf_idx s \<ge> BATCH_SIZE \<or> c = 0x0A then fflush_internal s else Some s
     }"

definition fflush :: "'a stdio_scheme \<Rightarrow> 'a stdio_scheme option" where
  "fflush s = fflush_internal s"

text \<open>\<open>msg\<close> starts with whatever the stack holds; a failed \<^verbatim>\<open>sys_ipc_recv\<close> leaves it so.\<close>

partial_function (option) getchar_loop :: "message \<Rightarrow> 'a stdio_scheme \<Rightarrow> (u8 \<times> 'a stdio_scheme) option" where
  "getchar_loop msg s =
     do {
       (res, msg, s) \<leftarrow> recv msg s;
       if res = 0 \<and> mtype msg = KEY_EVENT \<and> sint (sender_pid msg) = terminal_pid s then Some (ucast (data1 msg), s)
       else if mtype msg = QUIT_REQUEST then Some (EOF, s)
       else getchar_loop msg s
     }"

definition getchar :: "message \<Rightarrow> 'a stdio_scheme \<Rightarrow> (u8 \<times> 'a stdio_scheme) option" where
  "getchar stack s = do { s \<leftarrow> fflush_internal s; getchar_loop stack s }"

text \<open>A format that ends in a percent sign is read past its end.\<close>

fun printf_u :: "u8 list \<Rightarrow> u8 list list \<Rightarrow> 'a stdio_scheme \<Rightarrow> 'a stdio_scheme option" where
  "printf_u [] args s = Some s"
| "printf_u (c # cs) args s =
     (if c = 0x25 then
        (case cs of [] \<Rightarrow> None
         | d # ds \<Rightarrow>
             if d = 0x73 then
               (case args of [] \<Rightarrow> None
                | a # args \<Rightarrow> do { s \<leftarrow> foldM putchar a s; printf_u ds args s })
             else printf_u ds args s)
      else do { s \<leftarrow> putchar c s; printf_u cs args s })"

definition clear_screen :: "'a stdio_scheme \<Rightarrow> 'a stdio_scheme option" where
  "clear_screen s = map_option snd (send (terminal_pid s) MSG_STDOUT_CLEAR 0 0 0 s)"

subsection \<open>What the terminal gets\<close>

text \<open>The text of one message, as the terminal unpacks it, and the text of all accepted messages.\<close>

definition unpack :: "u64 \<Rightarrow> u64 \<Rightarrow> u64 \<Rightarrow> u8 list" where
  "unpack d1 d2 d3 = takeWhile (\<lambda>b. b \<noteq> 0) (le_bytes 8 d1 @ le_bytes 8 d2 @ le_bytes 8 d3)"

definition batch_texts :: "int \<Rightarrow> (int \<times> int \<times> u64 \<times> u64 \<times> u64 \<times> int) list \<Rightarrow> u8 list list" where
  "batch_texts to log = map (\<lambda>(p, ty, d1, d2, d3, r). unpack d1 d2 d3)
     (filter (\<lambda>(p, ty, d1, d2, d3, r). p = to \<and> ty = MSG_STDOUT_BATCH \<and> r = 0) log)"

definition pending :: "'a stdio_scheme \<Rightarrow> u8 list" where
  "pending s = take (nat (buf_idx s)) (out_buf s)"

definition printed :: "'a stdio_scheme \<Rightarrow> u8 list" where
  "printed s = concat (batch_texts (terminal_pid s) (sends s)) @ pending s"

definition stdio_ok :: "'a stdio_scheme \<Rightarrow> bool" where
  "stdio_ok s \<longleftrightarrow> length (out_buf s) = 25 \<and> 0 \<le> buf_idx s \<and> buf_idx s < 24 \<and> terminal_pid s \<noteq> -1 \<and> 0 \<notin> set (pending s)"

text \<open>How many more messages the receiver will take.\<close>

definition room :: "'a stdio_scheme \<Rightarrow> nat" where
  "room s = count_list (acks s) 0"

subsection \<open>Packing\<close>

lemma le_bytes_val: "length xs \<le> 8 \<Longrightarrow> le_bytes (length xs) (le_val xs) = xs"
proof (rule nth_equalityI)
  fix i assume "length xs \<le> 8" and "i < length (le_bytes (length xs) (le_val xs))"
  then have "i < length xs" "length xs \<le> 8" by simp_all
  then have "ucast (drop_bit (8 * i) (le_val xs)) = xs ! i"
  proof (induction xs arbitrary: i)
    case (Cons b bs)
    have v: "bit (le_val (b # bs)) n \<longleftrightarrow> n < 8 \<and> bit b n \<or> 8 \<le> n \<and> n < 64 \<and> bit (le_val bs) (n - 8)" for n
      by (auto simp: bit_simps dest: bit_imp_le_length)
    show ?case
    proof (cases i)
      case 0
      then show ?thesis by (intro bit_word_eqI) (simp add: bit_simps)
    next
      case (Suc j)
      with Cons.IH [of j] Cons.prems have IH: "ucast (drop_bit (8 * j) (le_val bs)) = bs ! j" by simp
      have "bit (ucast (drop_bit (8 * i) (le_val (b # bs))) :: u8) n = bit (ucast (drop_bit (8 * j) (le_val bs)) :: u8) n" if "n < 8" for n
      proof -
        have "8 * i + n = 8 * j + n + 8" "8 * i + n < 64" using that Suc Cons.prems by simp_all
        then show ?thesis using that by (simp only: bit_ucast_iff bit_drop_bit_eq comp_def v) simp
      qed
      then show ?thesis using Suc IH by (intro bit_word_eqI) simp
    qed
  qed simp
  then show "le_bytes (length xs) (le_val xs) ! i = xs ! i"
    using \<open>i < length xs\<close> by (simp add: le_bytes_def)
qed simp

lemma unpack_pack:
  assumes "24 \<le> length buf"
  shows "unpack (pack buf 0) (pack buf 1) (pack buf 2) = takeWhile (\<lambda>b. b \<noteq> 0) (take 24 buf)"
proof -
  have p: "le_bytes 8 (pack buf i) = take 8 (drop (8 * i) buf)" if "i < 3" for i
  proof -
    have len: "length (take 8 (drop (8 * i) buf)) = 8" using assms that by simp
    show ?thesis using le_bytes_val [of "take 8 (drop (8 * i) buf)"] unfolding len pack_def by simp
  qed
  have "take 24 buf = take 8 buf @ take 8 (drop 8 buf) @ take 8 (drop 16 buf)"
    using take_add [of 8 16 buf] take_add [of 8 8 "drop 8 buf"] by simp
  then show ?thesis using p [of 0] p [of 1] p [of 2] by (simp add: unpack_def)
qed

lemma foldM_fill:
  "k + n \<le> length xs \<Longrightarrow>
   foldM (\<lambda>i. poke i v) [int k..int (k + n) - 1] xs = Some (take k xs @ replicate n v @ drop (k + n) xs)"
proof (induction n arbitrary: k xs)
  case (Suc n)
  have "[int k..int (k + Suc n) - 1] = int k # [int (Suc k)..int (Suc k + n) - 1]"
    by (simp add: upto_rec1 add.commute)
  moreover have "take (Suc k) (xs[k := v]) = take k xs @ [v]" using Suc.prems by (simp add: take_Suc_conv_app_nth)
  ultimately show ?case using Suc.IH [of "Suc k" "xs[k := v]"] Suc.prems by (simp add: poke_def)
qed simp

lemma send_retry_ok:
  "0 < room s \<Longrightarrow>
   \<exists>fs rs. acks s = fs @ 0 # rs \<and> 0 \<notin> set fs \<and> send_retry p ty d1 d2 d3 s =
     Some (s\<lparr>acks := rs, sends := sends s @ map (\<lambda>r. (p, ty, d1, d2, d3, r)) fs @ [(p, ty, d1, d2, d3, 0)]\<rparr>)"
proof (induction "acks s" arbitrary: s)
  case Nil
  then show ?case by (simp add: room_def)
next
  case (Cons r rs)
  let ?s = "s\<lparr>acks := rs, sends := sends s @ [(p, ty, d1, d2, d3, r)]\<rparr>"
  have one: "send p ty d1 d2 d3 s = Some (r, ?s)" by (simp add: send_def Cons(2) [symmetric])
  show ?case
  proof (cases "r = 0")
    case True
    then show ?thesis using Cons(2) one by (intro exI [of _ "[]"] exI [of _ rs]) (subst send_retry.simps, simp)
  next
    case False
    then have "0 < room ?s" using Cons.prems Cons(2) [symmetric] by (simp add: room_def)
    with Cons(1) [of ?s] obtain fs rs' where i: "rs = fs @ 0 # rs'" "0 \<notin> set fs"
      "send_retry p ty d1 d2 d3 ?s = Some (?s\<lparr>acks := rs', sends := sends ?s @ map (\<lambda>r. (p, ty, d1, d2, d3, r)) fs @ [(p, ty, d1, d2, d3, 0)]\<rparr>)"
      by auto
    then show ?thesis using False Cons(2) one
      by (intro exI [of _ "r # fs"] exI [of _ rs']) (subst send_retry.simps, simp)
  qed
qed

text \<open>One flush delivers exactly what was pending.\<close>

definition flushed :: "'a stdio_scheme \<Rightarrow> 'a stdio_scheme \<Rightarrow> bool" where
  "flushed s s' \<longleftrightarrow> stdio_ok s' \<and> pending s' = [] \<and> printed s' = printed s \<and> terminal_pid s' = terminal_pid s
     \<and> recvs s' = recvs s \<and> room s \<le> room s' + 1 \<and> stdio.more s' = stdio.more s"

lemma fflush_ok:
  assumes len: "length (out_buf s) = 25" and i: "0 \<le> buf_idx s" "buf_idx s \<le> 24" and t: "terminal_pid s \<noteq> -1"
    and nz: "0 \<notin> set (pending s)" and room: "0 < room s \<or> buf_idx s = 0"
  shows "\<exists>s'. fflush_internal s = Some s' \<and> flushed s s'"
proof (cases "buf_idx s = 0")
  case True
  then show ?thesis using assms by (simp add: fflush_internal_def flushed_def stdio_ok_def pending_def)
next
  case False
  define k where "k = nat (buf_idx s)"
  have k: "buf_idx s = int k" "k \<le> 24" "k \<noteq> 0" using i False by (simp_all add: k_def)
  let ?buf = "take k (out_buf s) @ replicate (24 - k) 0 @ drop 24 (out_buf s)"
  have fill: "foldM (\<lambda>i. poke i 0) [buf_idx s..BATCH_SIZE - 1] (out_buf s) = Some ?buf"
    using foldM_fill [of k "24 - k" "out_buf s" 0] k len by (simp add: BATCH_SIZE_def)
  have lb: "length ?buf = 25" using k len by simp
  have up: "unpack (pack ?buf 0) (pack ?buf 1) (pack ?buf 2) = pending s"
  proof -
    have t24: "take 24 ?buf = pending s @ replicate (24 - k) 0" using k len by (simp add: pending_def)
    have tw: "takeWhile (\<lambda>b. b \<noteq> 0) (pending s @ replicate (24 - k) (0 :: u8)) = pending s"
      using nz by (subst takeWhile_append2) (auto simp: takeWhile_eq_Nil_iff)
    have "24 \<le> length ?buf" unfolding lb by simp
    from unpack_pack [OF this] show ?thesis unfolding t24 tw .
  qed
  let ?s = "s\<lparr>out_buf := ?buf\<rparr>" and ?e = "(terminal_pid s, MSG_STDOUT_BATCH, pack ?buf 0, pack ?buf 1, pack ?buf 2)"
  from send_retry_ok [of ?s "terminal_pid s" MSG_STDOUT_BATCH "pack ?buf 0" "pack ?buf 1" "pack ?buf 2"] room False
  obtain fs rs where r: "acks s = fs @ 0 # rs" "0 \<notin> set fs"
    "send_retry (terminal_pid s) MSG_STDOUT_BATCH (pack ?buf 0) (pack ?buf 1) (pack ?buf 2) ?s =
       Some (?s\<lparr>acks := rs, sends := sends s @ map (\<lambda>r. (terminal_pid s, MSG_STDOUT_BATCH, pack ?buf 0, pack ?buf 1, pack ?buf 2, r)) fs
          @ [(terminal_pid s, MSG_STDOUT_BATCH, pack ?buf 0, pack ?buf 1, pack ?buf 2, 0)]\<rparr>)"
    by (auto simp: room_def)
  have clear: "foldM (\<lambda>i. poke i 0) [0..BATCH_SIZE - 1] ?buf = Some (replicate 24 0 @ drop 24 ?buf)"
    using foldM_fill [of 0 24 ?buf 0] lb by (simp add: BATCH_SIZE_def)
  let ?t = "?s\<lparr>acks := rs, sends := sends s @ map (\<lambda>r. (terminal_pid s, MSG_STDOUT_BATCH, pack ?buf 0, pack ?buf 1, pack ?buf 2, r)) fs
          @ [(terminal_pid s, MSG_STDOUT_BATCH, pack ?buf 0, pack ?buf 1, pack ?buf 2, 0)],
        buf_idx := 0, out_buf := replicate 24 0 @ drop 24 ?buf\<rparr>"
  have run: "fflush_internal s = Some ?t"
    using False t fill r(3) clear by (simp add: fflush_internal_def Let_def)
  have none: "filter (\<lambda>(p, ty, d1, d2, d3, r). p = terminal_pid s \<and> ty = MSG_STDOUT_BATCH \<and> r = 0)
      (map (\<lambda>r. (terminal_pid s, MSG_STDOUT_BATCH, pack ?buf 0, pack ?buf 1, pack ?buf 2, r)) fs) = []"
    using r(2) by (auto simp: filter_empty_conv)
  have "batch_texts (terminal_pid s) (sends ?t) = batch_texts (terminal_pid s) (sends s) @ [pending s]"
    using up none by (simp add: batch_texts_def)
  moreover have "count_list fs 0 = 0" using r(2) by (simp add: count_list_0_iff)
  ultimately have "flushed s ?t"
    using t r(1) lb by (simp add: flushed_def stdio_ok_def printed_def pending_def room_def)
  with run show ?thesis by blast
qed

subsection \<open>Printing\<close>

definition extends :: "u8 list \<Rightarrow> 'a stdio_scheme \<Rightarrow> 'a stdio_scheme \<Rightarrow> bool" where
  "extends str s s' \<longleftrightarrow> stdio_ok s' \<and> printed s' = printed s @ str \<and> terminal_pid s' = terminal_pid s
     \<and> recvs s' = recvs s \<and> room s \<le> room s' + length str \<and> stdio.more s' = stdio.more s"

lemma putchar_ok:
  assumes ok: "stdio_ok s" and c: "c \<noteq> 0" and room: "0 < room s"
  shows "\<exists>s'. putchar c s = Some s' \<and> extends [c] s s'"
proof -
  define k where "k = nat (buf_idx s)"
  have k: "buf_idx s = int k" "k < 24" and len: "length (out_buf s) = 25" and t: "terminal_pid s \<noteq> -1" and nz: "0 \<notin> set (pending s)"
    using ok by (auto simp: stdio_ok_def k_def)
  let ?s = "s\<lparr>out_buf := (out_buf s)[k := c], buf_idx := int k + 1\<rparr>"
  have run: "putchar c s = (if int k + 1 \<ge> BATCH_SIZE \<or> c = 0x0A then fflush_internal ?s else Some ?s)"
    using k len by (simp add: putchar_def poke_def Let_def)
  have p: "pending ?s = pending s @ [c]"
    using k len by (simp add: pending_def nat_add_distrib take_Suc_conv_app_nth)
  have pr: "printed ?s = printed s @ [c]" by (simp add: printed_def p)
  have nz': "0 \<notin> set (pending ?s)" using nz c p by simp
  show ?thesis
  proof (cases "int k + 1 \<ge> BATCH_SIZE \<or> c = 0x0A")
    case True
    have "\<exists>s'. fflush_internal ?s = Some s' \<and> flushed ?s s'"
      by (rule fflush_ok) (use len k t nz' room in \<open>simp_all add: room_def\<close>)
    then obtain s' where f: "fflush_internal ?s = Some s'" "flushed ?s s'" by blast
    then have "extends [c] s s'" using pr by (simp add: flushed_def extends_def room_def)
    with f(1) run True show ?thesis by simp
  next
    case False
    then have "extends [c] s ?s" using pr nz' len k t by (simp add: extends_def stdio_ok_def room_def BATCH_SIZE_def)
    with run False show ?thesis by simp
  qed
qed

lemma newline_flushes:
  assumes "stdio_ok s" and "0 < room s"
  shows "\<exists>s'. putchar 0x0A s = Some s' \<and> extends [0x0A] s s' \<and> pending s' = []"
proof -
  obtain s' where s': "putchar 0x0A s = Some s'" "extends [0x0A] s s'" using putchar_ok [OF assms(1) _ assms(2), of "0x0A"] by auto
  then obtain t where "fflush_internal t = Some s'" "terminal_pid t = terminal_pid s" "buf_idx t = buf_idx s + 1"
    by (auto simp: putchar_def Let_def split: Option.bind_splits)
  then have "buf_idx s' = 0"
    using assms(1) by (auto simp: fflush_internal_def stdio_ok_def Let_def split: Option.bind_splits if_splits)
  with s' show ?thesis by (simp add: pending_def)
qed

lemma extends_trans: "extends a s s' \<Longrightarrow> extends b s' s'' \<Longrightarrow> extends (a @ b) s s''"
  by (simp add: extends_def)

lemma extends_refl: "stdio_ok s \<Longrightarrow> extends [] s s"
  by (simp add: extends_def)

lemma putchars_ok:
  "stdio_ok s \<Longrightarrow> 0 \<notin> set str \<Longrightarrow> length str \<le> room s \<Longrightarrow> \<exists>s'. foldM putchar str s = Some s' \<and> extends str s s'"
proof (induction str arbitrary: s)
  case Nil
  then show ?case by (simp add: extends_refl)
next
  case (Cons c cs)
  have "\<exists>s1. putchar c s = Some s1 \<and> extends [c] s s1" by (rule putchar_ok) (use Cons.prems in auto)
  then obtain s1 where s1: "putchar c s = Some s1" "extends [c] s s1" by blast
  have "\<exists>s2. foldM putchar cs s1 = Some s2 \<and> extends cs s1 s2"
    by (rule Cons.IH) (use Cons.prems s1(2) in \<open>auto simp: extends_def\<close>)
  then obtain s2 where "foldM putchar cs s1 = Some s2" "extends cs s1 s2" by blast
  with s1 extends_trans [OF s1(2)] show ?case by fastforce
qed

text \<open>The text that a format stands for.\<close>

fun expand :: "u8 list \<Rightarrow> u8 list list \<Rightarrow> u8 list option" where
  "expand [] args = Some []"
| "expand (c # cs) args =
     (if c = 0x25 then
        (case cs of [] \<Rightarrow> None
         | d # ds \<Rightarrow>
             if d = 0x73 then (case args of [] \<Rightarrow> None | a # args \<Rightarrow> map_option ((@) a) (expand ds args))
             else expand ds args)
      else map_option ((#) c) (expand cs args))"

lemma printf_expand: "expand fmt args = Some str \<Longrightarrow> printf_u fmt args s = foldM putchar str s"
proof (induction fmt args arbitrary: str s rule: expand.induct)
  case (2 c cs args)
  show ?case
  proof (cases "c = 0x25")
    case True
    with "2.prems" obtain d ds where cs: "cs = d # ds" by (cases cs) auto
    show ?thesis
    proof (cases "d = 0x73")
      case True
      with \<open>c = 0x25\<close> cs "2.prems" obtain a as t where a: "args = a # as" "expand ds as = Some t" "str = a @ t"
        by (cases args) auto
      with "2.IH"(1) [OF \<open>c = 0x25\<close> cs True] True \<open>c = 0x25\<close> cs show ?thesis
        by (auto simp: foldM_append intro: Option.bind_cong)
    next
      case False
      with "2.IH"(2) [OF \<open>c = 0x25\<close> cs False] \<open>c = 0x25\<close> cs "2.prems" show ?thesis by simp
    qed
  next
    case False
    with "2.prems" obtain t where "expand cs args = Some t" "str = c # t" by auto
    with "2.IH"(3) [OF False] False show ?thesis by (auto intro: Option.bind_cong)
  qed
qed simp

text \<open>Waiting for a key: the first message that ends the wait.\<close>

definition ends_wait :: "'a stdio_scheme \<Rightarrow> message \<Rightarrow> bool" where
  "ends_wait s m \<longleftrightarrow> mtype m = KEY_EVENT \<and> sint (sender_pid m) = terminal_pid s \<or> mtype m = QUIT_REQUEST"

lemma getchar_loop_ok:
  assumes "recvs s = ms @ Some m # rest" and "\<forall>x. Some x \<in> set ms \<longrightarrow> \<not> ends_wait s x" and "ends_wait s m"
    and "mtype stack \<noteq> QUIT_REQUEST"
  shows "getchar_loop stack s = Some (if mtype m = KEY_EVENT then ucast (data1 m) else EOF, s\<lparr>recvs := rest\<rparr>)"
  using assms
proof (induction ms arbitrary: s stack)
  case Nil
  then show ?case
    by (subst getchar_loop.simps) (auto simp: recv_def ends_wait_def KEY_EVENT_def QUIT_REQUEST_def)
next
  case (Cons x ms)
  let ?s = "s\<lparr>recvs := ms @ Some m # rest\<rparr>"
  have e: "ends_wait ?s = ends_wait s" by (simp add: fun_eq_iff ends_wait_def)
  show ?case
  proof (cases x)
    case None
    with Cons.IH [of ?s stack] Cons.prems e show ?thesis
      by (subst getchar_loop.simps) (simp add: recv_def)
  next
    case (Some y)
    then have y: "\<not> ends_wait s y" using Cons.prems(2) by simp
    with Cons.IH [of ?s y] Cons.prems e Some show ?thesis
      by (subst getchar_loop.simps) (auto simp: recv_def ends_wait_def)
  qed
qed

subsection \<open>Properties\<close>

lemma printf_delivers:
  assumes "stdio_ok s" and "expand fmt args = Some str" and "0 \<notin> set str" and "length str < room s"
  shows "\<exists>s'. printf_u fmt args s \<bind> fflush = Some s' \<and> stdio_ok s' \<and> pending s' = []
     \<and> concat (batch_texts (terminal_pid s) (sends s')) = printed s @ str"
proof -
  obtain s1 where s1: "printf_u fmt args s = Some s1" "extends str s s1"
    using printf_expand [OF assms(2), of s] putchars_ok [OF assms(1,3)] assms(4) by auto
  have "\<exists>s'. fflush_internal s1 = Some s' \<and> flushed s1 s'"
    by (rule fflush_ok) (use s1(2) assms(4) in \<open>auto simp: extends_def stdio_ok_def\<close>)
  then obtain s2 where "fflush_internal s1 = Some s2" "flushed s1 s2" by blast
  with s1 show ?thesis by (auto simp: fflush_def flushed_def extends_def printed_def)
qed

text \<open>
  C27. What a program prints arrives at its terminal: after \<^verbatim>\<open>printf\<close> and a flush the texts of the accepted messages, as
  the terminal unpacks them, put together are what was printed before followed by the expanded format, however
  often the receiver's queue was full in between.
\<close>

theorem printf_arrives:
  assumes "stdio_ok s" and "expand fmt args = Some str" and "0 \<notin> set str" and "length str < room s"
  shows "\<exists>s'. printf_u fmt args s \<bind> fflush = Some s' \<and> stdio_ok s' \<and> pending s' = []
     \<and> concat (batch_texts (terminal_pid s) (sends s')) = printed s @ str"
  by (rule printf_delivers [OF assms])

lemma getchar_delivers:
  assumes "stdio_ok s" and "0 < room s" and "recvs s = ms @ Some m # rest"
    and "\<forall>x. Some x \<in> set ms \<longrightarrow> \<not> ends_wait s x" and "ends_wait s m" and "mtype stack \<noteq> QUIT_REQUEST"
  shows "\<exists>s'. getchar stack s = Some (if mtype m = KEY_EVENT then ucast (data1 m) else EOF, s') \<and> stdio_ok s'
     \<and> recvs s' = rest \<and> pending s' = [] \<and> concat (batch_texts (terminal_pid s) (sends s')) = printed s
     \<and> terminal_pid s' = terminal_pid s \<and> room s \<le> room s' + 1 \<and> stdio.more s' = stdio.more s"
proof -
  have "\<exists>s'. fflush_internal s = Some s' \<and> flushed s s'"
    by (rule fflush_ok) (use assms(1,2) in \<open>auto simp: stdio_ok_def\<close>)
  then obtain s1 where s1: "fflush_internal s = Some s1" "flushed s s1" by blast
  have e: "ends_wait s1 = ends_wait s" using s1(2) by (simp add: fun_eq_iff ends_wait_def flushed_def)
  have "getchar_loop stack s1 = Some (if mtype m = KEY_EVENT then ucast (data1 m) else EOF, s1\<lparr>recvs := rest\<rparr>)"
    by (rule getchar_loop_ok) (use assms s1(2) e in \<open>simp_all add: flushed_def\<close>)
  with s1 show ?thesis by (auto simp: getchar_def flushed_def stdio_ok_def pending_def printed_def room_def)
qed

text \<open>
  \<^verbatim>\<open>getchar\<close> first delivers all output, then returns the first key of its terminal, or \<^verbatim>\<open>EOF\<close> for a request to
  quit, whatever other messages and empty polls come before.
\<close>

theorem getchar_ok:
  assumes "stdio_ok s" and "0 < room s" and "recvs s = ms @ Some m # rest"
    and "\<forall>x. Some x \<in> set ms \<longrightarrow> \<not> ends_wait s x" and "ends_wait s m" and "mtype stack \<noteq> QUIT_REQUEST"
  shows "\<exists>s'. getchar stack s = Some (if mtype m = KEY_EVENT then ucast (data1 m) else EOF, s') \<and> stdio_ok s'
     \<and> recvs s' = rest \<and> pending s' = [] \<and> concat (batch_texts (terminal_pid s) (sends s')) = printed s"
  using getchar_delivers [OF assms] by blast

text \<open>
  Without a terminal nothing empties the buffer: from an empty buffer the 26th character is written behind its end.
\<close>

theorem putchar_overruns:
  assumes "terminal_pid s = -1" and "length (out_buf s) = 25" and "buf_idx s = 0" and "26 \<le> length str"
  shows "foldM putchar str s = None"
proof -
  have step: "\<exists>s'. foldM putchar xs s = Some s' \<and> terminal_pid s' = -1 \<and> length (out_buf s') = 25 \<and> buf_idx s' = int (length xs)"
    if "length xs \<le> 25" for xs
    using that
  proof (induction xs rule: rev_induct)
    case Nil
    then show ?case using assms by simp
  next
    case (snoc c xs)
    then obtain s1 where s1: "foldM putchar xs s = Some s1" "terminal_pid s1 = -1" "length (out_buf s1) = 25"
      "buf_idx s1 = int (length xs)" by auto
    then have "\<exists>s2. putchar c s1 = Some s2 \<and> terminal_pid s2 = -1 \<and> length (out_buf s2) = 25 \<and> buf_idx s2 = int (length xs) + 1"
      using snoc.prems by (simp add: putchar_def poke_def Let_def fflush_internal_def)
    with s1 show ?case by (auto simp: foldM_append)
  qed
  obtain c where split: "str = take 25 str @ c # drop 26 str"
    using assms(4) id_take_nth_drop [of 25 str] by auto
  obtain s1 where "foldM putchar (take 25 str) s = Some s1" "length (out_buf s1) = 25" "buf_idx s1 = 25"
    using step [of "take 25 str"] assms(4) by (auto simp: min_def)
  then show ?thesis by (subst split) (simp add: foldM_append putchar_def poke_def)
qed

subsection \<open>An example\<close>

definition stdio_example :: stdio where
  "stdio_example = \<lparr>terminal_pid = 7, out_buf = replicate 25 0, buf_idx = 0,
     recvs = [None, Some \<lparr>sender_pid = 7, mtype = 500, data1 = 0x61, data2 = 0, data3 = 0\<rparr>],
     acks = [-2, 0, 0, 0, -2, 0, 0], sends = []\<rparr>"

lemma stdio_example_ok: "stdio_ok stdio_example" "room stdio_example = 5" "printed stdio_example = []"
  by (simp_all add: stdio_example_def stdio_ok_def room_def pending_def printed_def batch_texts_def)

theorem printf_arrives_witness:
  "\<exists>s'. printf_u [0x25, 0x73, 0x0A] [[0x6C, 0x73]] stdio_example \<bind> fflush = Some s'
     \<and> concat (batch_texts 7 (sends s')) = [0x6C, 0x73, 0x0A]"
proof -
  have e: "expand [0x25, 0x73, 0x0A] [[0x6C, 0x73]] = Some [0x6C, 0x73, 0x0A]" by simp
  have t: "terminal_pid stdio_example = 7" by (simp add: stdio_example_def)
  show ?thesis using printf_arrives [OF stdio_example_ok(1) e] by (auto simp: stdio_example_ok(2,3) t)
qed

theorem getchar_ok_witness:
  "\<exists>s'. getchar \<lparr>sender_pid = 0, mtype = 0, data1 = 0, data2 = 0, data3 = 0\<rparr> stdio_example = Some (0x61, s')"
proof -
  let ?m = "\<lparr>sender_pid = 7, mtype = 500, data1 = 0x61, data2 = 0, data3 = 0\<rparr>"
  have r: "recvs stdio_example = [None] @ Some ?m # []" by (simp add: stdio_example_def)
  have e: "ends_wait stdio_example ?m" by (simp add: ends_wait_def stdio_example_def KEY_EVENT_def)
  from getchar_ok [OF stdio_example_ok(1) _ r _ e, where stack = "\<lparr>sender_pid = 0, mtype = 0, data1 = 0, data2 = 0, data3 = 0\<rparr>"]
  show ?thesis
    by (auto simp: stdio_example_ok KEY_EVENT_def QUIT_REQUEST_def)
qed

theorem putchar_overruns_witness:
  "foldM putchar (replicate 26 0x61) (stdio_example\<lparr>terminal_pid := -1\<rparr>) = None"
  by (rule putchar_overruns) (simp_all add: stdio_example_def)

end
