(* ===== verification/TermMain.thy ===== *)
theory TermMain
  imports Stdio
begin

unbundle bit_operations_syntax

text \<open>
  The terminal program, \<^verbatim>\<open>src/userspace/terminal/main.c\<close>: it asks the window manager for a window, starts the
  shell, and turns messages into terminal operations. The static \<^verbatim>\<open>gfx\<close> is the surface inside the terminal, which
  points to it. Outgoing calls are recorded; the answers of the system are the parameter \<open>os\<close>.
\<close>

subsection \<open>State\<close>

datatype term_call = TSend int int u64 u64 u64 | TExec "u8 list list"

record term_main =
  tstate :: term_t
  font :: "u8 list"
  shell_pid :: int
  running :: bool
  initialized :: bool
  exited :: "int option"
  tcalls :: "term_call list"

text \<open>Files, whether \<^verbatim>\<open>malloc\<close> succeeds, the answer of \<^verbatim>\<open>sys_exec\<close>, and the pixels at a shared address.\<close>

record term_os =
  os_files :: os_files
  os_mem_ok :: bool
  os_exec :: int
  os_pixels :: "u64 \<Rightarrow> u32 list"

definition tcall :: "term_call \<Rightarrow> term_main \<Rightarrow> term_main" where
  "tcall c s = s\<lparr>tcalls := tcalls s @ [c]\<rparr>"

definition sys_exit_t :: "int \<Rightarrow> term_main \<Rightarrow> term_main" where
  "sys_exit_t code s = s\<lparr>exited := Some code\<rparr>"

definition REQUEST_WINDOW :: int where "REQUEST_WINDOW = 100"
definition WINDOW_CREATED :: u32 where "WINDOW_CREATED = 200"
definition WINDOW_RESIZE :: u32 where "WINDOW_RESIZE = 201"
definition BUFFER_UPDATE :: int where "BUFFER_UPDATE = 300"

subsection \<open>Operations\<close>

definition hi_lo :: "int \<Rightarrow> int \<Rightarrow> u64" where
  "hi_lo x y = push_bit 32 (word_of_int x) OR ucast (word_of_int y :: u32)"

definition process_term_update :: "term_main \<Rightarrow> term_main" where
  "process_term_update s =
     (let u = last_update (tstate s) in
      if dirty u then
        let s = tcall (TSend 1 BUFFER_UPDATE (hi_lo (rx u) (ry u)) (hi_lo (rw u) (rh u)) 0) s
        in s\<lparr>tstate := (tstate s)\<lparr>last_update := u\<lparr>dirty := False\<rparr>\<rparr>\<rparr>
      else s)"

definition write_text :: "term_os \<Rightarrow> u8 list \<Rightarrow> term_main \<Rightarrow> term_main option" where
  "write_text os bs s = do { (r, t) \<leftarrow> term_write (os_files os) bs (tstate s); Some (s\<lparr>tstate := t\<rparr>) }"

definition as_int :: "u64 \<Rightarrow> int" where
  "as_int d = sint (ucast d :: u32)"

definition start_window :: "term_os \<Rightarrow> message \<Rightarrow> term_main \<Rightarrow> term_main option" where
  "start_window os msg s =
     (let fb = (if data3 msg = 0 then None else Some (os_pixels os (data3 msg)));
          (err, g) = gfx_init (Some (font s)) fb (as_int (data1 msg)) (as_int (data2 msg)) (gfx (tstate s))
      in if err \<noteq> 0 then Some (sys_exit_t 2 s)
         else do {
           t \<leftarrow> term_init (os_mem_ok os) g (tstate s);
           let s = tcall (TExec [literal ''/'', literal ''/bin/idpshell.elf'']) (s\<lparr>tstate := t\<rparr>);
           let s = s\<lparr>shell_pid := os_exec os\<rparr>;
           let s = tcall (TSend (shell_pid s) (uint MSG_HANDSHAKE) 0 0 0) s;
           let s = s\<lparr>initialized := True\<rparr>;
           s \<leftarrow> write_text os (literal ''libgfx '') s;
           s \<leftarrow> write_text os (literal ''--> idpterm '') s;
           Some (process_term_update (process_term_update s))
         })"

definition resize_window :: "term_os \<Rightarrow> int \<Rightarrow> int \<Rightarrow> term_main \<Rightarrow> term_main option" where
  "resize_window os w h s =
     (let t = tstate s; t = t\<lparr>gfx := (gfx t)\<lparr>width := w, height := h, pitch := w\<rparr>\<rparr> in
      do {
        t \<leftarrow> term_resize (os_mem_ok os) w h t;
        Some (tcall (TSend 1 BUFFER_UPDATE 0 (push_bit 32 (word_of_int w) OR word_of_int h) 0) (s\<lparr>tstate := t\<rparr>))
      })"

definition handle_msg :: "term_os \<Rightarrow> message \<Rightarrow> term_main \<Rightarrow> term_main option" where
  "handle_msg os msg s =
     (if mtype msg = QUIT_REQUEST then
        let s = (if shell_pid s > 0 then tcall (TSend (shell_pid s) (uint QUIT_REQUEST) 0 0 0) s else s)
        in Some (s\<lparr>running := False\<rparr>)
      else if mtype msg = WINDOW_CREATED \<and> \<not> initialized s then start_window os msg s
      else if \<not> initialized s then Some s
      else if mtype msg = WINDOW_RESIZE then resize_window os (as_int (data1 msg)) (as_int (data2 msg)) s
      else if mtype msg = KEY_EVENT then
        Some (if shell_pid s > 0 then tcall (TSend (shell_pid s) (uint KEY_EVENT) (data1 msg) 0 0) s else s)
      else if sint (mtype msg) = MSG_STDOUT then
        map_option process_term_update (write_text os (takeWhile (\<lambda>b. b \<noteq> 0) [ucast (data1 msg)]) s)
      else if sint (mtype msg) = MSG_STDOUT_BATCH then
        map_option process_term_update (write_text os (unpack (data1 msg) (data2 msg) (data3 msg)) s)
      else if sint (mtype msg) = MSG_STDOUT_CLEAR then
        do { t \<leftarrow> term_clear (tstate s); Some (s\<lparr>tstate := t\<rparr>) }
      else Some s)"

text \<open>The answers of \<^verbatim>\<open>sys_ipc_recv\<close> that the loop consumes; at the end of the list it is still waiting.\<close>

fun msg_loop :: "term_os \<Rightarrow> message option list \<Rightarrow> term_main \<Rightarrow> term_main option" where
  "msg_loop os [] s = Some s"
| "msg_loop os (m # ms) s =
     (if \<not> running s \<or> exited s \<noteq> None then Some s
      else do { s \<leftarrow> (case m of None \<Rightarrow> Some s | Some msg \<Rightarrow> handle_msg os msg s); msg_loop os ms s })"

definition term_start :: "term_os \<Rightarrow> message option list \<Rightarrow> term_t \<Rightarrow> term_main option" where
  "term_start os ms t0 =
     (let s = \<lparr>tstate = t0, font = [], shell_pid = -1, running = True, initialized = False, exited = None, tcalls = []\<rparr> in
      case load_file_to_memory (os_files os) (literal ''/fonts/krypton.psf'') of
        None \<Rightarrow> Some (sys_exit_t 1 s)
      | Some font_data \<Rightarrow>
          do {
            let s = tcall (TSend 1 REQUEST_WINDOW 0 0 0) (s\<lparr>font := font_data\<rparr>);
            s \<leftarrow> msg_loop os ms s;
            Some (if exited s = None \<and> \<not> running s then sys_exit_t 0 (s\<lparr>tstate := term_destroy (tstate s)\<rparr>) else s)
          })"

subsection \<open>Terminals that differ in the rectangle to update\<close>

definition same :: "term_t \<Rightarrow> term_t \<Rightarrow> bool" where
  "same t t' \<longleftrightarrow> (\<exists>u. t' = t\<lparr>last_update := u\<rparr>)"

lemma same_refl [simp]: "same t t"
  unfolding same_def by (intro exI [of _ "last_update t"]) simp

lemma same_sym: "same t t' \<Longrightarrow> same t' t"
  unfolding same_def by (elim exE) (auto intro!: exI [of _ "last_update t"])

lemma same_trans: "same t t' \<Longrightarrow> same t' t'' \<Longrightarrow> same t t''"
  unfolding same_def by auto

lemma same_update [simp]: "same (t\<lparr>last_update := u\<rparr>) t' = same t t'" "same t (t'\<lparr>last_update := u\<rparr>) = same t t'"
  unfolding same_def by (auto, metis term_t.update_convs(10) term_t.surjective)

abbreviation sameO :: "term_t option \<Rightarrow> term_t option \<Rightarrow> bool" where
  "sameO \<equiv> rel_option same"

lemma sameE:
  assumes "same t t'"
  obtains u where "t' = t\<lparr>last_update := u\<rparr>"
  using assms unfolding same_def by blast

lemma sameO_refl [simp]: "sameO t t"
  by (cases t) simp_all

lemma sameO_bind: "sameO a b \<Longrightarrow> (\<And>t t'. same t t' \<Longrightarrow> sameO (f t) (g t')) \<Longrightarrow> sameO (a \<bind> f) (b \<bind> g)"
  by (cases a; cases b) simp_all

lemma sameO_bind_eq: "(\<And>x. sameO (f x) (g x)) \<Longrightarrow> sameO (a \<bind> f) (a \<bind> g)"
  by (cases a) simp_all

lemma foldM_same:
  "same t t' \<Longrightarrow> (\<And>x t t'. x \<in> set xs \<Longrightarrow> same t t' \<Longrightarrow> sameO (f x t) (f x t')) \<Longrightarrow> sameO (foldM f xs t) (foldM f xs t')"
proof (induction xs arbitrary: t t')
  case (Cons x xs)
  then show ?case by (auto intro!: sameO_bind)
qed simp

lemma add_dirty_same [simp]: "same (add_dirty_cell x y t) t' = same t t'" "same t (add_dirty_cell x y t') = same t t'"
  by (simp_all add: add_dirty_cell_def Let_def)

text \<open>The rectangle commutes with every other field.\<close>

lemma last_update_commute:
  "t\<lparr>last_update := u, gfx := v0\<rparr> = t\<lparr>gfx := v0, last_update := u\<rparr>"
  "t\<lparr>last_update := u, text_buffer := v1\<rparr> = t\<lparr>text_buffer := v1, last_update := u\<rparr>"
  "t\<lparr>last_update := u, cursor_x := v2\<rparr> = t\<lparr>cursor_x := v2, last_update := u\<rparr>"
  "t\<lparr>last_update := u, cursor_y := v3\<rparr> = t\<lparr>cursor_y := v3, last_update := u\<rparr>"
  "t\<lparr>last_update := u, fg_color := v4\<rparr> = t\<lparr>fg_color := v4, last_update := u\<rparr>"
  "t\<lparr>last_update := u, bg_color := v5\<rparr> = t\<lparr>bg_color := v5, last_update := u\<rparr>"
  "t\<lparr>last_update := u, ansi_state := v6\<rparr> = t\<lparr>ansi_state := v6, last_update := u\<rparr>"
  "t\<lparr>last_update := u, ansi_params := v7\<rparr> = t\<lparr>ansi_params := v7, last_update := u\<rparr>"
  "t\<lparr>last_update := u, ansi_param_count := v8\<rparr> = t\<lparr>ansi_param_count := v8, last_update := u\<rparr>"
  "t\<lparr>last_update := u, osc_buffer := v9\<rparr> = t\<lparr>osc_buffer := v9, last_update := u\<rparr>"
  "t\<lparr>last_update := u, osc_idx := v10\<rparr> = t\<lparr>osc_idx := v10, last_update := u\<rparr>"
  by simp_all

lemma same_view:
  assumes "same t t'"
  shows "text_buffer t' = text_buffer t" "gfx t' = gfx t" "cols t' = cols t" "rows t' = rows t" "cursor_x t' = cursor_x t"
    "cursor_y t' = cursor_y t" "show_cursor t' = show_cursor t" "fg_color t' = fg_color t" "bg_color t' = bg_color t"
    "ansi_state t' = ansi_state t" "ansi_params t' = ansi_params t" "ansi_param_count t' = ansi_param_count t"
    "osc_buffer t' = osc_buffer t" "osc_idx t' = osc_idx t" "blank t' = blank t"
    "cell_index x y t' = cell_index x y t"
  using assms by (auto simp: blank_def cell_index_def elim!: sameE)

lemma draw_cell_same:
  assumes "same t t'"
  shows "sameO (draw_cell x y t) (draw_cell x y t')"
proof -
  note v = same_view [OF assms]
  have g: "same (t\<lparr>gfx := g\<rparr>) (t'\<lparr>gfx := g\<rparr>)" for g using assms by (elim sameE) (simp add: last_update_commute)
  show ?thesis
  proof (cases "text_buffer t")
    case None
    then show ?thesis using assms by (simp add: draw_cell_def v)
  next
    case (Some buf)
    let ?pic = "\<lambda>r. do {
        i \<leftarrow> cell_index x y r;
        cell \<leftarrow> peek buf i;
        let is_cursor = (show_cursor r \<and> x = cursor_x r \<and> y = cursor_y r);
        px \<leftarrow> int32 (x * gfx_font_width (gfx r));
        py \<leftarrow> int32 (y * gfx_font_height (gfx r));
        gfx_draw_char px py (if ch cell = 0 then 0x20 else ch cell) (if is_cursor then cell_bg cell else cell_fg cell)
          (if is_cursor then cell_fg cell else cell_bg cell) (gfx r)
      }"
    have d: "draw_cell x y r = ?pic r \<bind> (\<lambda>g. Some (add_dirty_cell x y (r\<lparr>gfx := g\<rparr>)))" if "text_buffer r = Some buf" for r
      using that by (simp add: draw_cell_def Let_def)
    have "?pic t' = ?pic t" by (simp only: v)
    then show ?thesis using d [of t] d [of t'] Some g by (cases "?pic t") (simp_all add: v)
  qed
qed

lemma redraw_cell_same: "same t t' \<Longrightarrow> sameO (redraw_cell y x t) (redraw_cell y x t')"
proof -
  assume st: "same t t'"
  note v = same_view [OF st]
  show ?thesis
  proof (cases "text_buffer t")
    case None
    then show ?thesis by (simp add: redraw_cell_def v)
  next
    case (Some buf)
    show ?thesis
    proof (cases "cell_index x y t \<bind> peek buf")
      case None
      with Some show ?thesis by (cases "cell_index x y t") (simp_all add: redraw_cell_def v)
    next
      case cell: (Some cell)
      have "sameO (if P then draw_cell x y t else Some t) (if P then draw_cell x y t' else Some t')" for P
        using draw_cell_same [OF st] st by simp
      moreover have "sameO (if show_cursor r \<and> x = cursor_x r \<and> y = cursor_y r then draw_cell x y r else Some r)
          (if show_cursor r' \<and> x = cursor_x r' \<and> y = cursor_y r' then draw_cell x y r' else Some r')" if "same r r'" for r r'
        using draw_cell_same [OF that] same_view [OF that] that by simp
      ultimately show ?thesis using Some cell by (cases "cell_index x y t") (simp_all add: redraw_cell_def v sameO_bind)
    qed
  qed
qed

lemma term_redraw_full_same:
  assumes "same t t'"
  shows "sameO (term_redraw_full t) (term_redraw_full t')"
proof -
  note v = same_view [OF assms]
  show ?thesis
  proof (cases "gfx_clear DEFAULT_BG (gfx t)")
    case None
    then show ?thesis by (simp add: term_redraw_full_def v)
  next
    case (Some g)
    have "same (t\<lparr>gfx := g\<rparr>) (t'\<lparr>gfx := g\<rparr>)" using assms by (elim sameE) (simp add: last_update_commute)
    then have "sameO (foldM (\<lambda>y. foldM (redraw_cell y) [0..cols t - 1]) [0..rows t - 1] (t\<lparr>gfx := g\<rparr>))
        (foldM (\<lambda>y. foldM (redraw_cell y) [0..cols t - 1]) [0..rows t - 1] (t'\<lparr>gfx := g\<rparr>))"
      by (intro foldM_same redraw_cell_same) simp_all
    then show ?thesis using Some by (simp add: term_redraw_full_def v sameO_bind)
  qed
qed

lemma term_scroll_same:
  assumes "same t t'"
  shows "sameO (term_scroll t) (term_scroll t')"
proof -
  note v = same_view [OF assms]
  show ?thesis
  proof (cases "text_buffer t")
    case None
    then show ?thesis using assms by (simp add: term_scroll_def v)
  next
    case (Some buf)
    let ?b = "do {
        row_size_bytes \<leftarrow> int32 (cols t * 12);
        moved_bytes \<leftarrow> int32 ((rows t - 1) * row_size_bytes);
        b \<leftarrow> copy_cells buf 0 buf (cols t) ((rows t - 1) * cols t);
        foldM (\<lambda>i. poke ((rows t - 1) * cols t + i) (blank t)) [0..cols t - 1] b
      }"
    let ?up = "\<lambda>t b. let t = t\<lparr>text_buffer := Some b\<rparr> in if cursor_y t > 0 then t\<lparr>cursor_y := cursor_y t - 1\<rparr> else t"
    have "term_scroll r = ?b \<bind> (\<lambda>b. term_redraw_full (?up r b))" if "same t r" for r
      using Some same_view [OF that] by (simp add: term_scroll_def Let_def)
    moreover have "same (?up t b) (?up t' b)" for b
      using assms by (elim sameE) (simp add: Let_def last_update_commute)
    ultimately show ?thesis using assms by (cases ?b) (simp_all add: term_redraw_full_same)
  qed
qed

lemma set_cell_same:
  assumes "same t t'"
  shows "sameO (set_cell x y c t) (set_cell x y c t')"
proof -
  note v = same_view [OF assms]
  have b: "same (t\<lparr>text_buffer := Some b\<rparr>) (t'\<lparr>text_buffer := Some b\<rparr>)" for b
    using assms by (elim sameE) (simp add: last_update_commute)
  have d: "set_cell x y c r = do { buf \<leftarrow> text_buffer r; i \<leftarrow> cell_index x y r; poke i c buf } \<bind> (\<lambda>b. Some (r\<lparr>text_buffer := Some b\<rparr>))" for r
    by (simp add: set_cell_def)
  have "do { buf \<leftarrow> text_buffer t'; i \<leftarrow> cell_index x y t'; poke i c buf } = do { buf \<leftarrow> text_buffer t; i \<leftarrow> cell_index x y t; poke i c buf }"
    by (simp only: v)
  then show ?thesis using b unfolding d by (cases "do { buf \<leftarrow> text_buffer t; i \<leftarrow> cell_index x y t; poke i c buf }") simp_all
qed

lemma term_put_char_same:
  assumes "same t t'"
  shows "sameO (term_put_char c t) (term_put_char c t')"
proof -
  let ?step = "\<lambda>t. if c = 0x0A then Some (t\<lparr>cursor_x := 0, cursor_y := cursor_y t + 1\<rparr>)
      else if c = 0x08 then
        (let t = (if cursor_x t > 0 then t\<lparr>cursor_x := cursor_x t - 1\<rparr>
                  else if cursor_y t > 0 then t\<lparr>cursor_y := cursor_y t - 1, cursor_x := cols t - 1\<rparr> else t)
         in set_cell (cursor_x t) (cursor_y t) (blank t) t)
      else do {
        t \<leftarrow> set_cell (cursor_x t) (cursor_y t) \<lparr>ch = c, cell_fg = fg_color t, cell_bg = bg_color t\<rparr> t;
        let t = t\<lparr>cursor_x := cursor_x t + 1\<rparr>;
        Some (if cursor_x t \<ge> cols t then t\<lparr>cursor_x := 0, cursor_y := cursor_y t + 1\<rparr> else t)
      }"
  let ?rest = "\<lambda>x y t. if cursor_y t \<ge> rows t then term_scroll t
      else do { t \<leftarrow> draw_cell x y t; draw_cell (cursor_x t) (cursor_y t) t }"
  note v = same_view [OF assms]
  have st1: "sameO (?step t) (?step t')"
  proof -
    let ?retreat = "\<lambda>t. if cursor_x t > 0 then t\<lparr>cursor_x := cursor_x t - 1\<rparr>
                  else if cursor_y t > 0 then t\<lparr>cursor_y := cursor_y t - 1, cursor_x := cols t - 1\<rparr> else t"
    have bk: "same (?retreat t) (?retreat t')" using assms by (elim sameE) (simp add: last_update_commute)
    have fwd: "same (let t = r\<lparr>cursor_x := cursor_x r + 1\<rparr> in if cursor_x t \<ge> cols t then t\<lparr>cursor_x := 0, cursor_y := cursor_y t + 1\<rparr> else t)
        (let t = r'\<lparr>cursor_x := cursor_x r' + 1\<rparr> in if cursor_x t \<ge> cols t then t\<lparr>cursor_x := 0, cursor_y := cursor_y t + 1\<rparr> else t)"
      if "same r r'" for r r'
      using that by (elim sameE) (simp add: Let_def last_update_commute)
    have nl: "same (t\<lparr>cursor_x := 0, cursor_y := cursor_y t + 1\<rparr>) (t'\<lparr>cursor_x := 0, cursor_y := cursor_y t' + 1\<rparr>)"
      using assms by (elim sameE) (simp add: last_update_commute)
    show ?thesis
      using nl set_cell_same [OF bk] same_view [OF bk] set_cell_same [OF assms] v fwd
      by (simp add: Let_def sameO_bind del: same_update)
  qed
  have st2: "sameO (?rest x y r) (?rest x y r')" if "same r r'" for x y r r'
  proof -
    have "sameO (draw_cell (cursor_x a) (cursor_y a) a) (draw_cell (cursor_x b) (cursor_y b) b)" if "same a b" for a b
      using draw_cell_same [OF that] same_view [OF that] by simp
    then show ?thesis
      using same_view [OF that] term_scroll_same [OF that] sameO_bind [OF draw_cell_same [OF that]] by simp
  qed
  have e: "term_put_char c r = ?step r \<bind> ?rest (cursor_x r) (cursor_y r)" for r
    unfolding term_put_char_def Let_def by (rule refl)
  have e': "term_put_char c t' = ?step t' \<bind> ?rest (cursor_x t) (cursor_y t)" by (simp only: e v)
  show ?thesis unfolding e [of t] e' by (rule sameO_bind [OF st1 st2])
qed

lemma apply_ansi_code_same: "same t t' \<Longrightarrow> same (apply_ansi_code code t) (apply_ansi_code code t')"
  by (elim sameE) (simp add: apply_ansi_code_def last_update_commute)

lemma term_process_ansi_end_same:
  assumes "same t t'"
  shows "sameO (term_process_ansi_end c t) (term_process_ansi_end c t')"
proof -
  note v = same_view [OF assms]
  let ?a = "\<lambda>i t. do { code \<leftarrow> peek (ansi_params t) i; Some (apply_ansi_code code t) }"
  have "sameO (?a i r) (?a i r')" if "same r r'" for i r r'
    using apply_ansi_code_same [OF that] same_view [OF that] by (cases "peek (ansi_params r) i") simp_all
  then have f: "sameO (foldM ?a xs t) (foldM ?a xs t')" for xs using assms by (intro foldM_same)
  have "sameO (do { ps \<leftarrow> poke 0 0 (ansi_params r); Some (r\<lparr>ansi_state := ANSI_STATE_NORMAL, ansi_param_count := 0, ansi_params := ps\<rparr>) })
      (do { ps \<leftarrow> poke 0 0 (ansi_params r'); Some (r'\<lparr>ansi_state := ANSI_STATE_NORMAL, ansi_param_count := 0, ansi_params := ps\<rparr>) })"
    if "same r r'" for r r'
    using that by (elim sameE) (cases "poke 0 0 (ansi_params r)", simp_all add: last_update_commute)
  then show ?thesis unfolding term_process_ansi_end_def using f assms apply_ansi_code_same [OF assms]
    by (intro sameO_bind) (simp_all add: v)
qed

lemma csi_char_same:
  assumes "same t t'"
  shows "sameO (csi_char c t) (csi_char c t')"
proof -
  note v = same_view [OF assms]
  have p: "same (t\<lparr>ansi_params := ps\<rparr>) (t'\<lparr>ansi_params := ps\<rparr>)"
    "same (t\<lparr>ansi_param_count := n, ansi_params := ps\<rparr>) (t'\<lparr>ansi_param_count := n, ansi_params := ps\<rparr>)"
    "same (t\<lparr>ansi_param_count := n\<rparr>) (t'\<lparr>ansi_param_count := n\<rparr>)" for ps n
    using assms by (auto simp: last_update_commute elim!: sameE)
  have "sameO (term_process_ansi_end c (t\<lparr>ansi_param_count := n\<rparr>)) (term_process_ansi_end c (t'\<lparr>ansi_param_count := n\<rparr>))" for n
    by (rule term_process_ansi_end_same [OF p(3)])
  then show ?thesis
    using p(1,2) assms term_process_ansi_end_same [OF assms]
    unfolding csi_char_def v by (auto simp: v split: Option.bind_split)
qed

lemma osc_end_same:
  assumes "same t t'"
  shows "sameO (osc_end os t) (osc_end os t')"
proof -
  note v = same_view [OF assms]
  have f: "same (r\<lparr>ansi_state := ANSI_STATE_NORMAL\<rparr>) (r'\<lparr>ansi_state := ANSI_STATE_NORMAL\<rparr>)" if "same r r'" for r r'
    using that by (elim sameE) (simp add: last_update_commute)
  have "same (t\<lparr>gfx := g\<rparr>) (t'\<lparr>gfx := g\<rparr>)" for g using assms by (elim sameE) (simp add: last_update_commute)
  then show ?thesis unfolding osc_end_def using f assms
    by (intro sameO_bind) (auto simp: v split: option.split intro!: sameO_bind_eq)
qed

lemma write_char_same:
  assumes "same t t'"
  shows "sameO (write_char os c t) (write_char os c t')"
proof -
  note v = same_view [OF assms]
  have f: "same (t\<lparr>ansi_state := ANSI_STATE_CSI, ansi_param_count := 0, ansi_params := ps\<rparr>) (t'\<lparr>ansi_state := ANSI_STATE_CSI, ansi_param_count := 0, ansi_params := ps\<rparr>)"
    "same (t\<lparr>ansi_state := ANSI_STATE_OSC, osc_idx := 0, osc_buffer := ob\<rparr>) (t'\<lparr>ansi_state := ANSI_STATE_OSC, osc_idx := 0, osc_buffer := ob\<rparr>)"
    "same (t\<lparr>ansi_state := st\<rparr>) (t'\<lparr>ansi_state := st\<rparr>)"
    "same (t\<lparr>osc_buffer := ob, osc_idx := i\<rparr>) (t'\<lparr>osc_buffer := ob, osc_idx := i\<rparr>)" for ps ob st i
    using assms by (auto simp: last_update_commute elim!: sameE)
  show ?thesis
    using f assms term_put_char_same [OF f(3), of c] term_put_char_same [OF assms, of c] csi_char_same [OF assms] osc_end_same [OF assms]
    unfolding write_char_def v by (auto simp: v split: ansi_state.split Option.bind_split)
qed

lemma term_write_same:
  assumes "same t t'"
  shows "rel_option (\<lambda>(r, t) (r', t'). same t t') (term_write os str t) (term_write os str t')"
proof -
  have "sameO (foldM (write_char os) str t) (foldM (write_char os) str t')"
    using assms by (intro foldM_same write_char_same)
  then show ?thesis
    by (cases "foldM (write_char os) str t"; cases "foldM (write_char os) str t'") (simp_all add: term_write_def)
qed

lemma term_write_append:
  "term_write os (xs @ ys) t = term_write os xs t \<bind> (\<lambda>(r, t). term_write os ys t)"
  by (cases "foldM (write_char os) xs t") (simp_all add: term_write_def foldM_append)

text \<open>A terminal that is up.\<close>

definition up :: "term_main \<Rightarrow> bool" where
  "up s \<longleftrightarrow> initialized s \<and> running s \<and> exited s = None"

definition batch_msg :: "u32 \<Rightarrow> u64 \<times> u64 \<times> u64 \<Rightarrow> message" where
  "batch_msg p d = \<lparr>sender_pid = p, mtype = word_of_int MSG_STDOUT_BATCH, data1 = fst d, data2 = fst (snd d), data3 = snd (snd d)\<rparr>"

lemma process_term_update_same: "same (tstate (process_term_update s)) (tstate s)" "up (process_term_update s) = up s"
  by (simp_all add: process_term_update_def tcall_def up_def Let_def)

lemma handle_batch:
  assumes "up s"
  shows "handle_msg os (batch_msg p (d1, d2, d3)) s = map_option process_term_update (write_text os (unpack d1 d2 d3) s)"
  using assms
  by (simp add: handle_msg_def batch_msg_def up_def MSG_STDOUT_BATCH_def MSG_STDOUT_def QUIT_REQUEST_def WINDOW_CREATED_def
      WINDOW_RESIZE_def KEY_EVENT_def)

lemma write_text_up: "write_text os bs s = Some s' \<Longrightarrow> up s' = up s"
  by (auto simp: write_text_def up_def split: Option.bind_splits)

text \<open>Batch by batch the terminal comes to the same state as with the whole text at once, or fails with it.\<close>

lemma batches_result:
  assumes "up s" and "same (tstate s) t"
  shows "rel_option (\<lambda>s' (r, t'). up s' \<and> same (tstate s') t') (msg_loop os (map (\<lambda>d. Some (batch_msg p d)) ds) s)
     (term_write (os_files os) (concat (map (\<lambda>(a, b, c). unpack a b c) ds)) t)"
  using assms
proof (induction ds arbitrary: s t)
  case Nil
  then show ?case by (simp add: term_write_def)
next
  case (Cons d ds)
  obtain a b c where d: "d = (a, b, c)" by (cases d)
  have step: "msg_loop os (map (\<lambda>d. Some (batch_msg p d)) (d # ds)) s =
      map_option process_term_update (write_text os (unpack a b c) s) \<bind> msg_loop os (map (\<lambda>d. Some (batch_msg p d)) ds)"
    using Cons.prems(1) handle_batch [OF Cons.prems(1)] by (simp add: up_def d)
  note same = term_write_same [OF Cons.prems(2), of "os_files os" "unpack a b c"]
  show ?case
  proof (cases "term_write (os_files os) (unpack a b c) t")
    case None
    then have "term_write (os_files os) (unpack a b c) (tstate s) = None" using same by simp
    then show ?thesis unfolding step using None by (simp add: d term_write_append write_text_def)
  next
    case (Some rt)
    obtain r1 t1 where t1: "rt = (r1, t1)" by (cases rt)
    obtain r2 t2 where t2: "term_write (os_files os) (unpack a b c) (tstate s) = Some (r2, t2)" "same t2 t1"
      using same Some t1 by (cases "term_write (os_files os) (unpack a b c) (tstate s)") auto
    let ?s = "process_term_update (s\<lparr>tstate := t2\<rparr>)"
    have u: "up ?s" using Cons.prems(1) by (simp add: process_term_update_same) (simp add: up_def)
    have "same (tstate ?s) t1" using same_trans [OF process_term_update_same(1) [of "s\<lparr>tstate := t2\<rparr>"]] t2(2) by simp
    from Cons.IH [OF u this] show ?thesis unfolding step using Some t1 t2(1) by (simp add: d term_write_append write_text_def)
  qed
qed

subsection \<open>Properties\<close>

definition batches :: "int \<Rightarrow> (int \<times> int \<times> u64 \<times> u64 \<times> u64 \<times> int) list \<Rightarrow> (u64 \<times> u64 \<times> u64) list" where
  "batches to log = map (\<lambda>(p, ty, d1, d2, d3, r). (d1, d2, d3))
     (filter (\<lambda>(p, ty, d1, d2, d3, r). p = to \<and> ty = MSG_STDOUT_BATCH \<and> r = 0) log)"

lemma batch_texts_eq: "batch_texts to log = map (\<lambda>(a, b, c). unpack a b c) (batches to log)"
  by (simp add: batch_texts_def batches_def comp_def split_def)

text \<open>
  C15. From \<^verbatim>\<open>printf\<close> in a program to the cells of the screen: the terminal handles the messages that carried a
  printed text exactly as \<^verbatim>\<open>term_write\<close> handles the whole text, up to the rectangle that is reported to the
  window manager, even when messages cut escape sequences in two; and the terminal is well formed afterwards. When a
  number of an escape sequence in the text does not fit an \<^verbatim>\<open>int\<close>, neither has a result. The text is ASCII, and the
  images that it names are complete files.
\<close>

theorem printed_text_on_screen:
  assumes "stdio_ok s" and "printed s = []" and "expand fmt args = Some out" and "\<forall>c \<in> set out. c \<noteq> 0 \<and> c < 128"
    and "length out < room s" and "up tm" and "term_ok (tstate tm)"
    and "\<forall>path img. load_file_to_memory (os_files os) path = Some img \<longrightarrow> image_ok img"
  shows "\<exists>s'. printf_u fmt args s \<bind> fflush = Some s'
     \<and> (if numbers_fit (tstate tm) out
        then \<exists>tm' r t'. msg_loop os (map (\<lambda>d. Some (batch_msg p d)) (batches (terminal_pid s) (sends s'))) tm = Some tm'
          \<and> term_write (os_files os) out (tstate tm) = Some (r, t') \<and> (\<exists>u. tstate tm' = t'\<lparr>last_update := u\<rparr>) \<and> term_ok t'
        else msg_loop os (map (\<lambda>d. Some (batch_msg p d)) (batches (terminal_pid s) (sends s'))) tm = None
          \<and> term_write (os_files os) out (tstate tm) = None)"
proof -
  have nz: "0 \<notin> set out" using assms(4) by auto
  from printf_delivers [OF assms(1,3) nz assms(5)] obtain s' where s':
    "printf_u fmt args s \<bind> fflush = Some s'" "concat (batch_texts (terminal_pid s) (sends s')) = out"
    using assms(2) by auto
  have "\<forall>c \<in> set out. c < 128" using assms(4) by blast
  from write_chars_fit [OF assms(7) this, of "os_files os"] assms(8) have w: "if numbers_fit (tstate tm) out
      then \<exists>r t'. term_write (os_files os) out (tstate tm) = Some (r, t') \<and> term_ok t' else term_write (os_files os) out (tstate tm) = None"
    by (auto simp: term_write_def split: if_splits)
  have rel: "rel_option (\<lambda>tm' (r, t'). up tm' \<and> same (tstate tm') t')
      (msg_loop os (map (\<lambda>d. Some (batch_msg p d)) (batches (terminal_pid s) (sends s'))) tm) (term_write (os_files os) out (tstate tm))"
    using batches_result [OF assms(6) same_refl, of os p "batches (terminal_pid s) (sends s')"] s'(2) unfolding batch_texts_eq by simp
  show ?thesis
  proof (cases "numbers_fit (tstate tm) out")
    case True
    with w obtain r t' where t': "term_write (os_files os) out (tstate tm) = Some (r, t')" "term_ok t'" by auto
    with rel obtain tm' where "msg_loop os (map (\<lambda>d. Some (batch_msg p d)) (batches (terminal_pid s) (sends s'))) tm = Some tm'"
        "same (tstate tm') t'" by (auto simp: option_rel_Some2)
    with True s'(1) t' show ?thesis using same_sym unfolding same_def by auto
  next
    case False
    with w rel s'(1) show ?thesis by simp
  qed
qed

definition term_os_example :: term_os where
  "term_os_example = \<lparr>os_files = no_files, os_mem_ok = True, os_exec = 3, os_pixels = (\<lambda>_. [])\<rparr>"

definition main_at :: "term_t \<Rightarrow> term_main" where
  "main_at t = \<lparr>tstate = t, font = [], shell_pid = 3, running = True, initialized = True, exited = None, tcalls = []\<rparr>"

theorem printed_text_on_screen_witness:
  "\<exists>t s' tm' r t'. term_ok t \<and> printf_u [0x61, 0x0A] [] stdio_example \<bind> fflush = Some s'
     \<and> msg_loop term_os_example (map (\<lambda>d. Some (batch_msg 9 d)) (batches 7 (sends s'))) (main_at t) = Some tm'
     \<and> term_write no_files [0x61, 0x0A] t = Some (r, t') \<and> (\<exists>u. tstate tm' = t'\<lparr>last_update := u\<rparr>)"
proof -
  from term_example_ok obtain t where t: "term_ok t" "ansi_state t = ANSI_STATE_NORMAL" by metis
  have e: "expand [0x61, 0x0A] [] = Some [0x61, 0x0A]" by simp
  have u: "up (main_at t)" and tm: "tstate (main_at t) = t" by (simp_all add: up_def main_at_def)
  have f: "os_files term_os_example = no_files" by (simp add: term_os_example_def)
  have im: "\<forall>path img. load_file_to_memory no_files path = Some img \<longrightarrow> image_ok img"
    by (simp add: load_file_to_memory_def no_files_def)
  have p: "terminal_pid stdio_example = 7" by (simp add: stdio_example_def)
  have c: "\<forall>c \<in> set [0x61, 0x0A]. c \<noteq> 0 \<and> c < (128 :: u8)" by simp
  have room: "length [0x61, 0x0A :: u8] < room stdio_example" by (simp add: stdio_example_ok)
  have "numbers_fit t [0x61, 0x0A]" using t(2) by (simp add: numbers_fit_def)
  with printed_text_on_screen [OF stdio_example_ok(1,3) e c room u _ im [folded f], unfolded tm p f, OF t(1), of 9] t(1)
  show ?thesis by (simp only: if_True) blast
qed

end
