(* ===== verification/Shell.thy ===== *)
theory Shell
  imports UString Stdio
begin

text \<open>
  The shell, \<^verbatim>\<open>src/userspace/shell/shell.c\<close>, over the string library and \<^verbatim>\<open>stdio\<close>. Buffers and string literals lie in a
  byte memory at the addresses of a layout; the arrays of pointers on the stack are lists with their bounds. The
  answers of the system are the parameter \<open>E\<close>. The abstract side of \<^verbatim>\<open>resolve_path\<close> is the stack of path components.
\<close>

subsection \<open>Layout and answers of the system\<close>

text \<open>
  \<open>lit\<close> gives the address of a string literal. \<open>sh_stat\<close> answers \<^verbatim>\<open>sys_stat\<close> with the value the caller sees and the
  flags, \<open>sh_exec\<close> is the process number that \<^verbatim>\<open>sys_exec\<close> returns, \<open>sh_stack\<close> what \<^verbatim>\<open>getchar\<close> finds
  in its message on the stack, given the messages to come.
\<close>

record shell_env =
  lit :: "string \<Rightarrow> u64"
  current_directory :: u64
  cmd_buffer :: u64
  temp_path :: u64
  temp_at :: u64
  sh_stat :: "u8 list \<Rightarrow> int \<times> u32"
  sh_exec :: "u8 list \<Rightarrow> u8 list list \<Rightarrow> int"
  sh_stack :: "message option list \<Rightarrow> message"

record shell = stdio +
  smem :: bytes
  tok_next :: u64
  execs :: "(u8 list \<times> u8 list list) list"

definition MAX_CMD_LEN :: int where "MAX_CMD_LEN = 256"
definition MAX_PATH_LEN :: int where "MAX_PATH_LEN = 256"

subsection \<open>Paths\<close>

definition push_token :: "shell_env \<Rightarrow> bytes \<Rightarrow> u64 \<Rightarrow> u64 list \<Rightarrow> u64 list option" where
  "push_token E m token tokens =
     do {
       dot \<leftarrow> strcmp_u token (lit E ''.'') m;
       if dot = 0 then Some tokens
       else do {
         dotdot \<leftarrow> strcmp_u token (lit E ''..'') m;
         if dotdot = 0 then Some (butlast tokens)
         else do {
           len \<leftarrow> strlen_u token m;
           if len > 0 then (if length tokens = 64 then None else Some (tokens @ [token])) else Some tokens
         }
       }
     }"

partial_function (option) resolve_loop :: "shell_env \<Rightarrow> u64 \<Rightarrow> u64 list \<Rightarrow> u64 \<times> bytes \<Rightarrow> (u64 list \<times> u64 \<times> bytes) option" where
  "resolve_loop E token tokens s =
     (if token = 0 then Some (tokens, s)
      else do {
        tokens \<leftarrow> push_token E (snd s) token tokens;
        (token, s) \<leftarrow> strtok 0 (lit E ''/'') s;
        resolve_loop E token tokens s
      })"

definition join_token :: "shell_env \<Rightarrow> u64 \<Rightarrow> u64 \<Rightarrow> bytes \<Rightarrow> bytes option" where
  "join_token E target_buf token m =
     do { (p, m) \<leftarrow> strcat_u target_buf (lit E ''/'') m; (p, m) \<leftarrow> strcat_u target_buf token m; Some m }"

definition full_path :: "shell_env \<Rightarrow> u64 \<Rightarrow> u64 \<Rightarrow> bytes \<Rightarrow> bytes option" where
  "full_path E base input m =
     (let temp = temp_at E in
      if m input = 0x2F then map_option snd (strcpy_u temp input m)
      else do {
        (p, m) \<leftarrow> strcpy_u temp base m;
        len \<leftarrow> strlen_u temp m;
        m \<leftarrow> (if len > 0 \<and> m (temp + word_of_int (len - 1)) \<noteq> 0x2F
              then map_option snd (strcat_u temp (lit E ''/'') m) else Some m);
        map_option snd (strcat_u temp input m)
      })"

definition resolve_path :: "shell_env \<Rightarrow> u64 \<Rightarrow> u64 \<Rightarrow> u64 \<Rightarrow> u64 \<times> bytes \<Rightarrow> (int \<times> u64 \<times> bytes) option" where
  "resolve_path E target_buf base input = (\<lambda>(nxt, m).
     do {
       m \<leftarrow> full_path E base input m;
       (token, nxt, m) \<leftarrow> strtok (temp_at E) (lit E ''/'') (nxt, m);
       (tokens, nxt, m) \<leftarrow> resolve_loop E token [] (nxt, m);
       if tokens = []
       then do { (p, m) \<leftarrow> strcpy_u target_buf (lit E ''/'') m; Some (0, nxt, m) }
       else do { m \<leftarrow> foldM (join_token E target_buf) tokens (m(target_buf := 0)); Some (0, nxt, m) }
     })"

subsection \<open>Reading a line\<close>

definition set_byte :: "u64 \<Rightarrow> u8 \<Rightarrow> shell \<Rightarrow> shell" where
  "set_byte a b s = s\<lparr>smem := (smem s)(a := b)\<rparr>"

partial_function (option) readline_loop :: "shell_env \<Rightarrow> u64 \<Rightarrow> int \<Rightarrow> int \<Rightarrow> shell \<Rightarrow> (int \<times> shell) option" where
  "readline_loop E buf mx i s =
     (if \<not> i < mx - 1 then Some (0, set_byte (buf + word_of_int i) 0 s)
      else do {
        (c, s) \<leftarrow> getchar (sh_stack E (recvs s)) s;
        if c = EOF then Some (-1, s)
        else if c = 0x0A then do { s \<leftarrow> putchar 0x0A s; Some (0, set_byte (buf + word_of_int i) 0 s) }
        else if c = 0x08 then
          (if i > 0 then do { s \<leftarrow> putchar 0x08 s; s \<leftarrow> putchar 0x20 s; s \<leftarrow> putchar 0x08 s; readline_loop E buf mx (i - 1) s }
           else readline_loop E buf mx i s)
        else do {
          let s = set_byte (buf + word_of_int i) c s;
          s \<leftarrow> putchar c s;
          readline_loop E buf mx (i + 1) s
        }
      })"

definition shell_readline :: "shell_env \<Rightarrow> u64 \<Rightarrow> int \<Rightarrow> shell \<Rightarrow> (int \<times> shell) option" where
  "shell_readline E buf mx s = readline_loop E buf mx 0 s"

subsection \<open>Commands\<close>

partial_function (option) load_cstr :: "u64 \<Rightarrow> bytes \<Rightarrow> u8 list option" where
  "load_cstr a m = (if m a = 0 then Some [] else do { bs \<leftarrow> load_cstr (a + 1) m; Some (m a # bs) })"

text \<open>\<open>argv\<close> is the part of the array that is filled.\<close>

partial_function (option) parse_args :: "shell_env \<Rightarrow> u64 \<Rightarrow> u64 list \<Rightarrow> u64 \<times> bytes \<Rightarrow> (u64 list \<times> u64 \<times> bytes) option" where
  "parse_args E token argv s =
     (if token \<noteq> 0 \<and> length argv < 16
      then do { (token', s) \<leftarrow> strtok 0 (lit E '' '') s; parse_args E token' (argv @ [token]) s }
      else Some (argv, s))"

definition color :: "string \<Rightarrow> u8 list" where
  "color code = 0x1B # literal code"

text \<open>A \<^verbatim>\<open>printf\<close> whose arguments are strings in memory.\<close>

definition printf_at :: "u8 list \<Rightarrow> u64 list \<Rightarrow> shell \<Rightarrow> shell option" where
  "printf_at fmt args s = do { ss \<leftarrow> foldM (\<lambda>a ss. map_option (\<lambda>b. ss @ [b]) (load_cstr a (smem s))) args []; printf_u fmt ss s }"

definition shell_strcpy :: "u64 \<Rightarrow> u64 \<Rightarrow> shell \<Rightarrow> shell option" where
  "shell_strcpy dest src s = do { (p, m) \<leftarrow> strcpy_u dest src (smem s); Some (s\<lparr>smem := m\<rparr>) }"

definition shell_resolve :: "shell_env \<Rightarrow> u64 \<Rightarrow> shell \<Rightarrow> shell option" where
  "shell_resolve E input s =
     do { (r, nxt, m) \<leftarrow> resolve_path E (temp_path E) (current_directory E) input (tok_next s, smem s);
          Some (s\<lparr>smem := m, tok_next := nxt\<rparr>) }"

definition cd_error :: "u8 list \<Rightarrow> u8 list" where
  "cd_error what = color ''[36m['' @ color ''[37midpshell-cd'' @ color ''[36m] :: '' @ what @ color ''[37m'' @ [0x0A]"

definition change_directory :: "shell_env \<Rightarrow> u64 \<Rightarrow> shell \<Rightarrow> shell option" where
  "change_directory E argument s =
     (if argument = 0 then shell_strcpy (current_directory E) (lit E ''/'') s
      else do {
        s \<leftarrow> shell_resolve E argument s;
        r \<leftarrow> strcmp_u (temp_path E) (lit E ''/'') (smem s);
        if r = 0 then shell_strcpy (current_directory E) (lit E ''/'') s
        else do {
          len \<leftarrow> strlen_u (temp_path E) (smem s);
          if len < MAX_PATH_LEN then do {
            path \<leftarrow> load_cstr (temp_path E) (smem s);
            let (res, flags) = sh_stat E path;
            if res = 0 then
              (if flags = 1 then shell_strcpy (current_directory E) (temp_path E) s
               else printf_at (cd_error (color ''[33m%s'' @ color ''[31m not a directory'')) [temp_path E] s)
            else printf_at (cd_error (color ''[33m%s'' @ color ''[31m not found'')) [temp_path E] s
          }
          else printf_at (cd_error (color ''[31mPath too long'')) [] s
        }
      })"

definition run_program :: "shell_env \<Rightarrow> u64 list \<Rightarrow> shell \<Rightarrow> shell option" where
  "run_program E argv s =
     do {
       let command = argv ! 1;
       let absolute = (smem s command = 0x2F);
       s \<leftarrow> (if absolute then Some s else shell_resolve E command s);
       path \<leftarrow> load_cstr (if absolute then command else temp_path E) (smem s);
       args \<leftarrow> foldM (\<lambda>a ss. map_option (\<lambda>b. ss @ [b]) (load_cstr a (smem s))) argv [];
       let pid = sh_exec E path args;
       let s = s\<lparr>execs := execs s @ [(path, args)]\<rparr>;
       s \<leftarrow> (if pid < 0
             then printf_at (color ''[31mCommand failed:'' @ color ''[37m %s '' @ color ''[36m(invalid command or path to elf)''
                    @ color ''[37m'' @ [0x0A]) [command] s
             else Some s);
       map_option snd (send pid (uint MSG_HANDSHAKE) (word_of_int (terminal_pid s)) 0 0 s)
     }"

definition dispatch :: "shell_env \<Rightarrow> u64 list \<Rightarrow> shell \<Rightarrow> shell option" where
  "dispatch E argv s =
     (let command = argv ! 1; argument = (if length argv > 2 then argv ! 2 else 0) in
      do {
        help \<leftarrow> strcmp_u command (lit E ''help'') (smem s);
        if help = 0 then printf_at (literal ''Commands: help, clear, echo, cd'' @ [0x0A]) [] s
        else do {
          cd \<leftarrow> strcmp_u command (lit E ''cd'') (smem s);
          if cd = 0 then change_directory E argument s
          else do {
            clear \<leftarrow> strcmp_u command (lit E ''clear'') (smem s);
            if clear = 0 then clear_screen s else run_program E argv s
          }
        }
      })"

text \<open>\<^verbatim>\<open>argv[argc] = NULL\<close> with 16 filled entries is a write behind the array.\<close>

definition run_line :: "shell_env \<Rightarrow> shell \<Rightarrow> shell option" where
  "run_line E s =
     do {
       (token, t) \<leftarrow> strtok (cmd_buffer E) (lit E '' '') (tok_next s, smem s);
       (argv, nxt, m) \<leftarrow> parse_args E token [current_directory E] t;
       let s = s\<lparr>smem := m, tok_next := nxt\<rparr>;
       if length argv = 16 then None
       else if length argv < 2 then Some s
       else dispatch E argv s
     }"

text \<open>One round of the loop of \<^verbatim>\<open>_start\<close>; \<open>False\<close> ends it.\<close>

definition shell_round :: "shell_env \<Rightarrow> shell \<Rightarrow> (bool \<times> shell) option" where
  "shell_round E s =
     do {
       s \<leftarrow> printf_at (color ''[35m@'' @ color ''[36m['' @ color ''[34m%s'' @ color ''[36m] :: '' @ color ''[37m'') [current_directory E] s;
       (r, s) \<leftarrow> shell_readline E (cmd_buffer E) MAX_CMD_LEN s;
       if r = -1 then Some (False, s)
       else if smem s (cmd_buffer E) \<noteq> 0 then map_option (\<lambda>s. (True, s)) (run_line E s)
       else Some (True, s)
     }"

definition shell_start :: "message \<Rightarrow> shell \<Rightarrow> shell option" where
  "shell_start stack s =
     do {
       s \<leftarrow> stdio_init stack s;
       printf_u (color ''[37m--> idpshell '' @ color ''[36m(isolated binary)'' @ [0x0A] @ color ''[37m'') [] s
     }"

subsection \<open>The reference for paths\<close>

definition slash :: u8 where "slash = 0x2F"

definition norm_step :: "u8 list list \<Rightarrow> u8 list \<Rightarrow> u8 list list" where
  "norm_step st w = (if w = literal ''.'' then st else if w = literal ''..'' then butlast st else st @ [w])"

definition components :: "u8 list \<Rightarrow> u8 list list" where
  "components bs = foldl norm_step [] (words {slash} bs)"

definition path_of :: "u8 list list \<Rightarrow> u8 list" where
  "path_of ws = (if ws = [] then [slash] else concat (map ((#) slash) ws))"

definition joined :: "u8 list \<Rightarrow> u8 list \<Rightarrow> u8 list" where
  "joined base input =
     (if input \<noteq> [] \<and> hd input = slash then input
      else if base \<noteq> [] \<and> last base \<noteq> slash then base @ [slash] @ input
      else base @ input)"

subsection \<open>Strings in place\<close>

lemma cstrI: "(\<And>i. i < length xs \<Longrightarrow> m (s + word_of_nat i) = xs ! i) \<Longrightarrow> m (s + word_of_nat (length xs)) = 0 \<Longrightarrow> 0 \<notin> set xs \<Longrightarrow> cstr m s xs"
proof (induction xs arbitrary: s)
  case (Cons x xs)
  have "m s = x" using Cons.prems(1) [of 0] by simp
  moreover have "cstr m (s + 1) xs"
    using Cons.prems(1) [of "Suc _"] Cons.prems(2,3) by (intro Cons.IH) (auto simp: add.assoc)
  ultimately show ?case using Cons.prems(3) by auto
qed simp

text \<open>\<open>outside m m' a n\<close>: the two memories agree outside \<open>n\<close> bytes at \<open>a\<close>.\<close>

definition outside :: "bytes \<Rightarrow> bytes \<Rightarrow> u64 \<Rightarrow> nat \<Rightarrow> bool" where
  "outside m m' a n \<longleftrightarrow> (\<forall>x. unat x < unat a \<or> unat a + n \<le> unat x \<longrightarrow> m' x = m x)"

definition apart :: "u64 \<Rightarrow> nat \<Rightarrow> u64 \<Rightarrow> nat \<Rightarrow> bool" where
  "apart a n b k \<longleftrightarrow> unat a + n \<le> unat b \<or> unat b + k \<le> unat a"

lemma outside_refl [simp]: "outside m m a n"
  by (simp add: outside_def)

lemma outside_trans: "outside m m' a n \<Longrightarrow> outside m' m'' a n \<Longrightarrow> outside m m'' a n"
  by (simp add: outside_def)

lemma outside_mono: "outside m m' a n \<Longrightarrow> unat b \<le> unat a \<Longrightarrow> unat a + n \<le> unat b + k \<Longrightarrow> outside m m' b k"
  by (auto simp: outside_def)

lemma str_at_outside: "str_at m s xs \<Longrightarrow> outside m m' a n \<Longrightarrow> apart a n s (length xs + 1) \<Longrightarrow> str_at m' s xs"
  by (erule str_at_cong) (auto simp: outside_def apart_def)

lemma paste_at:
  assumes "0 \<notin> set xs" and "0 < unat d" and "unat d + length xs < 2 ^ 64"
  shows "str_at (paste d (xs @ [0]) m) d xs" and "outside m (paste d (xs @ [0]) m) d (length xs + 1)"
proof -
  have "cstr (paste d (xs @ [0]) m) d xs"
  proof (rule cstrI)
    fix i assume "i < length xs"
    then show "paste d (xs @ [0]) m (d + word_of_nat i) = xs ! i"
      using assms(3) by (subst paste_apply) (simp_all add: nth_append)
  next
    show "paste d (xs @ [0]) m (d + word_of_nat (length xs)) = 0" using assms(3) by (subst paste_apply) simp_all
  qed (rule assms(1))
  with assms show "str_at (paste d (xs @ [0]) m) d xs" by (simp add: str_at_def)
  show "outside m (paste d (xs @ [0]) m) d (length xs + 1)"
    unfolding outside_def
  proof (intro allI impI, rule paste_other)
    fix x :: u64 and i :: nat assume "unat x < unat d \<or> unat d + (length xs + 1) \<le> unat x" and "i < length (xs @ [0])"
    moreover from this have "unat (d + word_of_nat i) = unat d + i" using assms(3) by (intro unat_plus_of_nat) simp
    ultimately show "x \<noteq> d + word_of_nat i" by auto
  qed
qed

lemma str_at_nonzero: "str_at m s xs \<Longrightarrow> 0 \<notin> set xs"
  using cstr_nonzero str_atD(1) by blast

lemma strcpy_u_at:
  assumes s: "str_at m s xs" and d: "0 < unat d" "unat d + length xs < 2 ^ 64" and ap: "apart d (length xs + 1) s (length xs + 1)"
  shows "\<exists>m'. strcpy_u d s m = Some (d, m') \<and> str_at m' d xs \<and> outside m m' d (length xs + 1)"
proof -
  have "strcpy_loop d s m = Some (paste d (xs @ [0]) m)"
  proof (rule strcpy_loop_cstr [OF str_atD(1) [OF s]])
    fix i j assume ij: "i \<le> length xs" "j \<le> length xs"
    then have "unat (s + word_of_nat i) = unat s + i" "unat (d + word_of_nat j) = unat d + j"
      using str_atD(4) [OF s] d(2) unat_plus_of_nat [of d j] by simp_all
    then show "s + word_of_nat i \<noteq> d + word_of_nat j" using ap ij by (auto simp: apart_def dest: arg_cong [of _ _ unat])
  qed (use str_atD(3) [OF s] in simp)
  then show ?thesis using paste_at [OF str_at_nonzero [OF s] d] by (simp add: strcpy_u_def)
qed

lemma strcat_u_at:
  assumes a: "str_at m d xs" and s: "str_at m s ys" and fit: "unat d + length xs + length ys < 2 ^ 64"
    and ap: "apart d (length xs + length ys + 1) s (length ys + 1)"
  shows "\<exists>m'. strcat_u d s m = Some (d, m') \<and> str_at m' d (xs @ ys) \<and> outside m m' d (length xs + length ys + 1)"
proof -
  let ?e = "d + word_of_nat (length xs)"
  have e: "strlen_end d m = Some ?e" by (rule strlen_end_cstr) (rule str_atD(1) [OF a])
  have ue: "unat ?e = unat d + length xs" by (rule str_atD(4) [OF a]) simp
  have "\<exists>m'. strcpy_u ?e s m = Some (?e, m') \<and> str_at m' ?e ys \<and> outside m m' ?e (length ys + 1)"
    by (rule strcpy_u_at [OF s]) (use ue fit ap str_atD(2) [OF a] in \<open>auto simp: apart_def str_at_def unat_eq_0\<close>)
  then obtain m' where m': "strcpy_loop ?e s m = Some m'" "str_at m' ?e ys" "outside m m' ?e (length ys + 1)"
    by (auto simp: strcpy_u_def split: Option.bind_splits)
  have keep: "m' (d + word_of_nat i) = xs ! i" if "i < length xs" for i
  proof -
    have "unat (d + word_of_nat i) = unat d + i" using that by (intro str_atD(4) [OF a]) simp
    then show ?thesis using m'(3) that ue str_atD(5) [OF a, of i] by (simp add: outside_def nth_append)
  qed
  have "cstr m' d (xs @ ys)"
  proof (rule cstrI)
    fix i assume i: "i < length (xs @ ys)"
    show "m' (d + word_of_nat i) = (xs @ ys) ! i"
    proof (cases "i < length xs")
      case True
      then show ?thesis by (simp add: keep nth_append)
    next
      case False
      then have "m' (?e + word_of_nat (i - length xs)) = (ys @ [0]) ! (i - length xs)" 
        using i str_atD(5) [OF m'(2), of "i - length xs"] by simp
      moreover have "?e + word_of_nat (i - length xs) = d + word_of_nat i" using False by (simp add: add.assoc flip: of_nat_add)
      moreover have "i - length xs < length ys" using False i by simp
      ultimately show ?thesis using False by (simp add: nth_append)
    qed
  next
    show "m' (d + word_of_nat (length (xs @ ys))) = 0" using str_atD(5) [OF m'(2), of "length ys"] by (simp add: add.assoc)
    show "0 \<notin> set (xs @ ys)" using str_at_nonzero [OF a] str_at_nonzero [OF s] by simp
  qed
  then have "str_at m' d (xs @ ys)" using a fit by (simp add: str_at_def)
  moreover have "outside m m' d (length xs + length ys + 1)" using m'(3) ue by (auto simp: outside_def)
  ultimately show ?thesis using e m'(1) by (simp add: strcat_u_def)
qed

lemma strcmp_u_cstr: "cstr m s xs \<Longrightarrow> cstr m t ys \<Longrightarrow> strcmp_u s t m = Some (diff_bytes xs ys)"
proof (induction xs ys arbitrary: s t rule: diff_bytes.induct)
  case (4 x xs y ys)
  then show ?case by (subst strcmp_u.simps) auto
qed (subst strcmp_u.simps; auto)+

lemma strcmp_u_at:
  assumes "str_at m s xs" and "str_at m t ys"
  shows "\<exists>r. strcmp_u s t m = Some r \<and> (r = 0 \<longleftrightarrow> xs = ys)"
  using strcmp_u_cstr [OF str_atD(1) [OF assms(1)] str_atD(1) [OF assms(2)]]
    diff_bytes_0 [OF str_at_nonzero [OF assms(1)] str_at_nonzero [OF assms(2)]] by auto

lemma strlen_u_at:
  assumes s: "str_at m s xs" and len: "length xs < 2 ^ 31"
  shows "strlen_u s m = Some (int (length xs))"
proof -
  have "n \<le> length xs \<Longrightarrow> strlen_loop s (int n) m = Some (int (length xs))" for n
  proof (induction "length xs - n" arbitrary: n)
    case 0
    then have "n = length xs" by simp
    moreover have "m (s + word_of_nat (length xs)) = 0" using str_atD(5) [OF s, of "length xs"] by simp
    ultimately show ?case by (subst strlen_loop.simps) simp
  next
    case (Suc k)
    then have n: "n < length xs" by simp
    have "xs ! n \<noteq> 0" using str_at_nonzero [OF s] nth_mem [OF n] by metis
    then have "m (s + word_of_nat n) \<noteq> 0" using str_atD(5) [OF s, of n] n by (simp add: nth_append)
    moreover have "strlen_loop s (int (Suc n)) m = Some (int (length xs))" using Suc n by (intro Suc(1)) simp_all
    ultimately show ?case using n len by (subst strlen_loop.simps) (simp add: add.commute)
  qed
  from this [of 0] show ?thesis by (simp add: strlen_u_def)
qed

subsection \<open>The stack of components\<close>

text \<open>The literals that \<^verbatim>\<open>resolve_path\<close> uses, away from \<open>n\<close> bytes at \<open>a\<close>.\<close>

definition path_lits :: "shell_env \<Rightarrow> bytes \<Rightarrow> u64 \<Rightarrow> nat \<Rightarrow> bool" where
  "path_lits E m a n \<longleftrightarrow> str_at m (lit E ''/'') [slash] \<and> apart a n (lit E ''/'') 2
     \<and> str_at m (lit E ''.'') (literal ''.'') \<and> apart a n (lit E ''.'') 2
     \<and> str_at m (lit E ''..'') (literal ''..'') \<and> apart a n (lit E ''..'') 3"

lemma length_literals [simp]: "length (literal s) = length s"
  by (simp add: literal_def)

lemma path_lits_outside:
  "path_lits E m a n \<Longrightarrow> outside m m' a n \<Longrightarrow> path_lits E m' a n"
  using str_at_outside [of m "lit E ''/''" "[slash]" m' a n] str_at_outside [of m "lit E ''.''" "literal ''.''" m' a n]
    str_at_outside [of m "lit E ''..''" "literal ''..''" m' a n]
  unfolding path_lits_def by (simp add: numeral_2_eq_2 numeral_3_eq_3)

definition in_temp :: "u64 \<Rightarrow> bytes \<Rightarrow> nat \<Rightarrow> u64 \<Rightarrow> u8 list \<Rightarrow> bool" where
  "in_temp a m hi p w \<longleftrightarrow> str_at m p w \<and> unat a \<le> unat p \<and> unat p + length w < hi"

lemma in_temp_outside:
  assumes "list_all2 (in_temp a m lo) ps ws" and "\<forall>x. unat x < lo \<longrightarrow> m' x = m x"
  shows "list_all2 (in_temp a m' lo) ps ws"
  using assms(1)
proof (rule list_all2_mono)
  fix p w assume i: "in_temp a m lo p w"
  then have p: "str_at m p w" "unat p + length w < lo" by (simp_all add: in_temp_def)
  have "str_at m' p w" by (rule str_at_cong [OF p(1)]) (use assms(2) p(2) in simp)
  with i show "in_temp a m' lo p w" by (simp add: in_temp_def)
qed

lemma in_temp_mono: "list_all2 (in_temp a m lo) ps ws \<Longrightarrow> lo \<le> hi \<Longrightarrow> list_all2 (in_temp a m hi) ps ws"
  by (erule list_all2_mono) (auto simp: in_temp_def)

lemma list_all2_butlast: "list_all2 P xs ys \<Longrightarrow> list_all2 P (butlast xs) (butlast ys)"
  by (simp add: butlast_conv_take list_all2_lengthD list_all2_takeI)

text \<open>One component.\<close>

lemma resolve_step:
  assumes w: "str_at m p w" "w \<noteq> []" "length w < 2 ^ 31" and lits: "path_lits E m a n"
    and st: "list_all2 (in_temp a m (unat p)) ps st" and depth: "length st < 64" and lo: "unat a \<le> unat p"
  shows "\<exists>ps'. push_token E m p ps = Some ps' \<and> list_all2 (in_temp a m (unat p + length w + 1)) ps' (norm_step st w)"
proof -
  obtain r where r: "strcmp_u p (lit E ''.'') m = Some r" "r = 0 \<longleftrightarrow> w = literal ''.''"
    using strcmp_u_at [OF w(1), of "lit E ''.''"] lits unfolding path_lits_def by blast
  obtain q where q: "strcmp_u p (lit E ''..'') m = Some q" "q = 0 \<longleftrightarrow> w = literal ''..''"
    using strcmp_u_at [OF w(1), of "lit E ''..''"] lits unfolding path_lits_def by blast
  have len: "strlen_u p m = Some (int (length w))" by (rule strlen_u_at [OF w(1,3)])
  have st': "list_all2 (in_temp a m (unat p + length w + 1)) ps st" by (rule in_temp_mono [OF st]) simp
  have "list_all2 (in_temp a m (unat p + length w + 1)) (ps @ [p]) (st @ [w])"
    using st' w(1) lo by (simp add: list_all2_append list_all2_lengthD in_temp_def)
  moreover have "length ps < 64" using depth list_all2_lengthD [OF st] by simp
  ultimately have new: "length ps < 64" "list_all2 (in_temp a m (unat p + length w + 1)) (ps @ [p]) (st @ [w])" by simp_all
  show ?thesis
  proof (cases "w = literal ''.''")
    case True
    with r st' show ?thesis by (simp add: push_token_def norm_step_def)
  next
    case False
    then have r0: "r \<noteq> 0" using r(2) by simp
    show ?thesis
    proof (cases "w = literal ''..''")
      case True
      have "norm_step st w = butlast st" using False True by (simp add: norm_step_def)
      then show ?thesis using True r(1) r0 q list_all2_butlast [OF st'] by (simp add: push_token_def)
    next
      case two: False
      have "norm_step st w = st @ [w]" using False two by (simp add: norm_step_def)
      then show ?thesis using two r(1) r0 q len w(2) new by (simp add: push_token_def)
    qed
  qed
qed

lemma resolve_loop_ok:
  assumes "str_at m p w" and "w \<noteq> []" and "to_cut {slash} nxt m (unat p + length w + 1) hi ws" and "unat p + length w \<le> hi"
    and "path_lits E m a (hi + 1 - unat a)" and "list_all2 (in_temp a m (unat p)) ps st"
    and "length st + length ws < 64" and "unat a \<le> unat p" and "hi < unat a + 2 ^ 31" and "[] \<notin> set ws"
  shows "\<exists>ps' nxt' m'. resolve_loop E p ps (nxt, m) = Some (ps', nxt', m')
     \<and> list_all2 (in_temp a m' (hi + 1)) ps' (foldl norm_step st (w # ws)) \<and> outside m m' a (hi + 1 - unat a)"
  using assms
proof (induction ws arbitrary: p w nxt m ps st)
  case Nil
  obtain ps' where ps': "list_all2 (in_temp a m (unat p + length w + 1)) ps' (norm_step st w)"
    "resolve_loop E p ps (nxt, m) = strtok 0 (lit E ''/'') (nxt, m) \<bind> (\<lambda>(token, s). resolve_loop E token ps' s)"
    using resolve_step [OF Nil(1,2) _ Nil(5,6) _ Nil(8)] Nil(4,7,8,9) str_atD(2) [OF Nil(1)]
    by (auto simp: resolve_loop.simps [of E p])
  have "str_at m (lit E ''/'') [slash]" "unat (lit E ''/'') + 1 < unat p + length w + 1 \<or> hi < unat (lit E ''/'')"
    using Nil(5,8) by (auto simp: path_lits_def apart_def)
  with strtok_next [of "[slash]" nxt m "unat p + length w + 1" hi "[]" "lit E ''/''"] Nil(3)
  have "strtok 0 (lit E ''/'') (nxt, m) = Some (0, 0, m)" by simp
  moreover have "list_all2 (in_temp a m (hi + 1)) ps' (norm_step st w)" by (rule in_temp_mono [OF ps'(1)]) (use Nil(4) in simp)
  ultimately show ?case using ps'(2) by (simp add: resolve_loop.simps)
next
  case (Cons v ws)
  obtain ps' where ps': "list_all2 (in_temp a m (unat p + length w + 1)) ps' (norm_step st w)"
    "resolve_loop E p ps (nxt, m) = strtok 0 (lit E ''/'') (nxt, m) \<bind> (\<lambda>(token, s). resolve_loop E token ps' s)"
    using resolve_step [OF Cons.prems(1,2) _ Cons.prems(5,6) _ Cons.prems(8)] Cons.prems(4,7,8,9) str_atD(2) [OF Cons.prems(1)]
    by (auto simp: resolve_loop.simps [of E p])
  have "str_at m (lit E ''/'') [slash]" "unat (lit E ''/'') + 1 < unat p + length w + 1 \<or> hi < unat (lit E ''/'')"
    using Cons.prems(5,8) by (auto simp: path_lits_def apart_def)
  with strtok_next [of "[slash]" nxt m "unat p + length w + 1" hi "v # ws" "lit E ''/''"] Cons.prems(3)
  obtain q nxt' m1 where q: "strtok 0 (lit E ''/'') (nxt, m) = Some (q, nxt', m1)" "str_at m1 q v" "unat p + length w + 1 \<le> unat q"
    "unat q + length v \<le> hi" "\<forall>x. unat x < unat q + length v \<or> hi < unat x \<longrightarrow> m1 x = m x"
    "to_cut {slash} nxt' m1 (unat q + length v + 1) hi ws" by auto
  have out: "outside m m1 a (hi + 1 - unat a)" using q(3,5) Cons.prems(8) by (auto simp: outside_def)
  have "list_all2 (in_temp a m1 (unat q)) ps' (norm_step st w)"
    by (rule in_temp_outside [OF in_temp_mono [OF ps'(1) q(3)]]) (use q(5) in auto)
  moreover have "length (norm_step st w) + length ws < 64" using Cons.prems(7) by (auto simp: norm_step_def)
  moreover have "v \<noteq> []" using Cons.prems(10) by auto
  ultimately have "\<exists>ps'' nxt'' m'. resolve_loop E q ps' (nxt', m1) = Some (ps'', nxt'', m')
     \<and> list_all2 (in_temp a m' (hi + 1)) ps'' (foldl norm_step (norm_step st w) (v # ws)) \<and> outside m1 m' a (hi + 1 - unat a)"
    using Cons.IH [OF q(2) _ q(6,4) path_lits_outside [OF Cons.prems(5) out]] Cons.prems(8,9,10) q(3) by simp
  then show ?case using ps'(2) q(1) outside_trans [OF out] by fastforce
qed

lemma full_path_ok:
  assumes base: "str_at m base bb" "apart (temp_at E) 256 base (length bb + 1)"
    and input: "str_at m input ib" "apart (temp_at E) 256 input (length ib + 1)"
    and lits: "str_at m (lit E ''/'') [slash]" "apart (temp_at E) 256 (lit E ''/'') 2"
    and T: "0 < unat (temp_at E)" "unat (temp_at E) + 256 < 2 ^ 64" and len: "length (joined bb ib) < 256"
  shows "\<exists>m'. full_path E base input m = Some m' \<and> str_at m' (temp_at E) (joined bb ib) \<and> outside m m' (temp_at E) 256"
proof (cases "ib \<noteq> [] \<and> hd ib = slash")
  case True
  then have "m input = 0x2F" using str_atD(5) [OF input(1), of 0] by (cases ib) (auto simp: slash_def)
  moreover have j: "joined bb ib = ib" using True by (simp add: joined_def)
  moreover have "\<exists>m'. strcpy_u (temp_at E) input m = Some (temp_at E, m') \<and> str_at m' (temp_at E) ib \<and> outside m m' (temp_at E) (length ib + 1)"
    by (rule strcpy_u_at [OF input(1)]) (use T len j input(2) in \<open>auto simp: apart_def\<close>)
  ultimately show ?thesis using len outside_mono [of m _ "temp_at E" "length ib + 1" "temp_at E" 256]
    by (auto simp: full_path_def Let_def)
next
  case False
  let ?T = "temp_at E" and ?mid = "if bb \<noteq> [] \<and> last bb \<noteq> slash then bb @ [slash] else bb"
  have j: "joined bb ib = ?mid @ ib" using False by (auto simp: joined_def)
  have i0: "m input \<noteq> 0x2F"
    using str_atD(5) [OF input(1), of 0] False by (cases ib) (auto simp: slash_def)
  have lens: "length bb \<le> length ?mid" "length ?mid + length ib < 256" using len unfolding j by (auto split: if_splits)
  have "\<exists>m'. strcpy_u ?T base m = Some (?T, m') \<and> str_at m' ?T bb \<and> outside m m' ?T (length bb + 1)"
    by (rule strcpy_u_at [OF base(1)]) (use T lens base(2) in \<open>auto simp: apart_def\<close>)
  then obtain m1 where m1: "strcpy_u ?T base m = Some (?T, m1)" "str_at m1 ?T bb" "outside m m1 ?T 256"
    using lens outside_mono [of m _ ?T "length bb + 1" ?T 256] by auto
  have len1: "strlen_u ?T m1 = Some (int (length bb))" using lens by (intro strlen_u_at [OF m1(2)]) simp
  have lits1: "str_at m1 (lit E ''/'') [slash]" by (rule str_at_outside [OF lits(1) m1(3)]) (use lits(2) in \<open>simp add: numeral_2_eq_2\<close>)
  have "\<exists>m2. (if int (length bb) > 0 \<and> m1 (?T + word_of_int (int (length bb) - 1)) \<noteq> 0x2F
        then map_option snd (strcat_u ?T (lit E ''/'') m1) else Some m1) = Some m2 \<and> str_at m2 ?T ?mid \<and> outside m1 m2 ?T 256"
  proof (cases "bb = []")
    case True
    with m1(2) show ?thesis by simp
  next
    case ne: False
    have "word_of_int (int (length bb) - 1) = (word_of_nat (length bb - 1) :: u64)" using ne by (cases bb) simp_all
    then have last: "m1 (?T + word_of_int (int (length bb) - 1)) = last bb"
      using str_atD(5) [OF m1(2), of "length bb - 1"] ne by (simp add: nth_append last_conv_nth)
    show ?thesis
    proof (cases "last bb = slash")
      case True
      with last m1(2) ne show ?thesis by (simp add: slash_def)
    next
      case app: False
      have "\<exists>m'. strcat_u ?T (lit E ''/'') m1 = Some (?T, m') \<and> str_at m' ?T (bb @ [slash]) \<and> outside m1 m' ?T (length bb + length [slash] + 1)"
        by (rule strcat_u_at [OF m1(2)]) (use lits1 lits(2) T lens ne app in \<open>auto simp: apart_def\<close>)
      then obtain m2 where "strcat_u ?T (lit E ''/'') m1 = Some (?T, m2)" "str_at m2 ?T (bb @ [slash])" "outside m1 m2 ?T 256"
        using lens ne app outside_mono [of m1 _ ?T "length bb + 2" ?T 256] by auto
      with last ne app show ?thesis by (simp add: slash_def)
    qed
  qed
  then obtain m2 where m2: "(if int (length bb) > 0 \<and> m1 (?T + word_of_int (int (length bb) - 1)) \<noteq> 0x2F
        then map_option snd (strcat_u ?T (lit E ''/'') m1) else Some m1) = Some m2" "str_at m2 ?T ?mid" "outside m1 m2 ?T 256" by blast
  have out2: "outside m m2 ?T 256" by (rule outside_trans [OF m1(3) m2(3)])
  have in2: "str_at m2 input ib" by (rule str_at_outside [OF input(1) out2 input(2)])
  have "\<exists>m'. strcat_u ?T input m2 = Some (?T, m') \<and> str_at m' ?T (?mid @ ib) \<and> outside m2 m' ?T (length ?mid + length ib + 1)"
    by (rule strcat_u_at [OF m2(2) in2]) (use T lens input(2) in \<open>unfold apart_def, linarith+\<close>)
  then obtain m3 where m3: "strcat_u ?T input m2 = Some (?T, m3)" "str_at m3 ?T (?mid @ ib)" "outside m2 m3 ?T 256"
    using lens(2) outside_mono [of m2 _ ?T "length ?mid + length ib + 1" ?T 256] by auto
  have "full_path E base input m = Some m3"
    using i0 m1(1) len1 m2(1) m3(1) by (simp add: full_path_def Let_def)
  then show ?thesis using m3(2) outside_trans [OF out2 m3(3)] unfolding j by blast
qed

lemma join_tokens_ok:
  assumes "str_at m t acc" and "list_all2 (in_temp a m hi) ps ws" and "path_lits E m t 256"
    and "length (acc @ concat (map ((#) slash) ws)) < 256" and "unat t + 256 < 2 ^ 64" and "unat t + 256 \<le> unat a \<or> hi \<le> unat t"
  shows "\<exists>m'. foldM (join_token E t) ps m = Some m' \<and> str_at m' t (acc @ concat (map ((#) slash) ws)) \<and> outside m m' t 256"
  using assms
proof (induction ws arbitrary: ps m acc)
  case Nil
  then show ?case by simp
next
  case (Cons w ws)
  then obtain p qs where ps: "ps = p # qs" "in_temp a m hi p w" "list_all2 (in_temp a m hi) qs ws" by (auto simp: list_all2_Cons2)
  have len: "length acc + length w + 1 < 256" using Cons.prems(4) by simp
  have "\<exists>m'. strcat_u t (lit E ''/'') m = Some (t, m') \<and> str_at m' t (acc @ [slash]) \<and> outside m m' t (length acc + length [slash] + 1)"
    by (rule strcat_u_at [OF Cons.prems(1)]) (use Cons.prems(3,5) len in \<open>auto simp: path_lits_def apart_def\<close>)
  then obtain m1 where m1: "strcat_u t (lit E ''/'') m = Some (t, m1)" "str_at m1 t (acc @ [slash])" "outside m m1 t 256"
    using len outside_mono [of m _ t "length acc + 2" t 256] by auto
  have keep: "list_all2 (in_temp a m' hi) rs vs" if "outside m0 m' t 256" "list_all2 (in_temp a m0 hi) rs vs" for m0 m' rs vs
    using that(2)
  proof (rule list_all2_mono)
    fix r v assume i: "in_temp a m0 hi r v"
    then have "str_at m' r v" using Cons.prems(6) by (intro str_at_outside [OF _ that(1)]) (auto simp: in_temp_def apart_def)
    with i show "in_temp a m' hi r v" by (simp add: in_temp_def)
  qed
  from keep [OF m1(3), of "[p]" "[w]"] ps(2) have p1: "in_temp a m1 hi p w" by simp
  have "\<exists>m'. strcat_u t p m1 = Some (t, m') \<and> str_at m' t ((acc @ [slash]) @ w) \<and> outside m1 m' t (length (acc @ [slash]) + length w + 1)"
    by (rule strcat_u_at [OF m1(2)]) (use p1 Cons.prems(5,6) len in \<open>auto simp: in_temp_def apart_def\<close>)
  then obtain m2 where m2: "strcat_u t p m1 = Some (t, m2)" "str_at m2 t ((acc @ [slash]) @ w)" "outside m1 m2 t 256"
    using len outside_mono [of m1 _ t "length acc + length w + 2" t 256] by auto
  have out: "outside m m2 t 256" by (rule outside_trans [OF m1(3) m2(3)])
  have jn: "join_token E t p m = Some m2" using m1(1) m2(1) by (simp add: join_token_def)
  have "\<exists>m'. foldM (join_token E t) qs m2 = Some m'
      \<and> str_at m' t (((acc @ [slash]) @ w) @ concat (map ((#) slash) ws)) \<and> outside m2 m' t 256"
    by (rule Cons.IH [OF m2(2) keep [OF out ps(3)] path_lits_outside [OF Cons.prems(3) out]]) (use Cons.prems(4-6) in simp_all)
  then obtain m3 where "foldM (join_token E t) qs m2 = Some m3" "str_at m3 t (acc @ concat (map ((#) slash) (w # ws)))"
    "outside m2 m3 t 256" by auto
  then show ?case using jn ps(1) outside_trans [OF out] by (intro exI [of _ m3]) simp
qed

lemma components_canonical: "w \<in> set (components bs) \<Longrightarrow> w \<noteq> [] \<and> w \<noteq> literal ''.'' \<and> w \<noteq> literal ''..'' \<and> slash \<notin> set w"
proof -
  have "\<forall>w \<in> set ws. w \<noteq> [] \<and> slash \<notin> set w \<Longrightarrow> \<forall>w \<in> set st. w \<noteq> [] \<and> w \<noteq> literal ''.'' \<and> w \<noteq> literal ''..'' \<and> slash \<notin> set w \<Longrightarrow>
      \<forall>w \<in> set (foldl norm_step st ws). w \<noteq> [] \<and> w \<noteq> literal ''.'' \<and> w \<noteq> literal ''..'' \<and> slash \<notin> set w" for ws st
  proof (induction ws arbitrary: st)
    case (Cons w ws)
    show ?case unfolding foldl_Cons
      by (rule Cons.IH) (use Cons.prems in \<open>auto simp: norm_step_def dest: in_set_butlastD\<close>)
  qed simp
  from this [of "words {slash} bs" "[]"] show "w \<in> set (components bs) \<Longrightarrow> ?thesis"
    using word_of_words [of _ "{slash}" bs] by (auto simp: components_def)
qed

text \<open>The first half of \<^verbatim>\<open>resolve_path\<close> after the path is built: the components, in place.\<close>

lemma collect_components:
  assumes full: "str_at m1 (temp_at E) full" and lits1: "path_lits E m1 (temp_at E) 256"
    and T: "0 < unat (temp_at E)" "unat (temp_at E) + 256 < 2 ^ 64" and len: "length full < 256"
    and depth: "length (words {slash} full) \<le> 64"
  shows "\<exists>ps nxt' m2. (do { (token, nxt, m) \<leftarrow> strtok (temp_at E) (lit E ''/'') (nxt, m1); resolve_loop E token [] (nxt, m) }) = Some (ps, nxt', m2)
      \<and> list_all2 (in_temp (temp_at E) m2 (unat (temp_at E) + 256)) ps (components full) \<and> outside m1 m2 (temp_at E) 256"
proof -
  let ?T = "temp_at E" and ?full = full
  have dl: "str_at m1 (lit E ''/'') [slash]" using lits1 by (simp add: path_lits_def)
  have T0: "?T = (if ?T \<noteq> 0 then ?T else nxt)" using T(1) by auto
  show ?thesis
  proof (cases "words {slash} ?full")
    case Nil
    have "strtok ?T (lit E ''/'') (nxt, m1) = Some (0, 0, m1)" by (rule strtok_end_of_text [OF full dl T0]) (simp add: Nil)
    then show ?thesis by (simp add: resolve_loop.simps components_def Nil)
  next
    case (Cons w ws)
    from strtok_word [OF full dl T0, of w ws] Cons obtain p nxt' m2 where
      p: "strtok ?T (lit E ''/'') (nxt, m1) = Some (p, nxt', m2)" "str_at m2 p w" "unat ?T \<le> unat p"
        "unat p + length w \<le> unat ?T + length ?full"
        "\<forall>x. unat x < unat p + length w \<or> unat ?T + length ?full < unat x \<longrightarrow> m2 x = m1 x"
        "to_cut {slash} nxt' m2 (unat p + length w + 1) (unat ?T + length ?full) ws" by auto
    have out: "outside m1 m2 ?T 256" using p(3,5) len by (auto simp: outside_def)
    have out': "outside m1 m2 ?T (unat ?T + length ?full + 1 - unat ?T)" using p(3,5) by (auto simp: outside_def)
    have "path_lits E m2 ?T 256" by (rule path_lits_outside [OF lits1 out])
    then have lits2: "path_lits E m2 ?T (unat ?T + length ?full + 1 - unat ?T)" using len by (auto simp: path_lits_def apart_def)
    have ne: "w \<noteq> []" "[] \<notin> set ws" using word_of_words [of _ "{slash}" ?full] Cons by auto
    have "\<exists>ps' nxt'' m'. resolve_loop E p [] (nxt', m2) = Some (ps', nxt'', m')
       \<and> list_all2 (in_temp ?T m' (unat ?T + length ?full + 1)) ps' (foldl norm_step [] (w # ws))
       \<and> outside m2 m' ?T (unat ?T + length ?full + 1 - unat ?T)"
      by (rule resolve_loop_ok [OF p(2) ne(1) p(6,4) lits2]) (use p(3) len depth Cons ne(2) in auto)
    then obtain ps nxt'' m3 where q: "resolve_loop E p [] (nxt', m2) = Some (ps, nxt'', m3)"
      "list_all2 (in_temp ?T m3 (unat ?T + length ?full + 1)) ps (components ?full)" "outside m2 m3 ?T 256"
      using outside_mono [of m2 _ ?T "length ?full + 1" ?T 256] len by (auto simp: components_def Cons)
    have "list_all2 (in_temp ?T m3 (unat ?T + 256)) ps (components ?full)" by (rule in_temp_mono [OF q(2)]) (use len in simp)
    then show ?thesis using p(1) q(1) outside_trans [OF out q(3)] by auto
  qed
qed

text \<open>The second half: the components, joined with slashes, or the root.\<close>

lemma write_components:
  assumes ps: "list_all2 (in_temp (temp_at E) m2 (unat (temp_at E) + 256)) ps (components full)" and litst: "path_lits E m2 target 256"
    and target: "0 < unat target" "unat target + 256 < 2 ^ 64" "apart (temp_at E) 256 target 256"
    and len: "length (path_of (components full)) < 256"
  shows "\<exists>m3. (if ps = [] then map_option snd (strcpy_u target (lit E ''/'') m2)
        else foldM (join_token E target) ps (m2(target := 0))) = Some m3
      \<and> str_at m3 target (path_of (components full)) \<and> outside m2 m3 target 256"
proof (cases "ps = []")
  case True
  then have c: "components full = []" using ps by simp
  have "\<exists>m'. strcpy_u target (lit E ''/'') m2 = Some (target, m') \<and> str_at m' target [slash] \<and> outside m2 m' target (length [slash] + 1)"
    by (rule strcpy_u_at) (use litst target in \<open>auto simp: path_lits_def apart_def\<close>)
  then show ?thesis using True c outside_mono [of m2 _ target "length [slash] + 1" target 256] by (auto simp: path_of_def)
next
  case False
  then have c: "components full \<noteq> []" using ps by auto
  let ?m = "m2(target := 0)"
  have o: "outside m2 ?m target 256" by (auto simp: outside_def)
  have e: "str_at ?m target []" using target by (simp add: str_at_def)
  have "list_all2 (in_temp (temp_at E) ?m (unat (temp_at E) + 256)) ps (components full)"
    using ps
  proof (rule list_all2_mono)
    fix p w assume i: "in_temp (temp_at E) m2 (unat (temp_at E) + 256) p w"
    then have "str_at ?m p w" using target(3) by (intro str_at_outside [OF _ o]) (auto simp: in_temp_def apart_def)
    with i show "in_temp (temp_at E) ?m (unat (temp_at E) + 256) p w" by (simp add: in_temp_def)
  qed
  then have "\<exists>m'. foldM (join_token E target) ps ?m = Some m' \<and> str_at m' target ([] @ concat (map ((#) slash) (components full)))
      \<and> outside ?m m' target 256"
    by (rule join_tokens_ok [OF e _ path_lits_outside [OF litst o]]) (use len c target in \<open>auto simp: path_of_def apart_def\<close>)
  then show ?thesis using False c outside_trans [OF o] by (auto simp: path_of_def)
qed

lemma resolve_path_result:
  assumes base: "str_at m base bb" "apart (temp_at E) 256 base (length bb + 1)"
    and input: "str_at m input ib" "apart (temp_at E) 256 input (length ib + 1)"
    and lits: "path_lits E m (temp_at E) 256" "path_lits E m target 256"
    and T: "0 < unat (temp_at E)" "unat (temp_at E) + 256 < 2 ^ 64"
    and target: "0 < unat target" "unat target + 256 < 2 ^ 64" "apart (temp_at E) 256 target 256"
    and len: "length (joined bb ib) < 256" "length (path_of (components (joined bb ib))) < 256"
    and depth: "length (words {slash} (joined bb ib)) \<le> 64"
  shows "\<exists>nxt' m'. resolve_path E target base input (nxt, m) = Some (0, nxt', m')
     \<and> str_at m' target (path_of (components (joined bb ib)))
     \<and> (\<forall>w \<in> set (components (joined bb ib)). w \<noteq> [] \<and> w \<noteq> literal ''.'' \<and> w \<noteq> literal ''..'' \<and> slash \<notin> set w)
     \<and> (\<forall>x. (unat x < unat (temp_at E) \<or> unat (temp_at E) + 256 \<le> unat x) \<and> (unat x < unat target \<or> unat target + 256 \<le> unat x)
          \<longrightarrow> m' x = m x)"
proof -
  let ?T = "temp_at E" and ?full = "joined bb ib"
  obtain m1 where m1: "full_path E base input m = Some m1" "str_at m1 ?T ?full" "outside m m1 ?T 256"
    using full_path_ok [OF base input _ _ T len(1)] lits(1) unfolding path_lits_def by blast
  have lits1: "path_lits E m1 ?T 256" by (rule path_lits_outside [OF lits(1) m1(3)])
  obtain ps nxt' m2 where m2: "(do { (token, nxt, m) \<leftarrow> strtok ?T (lit E ''/'') (nxt, m1); resolve_loop E token [] (nxt, m) }) = Some (ps, nxt', m2)"
    "list_all2 (in_temp ?T m2 (unat ?T + 256)) ps (components ?full)" "outside m1 m2 ?T 256"
    using collect_components [OF m1(2) lits1 T len(1) depth] by blast
  have out2: "outside m m2 ?T 256" by (rule outside_trans [OF m1(3) m2(3)])
  have litst: "path_lits E m2 target 256"
    using str_at_outside [OF _ out2] lits path_lits_outside [OF lits(1) out2] unfolding path_lits_def by blast
  obtain m3 where m3: "(if ps = [] then map_option snd (strcpy_u target (lit E ''/'') m2)
        else foldM (join_token E target) ps (m2(target := 0))) = Some m3"
    "str_at m3 target (path_of (components ?full))" "outside m2 m3 target 256"
    using write_components [OF m2(2) litst target len(2)] by blast
  have "resolve_path E target base input (nxt, m) = Some (0, nxt', m3)"
    using m1(1) m2(1) m3(1) by (auto simp: resolve_path_def split: Option.bind_splits if_splits)
  moreover have "\<forall>x. (unat x < unat ?T \<or> unat ?T + 256 \<le> unat x) \<and> (unat x < unat target \<or> unat target + 256 \<le> unat x) \<longrightarrow> m3 x = m x"
    using out2 m3(3) unfolding outside_def by auto
  ultimately show ?thesis using m3(2) components_canonical by blast
qed

text \<open>
  C16. \<^verbatim>\<open>resolve_path\<close> refines the stack of path components: from the base and the input it leaves in the target
  buffer the absolute path of the components of the joined path, with \<^verbatim>\<open>.\<close> dropped and \<^verbatim>\<open>..\<close> removing the
  component before it, never above the root, so that no component is empty, \<^verbatim>\<open>.\<close> or \<^verbatim>\<open>..\<close>; it writes nothing
  but its working buffer and the target. The joined path and the result are shorter than the buffers of 256 bytes, and the
  joined path has at most the 64 components for which \<^verbatim>\<open>tokens\<close> has room.
\<close>

theorem resolve_path_ok:
  assumes base: "str_at m base bb" "apart (temp_at E) 256 base (length bb + 1)"
    and input: "str_at m input ib" "apart (temp_at E) 256 input (length ib + 1)"
    and lits: "path_lits E m (temp_at E) 256" "path_lits E m target 256"
    and T: "0 < unat (temp_at E)" "unat (temp_at E) + 256 < 2 ^ 64"
    and target: "0 < unat target" "unat target + 256 < 2 ^ 64" "apart (temp_at E) 256 target 256"
    and len: "length (joined bb ib) < 256" "length (path_of (components (joined bb ib))) < 256"
    and depth: "length (words {slash} (joined bb ib)) \<le> 64"
  shows "\<exists>nxt' m'. resolve_path E target base input (nxt, m) = Some (0, nxt', m')
     \<and> str_at m' target (path_of (components (joined bb ib)))
     \<and> (\<forall>w \<in> set (components (joined bb ib)). w \<noteq> [] \<and> w \<noteq> literal ''.'' \<and> w \<noteq> literal ''..'' \<and> slash \<notin> set w)
     \<and> (\<forall>x. (unat x < unat (temp_at E) \<or> unat (temp_at E) + 256 \<le> unat x) \<and> (unat x < unat target \<or> unat target + 256 \<le> unat x)
          \<longrightarrow> m' x = m x)"
  by (rule resolve_path_result [OF assms])

definition shell_env_example :: shell_env where
  "shell_env_example = \<lparr>lit = (\<lambda>s. if s = ''/'' then 0x500 else if s = ''.'' then 0x510 else 0x520), current_directory = 0x1000,
     cmd_buffer = 0x2000, temp_path = 0x20000, temp_at = 0x10000, sh_stat = (\<lambda>_. (0, 1)), sh_exec = (\<lambda>_ _. 4),
     sh_stack = (\<lambda>_. \<lparr>sender_pid = 0, mtype = 0, data1 = 0, data2 = 0, data3 = 0\<rparr>)\<rparr>"

text \<open>The directory \<^verbatim>\<open>/\<close> and the input \<^verbatim>\<open>../b\<close>.\<close>

definition shell_mem_example :: bytes where
  "shell_mem_example = (\<lambda>_. 0)(0x500 := 0x2F, 0x510 := 0x2E, 0x520 := 0x2E, 0x521 := 0x2E, 0x1000 := 0x2F,
     0x2000 := 0x2E, 0x2001 := 0x2E, 0x2002 := 0x2F, 0x2003 := 0x62)"

theorem resolve_path_ok_witness:
  "\<exists>nxt' m'. resolve_path shell_env_example 0x20000 0x1000 0x2000 (0, shell_mem_example) = Some (0, nxt', m')
     \<and> str_at m' 0x20000 [0x2F, 0x62]"
proof -
  let ?in = "[0x2E, 0x2E, 0x2F, 0x62] :: u8 list"
  have j: "joined [0x2F] ?in = 0x2F # ?in" by (simp add: joined_def slash_def)
  have w: "words {slash} (0x2F # ?in) = [[0x2E, 0x2E], [0x62]]"
    by (simp add: words_skip words_word slash_def)
  have c: "path_of (components (0x2F # ?in)) = [0x2F, 0x62]"
    unfolding components_def w by (simp add: norm_step_def literal_def path_of_def slash_def)
  have b: "str_at shell_mem_example 0x1000 [0x2F]" "str_at shell_mem_example 0x2000 ?in"
    by (simp_all add: str_at_def shell_mem_example_def)
  have lits: "path_lits shell_env_example shell_mem_example 0x10000 256" "path_lits shell_env_example shell_mem_example 0x20000 256"
    by (simp_all add: path_lits_def str_at_def shell_env_example_def shell_mem_example_def literal_def slash_def apart_def)
  have t: "temp_at shell_env_example = 0x10000" by (simp add: shell_env_example_def)
  show ?thesis
    using resolve_path_ok [of shell_mem_example "0x1000" "[0x2F]" shell_env_example "0x2000" ?in "0x20000" 0]
    by (simp add: t b lits j w c apart_def) blast
qed

end
