(* ===== verification/ShellLine.thy ===== *)
theory ShellLine
  imports Shell
begin

text \<open>
  The line editor and the command \<^verbatim>\<open>cd\<close> of the shell: what the user types ends up in the command buffer, edited,
  and a directory command changes the current directory to the normalised path exactly when the system says that it
  is a directory.
\<close>

subsection \<open>The line editor\<close>

definition edit_key :: "u8 list \<Rightarrow> u8 \<Rightarrow> u8 list" where
  "edit_key l k = (if k = 0x08 then butlast l else l @ [k])"

definition edited :: "u8 list \<Rightarrow> u8 list" where
  "edited ks = foldl edit_key [] ks"

lemma length_edited: "length (edited ks) \<le> length ks"
  unfolding edited_def by (induction ks rule: rev_induct) (auto simp: edit_key_def)

definition key_msg :: "u32 \<Rightarrow> u8 \<Rightarrow> message" where
  "key_msg p k = \<lparr>sender_pid = p, mtype = KEY_EVENT, data1 = ucast k, data2 = 0, data3 = 0\<rparr>"

lemma shell_more:
  assumes "stdio.more s' = stdio.more (s :: shell)"
  shows "smem s' = smem s" and "tok_next s' = tok_next s" and "execs s' = execs s"
  using assms by (cases s, cases s', simp)+

lemma set_byte_fields [simp]:
  "stdio_ok (set_byte a b s) = stdio_ok s" "recvs (set_byte a b s) = recvs s" "room (set_byte a b s) = room s"
  "terminal_pid (set_byte a b s) = terminal_pid s" "smem (set_byte a b s) = (smem s)(a := b)"
  "tok_next (set_byte a b s) = tok_next s" "execs (set_byte a b s) = execs s"
  by (simp_all add: set_byte_def stdio_ok_def pending_def room_def)

text \<open>What the editor keeps apart from the buffer.\<close>

definition kept :: "shell \<Rightarrow> shell \<Rightarrow> bool" where
  "kept s s' \<longleftrightarrow> stdio_ok s' \<and> terminal_pid s' = terminal_pid s \<and> tok_next s' = tok_next s \<and> execs s' = execs s"

lemma key_arrives:
  assumes "stdio_ok s" and "0 < room s" and "recvs s = Some (key_msg p k) # rest" and "sint p = terminal_pid s"
    and "\<forall>r. mtype (sh_stack E r) \<noteq> QUIT_REQUEST"
  shows "\<exists>s'. getchar (sh_stack E (recvs s)) s = Some (k, s') \<and> kept s s' \<and> recvs s' = rest \<and> smem s' = smem s \<and> room s \<le> room s' + 1"
proof -
  have e: "ends_wait s (key_msg p k)" using assms(4) by (simp add: ends_wait_def key_msg_def)
  have k: "ucast (data1 (key_msg p k)) = k" by (rule bit_word_eqI) (auto simp: key_msg_def bit_simps)
  have ty: "mtype (key_msg p k) = KEY_EVENT" by (simp add: key_msg_def)
  have "\<exists>s'. getchar (sh_stack E (recvs s)) s = Some (if mtype (key_msg p k) = KEY_EVENT then ucast (data1 (key_msg p k)) else EOF, s')
     \<and> stdio_ok s' \<and> recvs s' = rest \<and> pending s' = [] \<and> concat (batch_texts (terminal_pid s) (sends s')) = printed s
     \<and> terminal_pid s' = terminal_pid s \<and> room s \<le> room s' + 1 \<and> stdio.more s' = stdio.more s"
    by (rule getchar_delivers [OF assms(1,2) _ _ e, where ms = "[]"]) (use assms(3,5) in simp_all)
  then obtain s' where "getchar (sh_stack E (recvs s)) s = Some (k, s')" "stdio_ok s'" "recvs s' = rest"
    "terminal_pid s' = terminal_pid s" "room s \<le> room s' + 1" "stdio.more s' = stdio.more s"
    unfolding ty k by auto
  then show ?thesis by (intro exI [of _ s']) (simp add: kept_def shell_more [of s' s])
qed

lemma echo:
  assumes "stdio_ok s" and "0 \<notin> set str" and "length str \<le> room s"
  shows "\<exists>s'. foldM putchar str s = Some s' \<and> kept s s' \<and> recvs s' = recvs s \<and> smem s' = smem s \<and> room s \<le> room s' + length str"
proof -
  obtain s' where "foldM putchar str s = Some s'" "extends str s s'" using putchars_ok [OF assms] by blast
  then show ?thesis by (intro exI [of _ s']) (simp add: kept_def extends_def shell_more [of s' s])
qed

lemma echo1:
  assumes "stdio_ok s" and "c \<noteq> 0" and "0 < room s"
  shows "\<exists>s'. putchar c s = Some s' \<and> kept s s' \<and> recvs s' = recvs s \<and> smem s' = smem s \<and> room s \<le> room s' + 1"
proof -
  obtain s' where "putchar c s = Some s'" "extends [c] s s'" using putchar_ok [OF assms] by blast
  then show ?thesis by (intro exI [of _ s']) (simp add: kept_def extends_def shell_more [of s' s])
qed

lemma kept_trans: "kept s s' \<Longrightarrow> kept s' s'' \<Longrightarrow> kept s s''"
  by (simp add: kept_def)

text \<open>The three ways that a key goes: the end of the line, a backspace, a character.\<close>

lemma readline_end:
  assumes "stdio_ok s" and "recvs s = Some (key_msg p 0x0A) # rest" and "sint p = terminal_pid s" and "2 \<le> room s"
    and "\<forall>r. mtype (sh_stack E r) \<noteq> QUIT_REQUEST" and buf: "0 < unat buf" "unat buf + 256 < 2 ^ 64"
    and l: "length l < 255" "0 \<notin> set l" "load_bytes (smem s) buf (length l) = l"
  shows "\<exists>s'. readline_loop E buf MAX_CMD_LEN (int (length l)) s = Some (0, s') \<and> str_at (smem s') buf l
     \<and> kept s s' \<and> recvs s' = rest \<and> outside (smem s) (smem s') buf 256 \<and> room s \<le> room s' + 2"
proof -
  obtain s1 where s1: "getchar (sh_stack E (recvs s)) s = Some (0x0A, s1)" "kept s s1" "recvs s1 = rest" "smem s1 = smem s"
    "room s \<le> room s1 + 1"
    using key_arrives [OF assms(1) _ assms(2,3,5)] assms(4) by auto
  have "\<exists>s'. putchar 0x0A s1 = Some s' \<and> kept s1 s' \<and> recvs s' = recvs s1 \<and> smem s' = smem s1 \<and> room s1 \<le> room s' + 1"
    by (rule echo1) (use s1 assms(4) in \<open>auto simp: kept_def\<close>)
  then obtain s2 where s2: "putchar 0x0A s1 = Some s2" "kept s1 s2" "recvs s2 = rest" "smem s2 = smem s" "room s \<le> room s2 + 2"
    using s1(3-5) by fastforce
  let ?s = "set_byte (buf + word_of_nat (length l)) 0 s2"
  have ub: "unat (buf + word_of_nat i) = unat buf + i" if "i \<le> length l" for i
    using l(1) buf(2) that by (intro unat_plus_of_nat) simp
  have "cstr (smem ?s) buf l"
  proof (rule cstrI)
    fix i assume i: "i < length l"
    then have "buf + word_of_nat i \<noteq> buf + word_of_nat (length l)" using ub [of i] ub [of "length l"] by auto
    moreover have "smem s (buf + word_of_nat i) = l ! i" using arg_cong [OF l(3), of "\<lambda>b. b ! i"] i by simp
    ultimately show "smem ?s (buf + word_of_nat i) = l ! i" using s2(4) by simp
  qed (use l(2) in simp_all)
  then have "str_at (smem ?s) buf l" using l(1) buf by (simp add: str_at_def)
  moreover have "kept s ?s" using s1(2) s2(2) by (simp add: kept_def)
  moreover have "outside (smem s) (smem ?s) buf 256" using ub [of "length l"] l(1) s2(4) by (auto simp: outside_def)
  ultimately show ?thesis using s1(1) s2 l(1) by (subst readline_loop.simps) (simp add: MAX_CMD_LEN_def EOF_def)
qed

lemma readline_erase:
  assumes "stdio_ok s" and "recvs s = Some (key_msg p 0x08) # rest" and "sint p = terminal_pid s" and "4 \<le> room s"
    and "\<forall>r. mtype (sh_stack E r) \<noteq> QUIT_REQUEST" and l: "length l < 255" "load_bytes (smem s) buf (length l) = l"
  shows "\<exists>s2. readline_loop E buf MAX_CMD_LEN (int (length l)) s = readline_loop E buf MAX_CMD_LEN (int (length (butlast l))) s2
     \<and> kept s s2 \<and> recvs s2 = rest \<and> smem s2 = smem s \<and> room s \<le> room s2 + 4
     \<and> load_bytes (smem s2) buf (length (butlast l)) = butlast l"
proof -
  obtain s1 where s1: "getchar (sh_stack E (recvs s)) s = Some (0x08, s1)" "kept s s1" "recvs s1 = rest" "smem s1 = smem s"
    "room s \<le> room s1 + 1"
    using key_arrives [OF assms(1) _ assms(2,3,5)] assms(4) by auto
  have "load_bytes (smem s) buf (length (butlast l)) = take (length l - 1) (load_bytes (smem s) buf (length l))"
    by (simp add: load_bytes_def take_map)
  also have "\<dots> = butlast l" using l(2) by (simp add: butlast_conv_take)
  finally have ld: "load_bytes (smem s) buf (length (butlast l)) = butlast l" .
  show ?thesis
  proof (cases "l = []")
    case True
    then show ?thesis using s1 ld by (subst readline_loop.simps) (auto simp: MAX_CMD_LEN_def EOF_def intro!: exI [of _ s1])
  next
    case False
    then have len: "int (length l - Suc 0) = int (length l) - 1" by (cases l) simp_all
    have "\<exists>s'. foldM putchar [0x08, 0x20, 0x08] s1 = Some s' \<and> kept s1 s' \<and> recvs s' = recvs s1 \<and> smem s' = smem s1
        \<and> room s1 \<le> room s' + length [0x08, 0x20, 0x08 :: u8]"
      by (rule echo) (use s1 assms(4) in \<open>auto simp: kept_def\<close>)
    then obtain s2 where s2: "foldM putchar [0x08, 0x20, 0x08] s1 = Some s2" "kept s1 s2" "recvs s2 = recvs s1" "smem s2 = smem s1"
      "room s1 \<le> room s2 + 3" by auto
    have "readline_loop E buf MAX_CMD_LEN (int (length l)) s = readline_loop E buf MAX_CMD_LEN (int (length (butlast l))) s2"
      using False s1(1) s2(1) l(1)
      by (subst readline_loop.simps) (auto simp: MAX_CMD_LEN_def EOF_def len split: Option.bind_splits)
    then show ?thesis using s1 s2 ld kept_trans [OF s1(2) s2(2)] by auto
  qed
qed

lemma readline_type:
  assumes "stdio_ok s" and "recvs s = Some (key_msg p k) # rest" and "sint p = terminal_pid s" and "4 \<le> room s"
    and "\<forall>r. mtype (sh_stack E r) \<noteq> QUIT_REQUEST" and buf: "unat buf + 256 < 2 ^ 64"
    and k: "k \<noteq> 0" "k \<noteq> 0x0A" "k \<noteq> EOF" "k \<noteq> 0x08" and l: "length l < 255" "load_bytes (smem s) buf (length l) = l"
  shows "\<exists>s2. readline_loop E buf MAX_CMD_LEN (int (length l)) s = readline_loop E buf MAX_CMD_LEN (int (length (l @ [k]))) s2
     \<and> kept s s2 \<and> recvs s2 = rest \<and> outside (smem s) (smem s2) buf 256 \<and> room s \<le> room s2 + 4
     \<and> load_bytes (smem s2) buf (length (l @ [k])) = l @ [k]"
proof -
  obtain s1 where s1: "getchar (sh_stack E (recvs s)) s = Some (k, s1)" "kept s s1" "recvs s1 = rest" "smem s1 = smem s"
    "room s \<le> room s1 + 1"
    using key_arrives [OF assms(1) _ assms(2,3,5)] assms(4) by auto
  let ?s1 = "set_byte (buf + word_of_nat (length l)) k s1"
  have "\<exists>s'. putchar k ?s1 = Some s' \<and> kept ?s1 s' \<and> recvs s' = recvs ?s1 \<and> smem s' = smem ?s1 \<and> room ?s1 \<le> room s' + 1"
    by (rule echo1) (use s1 assms(4) k in \<open>auto simp: kept_def\<close>)
  then obtain s2 where s2: "putchar k ?s1 = Some s2" "kept ?s1 s2" "recvs s2 = recvs s1" "smem s2 = smem ?s1" "room s1 \<le> room s2 + 1"
    by auto
  have ub: "unat (buf + word_of_nat i) = unat buf + i" if "i \<le> length l" for i
    using l(1) buf that by (intro unat_plus_of_nat) simp
  have "load_bytes (smem s2) buf (length l) = load_bytes (smem s) buf (length l)"
  proof (rule load_bytes_cong)
    fix i assume i: "i < length l"
    then have "buf + word_of_nat i \<noteq> buf + word_of_nat (length l)" using ub [of i] ub [of "length l"] by auto
    then show "smem s2 (buf + word_of_nat i) = smem s (buf + word_of_nat i)" using s2(4) s1(4) by simp
  qed
  then have "load_bytes (smem s2) buf (length (l @ [k])) = l @ [k]" using l(2) s2(4) by (simp add: load_bytes_snoc)
  moreover have "kept s s2" using s1(2) s2(2) by (simp add: kept_def)
  moreover have "outside (smem s) (smem s2) buf 256" using s2(4) s1(4) ub [of "length l"] l(1) by (auto simp: outside_def)
  moreover have "readline_loop E buf MAX_CMD_LEN (int (length l)) s = readline_loop E buf MAX_CMD_LEN (int (length (l @ [k]))) s2"
    using k s1(1) s2(1) l(1) by (subst readline_loop.simps) (simp add: MAX_CMD_LEN_def add.commute)
  ultimately show ?thesis using s1(3,5) s2(3,5) by (intro exI [of _ s2]) simp
qed

lemma readline_loop_ok:
  assumes "stdio_ok s" and "recvs s = map (\<lambda>k. Some (key_msg p k)) (ks @ [0x0A]) @ rest" and "sint p = terminal_pid s"
    and "\<forall>k \<in> set ks. k \<noteq> 0 \<and> k \<noteq> 0x0A \<and> k \<noteq> EOF" and "\<forall>n. length (foldl edit_key l (take n ks)) < 255"
    and "4 * length ks + 2 \<le> room s" and "0 < unat buf" and "unat buf + 256 < 2 ^ 64"
    and "\<forall>r. mtype (sh_stack E r) \<noteq> QUIT_REQUEST"
    and "load_bytes (smem s) buf (length l) = l" and "0 \<notin> set l"
  shows "\<exists>s'. readline_loop E buf MAX_CMD_LEN (int (length l)) s = Some (0, s') \<and> str_at (smem s') buf (foldl edit_key l ks)
     \<and> kept s s' \<and> recvs s' = rest \<and> outside (smem s) (smem s') buf 256 \<and> room s \<le> room s' + (4 * length ks + 2)"
  using assms
proof (induction ks arbitrary: l s)
  case Nil
  then show ?case using readline_end [of s p rest E buf l] by simp
next
  case (Cons k ks)
  let ?rest = "map (\<lambda>k. Some (key_msg p k)) (ks @ [0x0A]) @ rest"
  have l: "length l < 255" using Cons.prems(5) [THEN spec, of 0] by simp
  have r: "recvs s = Some (key_msg p k) # ?rest" "4 \<le> room s" using Cons.prems(2,6) by simp_all
  have k: "k \<noteq> 0" "k \<noteq> 0x0A" "k \<noteq> EOF" using Cons.prems(4) by auto
  have "\<exists>s2. readline_loop E buf MAX_CMD_LEN (int (length l)) s = readline_loop E buf MAX_CMD_LEN (int (length (edit_key l k))) s2
     \<and> kept s s2 \<and> recvs s2 = ?rest \<and> outside (smem s) (smem s2) buf 256 \<and> room s \<le> room s2 + 4
     \<and> load_bytes (smem s2) buf (length (edit_key l k)) = edit_key l k"
  proof (cases "k = 0x08")
    case True
    with readline_erase [OF Cons.prems(1) r(1) [unfolded True] Cons.prems(3) r(2) Cons.prems(9) l Cons.prems(10)]
    show ?thesis by (auto simp: edit_key_def)
  next
    case False
    from readline_type [OF Cons.prems(1) r(1) Cons.prems(3) r(2) Cons.prems(9,8) k False l Cons.prems(10)] False
    show ?thesis by (auto simp: edit_key_def)
  qed
  then obtain s2 where s2: "readline_loop E buf MAX_CMD_LEN (int (length l)) s = readline_loop E buf MAX_CMD_LEN (int (length (edit_key l k))) s2"
    "kept s s2" "recvs s2 = ?rest" "outside (smem s) (smem s2) buf 256" "room s \<le> room s2 + 4"
    "load_bytes (smem s2) buf (length (edit_key l k)) = edit_key l k" by blast
  have pre: "\<forall>n. length (foldl edit_key (edit_key l k) (take n ks)) < 255"
  proof
    fix n show "length (foldl edit_key (edit_key l k) (take n ks)) < 255" using Cons.prems(5) [THEN spec, of "Suc n"] by simp
  qed
  have "0 \<notin> set (edit_key l k)" using Cons.prems(11) k(1) by (auto simp: edit_key_def dest: in_set_butlastD)
  then have "\<exists>s'. readline_loop E buf MAX_CMD_LEN (int (length (edit_key l k))) s2 = Some (0, s')
      \<and> str_at (smem s') buf (foldl edit_key (edit_key l k) ks) \<and> kept s2 s' \<and> recvs s' = rest \<and> outside (smem s2) (smem s') buf 256
      \<and> room s2 \<le> room s' + (4 * length ks + 2)"
    by (intro Cons.IH) (use s2 Cons.prems pre in \<open>auto simp: kept_def\<close>)
  then obtain s' where "readline_loop E buf MAX_CMD_LEN (int (length (edit_key l k))) s2 = Some (0, s')"
    "str_at (smem s') buf (foldl edit_key (edit_key l k) ks)" "kept s2 s'" "recvs s' = rest" "outside (smem s2) (smem s') buf 256"
    "room s2 \<le> room s' + (4 * length ks + 2)" by blast
  then show ?case using s2(1,5) kept_trans [OF s2(2)] outside_trans [OF s2(4)] by (intro exI [of _ s']) simp
qed

text \<open>
  A line typed at the terminal, keys and then newline, ends up in the buffer as the text that the keys edit: each
  backspace removes the character before it, and nothing but the buffer changes.
\<close>

theorem readline_ok:
  assumes "stdio_ok s" and "recvs s = map (\<lambda>k. Some (key_msg p k)) (ks @ [0x0A]) @ rest" and "sint p = terminal_pid s"
    and "\<forall>k \<in> set ks. k \<noteq> 0 \<and> k \<noteq> 0x0A \<and> k \<noteq> EOF" and "\<forall>n. length (edited (take n ks)) < 255"
    and "4 * length ks + 2 \<le> room s" and "0 < unat buf" and "unat buf + 256 < 2 ^ 64"
    and "\<forall>r. mtype (sh_stack E r) \<noteq> QUIT_REQUEST"
  shows "\<exists>s'. shell_readline E buf MAX_CMD_LEN s = Some (0, s') \<and> str_at (smem s') buf (edited ks) \<and> stdio_ok s'
     \<and> recvs s' = rest \<and> outside (smem s) (smem s') buf 256"
  using readline_loop_ok [of s p ks rest "[]" buf E] assms
  by (auto simp: shell_readline_def edited_def kept_def load_bytes_def)

definition typing_example :: shell where
  "typing_example = \<lparr>terminal_pid = 7, out_buf = replicate 25 0, buf_idx = 0,
     recvs = map (\<lambda>k. Some (key_msg 7 k)) [0x6C, 0x78, 0x08, 0x73, 0x0A], acks = replicate 30 0, sends = [],
     smem = \<lambda>_. 1, tok_next = 0, execs = []\<rparr>"

theorem readline_ok_witness:
  "\<exists>s'. shell_readline shell_env_example 0x2000 MAX_CMD_LEN typing_example = Some (0, s') \<and> str_at (smem s') 0x2000 [0x6C, 0x73]"
proof -
  let ?ks = "[0x6C, 0x78, 0x08, 0x73] :: u8 list"
  have ok: "stdio_ok typing_example" "terminal_pid typing_example = 7" "room typing_example = 30"
    by (simp_all add: stdio_ok_def typing_example_def pending_def room_def numeral_eq_Suc)
  have r: "recvs typing_example = map (\<lambda>k. Some (key_msg 7 k)) (?ks @ [0x0A]) @ []" by (simp add: typing_example_def)
  have e: "edited ?ks = [0x6C, 0x73]" by (simp add: edited_def edit_key_def)
  have pre: "\<forall>n. length (edited (take n ?ks)) < 255"
  proof
    fix n show "length (edited (take n ?ks)) < 255" using length_edited [of "take n ?ks"] by simp
  qed
  show ?thesis
    using readline_ok [OF ok(1) r _ _ pre, where buf = "0x2000" and E = shell_env_example]
    by (simp add: ok e EOF_def shell_env_example_def QUIT_REQUEST_def) blast
qed

subsection \<open>The words of a line\<close>

lemma parse_args_ok:
  assumes "to_cut {0x20} nxt m lo hi ws" and "str_at m (lit E '' '') [0x20]"
    and "unat (lit E '' '') + 1 < lo \<or> hi < unat (lit E '' '')" and "p \<noteq> 0" and "length argv + length ws < 15"
  shows "\<exists>ps nxt' m'. parse_args E p argv (nxt, m) = Some (argv @ p # ps, nxt', m') \<and> list_all2 (str_at m') ps ws
     \<and> (\<forall>x. unat x < lo \<or> hi < unat x \<longrightarrow> m' x = m x) \<and> (\<forall>q \<in> set ps. lo \<le> unat q)
     \<and> (\<forall>i < length ps. unat (ps ! i) + length (ws ! i) \<le> hi)"
  using assms
proof (induction ws arbitrary: p nxt m lo argv)
  case Nil
  from strtok_next [of "[0x20]" nxt m lo hi "[]" "lit E '' ''"] Nil show ?case
    by (subst parse_args.simps) (simp, subst parse_args.simps, simp)
next
  case (Cons w ws)
  from strtok_next [of "[0x20]" nxt m lo hi "w # ws" "lit E '' ''"] Cons.prems obtain q nxt' m' where
    r: "strtok 0 (lit E '' '') (nxt, m) = Some (q, nxt', m')" "str_at m' q w" "lo \<le> unat q"
      "unat q + length w \<le> hi" "\<forall>x. unat x < unat q + length w \<or> hi < unat x \<longrightarrow> m' x = m x"
      "to_cut {0x20} nxt' m' (unat q + length w + 1) hi ws" "str_at m' (lit E '' '') [0x20]" by auto
  have ap: "unat (lit E '' '') + 1 < unat q + length w + 1 \<or> hi < unat (lit E '' '')" using Cons.prems(3) r(3) by auto
  have "length (argv @ [p]) + length ws < 15" using Cons.prems(5) by simp
  from Cons.IH [OF r(6,7) ap str_atD(2) [OF r(2)] this] obtain ps nxt2 m2 where
    i: "parse_args E q (argv @ [p]) (nxt', m') = Some (argv @ p # q # ps, nxt2, m2)" "list_all2 (str_at m2) ps ws"
      "\<forall>x. unat x < unat q + length w + 1 \<or> hi < unat x \<longrightarrow> m2 x = m' x" "\<forall>z \<in> set ps. unat q + length w + 1 \<le> unat z"
      "\<forall>i < length ps. unat (ps ! i) + length (ws ! i) \<le> hi" by auto
  have q2: "str_at m2 q w" using r(2) by (rule str_at_cong) (use i(3) in auto)
  have run: "parse_args E p argv (nxt, m) = Some (argv @ p # q # ps, nxt2, m2)"
    using r(1) i(1) Cons.prems(4,5) by (subst parse_args.simps) simp
  have "\<forall>x. unat x < lo \<or> hi < unat x \<longrightarrow> m2 x = m x" using i(3) r(3,5) by auto
  moreover have "\<forall>z \<in> set (q # ps). lo \<le> unat z" using i(4) r(3) by auto
  moreover have "\<forall>k < length (q # ps). unat ((q # ps) ! k) + length ((w # ws) ! k) \<le> hi"
    using i(5) r(4) by (auto simp: nth_Cons split: nat.split)
  ultimately show ?case using run q2 i(2) by (intro exI [of _ "q # ps"] exI [of _ nxt2] exI [of _ m2]) simp
qed

lemma load_cstr_at: "str_at m a xs \<Longrightarrow> load_cstr a m = Some xs"
proof -
  have "cstr m a xs \<Longrightarrow> load_cstr a m = Some xs"
    by (induction xs arbitrary: a) (subst load_cstr.simps; auto)+
  then show "str_at m a xs \<Longrightarrow> ?thesis" by (simp add: str_at_def)
qed

subsection \<open>The layout of the shell\<close>

definition shell_lits :: "string list" where
  "shell_lits = ['' '', ''/'', ''.'', ''..'', ''help'', ''cd'', ''clear'']"

definition buffers :: "shell_env \<Rightarrow> u64 list" where
  "buffers E = [cmd_buffer E, current_directory E, temp_path E, temp_at E]"

definition shell_layout :: "shell_env \<Rightarrow> bytes \<Rightarrow> bool" where
  "shell_layout E m \<longleftrightarrow> (\<forall>a \<in> set (buffers E). 0 < unat a \<and> unat a + 256 < 2 ^ 64)
     \<and> sorted_wrt (\<lambda>a b. apart a 256 b 256) (buffers E)
     \<and> (\<forall>l \<in> set shell_lits. str_at m (lit E l) (literal l))
     \<and> (\<forall>l \<in> set shell_lits. \<forall>a \<in> set (buffers E). apart a 256 (lit E l) (length l + 1))"

lemma layout_outside:
  assumes "shell_layout E m" and "\<forall>x. (\<forall>a \<in> set (buffers E). unat x < unat a \<or> unat a + 256 \<le> unat x) \<longrightarrow> m' x = m x"
  shows "shell_layout E m'"
proof -
  have "str_at m' (lit E l) (literal l)" if l: "l \<in> set shell_lits" for l
  proof (rule str_at_cong)
    show "str_at m (lit E l) (literal l)" using assms(1) l by (simp add: shell_layout_def)
    fix x :: u64 assume "unat (lit E l) \<le> unat x" and "unat x \<le> unat (lit E l) + length (literal l)"
    moreover have "\<forall>a \<in> set (buffers E). apart a 256 (lit E l) (length l + 1)" using assms(1) l by (simp add: shell_layout_def)
    ultimately have "\<forall>a \<in> set (buffers E). unat x < unat a \<or> unat a + 256 \<le> unat x" by (force simp: apart_def)
    then show "m' x = m x" using assms(2) by simp
  qed
  with assms(1) show ?thesis by (simp add: shell_layout_def)
qed

lemma layout_lit:
  assumes "shell_layout E m" and "l \<in> set shell_lits"
  shows "str_at m (lit E l) (literal l)" "a \<in> set (buffers E) \<Longrightarrow> apart a 256 (lit E l) (length l + 1)"
  using assms by (simp_all add: shell_layout_def)

lemma layout_path_lits: "shell_layout E m \<Longrightarrow> a \<in> set (buffers E) \<Longrightarrow> path_lits E m a 256"
  using layout_lit [of E m "''/''"] layout_lit [of E m "''.''"] layout_lit [of E m "''..''"]
  by (simp add: path_lits_def shell_lits_def literal_def slash_def numeral_2_eq_2 numeral_3_eq_3)

subsection \<open>Changing the directory\<close>

definition cd_moves :: "shell_env \<Rightarrow> u8 list \<Rightarrow> bool" where
  "cd_moves E path \<longleftrightarrow> path = [slash] \<or> sh_stat E path = (0, 1)"

definition cd_says :: "string \<Rightarrow> u8 list \<Rightarrow> u8 list" where
  "cd_says why path = color ''[36m['' @ color ''[37midpshell-cd'' @ color ''[36m] :: '' @ color ''[33m'' @ path @ color why
     @ color ''[37m'' @ [0x0A]"

definition cd_reply :: "shell_env \<Rightarrow> u8 list \<Rightarrow> u8 list" where
  "cd_reply E path =
     (if cd_moves E path then []
      else cd_says (if fst (sh_stat E path) = 0 then ''[31m not a directory'' else ''[31m not found'') path)"

lemma expand_plain: "0x25 \<notin> set xs \<Longrightarrow> expand (xs @ ys) args = map_option ((@) xs) (expand ys args)"
proof (induction xs)
  case Nil
  show ?case by (cases "expand ys args") simp_all
next
  case (Cons x xs)
  then show ?case by (simp add: option.map_comp comp_def)
qed

lemma cd_error_text:
  assumes "0x25 \<notin> set (color why)"
  shows "expand (cd_error (color ''[33m%s'' @ color why)) [path] = Some (cd_says why path)"
proof -
  let ?pre = "color ''[36m['' @ color ''[37midpshell-cd'' @ color ''[36m] :: '' @ color ''[33m''"
  have "cd_error (color ''[33m%s'' @ color why) = ?pre @ 0x25 # 0x73 # color why @ color ''[37m'' @ [0x0A]"
    by (simp add: cd_error_def color_def literal_def)
  moreover have "0x25 \<notin> set ?pre" by (simp add: color_def literal_def)
  moreover have "0x25 \<notin> set (color why @ color ''[37m'' @ [0x0A])" using assms by (simp add: color_def literal_def)
  ultimately show ?thesis
    using expand_plain [of ?pre] expand_plain [of "color why @ color ''[37m'' @ [0x0A]" "[]" "[]"]
    by (simp add: cd_says_def)
qed

lemma cd_error_printed:
  assumes "stdio_ok s" and "300 + length path \<le> room s" and "str_at (smem s) a path" and "why = ''[31m not a directory'' \<or> why = ''[31m not found''"
  shows "\<exists>s'. printf_at (cd_error (color ''[33m%s'' @ color why)) [a] s = Some s' \<and> extends (cd_says why path) s s'"
proof -
  have w: "0x25 \<notin> set (color why)" "0 \<notin> set (color why)" "length why \<le> 20" using assms(4) by (auto simp: color_def literal_def)
  have "0 \<notin> set (cd_says why path)" using w(2) str_at_nonzero [OF assms(3)] by (auto simp: cd_says_def color_def literal_def)
  moreover have "length (cd_says why path) \<le> room s" using w(3) assms(2) by (simp add: cd_says_def color_def)
  ultimately obtain s' where "foldM putchar (cd_says why path) s = Some s'" "extends (cd_says why path) s s'"
    using putchars_ok [OF assms(1)] by blast
  then show ?thesis
    using printf_expand [OF cd_error_text [OF w(1)], of path s] load_cstr_at [OF assms(3)] by (simp add: printf_at_def)
qed

lemma shell_strcpy_ok:
  assumes "str_at (smem s) a xs" and "0 < unat d" and "unat d + 256 < 2 ^ 64" and "length xs < 256" and "apart d 256 a (length xs + 1)"
  shows "\<exists>m'. shell_strcpy d a s = Some (s\<lparr>smem := m'\<rparr>) \<and> str_at m' d xs \<and> outside (smem s) m' d 256"
proof -
  have "\<exists>m'. strcpy_u d a (smem s) = Some (d, m') \<and> str_at m' d xs \<and> outside (smem s) m' d (length xs + 1)"
    by (rule strcpy_u_at [OF assms(1,2)]) (use assms(3-5) in \<open>auto simp: apart_def\<close>)
  then show ?thesis using outside_mono [of "smem s" _ d "length xs + 1" d 256] assms(4) by (auto simp: shell_strcpy_def)
qed

lemma change_directory_ok:
  assumes lay: "shell_layout E (smem s)" and cur: "str_at (smem s) (current_directory E) cur" "length cur < 256"
    and arg: "str_at (smem s) a arg" "apart (temp_at E) 256 a (length arg + 1)"
    and path: "path = path_of (components (joined cur arg))"
    and len: "length (joined cur arg) < 256" "length path < 256" and depth: "length (words {slash} (joined cur arg)) \<le> 64"
    and ok: "stdio_ok s" and room: "600 \<le> room s"
  shows "\<exists>s'. change_directory E a s = Some s' \<and> str_at (smem s') (current_directory E) (if cd_moves E path then path else cur)
     \<and> stdio_ok s' \<and> printed s' = printed s @ cd_reply E path \<and> recvs s' = recvs s \<and> execs s' = execs s"
proof -
  let ?C = "current_directory E" and ?P = "temp_path E" and ?T = "temp_at E"
  have pos: "0 < unat x" "unat x + 256 < 2 ^ 64" if "x \<in> set (buffers E)" for x using lay that by (simp_all add: shell_layout_def)
  have ap: "apart ?C 256 ?P 256" "apart ?C 256 ?T 256" "apart ?P 256 ?T 256" "apart ?T 256 ?P 256" "apart ?T 256 ?C 256"
    using lay by (auto simp: shell_layout_def buffers_def apart_def)
  have mem: "?C \<in> set (buffers E)" "?P \<in> set (buffers E)" "?T \<in> set (buffers E)" by (simp_all add: buffers_def)
  have "\<exists>nxt' m'. resolve_path E ?P ?C a (tok_next s, smem s) = Some (0, nxt', m') \<and> str_at m' ?P path
     \<and> (\<forall>w \<in> set (components (joined cur arg)). w \<noteq> [] \<and> w \<noteq> literal ''.'' \<and> w \<noteq> literal ''..'' \<and> slash \<notin> set w)
     \<and> (\<forall>x. (unat x < unat ?T \<or> unat ?T + 256 \<le> unat x) \<and> (unat x < unat ?P \<or> unat ?P + 256 \<le> unat x) \<longrightarrow> m' x = smem s x)"
    unfolding path
    by (rule resolve_path_result [OF cur(1) _ arg layout_path_lits [OF lay mem(3)] layout_path_lits [OF lay mem(2)]])
       (use pos mem ap len depth cur(2) path in \<open>auto simp: apart_def\<close>)
  then obtain nxt' m where m: "resolve_path E ?P ?C a (tok_next s, smem s) = Some (0, nxt', m)" "str_at m ?P path"
    "\<forall>x. (unat x < unat ?T \<or> unat ?T + 256 \<le> unat x) \<and> (unat x < unat ?P \<or> unat ?P + 256 \<le> unat x) \<longrightarrow> m x = smem s x" by blast
  let ?s = "s\<lparr>smem := m, tok_next := nxt'\<rparr>"
  have s: "shell_resolve E a s = Some ?s" using m(1) by (simp add: shell_resolve_def)
  have ok': "stdio_ok ?s" "printed ?s = printed s" "room ?s = room s" using ok by (simp_all add: stdio_ok_def pending_def printed_def room_def)
  have lay': "shell_layout E m" by (rule layout_outside [OF lay]) (use m(3) in \<open>simp add: buffers_def\<close>)
  have cur': "str_at m ?C cur" by (rule str_at_cong [OF cur(1)]) (use m(3) ap cur(2) in \<open>auto simp: apart_def\<close>)
  have root: "str_at m (lit E ''/'') [slash]" "apart ?C 256 (lit E ''/'') 2"
    using layout_path_lits [OF lay' mem(1)] by (simp_all add: path_lits_def)
  obtain r where r: "strcmp_u ?P (lit E ''/'') m = Some r" "r = 0 \<longleftrightarrow> path = [slash]" using strcmp_u_at [OF m(2) root(1)] by blast
  have a: "a \<noteq> 0" using str_atD(2) [OF arg(1)] .
  have n: "strlen_u ?P m = Some (int (length path))" by (rule strlen_u_at [OF m(2)]) (use len in simp)
  have ld: "load_cstr ?P m = Some path" by (rule load_cstr_at [OF m(2)])
  have keep: "\<exists>s'. shell_strcpy ?C x ?s = Some s' \<and> str_at (smem s') ?C path \<and> stdio_ok s' \<and> printed s' = printed s
      \<and> recvs s' = recvs s \<and> execs s' = execs s" if "str_at m x path" "apart ?C 256 x (length path + 1)" for x
    using shell_strcpy_ok [of ?s x path ?C] that pos [OF mem(1)] len(2) ok' by (auto simp: stdio_ok_def pending_def printed_def)
  show ?thesis
  proof (cases "cd_moves E path")
    case True
    then have moves: "cd_reply E path = []" by (simp add: cd_reply_def)
    show ?thesis
    proof (cases "path = [slash]")
      case True
      with keep [of "lit E ''/''"] root r s a moves \<open>cd_moves E path\<close> show ?thesis
        by (auto simp: change_directory_def numeral_2_eq_2)
    next
      case False
      with True have "sh_stat E path = (0, 1)" by (simp add: cd_moves_def)
      moreover have "apart ?C 256 ?P (length path + 1)" using ap(1) len(2) by (auto simp: apart_def)
      ultimately show ?thesis using False keep [OF m(2)] r s a n ld len(2) moves True
        by (auto simp: change_directory_def MAX_PATH_LEN_def)
    qed
  next
    case False
    let ?why = "if fst (sh_stat E path) = 0 then ''[31m not a directory'' else ''[31m not found''"
    have "\<exists>s'. printf_at (cd_error (color ''[33m%s'' @ color ?why)) [?P] ?s = Some s' \<and> extends (cd_says ?why path) ?s s'"
      by (rule cd_error_printed) (use ok' room len(2) m(2) in auto)
    then obtain s' where s': "printf_at (cd_error (color ''[33m%s'' @ color ?why)) [?P] ?s = Some s'" "extends (cd_says ?why path) ?s s'" by blast
    have "change_directory E a s = Some s'"
      using False s' r s a n ld len(2) by (auto simp: change_directory_def MAX_PATH_LEN_def cd_moves_def split: if_splits prod.splits)
    moreover have "smem s' = m" "execs s' = execs s" using s'(2) shell_more [of s' ?s] by (simp_all add: extends_def)
    moreover have "printed s' = printed s @ cd_reply E path" using s'(2) False ok'(2) by (simp add: extends_def cd_reply_def)
    ultimately show ?thesis using False cur' s'(2) by (auto simp: extends_def)
  qed
qed

lemma run_line_two_words:
  assumes lay: "shell_layout E (smem s)" and line: "str_at (smem s) (cmd_buffer E) line" "length line < 256"
    and ws: "words {0x20} line = [w1, w2]"
  shows "\<exists>p q nxt m. run_line E s = dispatch E [current_directory E, p, q] (s\<lparr>smem := m, tok_next := nxt\<rparr>) \<and> str_at m p w1 \<and> str_at m q w2
     \<and> outside (smem s) m (cmd_buffer E) 256 \<and> unat (cmd_buffer E) \<le> unat q \<and> unat q + length w2 < unat (cmd_buffer E) + 256"
proof -
  let ?B = "cmd_buffer E" and ?L = "lit E '' ''"
  have B: "?B \<in> set (buffers E)" by (simp add: buffers_def)
  have sp: "str_at (smem s) ?L [0x20]" "apart ?B 256 ?L 2"
    using layout_lit [OF lay, of "'' ''"] B by (simp_all add: shell_lits_def literal_def numeral_2_eq_2)
  have B0: "?B = (if ?B \<noteq> 0 then ?B else tok_next s)" using str_atD(2) [OF line(1)] by simp
  from strtok_word [OF line(1) sp(1) B0] ws obtain p nxt m1 where
    p: "strtok ?B ?L (tok_next s, smem s) = Some (p, nxt, m1)" "str_at m1 p w1" "unat ?B \<le> unat p" "unat p + length w1 \<le> unat ?B + length line"
      "\<forall>x. unat x < unat p + length w1 \<or> unat ?B + length line < unat x \<longrightarrow> m1 x = smem s x"
      "to_cut {0x20} nxt m1 (unat p + length w1 + 1) (unat ?B + length line) [w2]" by auto
  have sp1: "str_at m1 ?L [0x20]" by (rule str_at_cong [OF sp(1)]) (use p(3,5) sp(2) line(2) in \<open>auto simp: apart_def\<close>)
  have away: "unat ?L + 1 < unat p + length w1 + 1 \<or> unat ?B + length line < unat ?L" using sp(2) p(3) line(2) by (auto simp: apart_def)
  from parse_args_ok [OF p(6) sp1 away str_atD(2) [OF p(2)], of "[current_directory E]"] obtain ps nxt2 m2 where
    q: "parse_args E p [current_directory E] (nxt, m1) = Some ([current_directory E, p] @ ps, nxt2, m2)" "list_all2 (str_at m2) ps [w2]"
      "\<forall>x. unat x < unat p + length w1 + 1 \<or> unat ?B + length line < unat x \<longrightarrow> m2 x = m1 x"
      "\<forall>q \<in> set ps. unat p + length w1 + 1 \<le> unat q" "\<forall>i < length ps. unat (ps ! i) + length ([w2] ! i) \<le> unat ?B + length line"
    by auto
  from q(2) obtain a where a: "ps = [a]" "str_at m2 a w2" by (auto simp: list_all2_Cons2)
  have "str_at m2 p w1" by (rule str_at_cong [OF p(2)]) (use q(3) in auto)
  moreover have "outside (smem s) m2 ?B 256" using p(3,5) q(3) line(2) by (auto simp: outside_def)
  moreover have "run_line E s = dispatch E [current_directory E, p, a] (s\<lparr>smem := m2, tok_next := nxt2\<rparr>)"
    using p(1) q(1) a(1) by (simp add: run_line_def)
  ultimately show ?thesis using a q(4,5) p(3) line(2) by (intro exI [of _ p] exI [of _ a] exI [of _ nxt2] exI [of _ m2]) auto
qed

text \<open>
  The command \<^verbatim>\<open>cd\<close> with a path: the shell moves to the normalised path exactly when it is the root or the system
  says that it is a directory; otherwise it stays where it is and prints why.
\<close>

lemma cd_ok:
  assumes lay: "shell_layout E (smem s)" and line: "str_at (smem s) (cmd_buffer E) line" "length line < 256"
    and ws: "words {0x20} line = [literal ''cd'', arg]"
    and cur: "str_at (smem s) (current_directory E) cur" "length cur < 256"
    and path: "path = path_of (components (joined cur arg))"
    and len: "length (joined cur arg) < 256" "length path < 256" "length (words {slash} (joined cur arg)) \<le> 64"
    and ok: "stdio_ok s" "600 \<le> room s"
  shows "\<exists>s'. run_line E s = Some s' \<and> str_at (smem s') (current_directory E) (if cd_moves E path then path else cur)
     \<and> stdio_ok s' \<and> printed s' = printed s @ cd_reply E path \<and> recvs s' = recvs s \<and> execs s' = execs s"
proof -
  obtain p q nxt m where r: "run_line E s = dispatch E [current_directory E, p, q] (s\<lparr>smem := m, tok_next := nxt\<rparr>)"
    "str_at m p (literal ''cd'')" "str_at m q arg" "outside (smem s) m (cmd_buffer E) 256"
    "unat (cmd_buffer E) \<le> unat q" "unat q + length arg < unat (cmd_buffer E) + 256"
    using run_line_two_words [OF lay line ws] by blast
  let ?s = "s\<lparr>smem := m, tok_next := nxt\<rparr>"
  have lay': "shell_layout E m" by (rule layout_outside [OF lay]) (use r(4) in \<open>auto simp: buffers_def outside_def\<close>)
  have sep: "apart (temp_at E) 256 (cmd_buffer E) 256" "apart (cmd_buffer E) 256 (current_directory E) 256"
    using lay by (auto simp: shell_layout_def buffers_def apart_def)
  have cur': "str_at m (current_directory E) cur"
    by (rule str_at_outside [OF cur(1) r(4)]) (use sep(2) cur(2) in \<open>auto simp: apart_def\<close>)
  have ap: "apart (temp_at E) 256 q (length arg + 1)" using sep(1) r(5,6) by (auto simp: apart_def)
  have "stdio_ok ?s" "600 \<le> room ?s" using ok by (simp_all add: stdio_ok_def pending_def room_def)
  then have "\<exists>s'. change_directory E q ?s = Some s' \<and> str_at (smem s') (current_directory E) (if cd_moves E path then path else cur)
     \<and> stdio_ok s' \<and> printed s' = printed ?s @ cd_reply E path \<and> recvs s' = recvs ?s \<and> execs s' = execs ?s"
    by (intro change_directory_ok [OF _ _ cur(2) _ ap path len]) (simp_all add: lay' cur' r(3))
  moreover have "printed ?s = printed s" by (simp add: printed_def pending_def)
  moreover obtain h where "strcmp_u p (lit E ''help'') m = Some h" "h \<noteq> 0"
    using strcmp_u_at [OF r(2) layout_lit(1) [OF lay', of "''help''"]] by (auto simp: shell_lits_def literal_def)
  moreover have "strcmp_u p (lit E ''cd'') m = Some 0"
    using strcmp_u_at [OF r(2) layout_lit(1) [OF lay', of "''cd''"]] by (auto simp: shell_lits_def)
  ultimately show ?thesis using r(1) by (simp add: dispatch_def)
qed

definition prompt :: "u8 list \<Rightarrow> u8 list" where
  "prompt dir = color ''[35m@'' @ color ''[36m['' @ color ''[34m'' @ dir @ color ''[36m] :: '' @ color ''[37m''"

lemma prompt_text:
  "expand (color ''[35m@'' @ color ''[36m['' @ color ''[34m%s'' @ color ''[36m] :: '' @ color ''[37m'') [dir] = Some (prompt dir)"
  by (simp add: prompt_def color_def literal_def)

lemma prompt_printed:
  assumes "stdio_ok s" and "str_at (smem s) a dir" and "length dir + 40 \<le> room s"
  shows "\<exists>s'. printf_at (color ''[35m@'' @ color ''[36m['' @ color ''[34m%s'' @ color ''[36m] :: '' @ color ''[37m'') [a] s = Some s'
     \<and> kept s s' \<and> recvs s' = recvs s \<and> smem s' = smem s \<and> room s \<le> room s' + (length dir + 40)"
proof -
  have nz: "0 \<notin> set (prompt dir)" using str_at_nonzero [OF assms(2)] by (simp add: prompt_def color_def literal_def)
  have len: "length (prompt dir) \<le> length dir + 40" by (simp add: prompt_def color_def)
  then have "\<exists>s'. foldM putchar (prompt dir) s = Some s' \<and> kept s s' \<and> recvs s' = recvs s \<and> smem s' = smem s
     \<and> room s \<le> room s' + length (prompt dir)"
    using assms(3) by (intro echo [OF assms(1) nz]) simp
  then show ?thesis
    using printf_expand [OF prompt_text, of dir s] load_cstr_at [OF assms(2)] len by (auto simp: printf_at_def)
qed

text \<open>
  C17. The user types \<^verbatim>\<open>cd\<close> and a path, with whatever corrections: one round of the shell shows the prompt, reads the line and
  moves to the normalised path exactly when it is the root or the system says that it is a directory; otherwise the shell stays
  where it is and the last thing that it prints is why.
\<close>

theorem cd_typed:
  assumes lay: "shell_layout E (smem s)" and cur: "str_at (smem s) (current_directory E) cur" "length cur < 256"
    and typed: "recvs s = map (\<lambda>k. Some (key_msg p k)) (ks @ [0x0A]) @ rest" "sint p = terminal_pid s"
      "\<forall>k \<in> set ks. k \<noteq> 0 \<and> k \<noteq> 0x0A \<and> k \<noteq> EOF" "\<forall>n. length (edited (take n ks)) < 255"
    and ws: "words {0x20} (edited ks) = [literal ''cd'', arg]"
    and path: "path = path_of (components (joined cur arg))"
    and len: "length (joined cur arg) < 256" "length path < 256" "length (words {slash} (joined cur arg)) \<le> 64"
    and ok: "stdio_ok s" "1000 + 4 * length ks \<le> room s" and stack: "\<forall>r. mtype (sh_stack E r) \<noteq> QUIT_REQUEST"
  shows "\<exists>s' shown. shell_round E s = Some (True, s')
     \<and> str_at (smem s') (current_directory E) (if cd_moves E path then path else cur)
     \<and> printed s' = shown @ cd_reply E path \<and> recvs s' = rest \<and> execs s' = execs s \<and> stdio_ok s'"
proof -
  let ?B = "cmd_buffer E" and ?C = "current_directory E"
  obtain s1 where s1: "printf_at (color ''[35m@'' @ color ''[36m['' @ color ''[34m%s'' @ color ''[36m] :: '' @ color ''[37m'') [?C] s = Some s1"
    "kept s s1" "recvs s1 = recvs s" "smem s1 = smem s" "room s \<le> room s1 + (length cur + 40)"
    using prompt_printed [OF ok(1) cur(1)] ok(2) cur(2) by auto
  have B: "0 < unat ?B" "unat ?B + 256 < 2 ^ 64" "apart ?B 256 ?C 256" using lay by (auto simp: shell_layout_def buffers_def)
  have "\<exists>s2. readline_loop E ?B MAX_CMD_LEN (int (length ([] :: u8 list))) s1 = Some (0, s2) \<and> str_at (smem s2) ?B (foldl edit_key [] ks)
     \<and> kept s1 s2 \<and> recvs s2 = rest \<and> outside (smem s1) (smem s2) ?B 256 \<and> room s1 \<le> room s2 + (4 * length ks + 2)"
    by (rule readline_loop_ok [where p = p])
       (use s1 typed ok cur(2) B stack in \<open>auto simp: kept_def edited_def load_bytes_def\<close>)
  then obtain s2 where s2: "shell_readline E ?B MAX_CMD_LEN s1 = Some (0, s2)" "str_at (smem s2) ?B (edited ks)" "kept s1 s2"
    "recvs s2 = rest" "outside (smem s) (smem s2) ?B 256" "room s1 \<le> room s2 + (4 * length ks + 2)"
    using s1(4) by (auto simp: shell_readline_def edited_def)
  have ne: "edited ks \<noteq> []" using ws by auto
  then have "smem s2 ?B \<noteq> 0"
    using str_atD(5) [OF s2(2), of 0] str_at_nonzero [OF s2(2)] by (cases "edited ks") auto
  then have round: "shell_round E s = map_option (\<lambda>s. (True, s)) (run_line E s2)" using s1(1) s2(1) by (simp add: shell_round_def)
  have lay2: "shell_layout E (smem s2)" by (rule layout_outside [OF lay]) (use s2(5) in \<open>auto simp: buffers_def outside_def\<close>)
  have cur2: "str_at (smem s2) ?C cur" by (rule str_at_outside [OF cur(1) s2(5)]) (use B(3) cur(2) in \<open>auto simp: apart_def\<close>)
  have "length (edited ks) < 256" using typed(4) [rule_format, of "length ks"] by simp
  moreover have "stdio_ok s2" "600 \<le> room s2" "execs s2 = execs s"
    using s1(2,5) s2(3,6) ok(2) cur(2) by (auto simp: kept_def)
  ultimately show ?thesis using cd_ok [OF lay2 s2(2) _ ws cur2 cur(2) path len, OF _ \<open>stdio_ok s2\<close> \<open>600 \<le> room s2\<close>] round s2(4) by auto
qed

definition cd_env_example :: shell_env where
  "cd_env_example = shell_env_example\<lparr>lit := (\<lambda>s. if s = ''/'' then 0x500 else if s = ''.'' then 0x510 else if s = ''..'' then 0x520
     else if s = '' '' then 0x530 else if s = ''help'' then 0x540 else if s = ''cd'' then 0x550 else 0x560)\<rparr>"

text \<open>The directory \<^verbatim>\<open>/\<close> and the line \<^verbatim>\<open>cd b\<close>, typed with a correction.\<close>

definition cd_example :: shell where
  "cd_example = \<lparr>terminal_pid = 7, out_buf = replicate 25 0, buf_idx = 0,
     recvs = map (\<lambda>k. Some (key_msg 7 k)) [0x63, 0x64, 0x20, 0x61, 0x08, 0x62, 0x0A], acks = replicate 1100 0, sends = [],
     smem = shell_mem_example(0x530 := 0x20, 0x540 := 0x68, 0x541 := 0x65, 0x542 := 0x6C, 0x543 := 0x70, 0x550 := 0x63, 0x551 := 0x64,
       0x560 := 0x63, 0x561 := 0x6C, 0x562 := 0x65, 0x563 := 0x61, 0x564 := 0x72),
     tok_next = 0, execs = []\<rparr>"

theorem cd_typed_witness:
  "\<exists>s'. shell_round cd_env_example cd_example = Some (True, s') \<and> str_at (smem s') 0x1000 [0x2F, 0x62]"
proof -
  let ?ks = "[0x63, 0x64, 0x20, 0x61, 0x08, 0x62] :: u8 list"
  have E: "cmd_buffer cd_env_example = 0x2000" "current_directory cd_env_example = 0x1000" "temp_path cd_env_example = 0x20000"
    "temp_at cd_env_example = 0x10000" "sh_stat cd_env_example = (\<lambda>_. (0, 1))"
    by (simp_all add: cd_env_example_def shell_env_example_def)
  have lay: "shell_layout cd_env_example (smem cd_example)"
    by (simp add: shell_layout_def buffers_def E shell_lits_def apart_def)
       (simp add: str_at_def cd_env_example_def cd_example_def shell_mem_example_def literal_def)
  have cur: "str_at (smem cd_example) (current_directory cd_env_example) [0x2F]"
    by (simp add: E str_at_def cd_example_def shell_mem_example_def)
  have typed: "recvs cd_example = map (\<lambda>k. Some (key_msg 7 k)) (?ks @ [0x0A]) @ []" "sint (7 :: u32) = terminal_pid cd_example"
    "\<forall>k \<in> set ?ks. k \<noteq> 0 \<and> k \<noteq> 0x0A \<and> k \<noteq> EOF"
    by (simp_all add: cd_example_def EOF_def del: replicate.simps)
  have short: "\<forall>n. length (edited (take n ?ks)) < 255"
  proof
    fix n show "length (edited (take n ?ks)) < 255" using length_edited [of "take n ?ks"] by simp
  qed
  have "edited ?ks = [0x63, 0x64, 0x20, 0x62]" by (simp add: edited_def edit_key_def)
  then have ws: "words {0x20} (edited ?ks) = [literal ''cd'', [0x62]]" by (simp add: words_skip words_word literal_def)
  have j: "joined [0x2F] [0x62] = [0x2F, 0x62]" by (simp add: joined_def slash_def)
  have w: "words {slash} [0x2F, 0x62] = [[0x62]]" by (simp add: words_skip words_word slash_def)
  have c: "path_of (components [0x2F, 0x62]) = [0x2F, 0x62]"
    unfolding components_def w by (simp add: norm_step_def literal_def path_of_def slash_def)
  have m: "cd_moves cd_env_example [0x2F, 0x62]" by (simp add: cd_moves_def E)
  have rc: "count_list (replicate n 0) (0 :: int) = n" for n by (induction n) simp_all
  have ok: "stdio_ok cd_example" "1000 + 4 * length ?ks \<le> room cd_example"
    by (simp_all add: stdio_ok_def cd_example_def pending_def room_def rc del: replicate.simps)
  have stack: "\<forall>r. mtype (sh_stack cd_env_example r) \<noteq> QUIT_REQUEST"
    by (simp add: cd_env_example_def shell_env_example_def QUIT_REQUEST_def)
  from cd_typed [OF lay cur _ typed short ws refl _ _ _ ok stack] show ?thesis
    by (auto simp: E j w c m)
qed

end
