(* ===== verification/Coreutils.thy ===== *)
theory Coreutils
  imports ShellLine Syscall
begin

text \<open>
  The programs \<^verbatim>\<open>src/userspace/coreutils/ls.c\<close> and \<^verbatim>\<open>src/userspace/idpfetch/idpfetch.c\<close> over \<^verbatim>\<open>stdio\<close> and the string
  library. The structure that \<^verbatim>\<open>sys_dir_read\<close> fills in is the one that the kernel's \<open>sys_read_dir_entry\<close> writes.
\<close>

subsection \<open>ls\<close>

text \<open>
  The addresses of the buffer, the entry and the literal \<^verbatim>\<open>"/"\<close>. \<open>ls_dir\<close> answers \<^verbatim>\<open>sys_dir_read\<close> for a path and an index
  with the result and the bytes stored at \<^verbatim>\<open>&entry\<close>.
\<close>

record ls_env =
  path_buffer :: u64
  entry_at :: u64
  slash_at :: u64
  ls_dir :: "u8 list \<Rightarrow> int \<Rightarrow> int \<times> u8 list"

record util = stdio +
  umem :: bytes

definition ls_path :: "ls_env \<Rightarrow> int \<Rightarrow> u64 list \<Rightarrow> bytes \<Rightarrow> (u64 \<times> bytes) option" where
  "ls_path E argc argv m =
     (let buf = path_buffer E in
      if argc > 2 then
        (let user_arg = argv ! 2 in
         if m user_arg \<noteq> 0x2F then do {
           (p, m) \<leftarrow> strcpy_u buf (argv ! 0) m;
           len \<leftarrow> strlen_u buf m;
           m \<leftarrow> (if len > 0 \<and> m (buf + word_of_int (len - 1)) \<noteq> 0x2F
                 then map_option snd (strcat_u buf (slash_at E) m) else Some m);
           (p, m) \<leftarrow> strcat_u buf user_arg m;
           Some (buf, m)
         }
         else Some (user_arg, m))
      else if argc \<ge> 1 then Some (argv ! 0, m)
      else Some (slash_at E, m))"

text \<open>A \<^verbatim>\<open>printf\<close> whose argument is a string in memory.\<close>

definition print_at :: "u8 list \<Rightarrow> u64 \<Rightarrow> util \<Rightarrow> util option" where
  "print_at fmt a s = do { b \<leftarrow> load_cstr a (umem s); printf_u fmt [b] s }"

partial_function (option) ls_loop :: "ls_env \<Rightarrow> u64 \<Rightarrow> int \<Rightarrow> util \<Rightarrow> util option" where
  "ls_loop E target_path index s =
     do {
       path \<leftarrow> load_cstr target_path (umem s);
       let (res, out) = ls_dir E path index;
       let s = s\<lparr>umem := paste (entry_at E) out (umem s)\<rparr>;
       if res = -2 then Some s
       else if res < 0 then printf_u (color ''[31mError: Directory not found'' @ color ''[37m'' @ [0x0A]) [] s
       else do {
         m \<leftarrow> str_tolower (entry_at E) (umem s);
         let s = s\<lparr>umem := m\<rparr>;
         s \<leftarrow> (if m (entry_at E + 136) \<noteq> 0
               then print_at (color ''[34m%s/'' @ [0x0A] @ color ''[37m'') (entry_at E) s
               else print_at (literal ''%s'' @ [0x0A]) (entry_at E) s);
         if index = 2 ^ 31 - 1 then None else ls_loop E target_path (index + 1) s
       }
     }"

definition ls_start :: "message \<Rightarrow> ls_env \<Rightarrow> int \<Rightarrow> u64 list \<Rightarrow> util \<Rightarrow> util option" where
  "ls_start stack E argc argv s =
     do {
       s \<leftarrow> stdio_init stack s;
       (target_path, m) \<leftarrow> ls_path E argc argv (umem s);
       let s = s\<lparr>umem := m\<rparr>;
       s \<leftarrow> print_at ([0x0A] @ color ''[36m--- %s ---'' @ color ''[37m'' @ [0x0A]) target_path s;
       s \<leftarrow> ls_loop E target_path 0 s;
       printf_u (color ''[36m--- press enter ---'' @ color ''[37m'' @ [0x0A]) [] s
     }"

subsection \<open>idpfetch\<close>

definition idpfetch_start :: "message \<Rightarrow> 'a stdio_scheme \<Rightarrow> 'a stdio_scheme option" where
  "idpfetch_start stack s =
     do {
       s \<leftarrow> stdio_init stack s;
       s \<leftarrow> printf_u [0x0A, 0x0A] [] s;
       s \<leftarrow> printf_u (color '']69;/images/idplogo.img'' @ [0x07]) [] s;
       s \<leftarrow> printf_u (replicate 7 0x0A @ color ''[34mKernel'' @ color ''[36m: '' @ color ''[37mopenidp-dev'' @ [0x0A]) [] s;
       printf_u (color ''[34mFramebuffer'' @ color ''[36m: '' @ color ''[37m1920x1080 32bpp'' @ [0x0A]) [] s
     }"

subsection \<open>Lower case in place\<close>

definition lower :: "u8 \<Rightarrow> u8" where
  "lower c = (if 0x41 \<le> c \<and> c \<le> 0x5A then c + 0x20 else c)"

lemma lower_nonzero: "c \<noteq> 0 \<Longrightarrow> lower c \<noteq> 0"
proof -
  have "c + 0x20 \<noteq> 0" if "c \<le> 0x5A" for c :: u8
  proof
    assume "c + 0x20 = 0"
    then have "c = - 0x20" by (simp add: eq_neg_iff_add_eq_0)
    with that show False by simp
  qed
  then show "c \<noteq> 0 \<Longrightarrow> ?thesis" by (auto simp: lower_def)
qed

lemma lower_tolower: "uint (lower c) = tolower (uint c)"
proof (cases "0x41 \<le> c \<and> c \<le> 0x5A")
  case True
  then have "uint c \<le> 0x5A" "0x41 \<le> uint c" by (simp_all add: word_le_def)
  moreover from this have "uint (c + 0x20) = uint c + 0x20" by (subst uint_add_lem [THEN iffD1]) simp_all
  ultimately show ?thesis using True by (simp add: lower_def tolower_def)
next
  case False
  then have "\<not> (0x41 \<le> uint c \<and> uint c \<le> 0x5A)" by (simp add: word_le_def)
  with False show ?thesis by (simp add: lower_def tolower_def del: de_Morgan_conj)
qed

lemma str_tolower_cstr:
  "cstr m s xs \<Longrightarrow> unat s + length xs < 2 ^ 64 \<Longrightarrow> str_tolower s m = Some (paste s (map lower xs) m)"
proof (induction xs arbitrary: s m)
  case Nil
  then show ?case by (subst str_tolower.simps) (simp add: paste_def)
next
  case (Cons x xs)
  let ?m = "m(s := lower x)"
  have x: "m s = x" "x \<noteq> 0" "cstr m (s + 1) xs" using Cons.prems(1) by auto
  have u: "unat (s + 1) = unat s + 1" using unat_plus_of_nat [of s 1] Cons.prems(2) by simp
  have "cstr ?m (s + 1) xs = cstr m (s + 1) xs"
  proof (rule cstr_cong)
    fix i assume "i \<le> length xs"
    then have "unat (s + 1 + word_of_nat i) = unat s + 1 + i" using unat_plus_of_nat [of "s + 1" i] u Cons.prems(2) by simp
    then have "unat (s + 1 + word_of_nat i) \<noteq> unat s" by simp
    then have "s + 1 + word_of_nat i \<noteq> s" by metis
    then show "?m (s + 1 + word_of_nat i) = m (s + 1 + word_of_nat i)" by simp
  qed
  then have "str_tolower (s + 1) ?m = Some (paste (s + 1) (map lower xs) ?m)"
    using Cons.IH [of ?m "s + 1"] x(3) u Cons.prems(2) by (simp del: fun_upd_apply)
  moreover have "(if 0x41 \<le> m s \<and> m s \<le> 0x5A then m(s := m s + 0x20) else m) = ?m" using x(1) by (auto simp: lower_def)
  moreover have "paste (s + 1) (map lower xs) ?m = paste s (map lower (x # xs)) m"
    using paste_Cons [of "map lower xs" s "lower x" m] Cons.prems(2) by simp
  ultimately show ?case using x(1,2) by (subst str_tolower.simps) (simp del: fun_upd_apply)
qed

lemma str_tolower_at:
  assumes "str_at m s xs"
  shows "\<exists>m'. str_tolower s m = Some m' \<and> str_at m' s (map lower xs) \<and> (\<forall>i. length xs \<le> i \<and> unat s + i < 2 ^ 64 \<longrightarrow> m' (s + word_of_nat i) = m (s + word_of_nat i))
     \<and> outside m m' s (length xs)"
proof -
  let ?m = "paste s (map lower xs) m"
  have len: "unat s + length xs < 2 ^ 64" using str_atD(3) [OF assms] .
  have off: "unat (s + word_of_nat i) = unat s + i" if "unat s + i < 2 ^ 64" for i using unat_plus_of_nat that by blast
  have keep: "?m x = m x" if "unat x < unat s \<or> unat s + length xs \<le> unat x" for x
  proof (rule paste_other)
    fix i assume "i < length (map lower xs)"
    then show "x \<noteq> s + word_of_nat i" using off [of i] len that by auto
  qed
  have "cstr ?m s (map lower xs)"
  proof (rule cstrI)
    fix i assume "i < length (map lower xs)"
    then show "?m (s + word_of_nat i) = map lower xs ! i" using len by (subst paste_apply) simp_all
  next
    show "?m (s + word_of_nat (length (map lower xs))) = 0"
      using keep [of "s + word_of_nat (length xs)"] off [OF len] str_atD(5) [OF assms, of "length xs"] by simp
    show "0 \<notin> set (map lower xs)" using str_at_nonzero [OF assms] lower_nonzero by (auto simp: image_iff) metis
  qed
  then have "str_at ?m s (map lower xs)" using assms by (simp add: str_at_def)
  moreover have "str_tolower s m = Some ?m" by (rule str_tolower_cstr [OF str_atD(1) [OF assms] len])
  moreover have "outside m ?m s (length xs)" using keep by (simp add: outside_def)
  ultimately show ?thesis using keep off by auto
qed

subsection \<open>What the programs print\<close>

definition dir_line :: "filinfo \<Rightarrow> u8 list" where
  "dir_line e =
     (let name = map lower (take 127 (fname e))
      in if is_dir_flag (fattrib e) \<noteq> 0 then color ''[34m'' @ name @ [0x2F, 0x0A] @ color ''[37m'' else name @ [0x0A])"

definition ls_header :: "u8 list \<Rightarrow> u8 list" where
  "ls_header path = [0x0A] @ color ''[36m--- '' @ path @ literal '' ---'' @ color ''[37m'' @ [0x0A]"

definition ls_footer :: "u8 list" where
  "ls_footer = color ''[36m--- press enter ---'' @ color ''[37m'' @ [0x0A]"

definition prints :: "u8 list \<Rightarrow> 'a stdio_scheme \<Rightarrow> 'a stdio_scheme \<Rightarrow> bool" where
  "prints str s s' \<longleftrightarrow> stdio_ok s' \<and> printed s' = printed s @ str \<and> terminal_pid s' = terminal_pid s \<and> room s \<le> room s' + length str"

lemma prints_trans: "prints a s s' \<Longrightarrow> prints b s' s'' \<Longrightarrow> prints (a @ b) s s''"
  by (simp add: prints_def)

lemma extends_prints: "extends str s s' \<Longrightarrow> prints str s s'"
  by (simp add: extends_def prints_def)

lemma umem_update_prints [simp]:
  "stdio_ok (s\<lparr>umem := m\<rparr>) = stdio_ok s" "room (s\<lparr>umem := m\<rparr>) = room s" "printed (s\<lparr>umem := m\<rparr>) = printed s"
  "prints str (s\<lparr>umem := m\<rparr>) s' = prints str s s'"
  by (simp_all add: stdio_ok_def room_def printed_def pending_def prints_def)

lemma umem_more: "stdio.more s' = stdio.more (s :: util) \<Longrightarrow> umem s' = umem s"
  by (cases s, cases s') simp

lemma print_at_ok:
  assumes "stdio_ok s" and "str_at (umem s) a b" and "expand fmt [b] = Some str" and "0 \<notin> set str" and "length str \<le> room s"
  shows "\<exists>s'. print_at fmt a s = Some s' \<and> prints str s s' \<and> umem s' = umem s"
proof -
  obtain s' where "foldM putchar str s = Some s'" "extends str s s'" using putchars_ok [OF assms(1,4,5)] by blast
  then show ?thesis
    using printf_expand [OF assms(3), of s] load_cstr_at [OF assms(2)] extends_prints [of str s s'] umem_more [of s' s]
    by (simp add: print_at_def extends_def)
qed

lemma printf_line_ok:
  assumes "stdio_ok s" and "expand fmt args = Some (str @ [0x0A])" and "0 \<notin> set str" and "length str < room s"
  shows "\<exists>s'. printf_u fmt args s = Some s' \<and> prints (str @ [0x0A]) s s' \<and> pending s' = []"
proof -
  obtain s1 where s1: "foldM putchar str s = Some s1" "extends str s s1" using putchars_ok [OF assms(1,3)] assms(4) by auto
  have "stdio_ok s1" "0 < room s1" using s1(2) assms(4) by (auto simp: extends_def)
  then obtain s2 where "putchar 0x0A s1 = Some s2" "extends [0x0A] s1 s2" "pending s2 = []" using newline_flushes by blast
  then show ?thesis
    using printf_expand [OF assms(2), of s] s1 extends_prints [OF extends_trans [OF s1(2), of "[0x0A]" s2]]
    by (simp add: foldM_append)
qed

lemma stdio_init_handshake:
  assumes "recvs s = Some m # rest" and "mtype m = MSG_HANDSHAKE" and "data1 m \<noteq> 0"
  shows "stdio_init stack s = Some (s\<lparr>recvs := rest, terminal_pid := sint (ucast (data1 m) :: u32)\<rparr>)"
  using assms by (subst stdio_init.simps) (simp add: recv_def)

subsection \<open>One entry\<close>

lemma kdirent_nth:
  "i < length (take 127 (fname e)) \<Longrightarrow> kdirent_bytes e ! i = take 127 (fname e) ! i"
  "kdirent_bytes e ! length (take 127 (fname e)) = 0"
  "kdirent_bytes e ! 136 = ucast (is_dir_flag (fattrib e))"
  by (auto simp: kdirent_bytes_def Let_def nth_append le_bytes_def min_def simp del: replicate.simps)

lemma entry_ok:
  assumes ok: "stdio_ok s" and pos: "0 < unat (entry_at E)" "unat (entry_at E) + 144 < 2 ^ 64" and nz: "0 \<notin> set (fname e)"
    and room: "length (dir_line e) \<le> room s" and m: "umem s = paste (entry_at E) (kdirent_bytes e) m0"
  shows "\<exists>m s'. str_tolower (entry_at E) (umem s) = Some m
     \<and> (if m (entry_at E + 136) \<noteq> 0 then print_at (color ''[34m%s/'' @ [0x0A] @ color ''[37m'') (entry_at E) (s\<lparr>umem := m\<rparr>)
         else print_at (literal ''%s'' @ [0x0A]) (entry_at E) (s\<lparr>umem := m\<rparr>)) = Some s'
     \<and> prints (dir_line e) s s' \<and> umem s' = m \<and> outside m0 m (entry_at E) 144"
proof -
  let ?a = "entry_at E" and ?name = "take 127 (fname e)"
  have at: "umem s (?a + word_of_nat i) = kdirent_bytes e ! i" if "i < 144" for i
    unfolding m using that by (subst paste_apply) simp_all
  have "cstr (umem s) ?a ?name"
  proof (rule cstrI)
    fix i assume i: "i < length ?name"
    then have "i < 144" by simp
    then show "umem s (?a + word_of_nat i) = ?name ! i" using at kdirent_nth(1) [OF i] by simp
  next
    have "length ?name < 144" by simp
    then show "umem s (?a + word_of_nat (length ?name)) = 0" using at kdirent_nth(2) [of e] by simp
    show "0 \<notin> set ?name" using nz by (auto dest: in_set_takeD)
  qed
  then have "str_at (umem s) ?a ?name" using pos by (auto simp: str_at_def)
  from str_tolower_at [OF this] obtain m where
    t: "str_tolower ?a (umem s) = Some m" "str_at m ?a (map lower ?name)" "outside (umem s) m ?a (length ?name)"
      "\<forall>i. length ?name \<le> i \<and> unat ?a + i < 2 ^ 64 \<longrightarrow> m (?a + word_of_nat i) = umem s (?a + word_of_nat i)" by blast
  have "m (?a + 136) = kdirent_bytes e ! 136" using t(4) [rule_format, of 136] at [of 136] pos(2) by simp
  then have flag: "m (?a + 136) \<noteq> 0 \<longleftrightarrow> is_dir_flag (fattrib e) \<noteq> 0" by (simp add: kdirent_nth(3) is_dir_flag_def)
  have "outside m0 (umem s) ?a 144"
    unfolding outside_def m
  proof (intro allI impI, rule paste_other)
    fix x :: u64 and i assume "unat x < unat ?a \<or> unat ?a + 144 \<le> unat x" and "i < length (kdirent_bytes e)"
    then show "x \<noteq> ?a + word_of_nat i" using unat_plus_of_nat [of ?a i] pos(2) by auto
  qed
  moreover have "outside (umem s) m ?a 144" by (rule outside_mono [OF t(3)]) simp_all
  ultimately have out: "outside m0 m ?a 144" by (rule outside_trans)
  have nz': "0 \<notin> set (map lower ?name)" by (rule str_at_nonzero [OF t(2)])
  show ?thesis
  proof (cases "is_dir_flag (fattrib e) = 0")
    case True
    have "\<exists>s'. print_at (literal ''%s'' @ [0x0A]) ?a (s\<lparr>umem := m\<rparr>) = Some s' \<and> prints (dir_line e) (s\<lparr>umem := m\<rparr>) s' \<and> umem s' = umem (s\<lparr>umem := m\<rparr>)"
      by (rule print_at_ok [where b = "map lower ?name"]) (use ok t(2) True room nz' in \<open>simp_all add: dir_line_def literal_def Let_def\<close>)
    then show ?thesis using t(1) flag True out by (intro exI [of _ m]) auto
  next
    case False
    have "\<exists>s'. print_at (color ''[34m%s/'' @ [0x0A] @ color ''[37m'') ?a (s\<lparr>umem := m\<rparr>) = Some s' \<and> prints (dir_line e) (s\<lparr>umem := m\<rparr>) s' \<and> umem s' = umem (s\<lparr>umem := m\<rparr>)"
      by (rule print_at_ok [where b = "map lower ?name"]) (use ok t(2) False room nz' in \<open>simp_all add: dir_line_def color_def literal_def Let_def\<close>)
    then show ?thesis using t(1) flag False out by (intro exI [of _ m]) auto
  qed
qed

subsection \<open>The loop\<close>

text \<open>The system lists the entries \<open>es\<close> for a path, in the format of the kernel, and then reports the end.\<close>

definition lists :: "ls_env \<Rightarrow> u8 list \<Rightarrow> filinfo list \<Rightarrow> bool" where
  "lists E path es \<longleftrightarrow> (\<forall>i < length es. ls_dir E path (int i) = (0, kdirent_bytes (es ! i)) \<and> 0 \<notin> set (fname (es ! i)))
     \<and> ls_dir E path (int (length es)) = (-2, []) \<and> length es < 2 ^ 31"

lemma ls_loop_ok:
  assumes "lists E path es" and "n \<le> length es" and "stdio_ok s" and "str_at (umem s) a path"
    and "0 < unat (entry_at E)" and "unat (entry_at E) + 144 < 2 ^ 64" and "apart (entry_at E) 144 a (length path + 1)"
    and "length (concat (map dir_line (drop n es))) \<le> room s"
  shows "\<exists>s'. ls_loop E a (int n) s = Some s' \<and> prints (concat (map dir_line (drop n es))) s s'"
  using assms(2-4,8)
proof (induction "length es - n" arbitrary: n s)
  case 0
  then have "n = length es" by simp
  then show ?case using assms(1) load_cstr_at [OF 0(4)] 0(3)
    by (subst ls_loop.simps) (simp add: lists_def prints_def)
next
  case (Suc k)
  let ?e = "es ! n"
  have n: "n < length es" using Suc(2) by simp
  then have e: "ls_dir E path (int n) = (0, kdirent_bytes ?e)" "0 \<notin> set (fname ?e)" "int n \<noteq> 2 ^ 31 - 1"
    using assms(1) by (auto simp: lists_def)
  have dr: "drop n es = ?e # drop (Suc n) es" using n by (simp add: Cons_nth_drop_Suc)
  let ?s = "s\<lparr>umem := paste (entry_at E) (kdirent_bytes ?e) (umem s)\<rparr>"
  have "stdio_ok ?s" "length (dir_line ?e) \<le> room ?s" using Suc.prems(2,4) by (simp_all add: dr)
  then obtain m s1 where s1: "str_tolower (entry_at E) (umem ?s) = Some m"
    "(if m (entry_at E + 136) \<noteq> 0 then print_at (color ''[34m%s/'' @ [0x0A] @ color ''[37m'') (entry_at E) (?s\<lparr>umem := m\<rparr>)
         else print_at (literal ''%s'' @ [0x0A]) (entry_at E) (?s\<lparr>umem := m\<rparr>)) = Some s1"
    "prints (dir_line ?e) ?s s1" "umem s1 = m" "outside (umem s) m (entry_at E) 144"
    using entry_ok [of ?s E ?e "umem s"] assms(5,6) e(2) by auto
  have "str_at (umem s1) a path" unfolding s1(4) by (rule str_at_outside [OF Suc.prems(3) s1(5) assms(7)])
  moreover have "k = length es - Suc n" using Suc(2) by simp
  ultimately have "\<exists>s'. ls_loop E a (int (Suc n)) s1 = Some s' \<and> prints (concat (map dir_line (drop (Suc n) es))) s1 s'"
    using Suc.prems(4) s1(3) n by (intro Suc(1)) (simp_all add: dr prints_def)
  then obtain s2 where "ls_loop E a (int n + 1) s1 = Some s2" "prints (concat (map dir_line (drop (Suc n) es))) s1 s2"
    by (auto simp: add.commute)
  moreover have "prints (dir_line ?e) s s1" using s1(3) by simp
  ultimately show ?case
    using e(1,3) s1(1,2) load_cstr_at [OF Suc.prems(3)] prints_trans
    by (subst ls_loop.simps) (fastforce simp: dr Let_def)
qed

subsection \<open>The path\<close>

definition ls_target :: "u8 list list \<Rightarrow> u8 list" where
  "ls_target ws = (if length ws > 2 then joined (ws ! 0) (ws ! 2) else ws ! 0)"

text \<open>The argument strings, the literal, the buffer and the entry lie apart.\<close>

definition ls_ready :: "ls_env \<Rightarrow> bytes \<Rightarrow> u64 list \<Rightarrow> u8 list list \<Rightarrow> bool" where
  "ls_ready E m argv ws \<longleftrightarrow> ws \<noteq> []
     \<and> list_all2 (\<lambda>a w. str_at m a w \<and> apart (path_buffer E) 256 a (length w + 1) \<and> apart (entry_at E) 144 a (length w + 1)) argv ws
     \<and> str_at m (slash_at E) [slash] \<and> apart (path_buffer E) 256 (slash_at E) 2
     \<and> 0 < unat (path_buffer E) \<and> unat (path_buffer E) + 256 < 2 ^ 64
     \<and> 0 < unat (entry_at E) \<and> unat (entry_at E) + 144 < 2 ^ 64 \<and> apart (entry_at E) 144 (path_buffer E) 256
     \<and> length (ls_target ws) < 256"

lemma ls_path_ok:
  assumes r: "ls_ready E m argv ws"
  shows "\<exists>a m'. ls_path E (int (length argv)) argv m = Some (a, m') \<and> str_at m' a (ls_target ws)
     \<and> apart (entry_at E) 144 a (length (ls_target ws) + 1)"
proof -
  have len: "length argv = length ws" using r by (auto simp: ls_ready_def dest: list_all2_lengthD)
  have arg: "str_at m (argv ! i) (ws ! i)" "apart (path_buffer E) 256 (argv ! i) (length (ws ! i) + 1)"
    "apart (entry_at E) 144 (argv ! i) (length (ws ! i) + 1)" if "i < length ws" for i
    using r that len by (auto simp: ls_ready_def list_all2_conv_all_nth)
  have ne: "0 < length ws" using r by (simp add: ls_ready_def)
  show ?thesis
  proof (cases "length ws > 2")
    case False
    have "ls_path E (int (length argv)) argv m = Some (argv ! 0, m)" using False ne len by (cases ws) (simp_all add: ls_path_def)
    then show ?thesis using arg [OF ne] False by (simp add: ls_target_def)
  next
    case True
    have at2: "m (argv ! 2) = (ws ! 2 @ [0]) ! 0" using str_atD(5) [OF arg(1) [OF True], of 0] by simp
    show ?thesis
    proof (cases "m (argv ! 2) = 0x2F")
      case slashed: True
      then have "joined (ws ! 0) (ws ! 2) = ws ! 2" using at2 by (cases "ws ! 2") (simp_all add: joined_def slash_def)
      then show ?thesis using slashed True len arg [OF True] by (simp add: ls_path_def ls_target_def)
    next
      case False
      let ?E = "shell_env_example\<lparr>lit := \<lambda>_. slash_at E, temp_at := path_buffer E\<rparr>"
      have same: "ls_path E (int (length argv)) argv m = map_option (Pair (path_buffer E)) (full_path ?E (argv ! 0) (argv ! 2) m)"
        using False True len by (auto simp: ls_path_def full_path_def Let_def option.map_comp split: Option.bind_splits)
      have "\<exists>m'. full_path ?E (argv ! 0) (argv ! 2) m = Some m' \<and> str_at m' (temp_at ?E) (joined (ws ! 0) (ws ! 2))
          \<and> outside m m' (temp_at ?E) 256"
        by (rule full_path_ok) (use r arg [OF ne] arg [OF True] True in \<open>simp_all add: ls_ready_def ls_target_def\<close>)
      then show ?thesis using r True unfolding same by (auto simp: ls_ready_def ls_target_def apart_def)
    qed
  qed
qed

subsection \<open>idpfetch\<close>

definition idpfetch_text :: "u8 list" where
  "idpfetch_text = [0x0A, 0x0A] @ (color '']69;/images/idplogo.img'' @ [0x07])
     @ (replicate 7 0x0A @ color ''[34mKernel'' @ color ''[36m: '' @ color ''[37mopenidp-dev'' @ [0x0A])
     @ (color ''[34mFramebuffer'' @ color ''[36m: '' @ color ''[37m1920x1080 32bpp'' @ [0x0A])"

lemma expand_self: "0x25 \<notin> set xs \<Longrightarrow> expand xs [] = Some xs"
  using expand_plain [of xs "[]" "[]"] by simp

lemma idpfetch_delivers:
  assumes init: "recvs s = Some msg # rest" "mtype msg = MSG_HANDSHAKE" "data1 msg \<noteq> 0" "t = sint (ucast (data1 msg) :: u32)" "t \<noteq> -1"
    and buf: "length (out_buf s) = 25" "buf_idx s = 0" and room: "200 \<le> room s"
  shows "\<exists>s'. idpfetch_start stack s = Some s' \<and> pending s' = []
     \<and> concat (batch_texts t (sends s')) = concat (batch_texts t (sends s)) @ idpfetch_text"
proof -
  let ?t = "s\<lparr>recvs := rest, terminal_pid := t\<rparr>"
  have st: "stdio_init stack s = Some ?t" using stdio_init_handshake [OF init(1-3)] init(4) by simp
  have ok: "stdio_ok ?t" "room ?t = room s" "printed ?t = concat (batch_texts t (sends s))"
    using buf init(5) by (simp_all add: stdio_ok_def pending_def room_def printed_def)
  have np: "0x25 \<notin> set idpfetch_text" "0 \<notin> set idpfetch_text" by (simp_all add: idpfetch_text_def color_def literal_def)
  have split: "idpfetch_text = butlast idpfetch_text @ [0x0A]"
    by (subst append_butlast_last_id [symmetric]) (simp_all add: idpfetch_text_def)
  have "length idpfetch_text < 200" by (simp add: idpfetch_text_def color_def)
  then have "length (butlast idpfetch_text) < room ?t" using room ok(2) by simp
  moreover have "expand idpfetch_text [] = Some (butlast idpfetch_text @ [0x0A])" using expand_self [OF np(1)] split by simp
  moreover have "0 \<notin> set (butlast idpfetch_text)" using np(2) by (auto dest: in_set_butlastD)
  ultimately obtain s' where s': "printf_u idpfetch_text [] ?t = Some s'" "prints (butlast idpfetch_text @ [0x0A]) ?t s'" "pending s' = []"
    using printf_line_ok [OF ok(1)] by blast
  have plain: "printf_u xs [] = foldM putchar xs" if "0x25 \<notin> set xs" for xs
    using printf_expand [OF expand_self [OF that]] by auto
  have split_run: "foldM putchar (xs @ ys) = (\<lambda>s. foldM putchar xs s \<bind> foldM putchar ys)" for xs ys
    by (simp add: fun_eq_iff foldM_append)
  have "idpfetch_start stack s = foldM putchar idpfetch_text ?t"
    unfolding idpfetch_start_def st idpfetch_text_def foldM_append
    by (subst plain, simp add: color_def literal_def)+ (simp add: split_run)
  then have "idpfetch_start stack s = Some s'" using s'(1) by (simp add: plain [OF np(1)])
  moreover have "concat (batch_texts t (sends s')) = concat (batch_texts t (sends s)) @ idpfetch_text"
  proof -
    have "prints idpfetch_text ?t s'" using s'(2) by (simp only: split [symmetric])
    with s'(3) ok(3) show ?thesis by (auto simp: prints_def printed_def)
  qed
  ultimately show ?thesis using s'(3) by blast
qed

subsection \<open>Properties\<close>

lemma header_text: "expand ([0x0A] @ color ''[36m--- %s ---'' @ color ''[37m'' @ [0x0A]) [path] = Some (ls_header path)"
  by (simp add: ls_header_def color_def literal_def)

lemma footer_text: "expand (color ''[36m--- press enter ---'' @ color ''[37m'' @ [0x0A]) []
    = Some ((color ''[36m--- press enter ---'' @ color ''[37m'') @ [0x0A])"
  by (simp add: color_def literal_def)

lemma header_nonzero: "0 \<notin> set path \<Longrightarrow> 0 \<notin> set (ls_header path)"
  by (simp add: ls_header_def color_def literal_def)

text \<open>
  C29. \<^verbatim>\<open>ls\<close> terminates on every directory, whatever its size, and everything it prints has reached the terminal when it exits: the
  header with the path it was asked for, one line per entry in the order of the kernel with the name in lower case and
  directories marked, and the footer.
\<close>

theorem ls_ok:
  assumes init: "recvs s = Some msg # rest" "mtype msg = MSG_HANDSHAKE" "data1 msg \<noteq> 0" "t = sint (ucast (data1 msg) :: u32)" "t \<noteq> -1"
    and buf: "length (out_buf s) = 25" "buf_idx s = 0" and ready: "ls_ready E (umem s) argv ws" and dir: "lists E (ls_target ws) es"
    and room: "length (ls_header (ls_target ws) @ concat (map dir_line es) @ ls_footer) \<le> room s"
  shows "\<exists>s'. ls_start stack E (int (length argv)) argv s = Some s' \<and> pending s' = []
     \<and> concat (batch_texts t (sends s')) = concat (batch_texts t (sends s)) @ ls_header (ls_target ws) @ concat (map dir_line es) @ ls_footer"
proof -
  let ?p = "ls_target ws"
  obtain a m where p: "ls_path E (int (length argv)) argv (umem s) = Some (a, m)" "str_at m a ?p" "apart (entry_at E) 144 a (length ?p + 1)"
    using ls_path_ok [OF ready] by blast
  let ?t = "s\<lparr>recvs := rest, terminal_pid := t\<rparr>"
  let ?s0 = "?t\<lparr>umem := m\<rparr>"
  have st: "stdio_init stack s = Some ?t" using stdio_init_handshake [OF init(1-3)] init(4) by simp
  have s0: "stdio_ok ?s0" "room ?s0 = room s" "printed ?s0 = concat (batch_texts t (sends s))"
    using buf init(5) by (simp_all add: stdio_ok_def pending_def room_def printed_def)
  have nz: "0 \<notin> set ?p" by (rule str_at_nonzero [OF p(2)])
  obtain s1 where s1: "print_at ([0x0A] @ color ''[36m--- %s ---'' @ color ''[37m'' @ [0x0A]) a ?s0 = Some s1"
    "prints (ls_header ?p) ?s0 s1" "umem s1 = umem ?s0"
    using print_at_ok [OF s0(1) _ header_text header_nonzero [OF nz], of a] p(2) room s0(2) by auto
  have "\<exists>s2. ls_loop E a (int 0) s1 = Some s2 \<and> prints (concat (map dir_line (drop 0 es))) s1 s2"
    by (rule ls_loop_ok [OF dir]) (use s1 s0 p room ready in \<open>auto simp: prints_def ls_ready_def\<close>)
  then obtain s2 where s2: "ls_loop E a 0 s1 = Some s2" "prints (concat (map dir_line es)) s1 s2" by auto
  have "\<exists>s3. printf_u (color ''[36m--- press enter ---'' @ color ''[37m'' @ [0x0A]) [] s2 = Some s3
      \<and> prints ((color ''[36m--- press enter ---'' @ color ''[37m'') @ [0x0A]) s2 s3 \<and> pending s3 = []"
    by (rule printf_line_ok [OF _ footer_text])
       (use s1(2) s2(2) s0(2) room in \<open>auto simp: prints_def ls_footer_def color_def literal_def\<close>)
  then obtain s3 where s3: "printf_u (color ''[36m--- press enter ---'' @ color ''[37m'' @ [0x0A]) [] s2 = Some s3"
    "prints ls_footer s2 s3" "pending s3 = []" by (auto simp: ls_footer_def)
  have "prints (ls_header ?p @ concat (map dir_line es) @ ls_footer) ?s0 s3"
    using prints_trans [OF prints_trans [OF s1(2) s2(2)] s3(2)] by simp
  then have "concat (batch_texts t (sends s3)) = concat (batch_texts t (sends s)) @ ls_header ?p @ concat (map dir_line es) @ ls_footer"
    using s0(3) s3(3) by (auto simp: prints_def printed_def)
  moreover have "ls_start stack E (int (length argv)) argv s = Some s3"
    using st p(1) s1(1) s2(1) s3(1) by (simp add: ls_start_def)
  ultimately show ?thesis using s3(3) by blast
qed

text \<open>The directory \<^verbatim>\<open>/\<close> with one directory \<^verbatim>\<open>B\<close> in it, listed by \<^verbatim>\<open>ls\<close> without an argument.\<close>

definition entry_example :: filinfo where
  "entry_example = \<lparr>fsize = 0, fattrib = 0x10, fname = [0x42]\<rparr>"

definition ls_env_example :: ls_env where
  "ls_env_example = \<lparr>path_buffer = 0x20000, entry_at = 0x30000, slash_at = 0x500,
     ls_dir = (\<lambda>path i. if i = 0 then (0, kdirent_bytes entry_example) else (-2, []))\<rparr>"

definition ls_example :: util where
  "ls_example = \<lparr>terminal_pid = -1, out_buf = replicate 25 0, buf_idx = 0,
     recvs = [Some \<lparr>sender_pid = 3, mtype = 0x111, data1 = 7, data2 = 0, data3 = 0\<rparr>], acks = replicate 200 0, sends = [],
     umem = (\<lambda>_. 0)(0x500 := 0x2F, 0x1000 := 0x2F, 0x1010 := 0x6C, 0x1011 := 0x73)\<rparr>"

theorem ls_ok_witness:
  "\<exists>s'. ls_start \<lparr>sender_pid = 0, mtype = 0, data1 = 0, data2 = 0, data3 = 0\<rparr> ls_env_example 2 [0x1000, 0x1010] ls_example = Some s'
     \<and> concat (batch_texts 7 (sends s')) = ls_header [0x2F] @ (color ''[34m'' @ [0x62, 0x2F, 0x0A] @ color ''[37m'') @ ls_footer"
proof -
  let ?msg = "\<lparr>sender_pid = 3, mtype = 0x111, data1 = 7, data2 = 0, data3 = 0\<rparr> :: message"
  let ?ws = "[[0x2F], [0x6C, 0x73]] :: u8 list list"
  have r: "recvs ls_example = Some ?msg # []" by (simp add: ls_example_def)
  have t: "ls_target ?ws = [0x2F]" by (simp add: ls_target_def)
  have ready: "ls_ready ls_env_example (umem ls_example) [0x1000, 0x1010] ?ws"
    by (simp add: ls_ready_def t ls_env_example_def ls_example_def str_at_def apart_def slash_def)
  have dir: "lists ls_env_example (ls_target ?ws) [entry_example]"
    by (simp add: lists_def ls_env_example_def entry_example_def)
  have line: "dir_line entry_example = color ''[34m'' @ [0x62, 0x2F, 0x0A] @ color ''[37m''"
    by (simp add: dir_line_def entry_example_def is_dir_flag_def AM_DIR_def lower_def)
  have rc: "count_list (replicate n 0) (0 :: int) = n" for n by (induction n) simp_all
  have room: "room ls_example = 200" by (simp add: room_def ls_example_def rc del: replicate.simps)
  have size: "length (ls_header (ls_target ?ws) @ concat (map dir_line [entry_example]) @ ls_footer) \<le> room ls_example"
    by (simp add: room t line ls_header_def ls_footer_def color_def)
  have buf: "length (out_buf ls_example) = 25" "buf_idx ls_example = 0" "sends ls_example = []"
    by (simp_all add: ls_example_def del: replicate.simps)
  have none: "concat (batch_texts 7 (sends ls_example)) = []" by (simp add: buf(3) batch_texts_def)
  have msg: "mtype ?msg = MSG_HANDSHAKE" "data1 ?msg \<noteq> 0" "7 = sint (ucast (data1 ?msg) :: u32)" "(7 :: int) \<noteq> -1"
    by (simp_all add: MSG_HANDSHAKE_def)
  have "int (length [0x1000, 0x1010 :: u64]) = 2" by simp
  with ls_ok [OF r msg buf(1,2) ready dir size, of "\<lparr>sender_pid = 0, mtype = 0, data1 = 0, data2 = 0, data3 = 0\<rparr>"]
  show ?thesis by (auto simp: t line none)
qed

end
