(* ===== verification/Spec2Isabelle.thy ===== *)
theory Spec2Isabelle
  imports Prelude Pmm Vmm PageMap HeapBlocks KString Kheap RingQueue Keyboard Task UserMem FileIface Elf Process Serial Syscall Interrupts Disk Boot Gfx Term Wm WmTree WmLayout WmSafe UserCalls Uheap UString Stdio TermMain Shell ShellLine Coreutils
begin

text \<open>
  OpenIDP-OS is a small 64-bit operating system in C: a kernel with its own memory management, scheduler, message
  queues, drivers and system calls (\<^verbatim>\<open>src/src\<close>, headers in \<^verbatim>\<open>src/include\<close>), and user programs: a tiling
  window manager, a terminal, a shell and two small tools over a C library of their own (\<^verbatim>\<open>src/userspace\<close>).
  This development models them function by function and proves
  what makes them correct.

  \<^bold>\<open>How the parts interact.\<close> \<^verbatim>\<open>kmain\<close> builds the physical memory manager from the boot loader's map, the kernel's
  page table and heap, the descriptor tables and the scheduler, and starts the window manager as the first user process
  through the ELF loader. Every system call goes through one dispatcher; the memory calls change the page table of the
  running task, the message calls the queues inside the task records, which the kernel heap allocates from pages that the
  physical memory manager hands out. The window manager shares a buffer with every client (\<^verbatim>\<open>sys_share_mem\<close>) and
  exchanges messages with it. A program prints by messages to the terminal, which draws into its shared buffer; keys go the
  other way, from the window manager through the terminal to the shell.

  \<^bold>\<open>Theories and sources.\<close>
  \<^item> \<^verbatim>\<open>Prelude\<close>: C integer types as words, page arithmetic, shared lemmas.
  \<^item> \<^verbatim>\<open>Pmm\<close>: \<^verbatim>\<open>memory/pmm.c\<close>, a bitmap with a next-fit search; the state is a record with the bitmap as a byte function.
  \<^item> \<^verbatim>\<open>Vmm\<close>, \<^verbatim>\<open>PageMap\<close>: \<^verbatim>\<open>memory/vmm.c\<close>, four-level page tables in a memory of 64-bit cells, and the lemmas that the
    users of the page tables share (private frames, bytes of a mapped page).
  \<^item> \<^verbatim>\<open>HeapBlocks\<close>, \<^verbatim>\<open>Kheap\<close>: the block list that both heaps of the system keep, and \<^verbatim>\<open>memory/kheap.c\<close>.
  \<^item> \<^verbatim>\<open>KString\<close>: \<^verbatim>\<open>utility/kstring.c\<close> on a byte memory.
  \<^item> \<^verbatim>\<open>RingQueue\<close>, \<^verbatim>\<open>Keyboard\<close>: the interface of a bounded queue, and \<^verbatim>\<open>drivers/keyboard.c\<close>.
  \<^item> \<^verbatim>\<open>Task\<close>: \<^verbatim>\<open>process/task.c\<close> (scheduler, exit) and \<^verbatim>\<open>syscall/sys_process.c\<close> (messages); \<^verbatim>\<open>Process\<close>: the
    creation of processes and the argument block.
  \<^item> \<^verbatim>\<open>UserMem\<close>: \<^verbatim>\<open>syscall/sys_memory.c\<close>; \<^verbatim>\<open>FileIface\<close>, \<^verbatim>\<open>Elf\<close>: the file interface and \<^verbatim>\<open>elf/kelf.c\<close>.
  \<^item> \<^verbatim>\<open>Serial\<close>: \<^verbatim>\<open>drivers/com1.c\<close>, \<^verbatim>\<open>pit.c\<close>, \<^verbatim>\<open>utility/io.c\<close>, \<^verbatim>\<open>pic.c\<close>; \<^verbatim>\<open>Syscall\<close>: the dispatcher, the file and
    framebuffer calls; \<^verbatim>\<open>Interrupts\<close>: \<^verbatim>\<open>descriptors/\<close> and \<^verbatim>\<open>faults/\<close>; \<^verbatim>\<open>Disk\<close>: \<^verbatim>\<open>ata.c\<close>, \<^verbatim>\<open>diskio.c\<close>; \<^verbatim>\<open>Boot\<close>: \<^verbatim>\<open>main.c\<close>.
  \<^item> \<^verbatim>\<open>Gfx\<close>: \<^verbatim>\<open>libgfx\<close>; \<^verbatim>\<open>Term\<close>: \<^verbatim>\<open>terminal/term.c\<close>.
  \<^item> \<^verbatim>\<open>Wm\<close>, \<^verbatim>\<open>WmTree\<close>, \<^verbatim>\<open>WmLayout\<close>, \<^verbatim>\<open>WmSafe\<close>: \<^verbatim>\<open>idpwm.c\<close>: the program, its tree of windows, layout and focus, and
    the invariant of its main loop.
  \<^item> \<^verbatim>\<open>UserCalls\<close>: the stubs of \<^verbatim>\<open>openidp.h\<close> down into the dispatcher; \<^verbatim>\<open>Uheap\<close>: \<^verbatim>\<open>libc/heap.c\<close>; \<^verbatim>\<open>UString\<close>: \<^verbatim>\<open>libc/string.h\<close>;
    \<^verbatim>\<open>Stdio\<close>: \<^verbatim>\<open>libc/stdio.c\<close> with its batches of 24 bytes.
  \<^item> \<^verbatim>\<open>TermMain\<close>: \<^verbatim>\<open>terminal/main.c\<close>, the event loop of the terminal, and the way of a printed text to its cells; \<^verbatim>\<open>Shell\<close>,
    \<^verbatim>\<open>ShellLine\<close>: \<^verbatim>\<open>shell/shell.c\<close>, paths and commands, then the line editor and \<^verbatim>\<open>cd\<close>; \<^verbatim>\<open>Coreutils\<close>: \<^verbatim>\<open>coreutils/ls.c\<close>
    and \<^verbatim>\<open>idpfetch/idpfetch.c\<close>.

  \<^bold>\<open>Conventions.\<close> A function that may not return, or whose next step is undefined in C (an access
  outside a buffer, a null pointer, a signed overflow where it matters), is a function into an option type;
  \<open>None\<close> is that outcome, so that every theorem that shows a result \<open>Some\<close> shows that the
  code returns and stays in bounds. Loops without an evident bound are partial functions or recursions whose
  termination is proved where they are used; no fuel is used. Errors are the return values of the source. A C
  \<^verbatim>\<open>int\<close> of the user programs is an integer, and the sums and products of the drawing code, the terminal and the
  window manager go through \<open>int32\<close>: outside the range of an \<^verbatim>\<open>int\<close> there is no result. The properties then say exactly
  when that happens (\<open>gfx_rect_ok\<close>, \<open>numbers_fit\<close> in \<open>term_write_ok\<close>) or show that it does not. A write behind a local array of
  the kernel (\<open>setup_args\<close>: \<^verbatim>\<open>user_argv_addrs[32]\<close>) has no result either. Hardware, the boot loader, the FAT file system and, for user programs, the kernel are parameters: port
  functions, a record of file operations, answers to system calls, as lists that the calls of
  \<^verbatim>\<open>stdio\<close> consume. The C library and the shell work on one flat byte memory, in which a
  write behind a buffer changes what lies there; their theorems bound what is written. Hypotheses about them are
  named (\<open>ata_ok\<close>, \<open>reads_file\<close>, \<open>uart_ok\<close>, \<open>lists\<close>) and have
  instances in the witnesses. The drive of \<open>Disk\<close> is \<open>ata_ok\<close>: it takes a command only when it is idle, for the selected device,
  in LBA mode and for as many sectors as the sector count says, and reports an error for sectors that it does not have or cannot
  read. Where the driver relies on more than the standard says, that is a hypothesis of its own: \<open>ata_quiet\<close> (\<^verbatim>\<open>DRQ\<close> and
  \<^verbatim>\<open>ERR\<close> read as 0 while the drive is busy) and \<open>ata_prompt\<close> (it is not busy after the last word of a sector, when the driver
  sends the flush); \<open>ata_apart\<close> says that the serial port is another device, \<open>no_bad\<close> that the run has no bad sector.

  \<^bold>\<open>What the lemmas show.\<close> The memory theories show that the allocators return what was free and
  nothing else, which pages \<^verbatim>\<open>pmm_init\<close> leaves free and what it writes behind its bitmap, that a mapping changes one translation of one address space, and that the heap keeps its blocks
  apart. The task theories show the ring of tasks under all operations and that the queues are first-in first-out;
  \<open>Process\<close> ends with the runs of the scheduler (\<open>task_run\<close>), in which a task that is lost is never released;
  both ring buffers of the system are instances of the locale \<open>bounded_queue\<close>, and the supplier of heap
  pages is an instance of \<open>page_supply\<close>, and the system call \<^verbatim>\<open>sbrk\<close> provides
  the interface \<open>user_break\<close> of the user heap. The system call theories lift these results to the bytes
  that a process sees. The drawing and terminal theories show which pixels change and that no input leaves a buffer.
  \<open>Uheap\<close> composes the user heap with the memory calls of the kernel, down to a shared buffer that \<^verbatim>\<open>malloc\<close> hands out.
  The theories of the C library and the shell show that a printed text arrives whole, that words and paths are split
  as their list specifications say, and what a typed line, \<^verbatim>\<open>cd\<close> and
  \<^verbatim>\<open>ls\<close> do. This theory ends with the way of a key from the keyboard controller to the shell.
  The window manager refines a binary tree of windows; its layout tiles the screen, and its main loop keeps the
  invariant as long as the coordinates that clients report stay below \<open>2\<^sup>2\<^sup>9\<close>.

  \<^bold>\<open>Not modelled.\<close> FatFs (\<^verbatim>\<open>ff.c\<close>, third-party) and the Limine header are
  represented by their interfaces, the glyphs of the font header by a parameter. The assembler stubs, the inline
  assembly around \<^verbatim>\<open>int $0x80\<close>, final halt loops and log lines on the serial port are left
  out where they have no effect on the state. Interrupts are taken between the operations that the model gives.
\<close>

subsection \<open>From the keyboard to the shell\<close>

text \<open>A key event as it lies in a message queue: sent by \<open>p\<close>, with the packet of the keyboard driver.\<close>

definition key_event :: "u32 \<Rightarrow> u16 \<Rightarrow> message" where
  "key_event p packet = \<lparr>sender_pid = p, mtype = KEY_EVENT, data1 = ucast packet, data2 = 0, data3 = 0\<rparr>"

lemma sys_read_key_u_kernel: "sys_read_key_u M (k, d) = Some (ucast (fst (sys_read_key k)), snd (sys_read_key k), d)"
  by (cases "sys_read_key k") (simp add: sys_read_key_u_def UserCalls.call_def int80_def syscall_dispatcher_def Let_def)

lemma kb_wf_handler: "kb_wf s \<Longrightarrow> kb_wf (keyboard_handler port_in s)"
  by (simp add: keyboard_handler_def handle_scancode_def keyboard_buffer_write_def kb_wf_def next_256_less Let_def)

lemma read_pressed_key:
  assumes "kb_wf (kbd k)" and "kb_items (kbd k) = [p]" and "msg_count (tasks k (current_task k)) \<le> 0"
  shows "\<exists>k'. sys_read_key_u M (k, d) = Some (p, k', d) \<and> kb_items (kbd k') = []"
proof -
  have "kb_head (kbd k) \<noteq> kb_tail (kbd k)" using assms(1,2) by (auto simp: kb_items_Nil [symmetric])
  from kb_deq_take [OF assms(1) this] assms(2)
  have "fst (keyboard_read_key (kbd k)) = p" "kb_items (snd (keyboard_read_key (kbd k))) = []" by simp_all
  moreover have "(ucast (ucast p :: u64) :: u16) = p" by (rule bit_word_eqI) (auto simp: bit_simps)
  ultimately show ?thesis using assms(3)
    by (cases "keyboard_read_key (kbd k)") (simp add: sys_read_key_u_kernel sys_read_key_def Let_def)
qed

lemma wm_forwards_key:
  assumes "\<not> bit p 10" and "focused_window w = Some (Some i)" and "alive (windows w ! i)"
  shows "wm_handle_input os p w = Some (sys_ipc_send_wm (win_pid (windows w ! i)) MSG_KEY_EVENT (ucast p) 0 0 w)"
proof -
  have "p AND 0x0400 = 0" using and_exp_eq_0_iff_not_bit [of p 10] assms(1) by simp
  then show ?thesis using assms(2,3) by (simp add: wm_handle_input_def Let_def)
qed

lemma terminal_forwards_key:
  assumes "up tm" and "0 < shell_pid tm"
  shows "handle_msg os (key_event q p) tm = Some (tcall (TSend (shell_pid tm) (uint KEY_EVENT) (ucast p) 0 0) tm)"
  using assms by (simp add: handle_msg_def key_event_def up_def KEY_EVENT_def QUIT_REQUEST_def WINDOW_CREATED_def WINDOW_RESIZE_def)

text \<open>
  C14. A key press travels from the keyboard controller to the shell: the interrupt handler queues a packet, the window
  manager reads it through its system call stub and sends it to the focused window, the terminal behind that window passes it
  on to its shell, and there \<^verbatim>\<open>getchar\<close> returns the character that the scan code table has for the key and the state of the
  shift key. Alt is the key of the window manager and is excluded.
\<close>

theorem key_reaches_shell:
  assumes kb: "kb_wf (kbd k)" "kb_items (kbd k) = []" "port_in KEYBOARD_STATUS_PORT AND 1 \<noteq> 0" "port_in KEYBOARD_DATA_PORT = sc" "sc < 128"
      "\<not> modifier_code sc" "\<not> e0_prefix (kbd k)" "scancode_map ! unat sc \<noteq> 0" "\<not> mod_alt (kbd k)"
    and idle: "msg_count (tasks k (current_task k)) \<le> 0"
    and wm: "focused_window w = Some (Some i)" "alive (windows w ! i)"
    and tm_up: "up tm" "0 < shell_pid tm"
    and sh: "stdio_ok sh" "0 < room sh" "sint q = terminal_pid sh" "mtype stack \<noteq> QUIT_REQUEST"
  shows "\<exists>p k' w' tm' sh'. sys_read_key_u M (k\<lparr>kbd := keyboard_handler port_in (kbd k)\<rparr>, d) = Some (p, k', d)
     \<and> wm_handle_input os p w = Some w' \<and> calls w' = calls w @ [IpcSend (win_pid (windows w ! i)) MSG_KEY_EVENT (ucast p) 0 0]
     \<and> handle_msg tos (key_event r p) tm = Some tm' \<and> tcalls tm' = tcalls tm @ [TSend (shell_pid tm) MSG_KEY_EVENT (ucast p) 0 0]
     \<and> getchar stack (sh\<lparr>recvs := Some (key_event q p) # rest\<rparr>)
         = Some ((if mod_shift (kbd k) then scancode_map_shifted else scancode_map) ! unat sc, sh')"
proof -
  let ?k = "k\<lparr>kbd := keyboard_handler port_in (kbd k)\<rparr>" and ?c = "(if mod_shift (kbd k) then scancode_map_shifted else scancode_map) ! unat sc"
  obtain p where p: "kb_items (keyboard_handler port_in (kbd k)) = [p]" "ucast p = ?c" "\<not> bit p 10"
    using keyboard_handler_press [OF kb(1,3,4,5,6,7,8)] kb(2,9) by auto
  have wf: "kb_wf (kbd ?k)" using kb_wf_handler [OF kb(1)] by simp
  obtain k' where k': "sys_read_key_u M (?k, d) = Some (p, k', d)"
    using read_pressed_key [OF wf, of p M d] p(1) idle by auto
  let ?sh = "sh\<lparr>recvs := Some (key_event q p) # rest\<rparr>"
  have ok: "stdio_ok ?sh" "0 < room ?sh" "terminal_pid ?sh = terminal_pid sh"
    using sh(1,2) by (simp_all add: stdio_ok_def pending_def room_def)
  have "ends_wait ?sh (key_event q p)" using sh(3) by (simp add: ends_wait_def key_event_def)
  then have "\<exists>s'. getchar stack ?sh = Some (if mtype (key_event q p) = KEY_EVENT then ucast (data1 (key_event q p)) else EOF, s')"
    using getchar_delivers [OF ok(1,2), of "[]" "key_event q p" rest stack] sh(4) by auto
  moreover have "(ucast (data1 (key_event q p)) :: u8) = ?c"
    unfolding p(2) [symmetric] by (rule bit_word_eqI) (auto simp: key_event_def bit_simps)
  ultimately obtain sh' where "getchar stack ?sh = Some (?c, sh')" by (auto simp: key_event_def)
  with k' wm_forwards_key [OF p(3) wm, of os] terminal_forwards_key [OF tm_up, of tos r p] show ?thesis
    by (auto simp: sys_ipc_send_wm_def Wm.call_def tcall_def MSG_KEY_EVENT_def KEY_EVENT_def)
qed

theorem key_reaches_shell_witness:
  "\<forall>os t. \<exists>p k' w' tm' sh'. sys_read_key_u machine_example (kernel_example\<lparr>kbd := keyboard_handler (\<lambda>port. if port = KEYBOARD_STATUS_PORT then 1 else 0x1E) keyboard_example\<rparr>,
        ([], False)) = Some (p, k', ([], False))
     \<and> wm_handle_input os p (wm_two\<lparr>windows := (windows wm_two)[0 := (windows wm_two ! 0)\<lparr>alive := True, win_pid := 2\<rparr>]\<rparr>) = Some w'
     \<and> handle_msg term_os_example (key_event 1 p) (main_at t) = Some tm'
     \<and> getchar \<lparr>sender_pid = 0, mtype = 0, data1 = 0, data2 = 0, data3 = 0\<rparr> (stdio_example\<lparr>recvs := [Some (key_event 7 p)]\<rparr>) = Some (0x61, sh')"
  (is "\<forall>os t. ?P os t")
proof (intro allI)
  fix os t
  let ?in = "\<lambda>port. if port = KEYBOARD_STATUS_PORT then 1 else 0x1E :: u8"
  let ?w = "wm_two\<lparr>windows := (windows wm_two)[0 := (windows wm_two ! 0)\<lparr>alive := True, win_pid := 2\<rparr>]\<rparr>"
  have kbd: "kbd kernel_example = keyboard_example" "msg_count (tasks kernel_example (current_task kernel_example)) \<le> 0"
    by (simp_all add: kernel_example_def task_example_def)
  have mods: "\<not> e0_prefix keyboard_example" "\<not> mod_alt keyboard_example" "\<not> mod_shift keyboard_example"
    by (simp_all add: keyboard_example_def)
  have code: "?in KEYBOARD_STATUS_PORT AND 1 \<noteq> 0" "?in KEYBOARD_DATA_PORT = 0x1E" "\<not> modifier_code (0x1E :: u8)" "scancode_map ! unat (0x1E :: u8) = 0x61"
    by (simp_all add: KEYBOARD_STATUS_PORT_def KEYBOARD_DATA_PORT_def modifier_code_def scancode_map_def)
  have win: "focused_window ?w = Some (Some 0)" "alive (windows ?w ! 0)"
    by (simp_all add: focused_window_def node_at_def wm_two_def wm_blank_def zero_node_def)
  have tm: "up (main_at t)" "0 < shell_pid (main_at t)" by (simp_all add: up_def main_at_def)
  have q: "sint (7 :: u32) = terminal_pid stdio_example" by (simp add: stdio_example_def)
  show "?P os t"
    using key_reaches_shell [of kernel_example ?in "0x1E" ?w 0 "main_at t" stdio_example 7 "\<lparr>sender_pid = 0, mtype = 0, data1 = 0, data2 = 0, data3 = 0\<rparr>"
        machine_example "([], False)" os term_os_example 1 "[]"] kbd mods code win tm q stdio_example_ok keyboard_example_wf
    by (simp add: QUIT_REQUEST_def) blast
qed

end
